(* ===== verification/Prelude.thy ===== *)
theory Prelude
  imports Main "HOL-Library.Word"
begin

text \<open>
  What every component shares: the machine integers of the sources, the ways a C
  function can go wrong as values of the datatype \<open>fault\<close>, the result type
  \<open>fault + 'a\<close> with its sequencing \<open>andThen\<close>, and blocks of memory as lists that are
  read and written through an offset with the bounds checked (\<open>load\<close>, \<open>store\<close>,
  \<open>load_block\<close>, \<open>store_block\<close>: a C dereference, \<open>memcpy\<close> and \<open>memmove\<close>).
  Reading or writing outside a block is the value \<open>Inl OutOfBounds\<close>, never an
  unspecified list element.
\<close>

unbundle bit_operations_syntax

named_theorems mem_simps \<open>reading and writing blocks of memory\<close>
named_theorems result_simps \<open>sequencing of results\<close>

section \<open>Machine integers and byte order\<close>

type_synonym u8 = "8 word"
type_synonym u16 = "16 word"
type_synonym u32 = "32 word"
type_synonym u64 = "64 word"

named_theorems mask_numerals \<open>numeral masks as \<open>mask\<close>, for reasoning bit by bit\<close>

lemma mask_FF [mask_numerals]: "(0xFF :: 'a::len word) = mask 8"
  by (simp add: mask_eq_exp_minus_1)

lemma mask_FF00 [mask_numerals]: "(0xFF00 :: 'a::len word) = push_bit 8 (mask 8)"
  by (simp add: mask_eq_exp_minus_1 push_bit_eq_mult)

lemma mask_FF0000 [mask_numerals]: "(0xFF0000 :: 'a::len word) = push_bit 16 (mask 8)"
  by (simp add: mask_eq_exp_minus_1 push_bit_eq_mult)

lemmas small_numerals = numeral_2_eq_2 [symmetric] numeral_3_eq_3 [symmetric]

section \<open>Faults\<close>

text \<open>
  \<open>OutOfBounds\<close>: an access outside its object; \<open>NullDeref\<close>: through a null pointer;
  \<open>UseAfterFree\<close>: through a pointer to a freed object; \<open>Uninitialised\<close>: a read of memory
  nothing has written; \<open>DivByZero\<close>: \<open>%\<close> or \<open>/\<close> by zero; \<open>Deadlock\<close>: a thread waits for a
  lock it holds itself; \<open>Diverges\<close>: a loop that does not end; \<open>Exit n\<close>: the process
  ends with this status.
\<close>

datatype fault = OutOfBounds | NullDeref | UseAfterFree | Uninitialised | DivByZero
  | Deadlock | Diverges | Exit nat

type_synonym 'a result = "fault + 'a"

fun andThen :: "'e + 'a \<Rightarrow> ('a \<Rightarrow> 'e + 'b) \<Rightarrow> 'e + 'b" where
  "andThen (Inl e) f = Inl e"
| "andThen (Inr a) f = f a"

lemma andThen_eq_Inr [result_simps]:
  "andThen m f = Inr b \<longleftrightarrow> (\<exists>a. m = Inr a \<and> f a = Inr b)"
  by (cases m) auto

lemma andThen_eq_Inl [result_simps]:
  "andThen m f = Inl e \<longleftrightarrow> m = Inl e \<or> (\<exists>a. m = Inr a \<and> f a = Inl e)"
  by (cases m) auto

lemma andThen_assoc: "andThen (andThen m f) g = andThen m (\<lambda>x. andThen (f x) g)"
  by (cases m) auto

lemma andThen_if [result_simps]:
  "andThen (if b then m else m') f = (if b then andThen m f else andThen m' f)"
  by simp

section \<open>Blocks of memory\<close>

definition load :: "'a list \<Rightarrow> nat \<Rightarrow> 'a result" where
  "load m p = (if p < length m then Inr (m ! p) else Inl OutOfBounds)"

definition store :: "'a list \<Rightarrow> nat \<Rightarrow> 'a \<Rightarrow> 'a list result" where
  "store m p v = (if p < length m then Inr (m[p := v]) else Inl OutOfBounds)"

definition load_block :: "'a list \<Rightarrow> nat \<Rightarrow> nat \<Rightarrow> 'a list result" where
  "load_block m p n = (if p + n \<le> length m then Inr (take n (drop p m)) else Inl OutOfBounds)"

definition store_block :: "'a list \<Rightarrow> nat \<Rightarrow> 'a list \<Rightarrow> 'a list result" where
  "store_block m p vs =
     (if p + length vs \<le> length m then Inr (take p m @ vs @ drop (p + length vs) m)
      else Inl OutOfBounds)"

lemma load_in [mem_simps]: "p < length m \<Longrightarrow> load m p = Inr (m ! p)"
  by (simp add: load_def)

lemma load_eq_Inr: "load m p = Inr v \<longleftrightarrow> p < length m \<and> v = m ! p"
  by (auto simp: load_def)

lemma store_in [mem_simps]: "p < length m \<Longrightarrow> store m p v = Inr (m[p := v])"
  by (simp add: store_def)

lemma store_eq_Inr: "store m p v = Inr m' \<longleftrightarrow> p < length m \<and> m' = m[p := v]"
  by (auto simp: store_def)

lemma load_block_in [mem_simps]:
  "p + n \<le> length m \<Longrightarrow> load_block m p n = Inr (take n (drop p m))"
  by (simp add: load_block_def)

lemma load_block_eq_Inr:
  "load_block m p n = Inr vs \<longleftrightarrow> p + n \<le> length m \<and> vs = take n (drop p m)"
  by (auto simp: load_block_def)

lemma store_block_in [mem_simps]:
  "p + length vs \<le> length m \<Longrightarrow>
     store_block m p vs = Inr (take p m @ vs @ drop (p + length vs) m)"
  by (simp add: store_block_def)

lemma store_block_eq_Inr:
  "store_block m p vs = Inr m' \<longleftrightarrow>
     p + length vs \<le> length m \<and> m' = take p m @ vs @ drop (p + length vs) m"
  by (auto simp: store_block_def)

text \<open>A block that is a prefix, a middle part and a rest, addressed at the middle part.\<close>

lemma load_middle [mem_simps]: "p = length xs \<Longrightarrow> load (xs @ y # zs) p = Inr y"
  by (simp add: load_def)

lemma store_middle [mem_simps]:
  "p = length xs \<Longrightarrow> store (xs @ y # zs) p v = Inr (xs @ v # zs)"
  by (simp add: store_def)

lemma load_block_middle [mem_simps]:
  "p = length xs \<Longrightarrow> n = length ys \<Longrightarrow> load_block (xs @ ys @ zs) p n = Inr ys"
  by (simp add: load_block_def)

lemma store_block_middle [mem_simps]:
  "p = length xs \<Longrightarrow> length vs = length ys \<Longrightarrow>
     store_block (xs @ ys @ zs) p vs = Inr (xs @ vs @ zs)"
  by (simp add: store_block_def)

lemma split_block:
  assumes "p + n \<le> length m"
  obtains xs ys zs where "m = xs @ ys @ zs" "length xs = p" "length ys = n"
proof
  show "m = take p m @ take n (drop p m) @ drop (p + n) m"
    by (metis add.commute append_take_drop_id drop_drop)
  show "length (take p m) = p" "length (take n (drop p m)) = n"
    using assms by simp_all
qed

section \<open>Unsigned sizes\<close>

text \<open>Subtraction of \<open>size_t\<close> values: it wraps around below zero.\<close>

definition size_sub :: "nat \<Rightarrow> nat \<Rightarrow> nat" where
  "size_sub a b = (a + 2 ^ 64 - b) mod 2 ^ 64"

lemma size_sub_eq:
  assumes "b \<le> a" "a < 2 ^ 64"
  shows "size_sub a b = a - b"
proof -
  have "size_sub a b = ((a - b) + 2 ^ 64) mod 2 ^ 64"
    unfolding size_sub_def using assms(1) by (metis add_diff_assoc2)
  also have "\<dots> = (a - b) mod 2 ^ 64" by (rule mod_add_self2)
  also have "\<dots> = a - b" by (rule mod_less) (use assms in linarith)
  finally show ?thesis .
qed

end
