(* ===== verification/Packet.thy ===== *)
theory Packet
  imports Prelude
begin

text \<open>
  \<open>lib/packet.c\<close>: the serialiser every packet of the system is written and read with.
  A C pointer into a buffer is the pair of the block and an offset; a reader returns the
  value and the advanced offset, a writer the changed block and the advanced offset.

  \<open>htons\<close>, \<open>htonl\<close>, \<open>ntohs\<close> and \<open>ntohl\<close> of the C library depend on the host: they
  reverse the bytes on a little-endian one and are the identity on a big-endian one. The
  readers and writers are defined for either kind of host (suffix \<open>_on\<close>); the rest of the
  development is about little-endian hosts, the unsuffixed names.
\<close>

section \<open>Byte order of the host\<close>

datatype endian = LittleEndian | BigEndian

definition byteswap16 :: "u16 \<Rightarrow> u16" where
  "byteswap16 x = push_bit 8 (x AND 0xFF) OR drop_bit 8 x"

definition byteswap32 :: "u32 \<Rightarrow> u32" where
  "byteswap32 x =
     push_bit 24 (x AND 0xFF) OR push_bit 8 (x AND 0xFF00)
     OR drop_bit 8 (x AND 0xFF0000) OR drop_bit 24 x"

fun htons_on :: "endian \<Rightarrow> u16 \<Rightarrow> u16" where
  "htons_on LittleEndian x = byteswap16 x"
| "htons_on BigEndian x = x"

fun htonl_on :: "endian \<Rightarrow> u32 \<Rightarrow> u32" where
  "htonl_on LittleEndian x = byteswap32 x"
| "htonl_on BigEndian x = x"

text \<open>The library's \<open>ntohs\<close> and \<open>ntohl\<close> are the same functions.\<close>

section \<open>Writers and readers\<close>

definition packet_write_u8 :: "u8 list \<Rightarrow> nat \<Rightarrow> u8 \<Rightarrow> (u8 list \<times> nat) result" where
  "packet_write_u8 buffer p data =
     andThen (store buffer p data) (\<lambda>buffer. Inr (buffer, p + 1))"

definition packet_write_u16_on ::
    "endian \<Rightarrow> u8 list \<Rightarrow> nat \<Rightarrow> u16 \<Rightarrow> (u8 list \<times> nat) result" where
  "packet_write_u16_on host buffer p data0 =
     (let data = htons_on host data0 in
      andThen (store buffer p (ucast (drop_bit 8 data AND 0xFF))) (\<lambda>buffer.
      andThen (store buffer (p + 1) (ucast (data AND 0xFF))) (\<lambda>buffer.
      Inr (buffer, p + 2))))"

definition packet_write_u32_on ::
    "endian \<Rightarrow> u8 list \<Rightarrow> nat \<Rightarrow> u32 \<Rightarrow> (u8 list \<times> nat) result" where
  "packet_write_u32_on host buffer p data0 =
     (let data = htonl_on host data0 in
      andThen (store buffer p (ucast (drop_bit 24 data AND 0xFF))) (\<lambda>buffer.
      andThen (store buffer (p + 1) (ucast (drop_bit 16 data AND 0xFF))) (\<lambda>buffer.
      andThen (store buffer (p + 2) (ucast (drop_bit 8 data AND 0xFF))) (\<lambda>buffer.
      andThen (store buffer (p + 3) (ucast (data AND 0xFF))) (\<lambda>buffer.
      Inr (buffer, p + 4))))))"

definition packet_read_u8 :: "u8 list \<Rightarrow> nat \<Rightarrow> (u8 \<times> nat) result" where
  "packet_read_u8 buffer p = andThen (load buffer p) (\<lambda>data. Inr (data, p + 1))"

definition packet_read_u16_on :: "endian \<Rightarrow> u8 list \<Rightarrow> nat \<Rightarrow> (u16 \<times> nat) result" where
  "packet_read_u16_on host buffer p =
     andThen (load buffer p) (\<lambda>b0.
     andThen (load buffer (p + 1)) (\<lambda>b1.
     Inr (htons_on host (push_bit 8 (ucast b0) OR ucast b1), p + 2)))"

definition packet_read_u32_on :: "endian \<Rightarrow> u8 list \<Rightarrow> nat \<Rightarrow> (u32 \<times> nat) result" where
  "packet_read_u32_on host buffer p =
     andThen (load buffer p) (\<lambda>b0.
     andThen (load buffer (p + 1)) (\<lambda>b1.
     andThen (load buffer (p + 2)) (\<lambda>b2.
     andThen (load buffer (p + 3)) (\<lambda>b3.
     (let data = 0;
          data = data OR push_bit 24 (ucast b0);
          data = data OR push_bit 16 (ucast b1);
          data = data OR push_bit 8 (ucast b2);
          data = data OR ucast b3
      in Inr (htonl_on host data, p + 4))))))"

abbreviation packet_write_u16 where "packet_write_u16 \<equiv> packet_write_u16_on LittleEndian"
abbreviation packet_write_u32 where "packet_write_u32 \<equiv> packet_write_u32_on LittleEndian"
abbreviation packet_read_u16 where "packet_read_u16 \<equiv> packet_read_u16_on LittleEndian"
abbreviation packet_read_u32 where "packet_read_u32 \<equiv> packet_read_u32_on LittleEndian"

section \<open>Buffers of values\<close>

definition packet_write_u8_buffer ::
    "u8 list \<Rightarrow> nat \<Rightarrow> u8 list \<Rightarrow> nat \<Rightarrow> (u8 list \<times> nat) result" where
  "packet_write_u8_buffer buffer p data len =
     andThen (load_block data 0 len) (\<lambda>bs.
     andThen (store_block buffer p bs) (\<lambda>buffer. Inr (buffer, p + len)))"

text \<open>
  The 16-bit buffers are moved value by value: \<open>while( ptr < data + length )\<close> calls the
  writer or the reader of one value and advances \<open>ptr\<close>. \<open>left\<close> counts the rounds left.
\<close>

fun write_loop ::
    "(u8 list \<Rightarrow> nat \<Rightarrow> 'v \<Rightarrow> (u8 list \<times> nat) result) \<Rightarrow>
     nat \<Rightarrow> u8 list \<Rightarrow> nat \<Rightarrow> 'v list \<Rightarrow> nat \<Rightarrow> (u8 list \<times> nat) result" where
  "write_loop write1 0 buffer p data ptr = Inr (buffer, p)"
| "write_loop write1 (Suc left) buffer p data ptr =
     andThen (load data ptr) (\<lambda>v.
     andThen (write1 buffer p v) (\<lambda>(buffer, p).
     write_loop write1 left buffer p data (ptr + 1)))"

fun read_loop ::
    "(u8 list \<Rightarrow> nat \<Rightarrow> ('v \<times> nat) result) \<Rightarrow>
     nat \<Rightarrow> u8 list \<Rightarrow> nat \<Rightarrow> 'v list \<Rightarrow> nat \<Rightarrow> ('v list \<times> nat) result" where
  "read_loop read1 0 buffer p data ptr = Inr (data, p)"
| "read_loop read1 (Suc left) buffer p data ptr =
     andThen (read1 buffer p) (\<lambda>(v, p).
     andThen (store data ptr v) (\<lambda>data.
     read_loop read1 left buffer p data (ptr + 1)))"

definition packet_write_u16_buffer ::
    "u8 list \<Rightarrow> nat \<Rightarrow> u16 list \<Rightarrow> nat \<Rightarrow> (u8 list \<times> nat) result" where
  "packet_write_u16_buffer buffer p data len = write_loop packet_write_u16 len buffer p data 0"

definition packet_read_u16_buffer ::
    "u8 list \<Rightarrow> nat \<Rightarrow> u16 list \<Rightarrow> nat \<Rightarrow> (u16 list \<times> nat) result" where
  "packet_read_u16_buffer buffer p data len = read_loop packet_read_u16 len buffer p data 0"

definition packet_read_u8_buffer ::
    "u8 list \<Rightarrow> nat \<Rightarrow> u8 list \<Rightarrow> nat \<Rightarrow> (u8 list \<times> nat) result" where
  "packet_read_u8_buffer buffer p data len =
     andThen (load_block buffer p len) (\<lambda>bs.
     andThen (store_block data 0 bs) (\<lambda>data. Inr (data, p + len)))"

text \<open>
  \<open>packet_shift\<close>: \<open>out\<close> is the destination block or a null pointer. \<open>buffer_size - len\<close>
  is a \<open>size_t\<close>: with \<open>len > buffer_size\<close> it wraps to almost \<open>2 ^ 64\<close> and the
  \<open>memmove\<close> leaves the buffer.
\<close>

definition packet_shift ::
    "u8 list \<Rightarrow> nat \<Rightarrow> nat \<Rightarrow> u8 list option \<Rightarrow> nat \<Rightarrow> (u8 list \<times> u8 list option \<times> nat) result"
where
  "packet_shift buffer p buffer_size out len =
     andThen (case out of
         None \<Rightarrow> Inr None
       | Some o' \<Rightarrow> andThen (load_block buffer p len) (\<lambda>bs.
                   andThen (store_block o' 0 bs) (\<lambda>o'. Inr (Some o'))))
     (\<lambda>out. if buffer_size < len then Inl OutOfBounds
       else andThen (load_block buffer (p + len) (buffer_size - len)) (\<lambda>bs.
            andThen (store_block buffer p bs) (\<lambda>buffer.
            Inr (buffer, out, p + (buffer_size - len)))))"

section \<open>The bytes a value has on the wire\<close>

definition bytes16_on :: "endian \<Rightarrow> u16 \<Rightarrow> u8 list" where
  "bytes16_on host x =
     (case host of LittleEndian \<Rightarrow> [ucast x, ucast (drop_bit 8 x)]
                 | BigEndian \<Rightarrow> [ucast (drop_bit 8 x), ucast x])"

definition bytes32_on :: "endian \<Rightarrow> u32 \<Rightarrow> u8 list" where
  "bytes32_on host x =
     (case host of
        LittleEndian \<Rightarrow> [ucast x, ucast (drop_bit 8 x), ucast (drop_bit 16 x), ucast (drop_bit 24 x)]
      | BigEndian \<Rightarrow> [ucast (drop_bit 24 x), ucast (drop_bit 16 x), ucast (drop_bit 8 x), ucast x])"

abbreviation bytes16 where "bytes16 \<equiv> bytes16_on LittleEndian"
abbreviation bytes32 where "bytes32 \<equiv> bytes32_on LittleEndian"

lemma length_bytes [simp]: "length (bytes16_on e x) = 2" "length (bytes32_on e y) = 4"
  by (simp_all add: bytes16_on_def bytes32_on_def split: endian.splits)

section \<open>Lemmas: bytes on the wire\<close>

lemma bit_byteswap16:
  "bit (byteswap16 x) n \<longleftrightarrow> n < 16 \<and> bit x (if n < 8 then n + 8 else n - 8)"
  unfolding byteswap16_def mask_numerals
  by (auto simp: bit_simps add.commute dest: bit_imp_le_length)

lemma bit_byteswap32:
  "bit (byteswap32 x) n \<longleftrightarrow> n < 32 \<and>
     bit x (if n < 8 then n + 24 else if n < 16 then n + 8 else if n < 24 then n - 8 else n - 24)"
  unfolding byteswap32_def mask_numerals
  by (cases "n < 8"; cases "n < 16"; cases "n < 24"; cases "n < 32";
      auto simp: bit_simps add.commute dest: bit_imp_le_length)

lemma byteswap16_involution [simp]: "byteswap16 (byteswap16 x) = x"
  by (rule bit_word_eqI) (auto simp: bit_byteswap16)

lemma byteswap32_involution [simp]: "byteswap32 (byteswap32 x) = x"
  by (rule bit_word_eqI) (auto simp: bit_byteswap32)

lemma htons_on_involution [simp]: "htons_on e (htons_on e x) = x"
  by (cases e) simp_all

lemma htonl_on_involution [simp]: "htonl_on e (htonl_on e x) = x"
  by (cases e) simp_all

lemma ucast_and_FF: "(ucast (x AND 0xFF) :: u8) = ucast x" for x :: "'a::len word"
  unfolding mask_numerals by (rule bit_word_eqI) (auto simp: bit_simps dest: bit_imp_le_length)

lemma bytes16_of_htons:
  "bytes16_on e x = [ucast (drop_bit 8 (htons_on e x) AND 0xFF), ucast (htons_on e x AND 0xFF)]"
  unfolding bytes16_on_def ucast_and_FF
  by (cases e) (auto intro!: bit_word_eqI simp: bit_simps bit_byteswap16 add.commute)

lemma bytes32_of_htonl:
  "bytes32_on e x =
     [ucast (drop_bit 24 (htonl_on e x) AND 0xFF), ucast (drop_bit 16 (htonl_on e x) AND 0xFF),
      ucast (drop_bit 8 (htonl_on e x) AND 0xFF), ucast (htonl_on e x AND 0xFF)]"
  unfolding bytes32_on_def ucast_and_FF
  by (cases e) (auto intro!: bit_word_eqI simp: bit_simps bit_byteswap32 add.commute)

lemma join16:
  "push_bit 8 (ucast (ucast (drop_bit 8 w) :: u8)) OR ucast (ucast w :: u8) = (w :: u16)"
  by (rule bit_word_eqI) (auto simp: bit_simps)

lemma join32:
  fixes w :: u32
  shows "((push_bit 24 (ucast (ucast (drop_bit 24 w) :: u8)) OR
     push_bit 16 (ucast (ucast (drop_bit 16 w) :: u8))) OR
     push_bit 8 (ucast (ucast (drop_bit 8 w) :: u8))) OR ucast (ucast w :: u8) = w" (is "?l = w")
proof (rule bit_word_eqI)
  fix n :: nat
  consider "n < 8" | "8 \<le> n" "n < 16" | "16 \<le> n" "n < 24" | "24 \<le> n" by linarith
  then show "bit ?l n = bit w n"
    by cases (auto simp: bit_simps dest: bit_imp_le_length)
qed

section \<open>Lemmas: what the readers and writers do\<close>

lemma packet_write_u8_middle [mem_simps]:
  "p = length xs \<Longrightarrow> packet_write_u8 (xs @ y # zs) p v = Inr (xs @ v # zs, p + 1)"
  by (simp add: packet_write_u8_def mem_simps)

lemma packet_read_u8_middle [mem_simps]:
  "p = length xs \<Longrightarrow> packet_read_u8 (xs @ v # zs) p = Inr (v, p + 1)"
  by (simp add: packet_read_u8_def mem_simps)

lemma packet_write_u16_on_middle [mem_simps]:
  assumes "p = length xs" "length ys = 2"
  shows "packet_write_u16_on e (xs @ ys @ zs) p v = Inr (xs @ bytes16_on e v @ zs, p + 2)"
proof -
  obtain a b where ys: "ys = [a, b]"
    using assms(2) by (auto simp: length_Suc_conv numeral_2_eq_2)
  show ?thesis
    using assms(1)
    by (simp add: ys packet_write_u16_on_def bytes16_of_htons Let_def store_def
        list_update_append nth_append)
qed

lemma packet_write_u32_on_middle [mem_simps]:
  assumes "p = length xs" "length ys = 4"
  shows "packet_write_u32_on e (xs @ ys @ zs) p v = Inr (xs @ bytes32_on e v @ zs, p + 4)"
proof -
  obtain a b c d where ys: "ys = [a, b, c, d]"
    using assms(2) by (auto simp: length_Suc_conv numeral_eq_Suc)
  show ?thesis
    using assms(1)
    by (simp add: ys packet_write_u32_on_def bytes32_of_htonl Let_def store_def
        list_update_append nth_append)
qed

lemma packet_read_u16_on_middle [mem_simps]:
  assumes "p = length xs"
  shows "packet_read_u16_on e (xs @ bytes16_on e v @ zs) p = Inr (v, p + 2)"
  using assms
  by (simp add: packet_read_u16_on_def bytes16_of_htons Let_def load_def
      nth_append ucast_and_FF join16)

lemma packet_read_u32_on_middle [mem_simps]:
  assumes "p = length xs"
  shows "packet_read_u32_on e (xs @ bytes32_on e v @ zs) p = Inr (v, p + 4)"
  using assms
  by (simp add: packet_read_u32_on_def bytes32_of_htonl Let_def load_def
      nth_append ucast_and_FF join32)

text \<open>What a reader sees in a block nothing is known of.\<close>

definition word32_at :: "endian \<Rightarrow> u8 list \<Rightarrow> nat \<Rightarrow> u32" where
  "word32_at e m p = htonl_on e
     (push_bit 24 (ucast (m ! p)) OR push_bit 16 (ucast (m ! (p + 1)))
      OR push_bit 8 (ucast (m ! (p + 2))) OR ucast (m ! (p + 3)))"

lemma packet_read_u8_in [mem_simps]:
  "p < length m \<Longrightarrow> packet_read_u8 m p = Inr (m ! p, p + 1)"
  by (simp add: packet_read_u8_def load_def)

lemma packet_read_u8_out [mem_simps]:
  "length m \<le> p \<Longrightarrow> packet_read_u8 m p = Inl OutOfBounds"
  by (simp add: packet_read_u8_def load_def)

lemma packet_read_u32_on_in [mem_simps]:
  "p + 4 \<le> length m \<Longrightarrow> packet_read_u32_on e m p = Inr (word32_at e m p, p + 4)"
  by (simp add: packet_read_u32_on_def word32_at_def load_def or.assoc)

lemma packet_read_u32_on_out [mem_simps]:
  "length m < p + 4 \<Longrightarrow> packet_read_u32_on e m p = Inl OutOfBounds"
  by (auto simp: packet_read_u32_on_def load_def)

lemma word32_at_middle [mem_simps]:
  assumes "p = length xs"
  shows "word32_at e (xs @ bytes32_on e v @ zs) p = v"
proof -
  have "Inr (word32_at e (xs @ bytes32_on e v @ zs) p, p + 4) = Inr (v, p + 4)"
    using packet_read_u32_on_in [of p "xs @ bytes32_on e v @ zs" e]
      packet_read_u32_on_middle [OF assms, of e v zs] assms by simp
  then show ?thesis by (simp only: sum.inject prod.inject)
qed

section \<open>Codecs\<close>

text \<open>
  The contract a writer and a reader of one type share: \<open>width\<close> bytes are written at the
  pointer and nothing else changes, and the reader gets the value back from them.
\<close>

locale codec =
  fixes wr :: "u8 list \<Rightarrow> nat \<Rightarrow> 'v \<Rightarrow> (u8 list \<times> nat) result"
    and rd :: "u8 list \<Rightarrow> nat \<Rightarrow> ('v \<times> nat) result"
    and enc :: "'v \<Rightarrow> u8 list"
    and width :: nat
  assumes length_enc: "length (enc v) = width"
    and wr_enc: "p = length xs \<Longrightarrow> length ys = width \<Longrightarrow>
          wr (xs @ ys @ zs) p v = Inr (xs @ enc v @ zs, p + width)"
    and rd_enc: "p = length xs \<Longrightarrow> rd (xs @ enc v @ zs) p = Inr (v, p + width)"
begin

lemma wr_rd:
  assumes "p + width \<le> length m"
  shows "\<exists>m'. wr m p v = Inr (m', p + width) \<and> rd m' p = Inr (v, p + width)
    \<and> length m' = length m \<and> take p m' = take p m \<and> drop (p + width) m' = drop (p + width) m"
proof -
  obtain xs ys zs where m: "m = xs @ ys @ zs" "length xs = p" "length ys = width"
    using assms by (rule split_block)
  then show ?thesis by (simp add: wr_enc rd_enc length_enc)
qed

lemma write_loop_enc:
  assumes "p = length xs" "length ys = left * width" "ptr + left \<le> length data"
  shows "write_loop wr left (xs @ ys @ zs) p data ptr =
    Inr (xs @ concat (map enc (take left (drop ptr data))) @ zs, p + left * width)"
  using assms
proof (induction left arbitrary: xs ys p ptr)
  case 0
  then show ?case by simp
next
  case (Suc left)
  let ?v = "data ! ptr" and ?w = "take width ys" and ?r = "drop width ys"
  have w: "length ?w = width" and r: "length ?r = left * width" using Suc.prems by auto
  have ys: "xs @ ys @ zs = xs @ ?w @ (?r @ zs)" by simp
  have "write_loop wr left ((xs @ enc ?v) @ ?r @ zs) (p + width) data (ptr + 1) =
    Inr ((xs @ enc ?v) @ concat (map enc (take left (drop (ptr + 1) data))) @ zs,
         p + width + left * width)"
    using Suc.prems r by (intro Suc.IH) (auto simp: length_enc)
  then show ?case
    using Suc.prems w unfolding ys
    by (simp add: load_in wr_enc take_Suc_conv_app_nth Cons_nth_drop_Suc [symmetric]
        del: append_take_drop_id)
qed

lemma read_loop_enc:
  assumes "p = length xs" "length vs = left" "length data = ptr + left + k"
  shows "read_loop rd left (xs @ concat (map enc vs) @ zs) p data ptr =
    Inr (take ptr data @ vs @ drop (ptr + left) data, p + left * width)"
  using assms
proof (induction left arbitrary: xs vs p ptr data)
  case 0
  then show ?case by simp
next
  case (Suc left)
  then obtain v us where vs: "vs = v # us" "length us = left" by (cases vs) auto
  have "read_loop rd left ((xs @ enc v) @ concat (map enc us) @ zs) (p + width)
      (data[ptr := v]) (ptr + 1) =
    Inr (take (ptr + 1) (data[ptr := v]) @ us @ drop (ptr + 1 + left) (data[ptr := v]),
         p + width + left * width)"
    using Suc.prems vs by (intro Suc.IH) (auto simp: length_enc)
  moreover have "take (ptr + 1) (data[ptr := v]) = take ptr data @ [v]"
    using Suc.prems by (simp add: take_Suc_conv_app_nth)
  ultimately show ?case
    using Suc.prems by (simp add: vs rd_enc store_in)
qed

lemma write_read_loop:
  assumes "p + length vs * width \<le> length m" "length vs \<le> length out"
  shows "\<exists>m'. write_loop wr (length vs) m p vs 0 = Inr (m', p + length vs * width)
    \<and> read_loop rd (length vs) m' p out 0 =
        Inr (vs @ drop (length vs) out, p + length vs * width)"
proof -
  obtain xs ys zs where m: "m = xs @ ys @ zs" "length xs = p" "length ys = length vs * width"
    using assms(1) by (rule split_block)
  obtain k where "length out = 0 + length vs + k" using assms(2) le_Suc_ex by auto
  from read_loop_enc [OF _ refl this, of p xs zs] m show ?thesis
    by (simp add: write_loop_enc)
qed

end

interpretation u8_codec: codec packet_write_u8 packet_read_u8 "\<lambda>v. [v]" 1
proof
  fix xs ys zs :: "u8 list" and p v
  assume "p = length xs" "length ys = 1"
  then show "packet_write_u8 (xs @ ys @ zs) p v = Inr (xs @ [v] @ zs, p + 1)"
    by (cases ys) (simp_all add: mem_simps)
qed (simp_all add: mem_simps)

interpretation u16_codec: codec "packet_write_u16_on e" "packet_read_u16_on e" "bytes16_on e" 2 for e
  by unfold_locales (simp_all add: mem_simps)

interpretation u32_codec: codec "packet_write_u32_on e" "packet_read_u32_on e" "bytes32_on e" 4 for e
  by unfold_locales (simp_all add: mem_simps)

lemma bytes32_cross: "bytes32_on LittleEndian v = bytes32_on BigEndian (byteswap32 v)"
  by (auto simp: bytes32_on_def bit_byteswap32 bit_simps add.commute intro!: bit_word_eqI)

section \<open>Properties\<close>

text \<open>
  C10: Writing a 32-bit value and reading it back at the same pointer returns the value and
  the same advanced pointer, on either kind of host, wherever four bytes are left in the
  buffer; every other byte of the buffer keeps its value.
\<close>

theorem packet_u32_roundtrip:
  assumes "p + 4 \<le> length buffer"
  shows "\<exists>buffer'. packet_write_u32_on host buffer p data = Inr (buffer', p + 4)
    \<and> packet_read_u32_on host buffer' p = Inr (data, p + 4)
    \<and> length buffer' = length buffer
    \<and> take p buffer' = take p buffer \<and> drop (p + 4) buffer' = drop (p + 4) buffer"
  using assms by (rule u32_codec.wr_rd)

theorem packet_u32_roundtrip_witness:
  "\<exists>buffer'. packet_write_u32_on LittleEndian [0, 0, 0, 0, 0, 9] 1 0xDEADBEEF = Inr (buffer', 1 + 4)
    \<and> packet_read_u32_on LittleEndian buffer' 1 = Inr (0xDEADBEEF, 1 + 4)
    \<and> length buffer' = length [0 :: u8, 0, 0, 0, 0, 9]
    \<and> take 1 buffer' = take 1 [0, 0, 0, 0, 0, 9]
    \<and> drop (1 + 4) buffer' = drop (1 + 4) [0, 0, 0, 0, 0, 9]"
  by (rule packet_u32_roundtrip) simp

text \<open>
  The byte order on the wire is the host's, not network order: \<open>htonl\<close> and the
  big-endian byte extraction cancel out. A little-endian host puts the least significant byte
  first, and a big-endian host that reads those four bytes gets the value byte-reversed.
\<close>

theorem packet_u32_cross_host:
  assumes "p + 4 \<le> length buffer"
  shows "\<exists>buffer'. packet_write_u32_on LittleEndian buffer p data = Inr (buffer', p + 4)
    \<and> take 4 (drop p buffer') =
        [ucast data, ucast (drop_bit 8 data), ucast (drop_bit 16 data), ucast (drop_bit 24 data)]
    \<and> packet_read_u32_on BigEndian buffer' p = Inr (byteswap32 data, p + 4)"
proof -
  obtain xs ys zs where m: "buffer = xs @ ys @ zs" "length xs = p" "length ys = 4"
    using assms by (rule split_block)
  have "packet_read_u32_on BigEndian (xs @ bytes32_on LittleEndian data @ zs) p
      = Inr (byteswap32 data, p + 4)"
    unfolding bytes32_cross using m by (simp add: mem_simps)
  then show ?thesis
    using m by (simp add: packet_write_u32_on_middle) (simp add: bytes32_on_def)
qed

theorem packet_u32_cross_host_witness:
  "\<exists>buffer'. packet_write_u32_on LittleEndian [0, 0, 0, 0] 0 1 = Inr (buffer', 0 + 4)
    \<and> take 4 (drop 0 buffer') = [ucast (1 :: u32), ucast (drop_bit 8 1 :: u32),
        ucast (drop_bit 16 1 :: u32), ucast (drop_bit 24 1 :: u32)]
    \<and> packet_read_u32_on BigEndian buffer' 0 = Inr (byteswap32 1, 0 + 4)"
  by (rule packet_u32_cross_host) simp

text \<open>
  A buffer of 16-bit values written with \<open>packet_write_u16_buffer\<close> and read with
  \<open>packet_read_u16_buffer\<close> comes back whole and in order, the loops advance both pointers
  over exactly two bytes a value, and the reader leaves the rest of its destination alone.
\<close>

theorem packet_u16_buffer_roundtrip:
  assumes "p + length values * 2 \<le> length buffer" "length values \<le> length out"
  shows "\<exists>buffer'. packet_write_u16_buffer buffer p values (length values)
        = Inr (buffer', p + length values * 2)
    \<and> packet_read_u16_buffer buffer' p out (length values)
        = Inr (values @ drop (length values) out, p + length values * 2)"
  using u16_codec.write_read_loop [OF assms]
  by (simp add: packet_write_u16_buffer_def packet_read_u16_buffer_def)

theorem packet_u16_buffer_roundtrip_witness:
  "\<exists>buffer'. packet_write_u16_buffer [0, 0, 0, 0, 0] 1 [0x0102, 0xFFFE] (length [0x0102 :: u16, 0xFFFE])
        = Inr (buffer', 1 + length [0x0102 :: u16, 0xFFFE] * 2)
    \<and> packet_read_u16_buffer buffer' 1 [0, 0, 7] (length [0x0102 :: u16, 0xFFFE])
        = Inr ([0x0102, 0xFFFE] @ drop (length [0x0102 :: u16, 0xFFFE]) [0, 0, 7],
               1 + length [0x0102 :: u16, 0xFFFE] * 2)"
  by (rule packet_u16_buffer_roundtrip) simp_all

end
