(* ===== verification/Asserts.thy ===== *)
theory Asserts
  imports Prelude
begin

text \<open>
  \<open>lib/Assert.c\<close>: assertions that report, and end the process when the program asked for
  it with \<open>setExitOnAssert( true )\<close>. The reports on stdout and stderr are kept as the list
  of lines written, the format filled in by the caller's file, line and message.
  \<open>GraphRouter\<close> and \<open>UnitTests\<close> switch the exit on, \<open>GraphWrap\<close> leaves it off, so there a
  failed assertion only prints.
\<close>

datatype report = Asked bool | Failed string | AskedEqual u64 u64 bool | FailedEqual u64 u64

record assert_config =
  bailOnAssertFail :: bool
  reportAssertCalls :: bool

definition assert_config_init :: assert_config where
  "assert_config_init = \<lparr>bailOnAssertFail = False, reportAssertCalls = False\<rparr>"

definition setReportAssert :: "bool \<Rightarrow> assert_config \<Rightarrow> assert_config" where
  "setReportAssert state cfg = cfg\<lparr>reportAssertCalls := state\<rparr>"

definition setExitOnAssert :: "bool \<Rightarrow> assert_config \<Rightarrow> assert_config" where
  "setExitOnAssert state cfg = cfg\<lparr>bailOnAssertFail := state\<rparr>"

definition EXIT_FAILURE :: nat where "EXIT_FAILURE = 1"

text \<open>The lines written, and the value returned or the end of the process.\<close>

definition assert_full :: "assert_config \<Rightarrow> bool \<Rightarrow> string \<Rightarrow> report list \<times> bool result" where
  "assert_full cfg state errorMessage =
     (let asked = (if reportAssertCalls cfg then [Asked state] else []) in
      if \<not> state then
        (asked @ [Failed errorMessage],
         if bailOnAssertFail cfg then Inl (Exit EXIT_FAILURE) else Inr False)
      else (asked, Inr True))"

text \<open>\<open>jumpTarget\<close> is the caller's function; its effect on the caller's state is its argument.\<close>

definition assertj ::
    "assert_config \<Rightarrow> bool \<Rightarrow> string \<Rightarrow> ('s \<Rightarrow> 's) \<Rightarrow> 's \<Rightarrow> report list \<times> 's \<times> bool result" where
  "assertj cfg state errorMessage jumpTarget s =
     (let asked = (if reportAssertCalls cfg then [Asked state] else []) in
      if \<not> state then
        (asked @ [Failed errorMessage], jumpTarget s,
         if bailOnAssertFail cfg then Inl (Exit EXIT_FAILURE) else Inr False)
      else (asked, s, Inr True))"

definition assertEqual :: "assert_config \<Rightarrow> u64 \<Rightarrow> u64 \<Rightarrow> report list \<times> bool result" where
  "assertEqual cfg a b =
     (let asked = (if reportAssertCalls cfg then [AskedEqual a b (a = b)] else []) in
      if a \<noteq> b then
        (asked @ [FailedEqual a b],
         if bailOnAssertFail cfg then Inl (Exit EXIT_FAILURE) else Inr False)
      else (asked, Inr True))"

text \<open>What the other components use of an assertion: whether the process goes on.\<close>

definition assert_that :: "bool \<Rightarrow> bool \<Rightarrow> bool result" where
  "assert_that bail state =
     snd (assert_full \<lparr>bailOnAssertFail = bail, reportAssertCalls = False\<rparr> state [])"

lemma assert_that_simps [simp]:
  "assert_that bail True = Inr True"
  "assert_that False state = Inr state"
  "assert_that True state = (if state then Inr True else Inl (Exit EXIT_FAILURE))"
  by (simp_all add: assert_that_def assert_full_def)

end
