(* ===== verification/RingBuffer.thy ===== *)
theory RingBuffer
  imports Packet Asserts
begin

text \<open>
  \<open>lib/RingBuffer.c\<close>: a byte queue in a fixed block of memory, with a semaphore around
  every operation. The block is \<open>rb_mem\<close>; the pointers \<open>end\<close>, \<open>head\<close> and \<open>tail\<close> are offsets
  from \<open>start\<close>, so \<open>start\<close> itself is 0. A thread that waits on a semaphore at 0 is stuck:
  \<open>Inl Deadlock\<close>.

  \<open>rb_inv\<close> is the invariant of a live buffer and \<open>rb_contents\<close> the bytes it holds, oldest
  first. The operations are shown to be those of a bounded queue (locale \<open>byte_queue\<close>).
\<close>

section \<open>The structure and its operations\<close>

record ring_buffer =
  rb_lock :: nat
  rb_mem :: "u8 list"
  rb_end :: nat
  rb_head :: nat
  rb_tail :: nat
  rb_capacity :: nat

definition sem_wait :: "ring_buffer \<Rightarrow> ring_buffer result" where
  "sem_wait root = (if rb_lock root = 0 then Inl Deadlock
                    else Inr (root\<lparr>rb_lock := rb_lock root - 1\<rparr>))"

definition sem_post :: "ring_buffer \<Rightarrow> ring_buffer" where
  "sem_post root = root\<lparr>rb_lock := rb_lock root + 1\<rparr>"

definition minValue :: "nat \<Rightarrow> nat \<Rightarrow> nat" where
  "minValue a b = (if a < b then a else b)"

text \<open>\<open>junk\<close>: what \<open>malloc\<close> left in the \<open>sz\<close> bytes after the structure.\<close>

definition ringbuffer_init :: "u8 list \<Rightarrow> ring_buffer" where
  "ringbuffer_init junk =
     (let sz = length junk in
      \<lparr>rb_lock = 1, rb_mem = junk, rb_end = sz, rb_head = 0, rb_tail = 0, rb_capacity = sz\<rparr>)"

text \<open>The buffer is gone afterwards (\<open>None\<close>), whatever it held.\<close>

definition ringbuffer_destroy :: "ring_buffer \<Rightarrow> (ring_buffer option \<times> bool) result" where
  "ringbuffer_destroy root = andThen (sem_wait root) (\<lambda>_. Inr (None, True))"

definition ringbuffer_length :: "ring_buffer \<Rightarrow> nat" where
  "ringbuffer_length root =
     (if rb_head root = rb_tail root then 0
      else if rb_head root > rb_tail root then rb_head root - rb_tail root
      else (rb_end root - rb_tail root) + rb_head root)"

definition ringbuffer_capacity :: "ring_buffer \<Rightarrow> nat" where
  "ringbuffer_capacity root =
     size_sub (size_sub (rb_capacity root) (ringbuffer_length root)) 1"

text \<open>
  The copy both readers make: one piece when the data does not wrap, else two. \<open>buffer\<close> is
  the destination or a null pointer.
\<close>

definition copy_out :: "ring_buffer \<Rightarrow> u8 list option \<Rightarrow> nat \<Rightarrow> u8 list option result" where
  "copy_out root buffer readLength =
     (let first = rb_end root - rb_tail root in
      case buffer of
        None \<Rightarrow> Inr None
      | Some b \<Rightarrow>
          if readLength \<le> first then
            andThen (load_block (rb_mem root) (rb_tail root) readLength) (\<lambda>bs.
            andThen (store_block b 0 bs) (\<lambda>b. Inr (Some b)))
          else
            andThen (load_block (rb_mem root) (rb_tail root) first) (\<lambda>bs.
            andThen (store_block b 0 bs) (\<lambda>b.
            andThen (load_block (rb_mem root) 0 (readLength - first)) (\<lambda>bs.
            andThen (store_block b first bs) (\<lambda>b. Inr (Some b))))))"

definition ringbuffer_peek_copy ::
    "bool \<Rightarrow> ring_buffer \<Rightarrow> u8 list option \<Rightarrow> nat \<Rightarrow> (ring_buffer \<times> u8 list option \<times> nat) result"
where
  "ringbuffer_peek_copy bail root buffer maxLength =
     andThen (sem_wait root) (\<lambda>root.
     (let readLength = minValue (ringbuffer_length root) maxLength in
      andThen (assert_that bail (readLength \<le> rb_capacity root)) (\<lambda>_.
      if readLength = 0 then Inr (sem_post root, buffer, 0)
      else andThen (copy_out root buffer readLength) (\<lambda>buffer.
           Inr (sem_post root, buffer, readLength)))))"

definition ringbuffer_read ::
    "bool \<Rightarrow> ring_buffer \<Rightarrow> u8 list option \<Rightarrow> nat \<Rightarrow> (ring_buffer \<times> u8 list option \<times> nat) result"
where
  "ringbuffer_read bail root buffer maxLength =
     andThen (sem_wait root) (\<lambda>root.
     (let readLength = minValue (ringbuffer_length root) maxLength in
      andThen (assert_that bail (readLength \<le> rb_capacity root)) (\<lambda>_.
      if readLength = 0 then Inr (sem_post root, buffer, 0)
      else andThen (copy_out root buffer readLength) (\<lambda>buffer.
        let tail = rb_tail root + readLength;
            tail = (if readLength \<le> rb_end root - rb_tail root
                    then (if rb_end root \<le> tail then 0 else tail)
                    else (if rb_end root \<le> tail then tail - rb_end root else tail))
        in Inr (sem_post (root\<lparr>rb_tail := tail\<rparr>), buffer, readLength)))))"

text \<open>The offset \<open>ref\<close> a peek reads at. \<open>offset % capacity\<close> traps for an empty block.\<close>

definition peek_ref :: "ring_buffer \<Rightarrow> nat \<Rightarrow> nat result" where
  "peek_ref root offset =
     (if rb_capacity root = 0 then Inl DivByZero
      else
        (let ref = rb_tail root + offset mod rb_capacity root in
         Inr (if ref > rb_end root then ref - rb_end root else ref)))"

definition ringbuffer_peek :: "ring_buffer \<Rightarrow> nat \<Rightarrow> (ring_buffer \<times> u8) result" where
  "ringbuffer_peek root offset =
     andThen (sem_wait root) (\<lambda>root.
     andThen (peek_ref root offset) (\<lambda>ref.
     andThen (load (rb_mem root) ref) (\<lambda>tmp.
     Inr (sem_post root, tmp))))"

text \<open>Two bytes are read as a little-endian value, at \<open>ref\<close> and the byte after it.\<close>

definition ringbuffer_peek16 :: "ring_buffer \<Rightarrow> nat \<Rightarrow> (ring_buffer \<times> u16) result" where
  "ringbuffer_peek16 root offset =
     andThen (sem_wait root) (\<lambda>root.
     andThen (peek_ref root offset) (\<lambda>ref.
     andThen (load (rb_mem root) ref) (\<lambda>lo.
     andThen (load (rb_mem root) (ref + 1)) (\<lambda>hi.
     Inr (sem_post root, push_bit 8 (ucast hi) OR ucast lo)))))"

text \<open>The lowest byte is read at \<open>offset+3\<close>, as the highest one is.\<close>

definition ringbuffer_peek32 :: "ring_buffer \<Rightarrow> nat \<Rightarrow> (ring_buffer \<times> u32) result" where
  "ringbuffer_peek32 root offset =
     andThen (ringbuffer_peek root (offset + 3)) (\<lambda>(root, a).
     andThen (ringbuffer_peek root (offset + 2)) (\<lambda>(root, b).
     andThen (ringbuffer_peek root (offset + 1)) (\<lambda>(root, c).
     andThen (ringbuffer_peek root (offset + 3)) (\<lambda>(root, d).
     Inr (root, ((push_bit 24 (ucast a) OR push_bit 16 (ucast b)) OR push_bit 8 (ucast c))
                OR ucast d)))))"

definition ringbuffer_write ::
    "ring_buffer \<Rightarrow> u8 list \<Rightarrow> nat \<Rightarrow> (ring_buffer \<times> nat) result" where
  "ringbuffer_write root buffer len =
     andThen (sem_wait root) (\<lambda>root.
     (let space = ringbuffer_capacity root in
      if space \<le> len then Inr (sem_post root, 0)
      else
        (let rspace = rb_end root - rb_head root in
         if len < rspace then
           andThen (load_block buffer 0 len) (\<lambda>bs.
           andThen (store_block (rb_mem root) (rb_head root) bs) (\<lambda>mem.
           (let head = rb_head root + len;
                head = (if head > rb_end root then 0 else head)
            in Inr (sem_post (root\<lparr>rb_mem := mem, rb_head := head\<rparr>), len))))
         else
           andThen (load_block buffer 0 rspace) (\<lambda>bs.
           andThen (store_block (rb_mem root) (rb_head root) bs) (\<lambda>mem.
           andThen (load_block buffer rspace (len - rspace)) (\<lambda>bs.
           andThen (store_block mem 0 bs) (\<lambda>mem.
           Inr (sem_post (root\<lparr>rb_mem := mem, rb_head := len - rspace\<rparr>), len))))))))"

text \<open>
  \<open>ringbuffer_print\<close>: the bytes with the unprintable ones as \<open>_\<close>, then a line that marks
  the head, the tail, or both.
\<close>

definition print_byte :: "u8 \<Rightarrow> char" where
  "print_byte b = (if b < 32 \<or> 126 < b then CHR ''_'' else char_of (unat b))"

definition print_mark :: "ring_buffer \<Rightarrow> nat \<Rightarrow> char" where
  "print_mark root tmp =
     (if tmp = rb_head root \<and> tmp = rb_tail root then CHR ''X''
      else if tmp = rb_head root then CHR ''H''
      else if tmp = rb_tail root then CHR ''T''
      else CHR '' '')"

definition ringbuffer_print :: "ring_buffer \<Rightarrow> string result" where
  "ringbuffer_print root =
     andThen (load_block (rb_mem root) 0 (rb_end root)) (\<lambda>bs.
     Inr (''['' @ map print_byte bs @ '']'' @ [CHR 0x0A]
        @ ''['' @ map (print_mark root) [0..<rb_end root] @ '']'' @ [CHR 0x0A]))"

section \<open>Invariant and contents\<close>

definition rb_inv :: "ring_buffer \<Rightarrow> bool" where
  "rb_inv r \<longleftrightarrow> rb_lock r = 1 \<and> rb_end r = length (rb_mem r) \<and> rb_capacity r = rb_end r
     \<and> rb_head r < rb_end r \<and> rb_tail r < rb_end r \<and> rb_end r < 2 ^ 63"

definition rb_contents :: "ring_buffer \<Rightarrow> u8 list" where
  "rb_contents r =
     (if rb_tail r \<le> rb_head r then take (rb_head r - rb_tail r) (drop (rb_tail r) (rb_mem r))
      else drop (rb_tail r) (rb_mem r) @ take (rb_head r) (rb_mem r))"

lemma length_rb_contents: "rb_inv r \<Longrightarrow> length (rb_contents r) = ringbuffer_length r"
  by (auto simp: rb_inv_def rb_contents_def ringbuffer_length_def)

lemma rb_length_less: "rb_inv r \<Longrightarrow> ringbuffer_length r < rb_end r"
  by (auto simp: rb_inv_def ringbuffer_length_def)

lemma rb_capacity_eq:
  "rb_inv r \<Longrightarrow> ringbuffer_capacity r = rb_end r - length (rb_contents r) - 1"
proof -
  assume r: "rb_inv r"
  have l: "ringbuffer_length r < rb_end r" "rb_end r < 2 ^ 64" "rb_capacity r = rb_end r"
    using r rb_length_less [OF r] by (auto simp: rb_inv_def)
  have "size_sub (rb_capacity r) (ringbuffer_length r) = rb_end r - ringbuffer_length r"
    using l by (simp add: size_sub_eq)
  moreover have "size_sub (rb_end r - ringbuffer_length r) 1 = rb_end r - ringbuffer_length r - 1"
    by (rule size_sub_eq) (use l in linarith)+
  ultimately show ?thesis
    unfolding ringbuffer_capacity_def by (simp add: length_rb_contents [OF r])
qed

lemma rb_init_inv: "0 < length junk \<Longrightarrow> length junk < 2 ^ 63 \<Longrightarrow>
    rb_inv (ringbuffer_init junk) \<and> rb_contents (ringbuffer_init junk) = []"
  by (simp add: rb_inv_def ringbuffer_init_def rb_contents_def Let_def)

lemma rb_end_init [simp]: "rb_end (ringbuffer_init junk) = length junk"
  by (simp add: ringbuffer_init_def Let_def)

lemma sem_wait_eq: "rb_inv r \<Longrightarrow> sem_wait r = Inr (r\<lparr>rb_lock := 0\<rparr>)"
  by (simp add: sem_wait_def rb_inv_def)

lemma sem_post_unlocked:
  "rb_inv r \<Longrightarrow> sem_post (r\<lparr>rb_lock := 0\<rparr>) = r"
  by (simp add: sem_post_def rb_inv_def)

lemma rb_lock_irrelevant [simp]:
  "ringbuffer_length (r\<lparr>rb_lock := l\<rparr>) = ringbuffer_length r"
  "ringbuffer_capacity (r\<lparr>rb_lock := l\<rparr>) = ringbuffer_capacity r"
  "rb_contents (r\<lparr>rb_lock := l\<rparr>) = rb_contents r"
  by (simp_all add: ringbuffer_length_def ringbuffer_capacity_def rb_contents_def)

lemma write_refused:
  assumes "rb_inv r" "rb_end r \<le> length (rb_contents r) + len + 1"
  shows "ringbuffer_write r buffer len = Inr (r, 0)"
proof -
  have "ringbuffer_capacity r \<le> len"
    using assms by (simp add: rb_capacity_eq)
  then show ?thesis
    using assms(1) by (simp add: ringbuffer_write_def sem_wait_eq sem_post_unlocked)
qed

text \<open>The block after a write in one piece, and after a write in two.\<close>

lemma contents_write_one:
  assumes r: "rb_inv r" and h: "rb_head r + length bs < rb_end r"
    and room: "length (rb_contents r) + length bs + 1 < rb_end r"
  shows "rb_contents (r\<lparr>rb_mem := take (rb_head r) (rb_mem r) @ bs @ drop (rb_head r + length bs) (rb_mem r),
      rb_head := rb_head r + length bs\<rparr>) = rb_contents r @ bs"
proof (cases "rb_tail r \<le> rb_head r")
  case True
  then show ?thesis using r h by (simp add: rb_contents_def rb_inv_def drop_take)
next
  case False
  then have "rb_head r + length bs < rb_tail r"
    using r room by (auto simp: rb_contents_def rb_inv_def)
  then show ?thesis using False r h by (simp add: rb_contents_def rb_inv_def)
qed

lemma contents_write_two:
  assumes r: "rb_inv r" and h: "rb_end r \<le> rb_head r + length bs"
    and room: "length (rb_contents r) + length bs + 1 < rb_end r"
  defines "f \<equiv> rb_end r - rb_head r"
  shows "rb_contents (r\<lparr>rb_mem := drop f bs @ drop (length bs - f) (take (rb_head r) (rb_mem r) @ take f bs),
      rb_head := length bs - f\<rparr>) = rb_contents r @ bs"
    "length bs - f < rb_tail r" "rb_tail r \<le> rb_head r"
proof -
  show t: "rb_tail r \<le> rb_head r" and w: "length bs - f < rb_tail r"
    using r h room by (auto simp: rb_inv_def rb_contents_def f_def split: if_splits)
  have "drop (rb_tail r) (drop f bs @ drop (length bs - f) (take (rb_head r) (rb_mem r) @ take f bs))
      = take (rb_head r - rb_tail r) (drop (rb_tail r) (rb_mem r)) @ take f bs"
  proof -
    let ?old = "take (rb_head r) (rb_mem r) @ take f bs"
    have f: "f \<le> length bs" using h by (simp add: f_def)
    have "drop (rb_tail r) (drop f bs @ drop (length bs - f) ?old)
        = drop (rb_tail r - (length bs - f)) (drop (length bs - f) ?old)"
      using w by simp
    also have "\<dots> = drop (rb_tail r) ?old"
      using w by (simp only: drop_drop) simp
    also have "\<dots> = take (rb_head r - rb_tail r) (drop (rb_tail r) (rb_mem r)) @ take f bs"
      using t r by (simp add: rb_inv_def drop_take)
    finally show ?thesis .
  qed
  then show "rb_contents (r\<lparr>rb_mem := drop f bs @ drop (length bs - f) (take (rb_head r) (rb_mem r) @ take f bs),
      rb_head := length bs - f\<rparr>) = rb_contents r @ bs"
    using t w by (simp add: rb_contents_def)
qed

lemma write_accepted:
  assumes r: "rb_inv r" and len: "length (rb_contents r) + len + 1 < rb_end r" "len \<le> length buffer"
  shows "\<exists>r'. ringbuffer_write r buffer len = Inr (r', len) \<and> rb_inv r'
    \<and> rb_contents r' = rb_contents r @ take len buffer \<and> rb_end r' = rb_end r"
proof -
  let ?bs = "take len buffer" and ?f = "rb_end r - rb_head r"
  have bs: "length ?bs = len" using len by simp
  have cap: "\<not> ringbuffer_capacity r \<le> len" using r len by (simp add: rb_capacity_eq)
  show ?thesis
  proof (cases "len < ?f")
    case True
    let ?r' = "r\<lparr>rb_mem := take (rb_head r) (rb_mem r) @ ?bs @ drop (rb_head r + length ?bs) (rb_mem r),
      rb_head := rb_head r + length ?bs\<rparr>"
    have "ringbuffer_write r buffer len = Inr (?r', len)"
      using True r len cap
      by (simp add: ringbuffer_write_def sem_wait_eq load_block_def store_block_def sem_post_def
          rb_inv_def Let_def)
    moreover have "rb_inv ?r'" using True r len by (simp add: rb_inv_def)
    moreover have "rb_contents ?r' = rb_contents r @ ?bs"
      by (rule contents_write_one) (use r len True in simp_all)
    ultimately show ?thesis by auto
  next
    case False
    let ?r' = "r\<lparr>rb_mem := drop ?f ?bs @ drop (length ?bs - ?f) (take (rb_head r) (rb_mem r) @ take ?f ?bs),
      rb_head := length ?bs - ?f\<rparr>"
    have c: "rb_contents ?r' = rb_contents r @ ?bs" "length ?bs - ?f < rb_tail r"
      "rb_tail r \<le> rb_head r"
      using contents_write_two [of r ?bs] r len False by simp_all
    have "ringbuffer_write r buffer len = Inr (?r', len)"
      using False r len cap c
      by (simp add: ringbuffer_write_def sem_wait_eq load_block_def store_block_def sem_post_def
          rb_inv_def Let_def drop_take)
    moreover have "rb_inv ?r'" using False r len c by (simp add: rb_inv_def)
    ultimately show ?thesis using c by auto
  qed
qed

lemma copy_out_eq:
  assumes r: "rb_inv r" and n: "n \<le> ringbuffer_length r" "n \<le> length d"
  shows "copy_out r (Some d) n = Inr (Some (take n (rb_contents r) @ drop n d))"
proof (cases "n \<le> rb_end r - rb_tail r")
  case True
  have "take n (rb_contents r) = take n (drop (rb_tail r) (rb_mem r))"
  proof (cases "rb_tail r \<le> rb_head r")
    case True
    then have "n \<le> rb_head r - rb_tail r"
      using n(1) by (simp add: ringbuffer_length_def split: if_splits)
    then show ?thesis using True by (simp add: rb_contents_def)
  next
    case False
    then show ?thesis
      using r \<open>n \<le> rb_end r - rb_tail r\<close> by (simp add: rb_contents_def rb_inv_def)
  qed
  moreover have "rb_tail r + n \<le> length (rb_mem r)"
    using r True by (auto simp: rb_inv_def)
  ultimately show ?thesis
    using True n by (simp add: copy_out_def load_block_def store_block_def)
next
  case False
  let ?f = "rb_end r - rb_tail r"
  have w: "rb_head r < rb_tail r" "n - ?f \<le> rb_head r"
    using r n False by (auto simp: rb_inv_def ringbuffer_length_def split: if_splits)
  have f: "rb_tail r + ?f = length (rb_mem r)" "?f \<le> length d" "?f < n" "n - ?f \<le> length (rb_mem r)"
    using r n False w by (auto simp: rb_inv_def)
  have "take n (rb_contents r) = drop (rb_tail r) (rb_mem r) @ take (n - ?f) (rb_mem r)"
    using r f w by (auto simp: rb_inv_def rb_contents_def)
  then show ?thesis
    using f n False
    by (simp add: copy_out_def load_block_def store_block_def Let_def)
qed

lemma copy_out_None [simp]: "copy_out r None n = Inr None"
  by (simp add: copy_out_def Let_def)

lemma copy_out_lock [simp]: "copy_out (r\<lparr>rb_lock := l\<rparr>) d n = copy_out r d n"
  by (cases d) (simp_all add: copy_out_def Let_def)

lemma rb_length_capacity: "rb_inv r \<Longrightarrow> minValue (ringbuffer_length r) n \<le> rb_capacity r"
  using rb_length_less [of r] by (auto simp: minValue_def rb_inv_def)

lemma peek_copy_eq:
  assumes r: "rb_inv r" and d: "minValue (length (rb_contents r)) n \<le> length d"
  shows "ringbuffer_peek_copy bail r (Some d) n =
    Inr (r, Some (take n (rb_contents r) @ drop (minValue (length (rb_contents r)) n) d),
         minValue (length (rb_contents r)) n)"
proof -
  let ?k = "minValue (ringbuffer_length r) n"
  have k: "?k \<le> ringbuffer_length r" by (simp add: minValue_def)
  have "take ?k (rb_contents r) = take n (rb_contents r)"
    using length_rb_contents [OF r] by (simp add: minValue_def)
  then show ?thesis
    using copy_out_eq [OF r k] d rb_length_capacity [OF r, of n] length_rb_contents [OF r]
    by (auto simp: ringbuffer_peek_copy_def sem_wait_eq [OF r] sem_post_unlocked [OF r] Let_def)
qed

text \<open>Moving \<open>tail\<close> over \<open>k\<close> bytes that are there drops them from the contents.\<close>

lemma advance_tail:
  assumes r: "rb_inv r" and k: "k \<le> ringbuffer_length r"
  defines "t \<equiv> rb_tail r + k"
  defines "r' \<equiv> r\<lparr>rb_tail := if rb_end r \<le> t then t - rb_end r else t\<rparr>"
  shows "rb_inv r'" "rb_contents r' = drop k (rb_contents r)"
proof -
  show "rb_inv r'"
    using r k by (auto simp: r'_def t_def rb_inv_def ringbuffer_length_def split: if_splits)
  consider "rb_tail r \<le> rb_head r" | "rb_head r < rb_tail r" "t < rb_end r"
    | "rb_head r < rb_tail r" "rb_end r \<le> t" by linarith
  then show "rb_contents r' = drop k (rb_contents r)"
    using r k
    by cases (auto simp: r'_def t_def rb_inv_def rb_contents_def ringbuffer_length_def drop_take
        add.commute split: if_splits)
qed

lemma tail_wrap:
  "t < e \<Longrightarrow>
    (if k \<le> e - t then if e \<le> t + k then 0 else t + k
     else if e \<le> t + k then t + k - e else t + k) = (if e \<le> t + k then t + k - e else t + k)"
  for t e k :: nat
  by auto

lemma ringbuffer_read_eq:
  assumes r: "rb_inv r" and d: "minValue (length (rb_contents r)) n \<le> length d"
  shows "\<exists>r'. ringbuffer_read bail r (Some d) n =
      Inr (r', Some (take n (rb_contents r) @ drop (minValue (length (rb_contents r)) n) d),
           minValue (length (rb_contents r)) n)
    \<and> rb_inv r' \<and> rb_contents r' = drop n (rb_contents r) \<and> rb_end r' = rb_end r"
proof -
  let ?k = "minValue (ringbuffer_length r) n"
  have k: "?k \<le> ringbuffer_length r" by (simp add: minValue_def)
  have t: "take ?k (rb_contents r) = take n (rb_contents r)"
    "drop ?k (rb_contents r) = drop n (rb_contents r)"
    using length_rb_contents [OF r] by (simp_all add: minValue_def)
  let ?t = "rb_tail r + ?k"
  let ?r' = "r\<lparr>rb_tail := if rb_end r \<le> ?t then ?t - rb_end r else ?t\<rparr>"
  have r': "rb_inv ?r'" "rb_contents ?r' = drop ?k (rb_contents r)"
    using advance_tail [OF r k] by simp_all
  have tail: "rb_tail r < rb_end r" using r by (simp add: rb_inv_def)
  have "ringbuffer_read bail r (Some d) n =
      Inr (?r', Some (take n (rb_contents r) @ drop ?k d), ?k)"
  proof (cases "?k = 0")
    case True
    moreover have "r\<lparr>rb_tail := rb_tail r\<rparr> = r" by simp
    ultimately show ?thesis
      using r rb_length_capacity [OF r, of n] t
      by (simp add: ringbuffer_read_def sem_wait_eq [OF r] sem_post_unlocked [OF r] Let_def
          rb_inv_def)
  next
    case False
    then show ?thesis
      using copy_out_eq [OF r k] d rb_length_capacity [OF r, of n] length_rb_contents [OF r] t r
      by (simp add: ringbuffer_read_def sem_wait_eq [OF r] Let_def sem_post_def rb_inv_def
          tail_wrap [OF tail])
  qed
  then show ?thesis
    using r' t length_rb_contents [OF r] by auto
qed

section \<open>The interface: a bounded byte queue\<close>

datatype queue_op = Put "u8 list" | Get nat

text \<open>
  A run of operations on any queue: the queue at the end, the bytes it accepted and the bytes
  it delivered, in order.
\<close>

fun run_queue ::
    "('q \<Rightarrow> u8 list \<Rightarrow> ('q \<times> nat) result) \<Rightarrow> ('q \<Rightarrow> nat \<Rightarrow> ('q \<times> u8 list) result) \<Rightarrow>
     'q \<Rightarrow> queue_op list \<Rightarrow> ('q \<times> u8 list \<times> u8 list) result" where
  "run_queue put get q [] = Inr (q, [], [])"
| "run_queue put get q (Put bs # ops) =
     andThen (put q bs) (\<lambda>(q, k).
     andThen (run_queue put get q ops) (\<lambda>(q, accepted, delivered).
     Inr (q, take k bs @ accepted, delivered)))"
| "run_queue put get q (Get n # ops) =
     andThen (get q n) (\<lambda>(q, bs).
     andThen (run_queue put get q ops) (\<lambda>(q, accepted, delivered).
     Inr (q, accepted, bs @ delivered)))"

locale byte_queue =
  fixes put :: "'q \<Rightarrow> u8 list \<Rightarrow> ('q \<times> nat) result"
    and get :: "'q \<Rightarrow> nat \<Rightarrow> ('q \<times> u8 list) result"
    and inv :: "'q \<Rightarrow> bool"
    and contents :: "'q \<Rightarrow> u8 list"
    and room :: "'q \<Rightarrow> nat"
  assumes put_ok: "inv q \<Longrightarrow> length bs < room q \<Longrightarrow>
      \<exists>q'. put q bs = Inr (q', length bs) \<and> inv q' \<and> contents q' = contents q @ bs"
    and put_full: "inv q \<Longrightarrow> room q \<le> length bs \<Longrightarrow> put q bs = Inr (q, 0)"
    and get_ok: "inv q \<Longrightarrow>
      \<exists>q'. get q n = Inr (q', take n (contents q)) \<and> inv q' \<and> contents q' = drop n (contents q)"
begin

lemma run_fifo:
  "inv q \<Longrightarrow> \<exists>q' accepted delivered. run_queue put get q ops = Inr (q', accepted, delivered)
     \<and> inv q' \<and> contents q @ accepted = delivered @ contents q'"
proof (induction ops arbitrary: q)
  case Nil
  then show ?case by simp
next
  case (Cons op ops)
  show ?case
  proof (cases op)
    case (Put bs)
    obtain q1 k where q1: "put q bs = Inr (q1, k)" "inv q1" "contents q1 = contents q @ take k bs"
      using put_ok [of q bs] put_full [of q bs] Cons.prems by (cases "length bs < room q") force+
    from Cons.IH [OF q1(2)] q1 Put show ?thesis by auto
  next
    case (Get n)
    obtain q1 where q1: "get q n = Inr (q1, take n (contents q))" "inv q1"
      "contents q1 = drop n (contents q)"
      using get_ok [OF Cons.prems, of n] by auto
    obtain q' a d where "run_queue put get q1 ops = Inr (q', a, d)" "inv q'"
      "contents q1 @ a = d @ contents q'"
      using Cons.IH [OF q1(2)] by blast
    moreover have "contents q @ a = take n (contents q) @ (contents q1 @ a)"
      unfolding q1(3) by (simp only: append_assoc [symmetric] append_take_drop_id)
    ultimately show ?thesis using q1 Get by simp
  qed
qed

end

text \<open>The two calls a client of the ring buffer makes.\<close>

definition ring_put :: "ring_buffer \<Rightarrow> u8 list \<Rightarrow> (ring_buffer \<times> nat) result" where
  "ring_put r bs = ringbuffer_write r bs (length bs)"

definition ring_get :: "bool \<Rightarrow> ring_buffer \<Rightarrow> nat \<Rightarrow> (ring_buffer \<times> u8 list) result" where
  "ring_get bail r n =
     andThen (ringbuffer_read bail r (Some (replicate n 0)) n) (\<lambda>(r, d, k).
     Inr (r, case d of None \<Rightarrow> [] | Some d \<Rightarrow> take k d))"

interpretation ring: byte_queue ring_put "ring_get bail" rb_inv rb_contents ringbuffer_capacity for bail
proof
  fix q and bs :: "u8 list"
  assume q: "rb_inv q" and "length bs < ringbuffer_capacity q"
  then have "length (rb_contents q) + length bs + 1 < rb_end q" by (simp add: rb_capacity_eq)
  from write_accepted [OF q this, of bs]
  show "\<exists>q'. ring_put q bs = Inr (q', length bs) \<and> rb_inv q' \<and> rb_contents q' = rb_contents q @ bs"
    by (auto simp: ring_put_def)
next
  fix q and bs :: "u8 list"
  assume q: "rb_inv q" and "ringbuffer_capacity q \<le> length bs"
  then have "rb_end q \<le> length (rb_contents q) + length bs + 1" by (simp add: rb_capacity_eq)
  from write_refused [OF q this] show "ring_put q bs = Inr (q, 0)" by (simp add: ring_put_def)
next
  fix q n
  assume q: "rb_inv q"
  have "minValue (length (rb_contents q)) n \<le> length (replicate n (0 :: u8))"
    by (simp add: minValue_def)
  from ringbuffer_read_eq [OF q this, of bail] obtain r' where
    "ringbuffer_read bail q (Some (replicate n 0)) n =
      Inr (r', Some (take n (rb_contents q) @ drop (minValue (length (rb_contents q)) n) (replicate n 0)),
           minValue (length (rb_contents q)) n)"
    "rb_inv r'" "rb_contents r' = drop n (rb_contents q)" by blast
  then show "\<exists>q'. ring_get bail q n = Inr (q', take n (rb_contents q)) \<and> rb_inv q'
      \<and> rb_contents q' = drop n (rb_contents q)"
    by (intro exI [of _ r']) (simp add: ring_get_def minValue_def)
qed

section \<open>Lemmas: peeking\<close>

lemma contents_nth:
  assumes r: "rb_inv r" and i: "i < length (rb_contents r)"
  shows "rb_contents r ! i =
    rb_mem r ! (if rb_tail r + i < rb_end r then rb_tail r + i else rb_tail r + i - rb_end r)"
  using assms
  by (auto simp: rb_inv_def rb_contents_def nth_append add.commute split: if_splits)

lemma ringbuffer_peek_eq:
  assumes r: "rb_inv r" and i: "offset < length (rb_contents r)"
  shows "ringbuffer_peek r offset =
    (if rb_tail r + offset = rb_end r then Inl OutOfBounds
     else Inr (r, rb_contents r ! offset))"
proof -
  have o: "offset mod rb_capacity r = offset" "rb_capacity r \<noteq> 0" "offset < rb_end r"
    using r i rb_length_less [OF r] by (auto simp: rb_inv_def length_rb_contents)
  consider "rb_tail r + offset < rb_end r" | "rb_tail r + offset = rb_end r"
    | "rb_end r < rb_tail r + offset" by linarith
  then show ?thesis
    using r o contents_nth [OF r i]
    by cases (auto simp: ringbuffer_peek_def peek_ref_def sem_wait_eq load_def sem_post_unlocked
        rb_inv_def Let_def)
qed

lemma ringbuffer_peek32_eq:
  assumes r: "rb_inv r" and i: "offset + 3 < length (rb_contents r)"
    and clear: "rb_tail r + offset + 3 < rb_end r \<or> rb_end r < rb_tail r + offset + 1"
  shows "ringbuffer_peek32 r offset = Inr (r,
    ((push_bit 24 (ucast (rb_contents r ! (offset + 3)))
      OR push_bit 16 (ucast (rb_contents r ! (offset + 2))))
      OR push_bit 8 (ucast (rb_contents r ! (offset + 1))))
      OR ucast (rb_contents r ! (offset + 3)))"
proof -
  have "ringbuffer_peek r (offset + k) = Inr (r, rb_contents r ! (offset + k))"
    if "1 \<le> k" "k \<le> 3" for k
    using ringbuffer_peek_eq [OF r, of "offset + k"] i clear that by auto
  from this [of 1] this [of 2] this [of 3] show ?thesis
    by (simp add: ringbuffer_peek32_def)
qed

section \<open>Properties\<close>

text \<open>
  C6: The ring buffer is a queue. From a fresh buffer, whatever writes and reads follow and
  however they wrap around the end of the block, no operation faults or blocks, and the bytes
  the writes accepted are exactly the bytes the reads delivered followed by the bytes still in
  the buffer: nothing is lost, duplicated or reordered.
\<close>

theorem ring_fifo:
  assumes "0 < length junk" "length junk < 2 ^ 63"
  shows "\<exists>r accepted delivered.
    run_queue ring_put (ring_get bail) (ringbuffer_init junk) ops = Inr (r, accepted, delivered)
    \<and> rb_inv r \<and> accepted = delivered @ rb_contents r"
  using ring.run_fifo [of "ringbuffer_init junk" bail ops] rb_init_inv [OF assms] by auto

theorem ring_fifo_witness:
  "\<exists>r accepted delivered.
    run_queue ring_put (ring_get True) (ringbuffer_init [0, 0, 0, 0, 0])
      [Put [1, 2, 3], Get 2, Put [4, 5], Get 9] = Inr (r, accepted, delivered)
    \<and> rb_inv r \<and> accepted = delivered @ rb_contents r"
  by (rule ring_fifo) simp_all

text \<open>
  The outcome of every write to a live buffer. A block that leaves two bytes of the area
  free is appended whole to the contents; any other block, one of exactly
  \<open>ringbuffer_capacity\<close> bytes included, is refused whole, with 0 returned and the buffer
  unchanged. The header says only a block larger than the capacity is refused.
\<close>

theorem ring_write_outcome:
  assumes "rb_inv r" "len \<le> length buffer"
  shows "if len < ringbuffer_capacity r
    then \<exists>r'. ringbuffer_write r buffer len = Inr (r', len) \<and> rb_inv r'
           \<and> rb_contents r' = rb_contents r @ take len buffer
    else ringbuffer_write r buffer len = Inr (r, 0)"
proof (cases "len < ringbuffer_capacity r")
  case True
  then have "length (rb_contents r) + len + 1 < rb_end r"
    using assms(1) by (simp add: rb_capacity_eq)
  from write_accepted [OF assms(1) this assms(2)] True show ?thesis by auto
next
  case False
  then have "rb_end r \<le> length (rb_contents r) + len + 1"
    using assms(1) by (simp add: rb_capacity_eq)
  from write_refused [OF assms(1) this] False show ?thesis by simp
qed

theorem ring_write_outcome_witness:
  "ringbuffer_write (ringbuffer_init [0, 0, 0, 0]) [1, 2, 3] 3 = Inr (ringbuffer_init [0, 0, 0, 0], 0)"
  using ring_write_outcome [of "ringbuffer_init [0, 0, 0, 0]" 3 "[1, 2, 3]"]
  by (simp add: rb_init_inv rb_capacity_eq)

text \<open>
  What \<open>ringbuffer_peek\<close> of a byte that is there returns: that byte, and the buffer
  unchanged, except when the byte is the first one after the wrap. There
  \<open>ref > root->end\<close> does not hold, \<open>ref\<close> stays at \<open>end\<close>, and the read is one byte past the
  allocated block.
\<close>

theorem ring_peek_outcome:
  assumes "rb_inv r" "offset < length (rb_contents r)"
  shows "ringbuffer_peek r offset =
    (if rb_tail r + offset = rb_end r then Inl OutOfBounds
     else Inr (r, rb_contents r ! offset))"
  using assms by (rule ringbuffer_peek_eq)

theorem ring_peek_outcome_witness:
  "ringbuffer_peek \<lparr>rb_lock = 1, rb_mem = [7, 8, 9], rb_end = 3, rb_head = 1, rb_tail = 2,
      rb_capacity = 3\<rparr> 1 = Inl OutOfBounds"
  using ring_peek_outcome [of "\<lparr>rb_lock = 1, rb_mem = [7, 8, 9], rb_end = 3, rb_head = 1, rb_tail = 2,
      rb_capacity = 3\<rparr>" 1]
  by (simp add: rb_inv_def rb_contents_def)

text \<open>
  What \<open>ringbuffer_peek32\<close> returns for four bytes clear of the wrap: the bytes at
  \<open>offset+3\<close>, \<open>offset+2\<close>, \<open>offset+1\<close> and, in the lowest place, the byte at \<open>offset+3\<close> again.
  The byte at \<open>offset\<close> itself does not enter the value.
\<close>

theorem ring_peek32_outcome:
  assumes "rb_inv r" "offset + 3 < length (rb_contents r)"
    and "rb_tail r + offset + 3 < rb_end r \<or> rb_end r < rb_tail r + offset + 1"
  shows "ringbuffer_peek32 r offset = Inr (r,
    ((push_bit 24 (ucast (rb_contents r ! (offset + 3)))
      OR push_bit 16 (ucast (rb_contents r ! (offset + 2))))
      OR push_bit 8 (ucast (rb_contents r ! (offset + 1))))
      OR ucast (rb_contents r ! (offset + 3)))"
  using assms by (rule ringbuffer_peek32_eq)

theorem ring_peek32_outcome_witness:
  "ringbuffer_peek32 \<lparr>rb_lock = 1, rb_mem = [1, 2, 3, 4, 5, 6], rb_end = 6, rb_head = 5, rb_tail = 0,
      rb_capacity = 6\<rparr> 0 =
    Inr (\<lparr>rb_lock = 1, rb_mem = [1, 2, 3, 4, 5, 6], rb_end = 6, rb_head = 5, rb_tail = 0,
      rb_capacity = 6\<rparr>, 0x04030204)"
  using ring_peek32_outcome [of "\<lparr>rb_lock = 1, rb_mem = [1, 2, 3, 4, 5, 6], rb_end = 6, rb_head = 5,
      rb_tail = 0, rb_capacity = 6\<rparr>" 0]
  by (simp add: rb_inv_def rb_contents_def)

end
