(* ===== verification/Utility.thy ===== *)
theory Utility
  imports Prelude
begin

text \<open>
  \<open>lib/utility.c\<close> and what the programs use of \<open>strtoul\<close>. Strings are lists without their
  terminating zero, except in \<open>str_min_width\<close>, which works on the caller's block.

  A \<open>double\<close> that comes from a 64-bit integer is the integer rounded to 53 significant bits
  (\<open>double_of_u64\<close>, to nearest, ties to even); dividing it by 1024 is exact. The pair
  \<open>(m, k)\<close> stands for the double \<open>m / 1024 ^ k\<close>.
\<close>

section \<open>Strings\<close>

fun strlen_array_loop :: "string list \<Rightarrow> nat \<Rightarrow> nat \<Rightarrow> u32 \<Rightarrow> u32 result" where
  "strlen_array_loop arr i 0 count = Inr count"
| "strlen_array_loop arr i (Suc left) count =
     andThen (load arr i) (\<lambda>s. strlen_array_loop arr (i + 1) left (count + of_nat (length s)))"

definition strlen_array :: "nat \<Rightarrow> nat \<Rightarrow> string list \<Rightarrow> u32 result" where
  "strlen_array off len arr = strlen_array_loop arr off len 0"

text \<open>\<open>strlen\<close> of a block: the characters before the first zero, \<open>OutOfBounds\<close> without one.\<close>

fun strlen :: "u8 list \<Rightarrow> nat result" where
  "strlen [] = Inl OutOfBounds"
| "strlen (c # cs) = (if c = 0 then Inr 0 else andThen (strlen cs) (\<lambda>n. Inr (n + 1)))"

fun pad_loop :: "u8 list \<Rightarrow> u8 \<Rightarrow> nat \<Rightarrow> nat \<Rightarrow> u8 list result" where
  "pad_loop buffer pad p 0 = Inr buffer"
| "pad_loop buffer pad p (Suc left) =
     andThen (store buffer p pad) (\<lambda>buffer. pad_loop buffer pad (p + 1) left)"

definition str_min_width :: "u8 list \<Rightarrow> u8 \<Rightarrow> nat \<Rightarrow> u8 list result" where
  "str_min_width buffer pad_char width =
     andThen (strlen buffer) (\<lambda>len.
     if len < width then
       andThen (pad_loop buffer pad_char len (width - len)) (\<lambda>buffer. store buffer width 0)
     else Inr buffer)"

lemma strlen_zero: "0 \<notin> set cs \<Longrightarrow> strlen (cs @ 0 # rest) = Inr (length cs)"
  by (induction cs) auto

lemma pad_loop_middle:
  "p = length xs \<Longrightarrow> length ys = left \<Longrightarrow>
     pad_loop (xs @ ys @ zs) pad p left = Inr (xs @ replicate left pad @ zs)"
proof (induction left arbitrary: xs ys p)
  case (Suc left)
  obtain y ys' where ys: "ys = y # ys'" using Suc.prems(2) by (cases ys) auto
  have "store (xs @ (y # ys') @ zs) p pad = Inr ((xs @ [pad]) @ ys' @ zs)"
    using Suc.prems(1) store_middle [of p xs y "ys' @ zs" pad] by simp
  then show ?case
    using Suc.IH [of "Suc p" "xs @ [pad]" ys'] Suc.prems ys by simp
qed simp

text \<open>\<open>strtoul( s, NULL, base )\<close> of a string of digits; it stops at the first other character.\<close>

definition digit_value :: "char \<Rightarrow> nat option" where
  "digit_value c =
     (let n = of_char c :: nat in
      if 48 \<le> n \<and> n \<le> 57 then Some (n - 48)
      else if 97 \<le> n \<and> n \<le> 122 then Some (n - 87)
      else if 65 \<le> n \<and> n \<le> 90 then Some (n - 55)
      else None)"

fun digits :: "nat \<Rightarrow> string \<Rightarrow> nat \<Rightarrow> nat" where
  "digits base [] acc = acc"
| "digits base (c # cs) acc =
     (case digit_value c of
        None \<Rightarrow> acc
      | Some d \<Rightarrow> if d < base then digits base cs (acc * base + d) else acc)"

definition ULONG_MAX :: nat where "ULONG_MAX = 2 ^ 64 - 1"

definition strtoul :: "string \<Rightarrow> nat \<Rightarrow> u64" where
  "strtoul s base =
     (let s = dropWhile (\<lambda>c. c = CHR '' '' \<or> (9 \<le> (of_char c :: nat) \<and> (of_char c :: nat) \<le> 13)) s;
          neg = (s \<noteq> [] \<and> hd s = CHR ''-'');
          s = (if s \<noteq> [] \<and> (hd s = CHR ''-'' \<or> hd s = CHR ''+'') then tl s else s);
          s = (if base = 16 \<and> (take 2 s = ''0x'' \<or> take 2 s = ''0X'') then drop 2 s else s);
          n = digits base s 0
      in if ULONG_MAX < n then of_nat ULONG_MAX
         else if neg then - of_nat n else of_nat n)"

section \<open>Sizes\<close>

fun bit_length :: "nat \<Rightarrow> nat" where
  "bit_length n = (if n = 0 then 0 else Suc (bit_length (n div 2)))"

declare bit_length.simps [simp del]

definition double_of_u64 :: "u64 \<Rightarrow> nat" where
  "double_of_u64 x =
     (let n = unat x; e = bit_length n - 53; q = n div 2 ^ e; r = n mod 2 ^ e; half = 2 ^ e div 2 in
      if e = 0 then n
      else if half < r \<or> (r = half \<and> odd q) then (q + 1) * 2 ^ e
      else q * 2 ^ e)"

definition fmt_iec_sizeStr :: "string list" where
  "fmt_iec_sizeStr = [''B'', ''KiB'', ''MiB'', ''GiB'', ''TiB'', ''PiB'', ''EiB'', ''ZiB'', ''YiB'']"

fun fmt_iec_loop :: "nat \<Rightarrow> nat \<Rightarrow> nat \<Rightarrow> nat" where
  "fmt_iec_loop 0 m mul = mul"
| "fmt_iec_loop (Suc left) m mul =
     (if 1023 * 1024 ^ mul < m then fmt_iec_loop left m (mul + 1) else mul)"

text \<open>The scaled size, as \<open>(m, k)\<close>, and the unit; at most nine divisions.\<close>

definition fmt_iec_size :: "u64 \<Rightarrow> ((nat \<times> nat) \<times> string) result" where
  "fmt_iec_size sz =
     (let m = double_of_u64 sz; mul = fmt_iec_loop 9 m 0 in
      andThen (load fmt_iec_sizeStr mul) (\<lambda>u. Inr ((m, mul), u)))"

lemma bit_length_bound: "n < 2 ^ bit_length n"
proof (induction n rule: bit_length.induct)
  case (1 n)
  show ?case
  proof (cases "n = 0")
    case False
    then have "n div 2 < 2 ^ bit_length (n div 2)" using 1 by blast
    then have "n < 2 * 2 ^ bit_length (n div 2)" by linarith
    then show ?thesis using False by (simp add: bit_length.simps [of n])
  qed (simp add: bit_length.simps)
qed

lemma bit_length_le: "m < 2 ^ k \<Longrightarrow> bit_length m \<le> k"
proof (induction k arbitrary: m)
  case (Suc k)
  then show ?case using Suc.IH [of "m div 2"] by (subst bit_length.simps) auto
qed (simp add: bit_length.simps)

lemma double_of_u64_bound: "double_of_u64 x \<le> 2 ^ 65"
proof -
  define n e where "n = unat x" and "e = bit_length n - 53"
  have n: "n < 2 ^ 64" using unsigned_less [of x] by (simp add: n_def)
  have q: "n div 2 ^ e * 2 ^ e \<le> n" by (rule div_times_less_eq_dividend)
  have "double_of_u64 x \<le> n + 2 ^ e \<or> double_of_u64 x \<le> n"
    using q by (auto simp: double_of_u64_def Let_def n_def [symmetric] e_def [symmetric])
  moreover have "(2 :: nat) ^ e \<le> 2 ^ 64"
  proof (rule power_increasing)
    have "bit_length n \<le> 64" using n by (rule bit_length_le)
    then show "e \<le> 64" by (simp add: e_def)
  qed simp
  ultimately show ?thesis using n by auto
qed

lemma fmt_iec_loop_bound:
  "m \<le> 1023 * 1024 ^ k \<Longrightarrow> mul \<le> k \<Longrightarrow> fmt_iec_loop left m mul \<le> k"
proof (induction left arbitrary: mul)
  case (Suc left)
  show ?case
  proof (cases "mul = k")
    case True
    then show ?thesis using Suc.prems by simp
  next
    case False
    then show ?thesis using Suc by simp
  qed
qed simp

lemma fmt_iec_loop_exit:
  "m \<le> 1023 * 1024 ^ k \<Longrightarrow> k < mul + left \<Longrightarrow> mul \<le> k \<Longrightarrow>
     m \<le> 1023 * 1024 ^ fmt_iec_loop left m mul"
proof (induction left arbitrary: mul)
  case (Suc left)
  show ?case
  proof (cases "1023 * 1024 ^ mul < m")
    case True
    then have "mul \<noteq> k" using Suc.prems(1) by auto
    then show ?thesis using Suc True by simp
  qed simp
qed simp

lemma fmt_iec_size_eq:
  "fmt_iec_size sz = Inr ((double_of_u64 sz, fmt_iec_loop 9 (double_of_u64 sz) 0),
     fmt_iec_sizeStr ! fmt_iec_loop 9 (double_of_u64 sz) 0) \<and>
   fmt_iec_loop 9 (double_of_u64 sz) 0 \<le> 6 \<and>
   double_of_u64 sz \<le> 1023 * 1024 ^ fmt_iec_loop 9 (double_of_u64 sz) 0"
proof -
  let ?m = "double_of_u64 sz" and ?k = "fmt_iec_loop 9 (double_of_u64 sz) 0"
  have b: "?m \<le> 1023 * 1024 ^ 6" using double_of_u64_bound [of sz] by simp
  have "?k \<le> 6" using fmt_iec_loop_bound [OF b, of 0 9] by simp
  moreover have "?m \<le> 1023 * 1024 ^ ?k" using fmt_iec_loop_exit [OF b, of 0 9] by simp
  ultimately show ?thesis by (simp add: fmt_iec_size_def Let_def load_def fmt_iec_sizeStr_def)
qed

lemma fmt_iec_size_total: "\<exists>b. fmt_iec_size sz = Inr b"
  using fmt_iec_size_eq by blast

text \<open>
  Formatting a byte counter never indexes the nine unit names out of range, whatever the
  counter: at most six divisions happen (the loop's own bound of nine would be one too many), and
  the number printed is at most 1023 of its unit.
\<close>

theorem fmt_iec_size_in_range:
  "\<exists>m mul. fmt_iec_size sz = Inr ((m, mul), fmt_iec_sizeStr ! mul) \<and> mul \<le> 6 \<and>
     m \<le> 1023 * 1024 ^ mul \<and> m = double_of_u64 sz"
  using fmt_iec_size_eq by blast

section \<open>Decimal units\<close>

text \<open>
  \<open>fmt_si_size\<close> divides a double by 1000, which rounds. The pair \<open>(n, d)\<close> stands for the double
  \<open>n / d\<close> with \<open>d\<close> a power of 2; \<open>div_1000\<close> is the quotient rounded to 53 significant bits, to nearest,
  ties to even: \<open>q0\<close> has more bits than that for every size above 999, and \<open>r0\<close> says whether bits
  below it are cut off.
\<close>

definition round_53 :: "nat \<Rightarrow> bool \<Rightarrow> nat" where
  "round_53 q0 sticky =
     (let e = bit_length q0 - 53; q = q0 div 2 ^ e; r = q0 mod 2 ^ e; half = 2 ^ e div 2 in
      if e = 0 then q0
      else if half < r \<or> (r = half \<and> (sticky \<or> odd q)) then (q + 1) * 2 ^ e
      else q * 2 ^ e)"

definition div_1000 :: "nat \<times> nat \<Rightarrow> nat \<times> nat" where
  "div_1000 x = (case x of (n, d) \<Rightarrow>
     (round_53 (n * 2 ^ 60 div (1000 * d)) (n * 2 ^ 60 mod (1000 * d) \<noteq> 0), 2 ^ 60))"

definition fmt_si_sizeStr :: "string list" where
  "fmt_si_sizeStr = [''B'', ''kB'', ''MB'', ''GB'', ''TB'', ''PB'', ''EB'', ''ZB'', ''YB'']"

fun fmt_si_loop :: "nat \<Rightarrow> nat \<times> nat \<Rightarrow> nat \<Rightarrow> (nat \<times> nat) \<times> nat" where
  "fmt_si_loop 0 x mul = (x, mul)"
| "fmt_si_loop (Suc left) x mul =
     (if 999 * snd x < fst x then fmt_si_loop left (div_1000 x) (mul + 1) else (x, mul))"

definition fmt_si_size :: "u64 \<Rightarrow> ((nat \<times> nat) \<times> string) result" where
  "fmt_si_size sz =
     (case fmt_si_loop 9 (double_of_u64 sz, 1) 0 of (x, mul) \<Rightarrow>
        andThen (load fmt_si_sizeStr mul) (\<lambda>u. Inr (x, u)))"

lemma round_53_le: "round_53 q0 sticky \<le> 2 * q0"
proof -
  define e where "e = bit_length q0 - 53"
  have cut: "q0 div 2 ^ e * 2 ^ e \<le> q0" by (rule div_times_less_eq_dividend)
  show ?thesis
  proof (cases "e = 0")
    case True
    then have "round_53 q0 sticky = q0" by (simp only: round_53_def Let_def e_def [symmetric]) simp
    then show ?thesis by simp
  next
    case False
    have "2 ^ e \<le> q0"
    proof (rule ccontr)
      assume "\<not> 2 ^ e \<le> q0"
      then have "bit_length q0 \<le> e" by (intro bit_length_le) simp
      then show False using False by (simp add: e_def)
    qed
    moreover have "round_53 q0 sticky \<le> (q0 div 2 ^ e + 1) * 2 ^ e"
      by (simp only: round_53_def Let_def e_def [symmetric] False if_False) simp
    ultimately show ?thesis using cut unfolding add_mult_distrib mult_1 by linarith
  qed
qed

text \<open>After \<open>k\<close> divisions the size is at most \<open>2 ^ 65 / 500 ^ k\<close>.\<close>

definition si_bound :: "nat \<times> nat \<Rightarrow> nat \<Rightarrow> bool" where
  "si_bound x k \<longleftrightarrow> fst x * 500 ^ k \<le> 2 ^ 65 * snd x \<and> 0 < snd x"

lemma scaled_bound:
  fixes n d q A B C P :: nat
  assumes "q * (C * d) \<le> n * A" "n * P \<le> B * d" "0 < d"
  shows "q * C * P \<le> B * A"
proof -
  have "(q * C * P) * d = q * (C * d) * P" by (simp add: mult.commute mult.left_commute)
  also have "\<dots> \<le> n * A * P" by (rule mult_le_mono1 [OF assms(1)])
  also have "\<dots> = n * P * A" by (simp add: mult.commute mult.left_commute)
  also have "\<dots> \<le> B * d * A" by (rule mult_le_mono1 [OF assms(2)])
  also have "\<dots> = (B * A) * d" by (simp add: mult.commute mult.left_commute)
  finally show ?thesis using assms(3) by simp
qed

lemma si_bound_step:
  assumes "si_bound x k"
  shows "si_bound (div_1000 x) (Suc k)"
proof -
  obtain n d where x: "x = (n, d)" by (cases x)
  define A :: nat where "A = 2 ^ 60"
  define q where "q = n * A div (1000 * d)"
  have b: "n * 500 ^ k \<le> 2 ^ 65 * d" "0 < d" using assms x by (simp_all add: si_bound_def)
  have "q * (1000 * d) \<le> n * A" unfolding q_def by (rule div_times_less_eq_dividend)
  then have q: "q * 1000 * 500 ^ k \<le> 2 ^ 65 * A" by (rule scaled_bound [OF _ b])
  have half: "round_53 q s * 500 ^ Suc k \<le> 2 ^ 65 * A" for s
  proof -
    have "round_53 q s * 500 ^ Suc k \<le> 2 * q * 500 ^ Suc k" by (rule mult_le_mono1 [OF round_53_le])
    also have "\<dots> = q * 1000 * 500 ^ k" by simp
    finally show ?thesis using q by (rule order_trans)
  qed
  have "div_1000 x = (round_53 q (n * A mod (1000 * d) \<noteq> 0), A)" by (simp only: div_1000_def x prod.case q_def A_def)
  moreover have "0 < A" by (simp add: A_def)
  ultimately show ?thesis using half by (simp only: si_bound_def fst_conv snd_conv simp_thms)
qed

lemma fmt_si_loop_exit:
  "si_bound x mul \<Longrightarrow> mul \<le> 7 \<Longrightarrow> 7 < mul + left \<Longrightarrow>
   (case fmt_si_loop left x mul of (y, mul') \<Rightarrow> mul' \<le> 7 \<and> fst y \<le> 999 * snd y)"
proof (induction left arbitrary: x mul)
  case (Suc left)
  show ?case
  proof (cases "999 * snd x < fst x")
    case True
    have "mul < 7"
    proof (rule ccontr)
      assume "\<not> mul < 7"
      then have "mul = 7" using Suc.prems(2) by simp
      then show False using True Suc.prems(1) by (simp add: si_bound_def)
    qed
    then show ?thesis using Suc.IH [OF si_bound_step [OF Suc.prems(1)]] Suc.prems(3) True by simp
  qed (use Suc.prems in simp)
qed simp

lemma fmt_si_size_in_range:
  "\<exists>x mul. fmt_si_size sz = Inr (x, fmt_si_sizeStr ! mul) \<and> mul \<le> 7 \<and> fst x \<le> 999 * snd x"
proof -
  have "si_bound (double_of_u64 sz, 1) 0" using double_of_u64_bound [of sz] by (simp add: si_bound_def)
  then show ?thesis
    using fmt_si_loop_exit [of "(double_of_u64 sz, 1)" 0 9]
    by (auto simp: fmt_si_size_def load_def fmt_si_sizeStr_def split: prod.splits)
qed

end
