(* ===== verification/GraphNetwork.thy ===== *)
theory GraphNetwork
  imports Packet Asserts
begin

text \<open>
  \<open>lib/GraphNetwork.h\<close> and \<open>lib/GraphNetwork.c\<close>: the packet header, the emitters that
  frame a payload, the framing parser \<open>gnw_nextPacket\<close> and the header parser.

  On the wire a packet is 11 bytes of header (magic, version, type, source, length) and the
  payload. The global counters \<open>link_stats\<close> and the bytes the kernel took for each
  descriptor are the record \<open>net\<close>. The kernel's \<open>write\<close> is the argument \<open>wr\<close>: it returns
  how many bytes it took, or -1.
\<close>

section \<open>Constants and types\<close>

definition GNW_VERSION :: u8 where "GNW_VERSION = 2"
definition GNW_MAGIC :: u8 where "GNW_MAGIC = 0x55"

definition GNW_INVALID :: u8 where "GNW_INVALID = 0x0"
definition GNW_DATA :: u8 where "GNW_DATA = 0x10"
definition GNW_COMMAND :: u8 where "GNW_COMMAND = 0xF0"
definition GNW_REPLY :: u8 where "GNW_REPLY = 0x01"

definition GNW_STATE_OPEN :: int where "GNW_STATE_OPEN = 0x00"
definition GNW_STATE_RUN :: int where "GNW_STATE_RUN = 0x02"
definition GNW_STATE_CLOSE :: int where "GNW_STATE_CLOSE = 0xFE"
definition GNW_STATE_ZOMBIE :: int where "GNW_STATE_ZOMBIE = 0xFF"

definition GNW_CMD_NEW_ADDRESS :: u8 where "GNW_CMD_NEW_ADDRESS = 0x1"
definition GNW_CMD_STATUS :: u8 where "GNW_CMD_STATUS = 0x2"
definition GNW_CMD_POLICY :: u8 where "GNW_CMD_POLICY = 0x3"
definition GNW_CMD_CONNECT :: u8 where "GNW_CMD_CONNECT = 0x4"
definition GNW_CMD_DISCONNECT :: u8 where "GNW_CMD_DISCONNECT = 0x5"

definition GNW_POLICY_BROADCAST :: u8 where "GNW_POLICY_BROADCAST = 0"
definition GNW_POLICY_ANYCAST :: u8 where "GNW_POLICY_ANYCAST = 1"
definition GNW_POLICY_ROUNDROBIN :: u8 where "GNW_POLICY_ROUNDROBIN = 2"

lemmas gnw_constants =
  GNW_VERSION_def GNW_MAGIC_def GNW_INVALID_def GNW_DATA_def GNW_COMMAND_def GNW_REPLY_def
  GNW_CMD_NEW_ADDRESS_def GNW_CMD_STATUS_def GNW_CMD_POLICY_def GNW_CMD_CONNECT_def
  GNW_CMD_DISCONNECT_def GNW_POLICY_BROADCAST_def GNW_POLICY_ANYCAST_def
  GNW_POLICY_ROUNDROBIN_def GNW_STATE_OPEN_def GNW_STATE_RUN_def GNW_STATE_CLOSE_def
  GNW_STATE_ZOMBIE_def

type_synonym gnw_address = u32

record gnw_stats =
  bytesWritten :: u64
  bytesRead :: u64
  dataPackets :: u64
  commandPackets :: u64

record gnw_header =
  hdr_magic :: u8
  hdr_version :: u8
  hdr_type :: u8
  hdr_source :: gnw_address
  hdr_length :: u32

record net =
  link_stats :: gnw_stats
  sent :: "(int \<times> u8 list) list"

section \<open>Text output\<close>

definition hex_digit :: "nat \<Rightarrow> char" where
  "hex_digit n = ''0123456789abcdef'' ! n"

text \<open>\<open>printf( "%02x", b )\<close> of a byte.\<close>

definition hex02 :: "u8 \<Rightarrow> string" where
  "hex02 b = [hex_digit (unat b div 16), hex_digit (unat b mod 16)]"

text \<open>\<open>printf( "%d", n )\<close>.\<close>

fun decimal_nat :: "nat \<Rightarrow> string" where
  "decimal_nat n =
     (if n < 10 then [hex_digit n] else decimal_nat (n div 10) @ [hex_digit (n mod 10)])"

declare decimal_nat.simps [simp del]

definition decimal :: "int \<Rightarrow> string" where
  "decimal i = (if i < 0 then CHR 0x2D # decimal_nat (nat (- i)) else decimal_nat (nat i))"

text \<open>
  \<open>gnw_format_address\<close> walks the bytes of the address in memory from the last to the
  first: on a little-endian host the most significant byte comes first.
\<close>

fun format_address_loop :: "u8 list \<Rightarrow> nat \<Rightarrow> string" where
  "format_address_loop tmp 0 = []"
| "format_address_loop tmp (Suc i) =
     hex02 (tmp ! i) @ (if i > 0 then '':'' else []) @ format_address_loop tmp i"

definition gnw_format_address :: "gnw_address \<Rightarrow> string" where
  "gnw_format_address address = format_address_loop (bytes32 address) 4"

text \<open>
  \<open>gnw_dumpPacket\<close>. \<open>sizeof(gnw_header_t)\<close> is 12 (the compiler pads the three bytes before
  \<open>source\<close>), one more than the header's 11 bytes on the wire; the loop runs while
  \<open>i <= payload_length\<close>.
\<close>

definition sizeof_gnw_header :: int where "sizeof_gnw_header = 12"

fun dump_bytes :: "u8 list \<Rightarrow> nat \<Rightarrow> nat \<Rightarrow> string result" where
  "dump_bytes buffer p 0 = Inr []"
| "dump_bytes buffer p (Suc left) =
     andThen (load buffer p) (\<lambda>b.
     andThen (dump_bytes buffer (p + 1) left) (\<lambda>rest.
     Inr (hex02 b @ '' '' @ rest)))"

definition gnw_dumpPacket :: "u8 list \<Rightarrow> int \<Rightarrow> string result" where
  "gnw_dumpPacket buffer len0 =
     andThen (packet_read_u8 buffer 0) (\<lambda>(magic, ptr).
     andThen (packet_read_u8 buffer ptr) (\<lambda>(version, ptr).
     andThen (packet_read_u8 buffer ptr) (\<lambda>(type, ptr).
     andThen (packet_read_u32 buffer ptr) (\<lambda>(src, ptr).
     andThen (packet_read_u32 buffer ptr) (\<lambda>(hlen, ptr).
     (let len = (if len0 = -1 then uint hlen + sizeof_gnw_header else len0);
          payload_length = len - sizeof_gnw_header;
          etc = 32 < payload_length;
          payload_length = (if etc then 32 else payload_length)
      in andThen (dump_bytes buffer ptr (nat (payload_length + 1))) (\<lambda>dump.
         Inr (''Packet<magic='' @ (if magic = GNW_MAGIC then ''ok'' else ''BAD'') @ '', ''
            @ ''version='' @ decimal (uint version) @ '', ''
            @ ''source='' @ gnw_format_address src @ '', ''
            @ ''type='' @ (if type = GNW_COMMAND then ''COMMAND, ''
                           else if type = GNW_DATA then ''DATA, ''
                           else if type = GNW_INVALID then ''INVALID, ''
                           else (if unat type < 16 then '' '' @ [hex_digit (unat type)]
                                 else hex02 type) @ '', '')
            @ ''length='' @ decimal (sint hlen) @ ''> ''
            @ ''[ '' @ dump @ (if etc then ''... etc '' else []) @ '']'' @ [CHR 0x0A]))))))))"

section \<open>Emitting packets\<close>

definition gnw_emitPacket ::
    "(int \<Rightarrow> u8 list \<Rightarrow> int) \<Rightarrow> net \<Rightarrow> int \<Rightarrow> u8 list \<Rightarrow> nat \<Rightarrow> net result" where
  "gnw_emitPacket wr n fd buffer len =
     andThen (load_block buffer 0 len) (\<lambda>bs.
     (let written = wr fd bs in
      Inr (n\<lparr>link_stats := (link_stats n)
               \<lparr>bytesWritten := bytesWritten (link_stats n) + of_int written\<rparr>,
             sent := sent n @ (if 0 < written then [(fd, take (nat written) bs)] else [])\<rparr>)))"

text \<open>
  Both emitters fill a fresh block of \<open>len + 11\<close> zeroed bytes with the header, then the
  payload unless \<open>buffer\<close> is a null pointer.
\<close>

definition write_header ::
    "u8 list \<Rightarrow> nat \<Rightarrow> u8 \<Rightarrow> gnw_address \<Rightarrow> u32 \<Rightarrow> (u8 list \<times> nat) result" where
  "write_header packet ptr type source len =
     andThen (packet_write_u8 packet ptr GNW_MAGIC) (\<lambda>(packet, ptr).
     andThen (packet_write_u8 packet ptr GNW_VERSION) (\<lambda>(packet, ptr).
     andThen (packet_write_u8 packet ptr type) (\<lambda>(packet, ptr).
     andThen (packet_write_u32 packet ptr source) (\<lambda>(packet, ptr).
     packet_write_u32 packet ptr len))))"

definition frame_packet ::
    "u8 \<Rightarrow> gnw_address \<Rightarrow> u8 list option \<Rightarrow> nat \<Rightarrow> u8 list result" where
  "frame_packet type source buffer len =
     (let packet = replicate (len + 11) 0 in
      andThen (write_header packet 0 type source (of_nat len)) (\<lambda>(packet, ptr).
      case buffer of
        None \<Rightarrow> Inr packet
      | Some b \<Rightarrow> andThen (load_block b 0 len) (\<lambda>bs. store_block packet ptr bs)))"

definition gnw_emitDataPacket ::
    "(int \<Rightarrow> u8 list \<Rightarrow> int) \<Rightarrow> net \<Rightarrow> int \<Rightarrow> gnw_address \<Rightarrow> u8 list option \<Rightarrow> nat \<Rightarrow> net result"
where
  "gnw_emitDataPacket wr n fd source buffer len =
     (if len = 0 then Inr n
      else
        (let n = n\<lparr>link_stats := (link_stats n)
                     \<lparr>dataPackets := dataPackets (link_stats n) + 1\<rparr>\<rparr> in
         andThen (frame_packet GNW_DATA source buffer len) (\<lambda>packet.
         gnw_emitPacket wr n fd packet (len + 11))))"

definition gnw_emitCommandPacket ::
    "(int \<Rightarrow> u8 list \<Rightarrow> int) \<Rightarrow> net \<Rightarrow> int \<Rightarrow> u8 \<Rightarrow> u8 list option \<Rightarrow> nat \<Rightarrow> net result" where
  "gnw_emitCommandPacket wr n fd type buffer len =
     (let n = n\<lparr>link_stats := (link_stats n)
                  \<lparr>commandPackets := commandPackets (link_stats n) + 1\<rparr>\<rparr> in
      andThen (frame_packet type 0xFFFFFFFF buffer len) (\<lambda>packet.
      gnw_emitPacket wr n fd packet (len + 11)))"

definition gnw_sendCommand :: "(int \<Rightarrow> u8 list \<Rightarrow> int) \<Rightarrow> net \<Rightarrow> int \<Rightarrow> u8 \<Rightarrow> net result" where
  "gnw_sendCommand wr n fd command =
     gnw_emitCommandPacket wr n fd GNW_COMMAND (Some [command]) 1"

definition gnw_request_connect ::
    "(int \<Rightarrow> u8 list \<Rightarrow> int) \<Rightarrow> net \<Rightarrow> int \<Rightarrow> gnw_address \<Rightarrow> gnw_address \<Rightarrow> net result" where
  "gnw_request_connect wr n fd source target =
     (let cbuffer = replicate 9 0; ptr = 0 in
      andThen (packet_write_u8 cbuffer ptr GNW_CMD_CONNECT) (\<lambda>(cbuffer, ptr).
      andThen (packet_write_u32 cbuffer ptr source) (\<lambda>(cbuffer, ptr).
      andThen (packet_write_u32 cbuffer ptr target) (\<lambda>(cbuffer, ptr).
      gnw_emitCommandPacket wr n fd GNW_COMMAND (Some cbuffer) 9))))"

section \<open>Parsing packets\<close>

text \<open>
  \<open>gnw_nextPacket\<close>: 0 is "not enough data", a negative number asks the caller to drop a
  byte, a positive one is the length of the packet at the start of the buffer.
  \<open>11 + header.length\<close> is computed in 32 bits and wraps.
\<close>

definition gnw_nextPacket :: "u8 list \<Rightarrow> nat \<Rightarrow> int result" where
  "gnw_nextPacket buffer buffer_length =
     (if buffer_length < 11 then Inr 0
      else andThen (load buffer 0) (\<lambda>b0.
       if b0 \<noteq> GNW_MAGIC then Inr (-1)
       else
         andThen (packet_read_u8 buffer 0) (\<lambda>(magic, ptr).
         andThen (packet_read_u8 buffer ptr) (\<lambda>(version, ptr).
         andThen (packet_read_u8 buffer ptr) (\<lambda>(type, ptr).
         andThen (packet_read_u32 buffer ptr) (\<lambda>(source, ptr).
         andThen (packet_read_u32 buffer ptr) (\<lambda>(len, ptr).
         if version \<noteq> GNW_VERSION then Inr (-2)
         else if unat (11 + len) \<le> buffer_length then Inr (uint (11 + len))
         else Inr 0)))))))"

definition gnw_parse_header :: "bool \<Rightarrow> u8 list \<Rightarrow> (gnw_header \<times> nat) result" where
  "gnw_parse_header bail buffer =
     andThen (packet_read_u8 buffer 0) (\<lambda>(magic, ptr).
     andThen (packet_read_u8 buffer ptr) (\<lambda>(version, ptr).
     andThen (packet_read_u8 buffer ptr) (\<lambda>(type, ptr).
     andThen (packet_read_u32 buffer ptr) (\<lambda>(source, ptr).
     andThen (packet_read_u32 buffer ptr) (\<lambda>(len, ptr).
     andThen (assert_that bail (magic = GNW_MAGIC)) (\<lambda>_.
     andThen (assert_that bail (version = GNW_VERSION)) (\<lambda>_.
     Inr (\<lparr>hdr_magic = magic, hdr_version = version, hdr_type = type,
           hdr_source = source, hdr_length = len\<rparr>, ptr))))))))"

section \<open>Lemmas: frames\<close>

text \<open>The bytes of a packet on the wire.\<close>

definition frame_bytes :: "u8 \<Rightarrow> gnw_address \<Rightarrow> u8 list \<Rightarrow> u8 list" where
  "frame_bytes type source payload =
     [GNW_MAGIC, GNW_VERSION, type] @ bytes32 source @ bytes32 (of_nat (length payload)) @ payload"

lemma length_frame_bytes [simp]: "length (frame_bytes t s pl) = 11 + length pl"
  by (simp add: frame_bytes_def)

lemma take_frame_header: "take 11 (frame_bytes t s pl) =
    [GNW_MAGIC, GNW_VERSION, t] @ bytes32 s @ bytes32 (of_nat (length pl))"
  by (simp add: frame_bytes_def)

lemma drop_frame_header [simp]: "drop 11 (frame_bytes t s pl) = pl"
  by (simp add: frame_bytes_def)

lemma write_header_zero:
  "write_header (replicate (len + 11) 0) 0 t s v =
     Inr (([GNW_MAGIC, GNW_VERSION, t] @ bytes32 s @ bytes32 v) @ replicate len 0, 11)"
proof -
  have z: "replicate (len + 11) (0 :: u8) =
      [0, 0, 0] @ replicate 4 0 @ replicate 4 0 @ replicate len 0"
    by (simp add: replicate_add [symmetric] numeral_eq_Suc)
  let ?h = "[GNW_MAGIC, GNW_VERSION, t]"
  have "packet_write_u32 (?h @ replicate 4 0 @ replicate 4 0 @ replicate len 0) 3 s
      = Inr (?h @ bytes32 s @ replicate 4 0 @ replicate len 0, 3 + 4)"
    by (rule packet_write_u32_on_middle) simp_all
  moreover have "packet_write_u32 ((?h @ bytes32 s) @ replicate 4 0 @ replicate len 0) 7 v
      = Inr ((?h @ bytes32 s) @ bytes32 v @ replicate len 0, 7 + 4)"
    by (rule packet_write_u32_on_middle) simp_all
  ultimately show ?thesis
    unfolding write_header_def z
    by (simp add: packet_write_u8_def store_def small_numerals)
qed

lemma frame_packet_eq:
  assumes "len \<le> length b"
  shows "frame_packet t s (Some b) len = Inr (frame_bytes t s (take len b))"
  using assms
  by (simp add: frame_packet_def write_header_zero load_block_def store_block_def frame_bytes_def)

lemma frame_packet_overread:
  "length b < len \<Longrightarrow> frame_packet t s (Some b) len = Inl OutOfBounds"
  by (simp add: frame_packet_def write_header_zero load_block_def)

lemma gnw_emitPacket_eq:
  "len \<le> length buffer \<Longrightarrow> wr fd (take len buffer) = int len \<Longrightarrow> 0 < len \<Longrightarrow>
     gnw_emitPacket wr n fd buffer len =
       Inr (n\<lparr>link_stats := (link_stats n)
                \<lparr>bytesWritten := bytesWritten (link_stats n) + of_nat len\<rparr>,
              sent := sent n @ [(fd, take len buffer)]\<rparr>)"
  by (simp add: gnw_emitPacket_def load_block_def)

section \<open>Lemmas: the framing parser\<close>

text \<open>The length field of the packet at the start of a buffer.\<close>

definition wire_length :: "u8 list \<Rightarrow> u32" where
  "wire_length buffer = word32_at LittleEndian buffer 7"

lemma gnw_nextPacket_eq:
  assumes "n \<le> length buffer"
  shows "gnw_nextPacket buffer n = Inr
    (if n < 11 then 0
     else if buffer ! 0 \<noteq> GNW_MAGIC then -1
     else if buffer ! 1 \<noteq> GNW_VERSION then -2
     else if unat (11 + wire_length buffer) \<le> n then uint (11 + wire_length buffer)
     else 0)"
  using assms
  by (auto simp: gnw_nextPacket_def load_def packet_read_u8_in packet_read_u32_on_in wire_length_def)

lemma wire_length_frame:
  "wire_length (frame_bytes t s pl @ rest) = of_nat (length pl)"
proof -
  have "word32_at LittleEndian
     (([GNW_MAGIC, GNW_VERSION, t] @ bytes32 s) @ bytes32 (of_nat (length pl)) @ (pl @ rest)) 7
     = of_nat (length pl)"
    by (rule word32_at_middle) simp
  then show ?thesis by (simp add: wire_length_def frame_bytes_def)
qed

lemma unat_11_plus: "11 + k < 2 ^ 32 \<Longrightarrow> unat (11 + of_nat k :: u32) = 11 + k"
proof -
  assume "11 + k < 2 ^ 32"
  then have "unat (of_nat (11 + k) :: u32) = 11 + k"
    by (subst unat_of_nat) simp
  then show ?thesis by simp
qed

lemma gnw_nextPacket_frame:
  assumes "11 + length pl < 2 ^ 32" "11 + length pl \<le> n" "n \<le> 11 + length pl + length rest"
  shows "gnw_nextPacket (frame_bytes t s pl @ rest) n = Inr (11 + int (length pl))"
proof -
  have u: "unat (11 + of_nat (length pl) :: u32) = 11 + length pl"
    using assms(1) by (rule unat_11_plus)
  then have "uint (11 + of_nat (length pl) :: u32) = 11 + int (length pl)"
    by (metis of_nat_add of_nat_numeral uint_nat)
  moreover have "(frame_bytes t s pl @ rest) ! 0 = GNW_MAGIC" "(frame_bytes t s pl @ rest) ! 1 = GNW_VERSION"
    by (simp_all add: frame_bytes_def)
  ultimately show ?thesis
    using assms u by (simp add: gnw_nextPacket_eq wire_length_frame)
qed

lemma gnw_nextPacket_partial:
  assumes "11 + length pl < 2 ^ 32" "n < 11 + length pl" "n \<le> length buffer"
    "take n buffer = take n (frame_bytes t s pl)"
  shows "gnw_nextPacket buffer n = Inr 0"
proof (cases "n < 11")
  case True
  then show ?thesis using assms(3) by (simp add: gnw_nextPacket_eq)
next
  case False
  have nth: "buffer ! i = frame_bytes t s pl ! i" if "i < 11" for i
    using assms(4) that False by (metis linorder_not_less nth_take order_less_le_trans)
  have "wire_length buffer = wire_length (frame_bytes t s pl)"
    unfolding wire_length_def word32_at_def by (simp add: nth)
  also have "\<dots> = of_nat (length pl)"
    using wire_length_frame [of t s pl "[]"] by simp
  finally have w: "wire_length buffer = of_nat (length pl)" .
  have "buffer ! 0 = GNW_MAGIC" "buffer ! 1 = GNW_VERSION"
    using nth [of 0] nth [of 1] by (simp_all add: frame_bytes_def)
  then show ?thesis
    using assms(2,3) False by (simp add: gnw_nextPacket_eq w unat_11_plus [OF assms(1)])
qed

lemma header_reads:
  assumes "11 \<le> length buffer"
  shows "packet_read_u8 buffer 0 = Inr (buffer ! 0, 1)" "packet_read_u8 buffer 1 = Inr (buffer ! 1, 2)"
    "packet_read_u8 buffer 2 = Inr (buffer ! 2, 3)"
    "packet_read_u32 buffer 3 = Inr (word32_at LittleEndian buffer 3, 7)"
    "packet_read_u32 buffer 7 = Inr (wire_length buffer, 11)"
proof -
  have "0 < length buffer" "1 < length buffer" "2 < length buffer" "3 + 4 \<le> length buffer"
    "7 + 4 \<le> length buffer"
    using assms by linarith+
  then show "packet_read_u8 buffer 0 = Inr (buffer ! 0, 1)" "packet_read_u8 buffer 1 = Inr (buffer ! 1, 2)"
    "packet_read_u8 buffer 2 = Inr (buffer ! 2, 3)"
    "packet_read_u32 buffer 3 = Inr (word32_at LittleEndian buffer 3, 7)"
    "packet_read_u32 buffer 7 = Inr (wire_length buffer, 11)"
    by (simp_all add: wire_length_def packet_read_u8_def load_def packet_read_u32_on_in
        small_numerals)
qed

lemma gnw_parse_header_eq:
  assumes "11 \<le> length buffer"
  shows "gnw_parse_header bail buffer =
    (if bail \<and> (buffer ! 0 \<noteq> GNW_MAGIC \<or> buffer ! 1 \<noteq> GNW_VERSION) then Inl (Exit EXIT_FAILURE)
     else Inr (\<lparr>hdr_magic = buffer ! 0, hdr_version = buffer ! 1, hdr_type = buffer ! 2,
       hdr_source = word32_at LittleEndian buffer 3, hdr_length = wire_length buffer\<rparr>, 11))"
  unfolding gnw_parse_header_def header_reads [OF assms] andThen.simps prod.case
  by (cases bail) auto

lemma gnw_parse_header_short:
  "length buffer < 11 \<Longrightarrow> gnw_parse_header bail buffer = Inl OutOfBounds"
  by (auto simp: gnw_parse_header_def packet_read_u8_def load_def packet_read_u32_on_def)

lemma frame_bytes_nth:
  "(frame_bytes t s pl @ rest) ! 0 = GNW_MAGIC"
  "(frame_bytes t s pl @ rest) ! 1 = GNW_VERSION"
  "(frame_bytes t s pl @ rest) ! 2 = t"
  by (simp_all add: frame_bytes_def)

lemma frame_bytes_source: "word32_at LittleEndian (frame_bytes t s pl @ rest) 3 = s"
proof -
  have "word32_at LittleEndian
      ([GNW_MAGIC, GNW_VERSION, t] @ bytes32 s @ (bytes32 (of_nat (length pl)) @ pl @ rest)) 3 = s"
    by (rule word32_at_middle) simp
  then show ?thesis by (simp add: frame_bytes_def)
qed

lemma gnw_parse_header_frame:
  "gnw_parse_header bail (frame_bytes t s pl @ rest) =
     Inr (\<lparr>hdr_magic = GNW_MAGIC, hdr_version = GNW_VERSION, hdr_type = t,
           hdr_source = s, hdr_length = of_nat (length pl)\<rparr>, 11)"
  by (simp add: gnw_parse_header_eq frame_bytes_nth [simplified] frame_bytes_source
      wire_length_frame)

section \<open>Resynchronisation\<close>

text \<open>
  The loop the router runs over a connection's buffer: while the parser asks for it, drop the
  first byte (\<open>packet_shift\<close> by one) and shrink the size. The parser is an argument, so that
  what follows holds for every parser with the contract \<open>framing\<close>.
\<close>

fun resync_loop ::
    "(u8 list \<Rightarrow> nat \<Rightarrow> int result) \<Rightarrow> nat \<Rightarrow> u8 list \<Rightarrow> nat \<Rightarrow> (u8 list \<times> nat \<times> int) result"
where
  "resync_loop next_packet 0 buffer sz = Inl Diverges"
| "resync_loop next_packet (Suc fuel) buffer sz =
     andThen (next_packet buffer sz) (\<lambda>ready.
     if ready < 0 then
       andThen (packet_shift buffer 0 sz None 1) (\<lambda>(buffer, _, _).
       resync_loop next_packet fuel buffer (sz - 1))
     else Inr (buffer, sz, ready))"

lemma packet_shift_eq:
  assumes "len \<le> sz" "sz \<le> length buffer"
  shows "packet_shift buffer 0 sz None len =
    Inr (take (sz - len) (drop len buffer) @ drop (sz - len) buffer, None, sz - len)"
  using assms by (auto simp: packet_shift_def load_block_def store_block_def)

lemma packet_shift_copy_eq:
  assumes "len \<le> sz" "sz \<le> length buffer" "length d = len"
  shows "packet_shift buffer 0 sz (Some d) len =
    Inr (take (sz - len) (drop len buffer) @ drop (sz - len) buffer,
         Some (take len buffer), sz - len)"
  using assms by (auto simp: packet_shift_def load_block_def store_block_def)

text \<open>
  The parser looks only at the \<open>sz\<close> valid bytes, never faults on them, never announces
  more than there is, and has an answer other than "drop a byte" once few bytes are left.
\<close>

locale framing =
  fixes next_packet :: "u8 list \<Rightarrow> nat \<Rightarrow> int result"
  assumes next_total: "sz \<le> length buffer \<Longrightarrow>
      \<exists>r. next_packet buffer sz = Inr r \<and> r \<le> int sz"
    and next_local: "sz \<le> length b \<Longrightarrow> sz \<le> length c \<Longrightarrow> take sz b = take sz c \<Longrightarrow>
      next_packet b sz = next_packet c sz"
    and next_empty: "next_packet buffer 0 = Inr 0"
begin

text \<open>
  The loop ends; it dropped the shortest prefix after which the parser has an answer, and
  the bytes left are the rest of what there was.
\<close>

lemma resync_ends:
  assumes "sz \<le> length buffer" "sz < fuel"
  shows "\<exists>k buffer' r. k \<le> sz \<and> resync_loop next_packet fuel buffer sz = Inr (buffer', sz - k, r)
    \<and> length buffer' = length buffer
    \<and> take (sz - k) buffer' = take (sz - k) (drop k buffer)
    \<and> drop sz buffer' = drop sz buffer
    \<and> next_packet (drop k buffer) (sz - k) = Inr r \<and> 0 \<le> r \<and> r \<le> int (sz - k)
    \<and> (\<forall>i<k. \<exists>e. next_packet (drop i buffer) (sz - i) = Inr e \<and> e < 0)"
  using assms
proof (induction fuel arbitrary: buffer sz)
  case 0
  then show ?case by simp
next
  case (Suc fuel)
  obtain r where r: "next_packet buffer sz = Inr r" "r \<le> int sz"
    using next_total Suc.prems(1) by blast
  show ?case
  proof (cases "r < 0")
    case False
    then show ?thesis
      using r by (intro exI [of _ 0] exI [of _ buffer] exI [of _ r]) simp
  next
    case True
    then have pos: "0 < sz" using r next_empty by (cases sz) auto
    define b where "b = take (sz - 1) (drop 1 buffer) @ drop (sz - 1) buffer"
    have lb: "length b = length buffer" "take (sz - 1) b = take (sz - 1) (drop 1 buffer)"
      "drop sz b = drop sz buffer"
      using Suc.prems(1) pos by (auto simp: b_def)
    have sh: "packet_shift buffer 0 sz None 1 = Inr (b, None, sz - 1)"
      using packet_shift_eq [of 1 sz buffer] Suc.prems(1) pos by (simp add: b_def)
    have shifted: "take (sz - 1 - i) (drop i b) = take (sz - 1 - i) (drop (Suc i) buffer)" for i
      using arg_cong [OF lb(2), of "drop i"] by (simp add: drop_take)
    have same: "next_packet (drop i b) (sz - 1 - i) = next_packet (drop (Suc i) buffer) (sz - Suc i)"
      if "i \<le> sz - 1" for i
    proof -
      have "take (sz - 1 - i) (drop i b) = take (sz - 1 - i) (drop (Suc i) buffer)"
        by (rule shifted)
      then show ?thesis
        using that Suc.prems(1) pos next_local [of "sz - 1 - i" "drop i b" "drop (Suc i) buffer"]
        by (simp add: lb)
    qed
    have valid: "sz - 1 \<le> length b" "sz - 1 < fuel" using Suc.prems lb pos by simp_all
    obtain k b' r' where IH: "k \<le> sz - 1"
      "resync_loop next_packet fuel b (sz - 1) = Inr (b', sz - 1 - k, r')"
      "length b' = length b" "take (sz - 1 - k) b' = take (sz - 1 - k) (drop k b)"
      "drop (sz - 1) b' = drop (sz - 1) b"
      "next_packet (drop k b) (sz - 1 - k) = Inr r'" "0 \<le> r'" "r' \<le> int (sz - 1 - k)"
      "\<forall>i<k. \<exists>e. next_packet (drop i b) (sz - 1 - i) = Inr e \<and> e < 0"
      using Suc.IH [OF valid] by blast
    have d: "drop sz b' = drop sz buffer"
    proof -
      have "drop 1 (drop (sz - 1) b') = drop 1 (drop (sz - 1) b)" using IH(5) by simp
      then show ?thesis using pos lb by simp
    qed
    have e: "\<exists>e. next_packet (drop i buffer) (sz - i) = Inr e \<and> e < 0" if "i < Suc k" for i
      using that IH(1,9) same r True by (cases i) auto
    show ?thesis
      using IH(1-4,6-8) pos True r sh shifted [of k] d e same [of k] lb
      by (intro exI [of _ "Suc k"] exI [of _ b'] exI [of _ r']) auto
  qed
qed

end

lemma gnw_nextPacket_local:
  assumes "n \<le> length b" "n \<le> length c" "take n b = take n c"
  shows "gnw_nextPacket b n = gnw_nextPacket c n"
proof (cases "n < 11")
  case True
  then show ?thesis using assms by (simp add: gnw_nextPacket_eq)
next
  case False
  have "b ! i = c ! i" if "i < 11" for i
    using assms(3) False that by (metis linorder_not_less nth_take order_less_le_trans)
  then show ?thesis
    using assms(1,2) by (simp add: gnw_nextPacket_eq wire_length_def word32_at_def)
qed

lemma uint_le_of_unat: "unat w \<le> n \<Longrightarrow> uint w \<le> int n" for w :: u32
  using of_nat_mono [of "unat w" n, where 'a = int] by simp

lemma next_result_le:
  "(if n < 11 then 0 else if A then -1 else if B then -2
    else if unat w \<le> n then uint w else 0) \<le> int n"
  for w :: u32
  using uint_le_of_unat [of w n] by auto

interpretation gnw: framing gnw_nextPacket
proof
  fix n and buffer :: "u8 list"
  assume n: "n \<le> length buffer"
  show "\<exists>r. gnw_nextPacket buffer n = Inr r \<and> r \<le> int n"
    unfolding gnw_nextPacket_eq [OF n] by (rule exI, rule conjI [OF refl next_result_le])
next
  fix buffer :: "u8 list"
  show "gnw_nextPacket buffer 0 = Inr 0" by (simp add: gnw_nextPacket_eq)
qed (rule gnw_nextPacket_local)

section \<open>Properties\<close>

text \<open>
  C8: The parser on a stream. When the valid bytes of the buffer are the beginning of a
  packet followed by anything, \<open>gnw_nextPacket\<close> answers "not yet" (0) for every cut before
  the packet's last byte, inside the header or the payload, and the packet's exact length
  from there on, whatever has arrived behind it or lies in the buffer past the valid bytes.
\<close>

theorem next_packet_stream:
  assumes "11 + length payload < 2 ^ 32" "n \<le> length buffer"
    and "n \<le> 11 + length payload + length rest"
    and "take n buffer = take n (frame_bytes type source payload @ rest)"
  shows "gnw_nextPacket buffer n =
    Inr (if 11 + length payload \<le> n then 11 + int (length payload) else 0)"
proof (cases "11 + length payload \<le> n")
  case True
  have "gnw_nextPacket buffer n = gnw_nextPacket (frame_bytes type source payload @ rest) n"
    by (rule gnw_nextPacket_local) (use assms in simp_all)
  then show ?thesis using gnw_nextPacket_frame [OF assms(1) True assms(3)] True by simp
next
  case False
  then show ?thesis using gnw_nextPacket_partial [OF assms(1) _ assms(2)] assms(4) by simp
qed

theorem next_packet_stream_witness:
  "gnw_nextPacket (frame_bytes 0x10 7 [1, 2] @ [0x55]) 14 =
    Inr (if 11 + length [1 :: u8, 2] \<le> 14 then 11 + int (length [1 :: u8, 2]) else 0)"
  by (rule next_packet_stream [where type = "0x10" and source = 7 and rest = "[0x55]"]) simp_all

text \<open>
  C11: The parser never reads outside the bytes it was given and never faults, on any bytes:
  its answer is -1 or -2 (drop a byte) or a length between 0 and the number of valid bytes,
  and it is positive only for the right magic and version.
\<close>

theorem next_packet_total:
  assumes "n \<le> length buffer"
  shows "\<exists>r. gnw_nextPacket buffer n = Inr r \<and> (r = -1 \<or> r = -2 \<or> (0 \<le> r \<and> r \<le> int n))
    \<and> (0 < r \<longrightarrow> buffer ! 0 = GNW_MAGIC \<and> buffer ! 1 = GNW_VERSION)"
  using gnw.next_total [OF assms] by (auto simp: gnw_nextPacket_eq [OF assms])

theorem next_packet_total_witness:
  "\<exists>r. gnw_nextPacket [1, 2, 3, 4, 5, 6, 7, 8, 9, 10, 11, 12] 12 = Inr r
    \<and> (r = -1 \<or> r = -2 \<or> (0 \<le> r \<and> r \<le> int 12))
    \<and> (0 < r \<longrightarrow> [1 :: u8, 2, 3, 4, 5, 6, 7, 8, 9, 10, 11, 12] ! 0 = GNW_MAGIC
         \<and> [1 :: u8, 2, 3, 4, 5, 6, 7, 8, 9, 10, 11, 12] ! 1 = GNW_VERSION)"
  by (rule next_packet_total) simp

text \<open>
  The length check wraps. A header whose length field is at least \<open>2 ^ 32 - 11\<close> makes
  \<open>11 + header.length\<close> small again: the parser announces a packet of
  \<open>length - (2 ^ 32 - 11)\<close> bytes, fewer than the header itself has, whatever the buffer holds.
\<close>

theorem next_packet_wraps:
  assumes "11 \<le> n" "n \<le> length buffer" "buffer ! 0 = GNW_MAGIC" "buffer ! 1 = GNW_VERSION"
    and "2 ^ 32 - 11 \<le> uint (wire_length buffer)"
  shows "gnw_nextPacket buffer n = Inr (uint (wire_length buffer) - (2 ^ 32 - 11))
    \<and> uint (wire_length buffer) - (2 ^ 32 - 11) < 11"
proof -
  let ?w = "wire_length buffer"
  have lt: "uint ?w < 2 ^ 32" using uint_lt2p [of ?w] by simp
  then have small: "uint ?w - (2 ^ 32 - 11) < 11" by simp
  have "uint (11 + ?w) = (11 + uint ?w) mod 2 ^ 32"
    by (simp add: uint_word_ariths)
  also have "\<dots> = uint ?w - (2 ^ 32 - 11)"
    using lt assms(5) by (subst mod_pos_geq) auto
  finally have u: "uint (11 + ?w) = uint ?w - (2 ^ 32 - 11)" .
  then have "int (unat (11 + ?w)) < 11" using small by simp
  then have "unat (11 + ?w) \<le> n" using assms(1) by linarith
  then show ?thesis
    using assms(1-4) u small by (simp add: gnw_nextPacket_eq)
qed

theorem next_packet_wraps_witness:
  "gnw_nextPacket [0x55, 2, 0x10, 1, 0, 0, 0, 0xF8, 0xFF, 0xFF, 0xFF] 11 = Inr 3"
proof -
  let ?b = "[0x55, 2, 0x10, 1, 0, 0, 0, 0xF8, 0xFF, 0xFF, 0xFF] :: u8 list"
  have w: "wire_length ?b = 0xFFFFFFF8"
    by (simp add: wire_length_def word32_at_def byteswap32_def)
  show ?thesis
    using next_packet_wraps [of 11 ?b] by (simp add: w gnw_constants)
qed

end
