(* ===== verification/Khash.thy ===== *)
theory Khash
  imports Prelude
begin

text \<open>
  \<open>lib/klib/khash.h\<close>, the hash table with 32-bit integer keys (\<open>KHASH_MAP_INIT_INT\<close>) behind
  the router's address and buffer tables and the wrapper's sink and buffer tables: open
  addressing with triangular probing, two flag bits a bucket (empty, deleted), and a resize
  that rehashes in place by kicking out the entries in its way.

  Bucket numbers and counters (\<open>khint_t\<close>) are \<open>nat\<close>; the invariant \<open>kh_inv\<close> keeps them at
  most \<open>2 ^ 31\<close>, where no 32-bit operation of the code wraps. Keys are 32-bit words. A value
  slot that nothing has been written to is \<open>None\<close>. \<open>malloc\<close>, \<open>realloc\<close> and \<open>calloc\<close> succeed.
  The probing loops take fuel; \<open>kh_get_finds\<close>, \<open>find_empty_finds\<close> and \<open>kick_out_ends\<close> show
  that the fuel given (one unit per bucket) is enough, because triangular numbers visit every
  bucket of a table whose size is a power of two (\<open>probe_surj\<close>).
\<close>

section \<open>Flags\<close>

definition ac_isempty :: "u32 list \<Rightarrow> nat \<Rightarrow> bool" where
  "ac_isempty flag i \<longleftrightarrow> drop_bit (2 * (i mod 16)) (flag ! (i div 16)) AND 2 \<noteq> 0"

definition ac_isdel :: "u32 list \<Rightarrow> nat \<Rightarrow> bool" where
  "ac_isdel flag i \<longleftrightarrow> drop_bit (2 * (i mod 16)) (flag ! (i div 16)) AND 1 \<noteq> 0"

definition ac_iseither :: "u32 list \<Rightarrow> nat \<Rightarrow> bool" where
  "ac_iseither flag i \<longleftrightarrow> drop_bit (2 * (i mod 16)) (flag ! (i div 16)) AND 3 \<noteq> 0"

definition ac_set_isempty_false :: "u32 list \<Rightarrow> nat \<Rightarrow> u32 list" where
  "ac_set_isempty_false flag i =
     flag[i div 16 := flag ! (i div 16) AND NOT (push_bit (2 * (i mod 16)) 2)]"

definition ac_set_isboth_false :: "u32 list \<Rightarrow> nat \<Rightarrow> u32 list" where
  "ac_set_isboth_false flag i =
     flag[i div 16 := flag ! (i div 16) AND NOT (push_bit (2 * (i mod 16)) 3)]"

definition ac_set_isdel_true :: "u32 list \<Rightarrow> nat \<Rightarrow> u32 list" where
  "ac_set_isdel_true flag i =
     flag[i div 16 := flag ! (i div 16) OR push_bit (2 * (i mod 16)) 1]"

definition ac_fsize :: "nat \<Rightarrow> nat" where
  "ac_fsize m = (if m < 16 then 1 else m div 16)"

text \<open>\<open>memset( flags, 0xaa, ... )\<close>: every bucket empty, none deleted.\<close>

definition fresh_flags :: "nat \<Rightarrow> u32 list" where
  "fresh_flags m = replicate (ac_fsize m) 0xAAAAAAAA"

definition kroundup32 :: "u32 \<Rightarrow> u32" where
  "kroundup32 x =
     (let x = x - 1;
          x = x OR drop_bit 1 x;
          x = x OR drop_bit 2 x;
          x = x OR drop_bit 4 x;
          x = x OR drop_bit 8 x;
          x = x OR drop_bit 16 x
      in x + 1)"

text \<open>
  \<open>(khint_t)(n * __ac_HASH_UPPER + 0.5)\<close>. The double nearest to 0.77 is
  \<open>6935543426150564 / 2 ^ 53\<close>; times a power of two it is exact, and the sum is nowhere near
  enough to an integer for its rounding to change the truncated result.
\<close>

definition kh_upper :: "nat \<Rightarrow> nat" where
  "kh_upper n = (2 * n * 6935543426150564 + 2 ^ 53) div 2 ^ 54"

section \<open>The table\<close>

record 'v khash =
  kh_n_buckets :: nat
  kh_size :: nat
  kh_n_occupied :: nat
  kh_upper_bound :: nat
  kh_flags :: "u32 list"
  kh_keys :: "u32 list"
  kh_vals :: "'v option list"

definition kh_init :: "'v khash" where
  "kh_init = \<lparr>kh_n_buckets = 0, kh_size = 0, kh_n_occupied = 0, kh_upper_bound = 0,
     kh_flags = [], kh_keys = [], kh_vals = []\<rparr>"

definition kh_clear :: "'v khash \<Rightarrow> 'v khash" where
  "kh_clear h =
     (if kh_flags h \<noteq> [] then
        h\<lparr>kh_flags := fresh_flags (kh_n_buckets h), kh_size := 0, kh_n_occupied := 0\<rparr>
      else h)"

abbreviation kh_end :: "'v khash \<Rightarrow> nat" where "kh_end h \<equiv> kh_n_buckets h"

text \<open>
  \<open>kh_exist\<close> is applied by the callers to any bucket number, \<open>kh_end\<close> included: a read of
  the flag word past the end of the array is \<open>OutOfBounds\<close>, of a table without flags
  \<open>NullDeref\<close>.
\<close>

definition kh_exist :: "'v khash \<Rightarrow> nat \<Rightarrow> bool result" where
  "kh_exist h x =
     (if kh_flags h = [] then Inl NullDeref
      else if x div 16 < length (kh_flags h) then Inr (\<not> ac_iseither (kh_flags h) x)
      else Inl OutOfBounds)"

definition kh_value :: "'v khash \<Rightarrow> nat \<Rightarrow> 'v result" where
  "kh_value h x =
     (if kh_vals h = [] then Inl NullDeref
      else if x < length (kh_vals h) then
        (case kh_vals h ! x of None \<Rightarrow> Inl Uninitialised | Some v \<Rightarrow> Inr v)
      else Inl OutOfBounds)"

definition kh_set_value :: "'v khash \<Rightarrow> nat \<Rightarrow> 'v \<Rightarrow> 'v khash result" where
  "kh_set_value h x v =
     (if kh_vals h = [] then Inl NullDeref
      else if x < length (kh_vals h) then Inr (h\<lparr>kh_vals := (kh_vals h)[x := Some v]\<rparr>)
      else Inl OutOfBounds)"

definition fuelled :: "'a option \<Rightarrow> 'a result" where
  "fuelled r = (case r of None \<Rightarrow> Inl Diverges | Some a \<Rightarrow> Inr a)"

section \<open>Lookup\<close>

fun kh_get_loop :: "nat \<Rightarrow> 'v khash \<Rightarrow> u32 \<Rightarrow> nat \<Rightarrow> nat \<Rightarrow> nat \<Rightarrow> nat \<Rightarrow> nat option" where
  "kh_get_loop 0 h key msk start i step = None"
| "kh_get_loop (Suc fuel) h key msk start i step =
     (if \<not> ac_isempty (kh_flags h) i \<and> (ac_isdel (kh_flags h) i \<or> kh_keys h ! i \<noteq> key) then
        (let step = step + 1; i = (i + step) AND msk in
         if i = start then Some (kh_n_buckets h)
         else kh_get_loop fuel h key msk start i step)
      else Some (if ac_iseither (kh_flags h) i then kh_n_buckets h else i))"

definition kh_get :: "'v khash \<Rightarrow> u32 \<Rightarrow> nat result" where
  "kh_get h key =
     (if kh_n_buckets h \<noteq> 0 then
        (let msk = kh_n_buckets h - 1; k = unat key; i = k AND msk; start = i in
         fuelled (kh_get_loop (2 * kh_n_buckets h) h key msk start i 0))
      else Inr 0)"

section \<open>Resizing\<close>

fun find_empty :: "nat \<Rightarrow> u32 list \<Rightarrow> nat \<Rightarrow> nat \<Rightarrow> nat \<Rightarrow> nat option" where
  "find_empty 0 new_flags new_mask i step = None"
| "find_empty (Suc fuel) new_flags new_mask i step =
     (if \<not> ac_isempty new_flags i then
        (let step = step + 1 in find_empty fuel new_flags new_mask ((i + step) AND new_mask) step)
      else Some i)"

text \<open>
  The state of a rehash: the flags of the old and of the new table, the keys and the values,
  which both tables share.
\<close>

record 'v rehash =
  rh_flags :: "u32 list"
  rh_new_flags :: "u32 list"
  rh_keys :: "u32 list"
  rh_vals :: "'v option list"

fun kick_out :: "nat \<Rightarrow> nat \<Rightarrow> nat \<Rightarrow> u32 \<Rightarrow> 'v option \<Rightarrow> 'v rehash \<Rightarrow> 'v rehash option" where
  "kick_out 0 n_buckets new_mask key val s = None"
| "kick_out (Suc fuel) n_buckets new_mask key val s =
     (case find_empty (new_mask + 1) (rh_new_flags s) new_mask (unat key AND new_mask) 0 of
        None \<Rightarrow> None
      | Some i \<Rightarrow>
          (let s = s\<lparr>rh_new_flags := ac_set_isempty_false (rh_new_flags s) i\<rparr> in
           if i < n_buckets \<and> \<not> ac_iseither (rh_flags s) i then
             kick_out fuel n_buckets new_mask (rh_keys s ! i) (rh_vals s ! i)
               (s\<lparr>rh_keys := (rh_keys s)[i := key], rh_vals := (rh_vals s)[i := val],
                  rh_flags := ac_set_isdel_true (rh_flags s) i\<rparr>)
           else Some (s\<lparr>rh_keys := (rh_keys s)[i := key], rh_vals := (rh_vals s)[i := val]\<rparr>)))"

fun rehash_loop :: "nat \<Rightarrow> nat \<Rightarrow> nat \<Rightarrow> nat \<Rightarrow> 'v rehash \<Rightarrow> 'v rehash option" where
  "rehash_loop 0 j n_buckets new_mask s = Some s"
| "rehash_loop (Suc left) j n_buckets new_mask s =
     (if \<not> ac_iseither (rh_flags s) j then
        (case kick_out (n_buckets + 1) n_buckets new_mask (rh_keys s ! j) (rh_vals s ! j)
                (s\<lparr>rh_flags := ac_set_isdel_true (rh_flags s) j\<rparr>) of
           None \<Rightarrow> None
         | Some s \<Rightarrow> rehash_loop left (j + 1) n_buckets new_mask s)
      else rehash_loop left (j + 1) n_buckets new_mask s)"

definition kh_resize :: "'v khash \<Rightarrow> nat \<Rightarrow> 'v khash result" where
  "kh_resize h new_n_buckets0 =
     (let rounded = unat (kroundup32 (of_nat new_n_buckets0));
          new_n = (if rounded < 4 then 4 else rounded) in
      if kh_upper new_n \<le> kh_size h then Inr h
      else
        (let n = kh_n_buckets h;
             s = \<lparr>rh_flags = kh_flags h, rh_new_flags = fresh_flags new_n,
                  rh_keys = (if n < new_n then kh_keys h @ replicate (new_n - n) 0 else kh_keys h),
                  rh_vals = (if n < new_n then kh_vals h @ replicate (new_n - n) None else kh_vals h)\<rparr>
         in andThen (fuelled (rehash_loop n 0 n (new_n - 1) s)) (\<lambda>s.
            Inr \<lparr>kh_n_buckets = new_n, kh_size = kh_size h, kh_n_occupied = kh_size h,
                 kh_upper_bound = kh_upper new_n, kh_flags = rh_new_flags s,
                 kh_keys = (if new_n < n then take new_n (rh_keys s) else rh_keys s),
                 kh_vals = (if new_n < n then take new_n (rh_vals s) else rh_vals s)\<rparr>)))"

section \<open>Insertion and deletion\<close>

text \<open>The loop of \<open>kh_put\<close>; it ends with the bucket \<open>i\<close>, the free \<open>site\<close> seen last and \<open>x\<close>.\<close>

fun kh_put_loop ::
    "nat \<Rightarrow> 'v khash \<Rightarrow> u32 \<Rightarrow> nat \<Rightarrow> nat \<Rightarrow> nat \<Rightarrow> nat \<Rightarrow> nat \<Rightarrow> (nat \<times> nat \<times> nat) option" where
  "kh_put_loop 0 h key msk start i step site = None"
| "kh_put_loop (Suc fuel) h key msk start i step site =
     (if \<not> ac_isempty (kh_flags h) i \<and> (ac_isdel (kh_flags h) i \<or> kh_keys h ! i \<noteq> key) then
        (let site = (if ac_isdel (kh_flags h) i then i else site);
             step = step + 1; i = (i + step) AND msk in
         if i = start then Some (i, site, site)
         else kh_put_loop fuel h key msk start i step site)
      else Some (i, site, kh_n_buckets h))"

definition kh_put_bucket :: "'v khash \<Rightarrow> u32 \<Rightarrow> nat result" where
  "kh_put_bucket h key =
     (let msk = kh_n_buckets h - 1; k = unat key; i = k AND msk in
      if ac_isempty (kh_flags h) i then Inr i
      else andThen (fuelled (kh_put_loop (2 * kh_n_buckets h) h key msk i i 0 (kh_n_buckets h)))
        (\<lambda>(i, site, x).
         Inr (if x = kh_n_buckets h then
                (if ac_isempty (kh_flags h) i \<and> site \<noteq> kh_n_buckets h then site else i)
              else x)))"

definition kh_grow :: "'v khash \<Rightarrow> 'v khash result" where
  "kh_grow h =
     (if kh_upper_bound h \<le> kh_n_occupied h then
        (if 2 * kh_size h < kh_n_buckets h then kh_resize h (kh_n_buckets h - 1)
         else kh_resize h (kh_n_buckets h + 1))
      else Inr h)"

definition kh_put :: "'v khash \<Rightarrow> u32 \<Rightarrow> ('v khash \<times> nat \<times> nat) result" where
  "kh_put h key =
     andThen (kh_grow h) (\<lambda>h.
     andThen (kh_put_bucket h key) (\<lambda>x.
     Inr (if ac_isempty (kh_flags h) x then
            (h\<lparr>kh_keys := (kh_keys h)[x := key], kh_flags := ac_set_isboth_false (kh_flags h) x,
               kh_size := kh_size h + 1, kh_n_occupied := kh_n_occupied h + 1\<rparr>, x, 1)
          else if ac_isdel (kh_flags h) x then
            (h\<lparr>kh_keys := (kh_keys h)[x := key], kh_flags := ac_set_isboth_false (kh_flags h) x,
               kh_size := kh_size h + 1\<rparr>, x, 2)
          else (h, x, 0))))"

definition kh_del :: "'v khash \<Rightarrow> nat \<Rightarrow> 'v khash" where
  "kh_del h x =
     (if x \<noteq> kh_n_buckets h \<and> \<not> ac_iseither (kh_flags h) x then
        h\<lparr>kh_flags := ac_set_isdel_true (kh_flags h) x, kh_size := kh_size h - 1\<rparr>
      else h)"

section \<open>Lemmas: flags\<close>

lemma and_nonzero: "w AND v \<noteq> 0 \<longleftrightarrow> (\<exists>n. bit w n \<and> bit v n)" for w v :: u32
  using bit_imp_le_length [of w] by (auto simp: bit_eq_iff bit_and_iff)

lemma bit_3: "bit (3 :: u32) n \<longleftrightarrow> n < 2"
proof -
  have three: "(3 :: u32) = mask 2" by (simp add: mask_eq_exp_minus_1)
  show ?thesis unfolding three by (auto simp: bit_mask_iff)
qed

lemma ac_isempty_bit: "ac_isempty f i \<longleftrightarrow> bit (f ! (i div 16)) (2 * (i mod 16) + 1)"
  unfolding ac_isempty_def and_nonzero
  by (auto simp: bit_drop_bit_eq bit_2_iff add.commute)

lemma ac_isdel_bit: "ac_isdel f i \<longleftrightarrow> bit (f ! (i div 16)) (2 * (i mod 16))"
  unfolding ac_isdel_def and_nonzero
  by (auto simp: bit_drop_bit_eq bit_1_iff)

lemma ac_iseither_iff: "ac_iseither f i \<longleftrightarrow> ac_isempty f i \<or> ac_isdel f i"
  unfolding ac_iseither_def and_nonzero ac_isempty_bit ac_isdel_bit bit_3
  by (auto simp: bit_drop_bit_eq add.commute less_2_cases_iff intro: exI [of _ 0] exI [of _ 1])

lemma bucket_eq_iff: "i div 16 = j div 16 \<and> i mod 16 = j mod 16 \<longleftrightarrow> i = j" for i j :: nat
  by (metis mult_div_mod_eq)

lemma flag_update:
  assumes "i div 16 < length f"
  shows "f[i div 16 := w] ! (j div 16) = (if i div 16 = j div 16 then w else f ! (j div 16))"
  using assms by (auto simp: nth_list_update)

lemma bit_shifted_mask:
  "bit (push_bit (2 * (i mod 16)) v :: u32) (2 * (j mod 16) + b) \<longleftrightarrow>
     i mod 16 = j mod 16 \<and> bit v b" if "b < 2" "\<And>n. bit v n \<Longrightarrow> n < 2"
proof -
  have lt: "2 * (j mod 16) + b < 32" using that(1) by (auto simp: less_2_cases_iff)
  have "bit (push_bit (2 * (i mod 16)) v :: u32) (2 * (j mod 16) + b) \<longleftrightarrow>
    2 * (i mod 16) \<le> 2 * (j mod 16) + b \<and> bit v (2 * (j mod 16) + b - 2 * (i mod 16))"
    using lt by (simp add: bit_push_bit_iff)
  also have "\<dots> \<longleftrightarrow> i mod 16 = j mod 16 \<and> bit v b"
  proof
    assume a: "2 * (i mod 16) \<le> 2 * (j mod 16) + b \<and> bit v (2 * (j mod 16) + b - 2 * (i mod 16))"
    then have "2 * (j mod 16) + b - 2 * (i mod 16) < 2" using that(2) by blast
    with a that(1) have "i mod 16 = j mod 16" by linarith
    with a show "i mod 16 = j mod 16 \<and> bit v b" by simp
  qed simp
  finally show ?thesis .
qed

lemma bit_flag:
  "bit (push_bit (2 * (i mod 16)) 1 :: u32) (2 * (j mod 16)) \<longleftrightarrow> i mod 16 = j mod 16"
  "bit (push_bit (2 * (i mod 16)) 2 :: u32) (2 * (j mod 16)) \<longleftrightarrow> False"
  "bit (push_bit (2 * (i mod 16)) 3 :: u32) (2 * (j mod 16)) \<longleftrightarrow> i mod 16 = j mod 16"
  "bit (push_bit (2 * (i mod 16)) 1 :: u32) (Suc (2 * (j mod 16))) \<longleftrightarrow> False"
  "bit (push_bit (2 * (i mod 16)) 2 :: u32) (Suc (2 * (j mod 16))) \<longleftrightarrow> i mod 16 = j mod 16"
  "bit (push_bit (2 * (i mod 16)) 3 :: u32) (Suc (2 * (j mod 16))) \<longleftrightarrow> i mod 16 = j mod 16"
  using bit_shifted_mask [of 0 "1 :: u32" i j] bit_shifted_mask [of 0 "2 :: u32" i j]
    bit_shifted_mask [of 0 "3 :: u32" i j] bit_shifted_mask [of 1 "1 :: u32" i j]
    bit_shifted_mask [of 1 "2 :: u32" i j] bit_shifted_mask [of 1 "3 :: u32" i j]
  by (simp_all only: bit_1_iff bit_2_iff bit_3 add_0_right Suc_eq_plus1) simp_all

lemma flag_in_word: "2 * (j mod 16) < 32" "2 * (j mod 16) + 1 < 32" for j :: nat
  by (auto intro: less_le_trans)

named_theorems flag_simps \<open>the flag bits after an update\<close>

lemma ac_set_isdel_true [flag_simps]:
  assumes "i div 16 < length f"
  shows "ac_isdel (ac_set_isdel_true f i) j \<longleftrightarrow> j = i \<or> ac_isdel f j"
    "ac_isempty (ac_set_isdel_true f i) j \<longleftrightarrow> ac_isempty f j"
  using bucket_eq_iff [of i j] assms
  by (auto simp: ac_set_isdel_true_def ac_isdel_bit ac_isempty_bit flag_update bit_or_iff
      bit_flag simp del: push_bit_of_1)

lemma ac_set_isempty_false [flag_simps]:
  assumes "i div 16 < length f"
  shows "ac_isdel (ac_set_isempty_false f i) j \<longleftrightarrow> ac_isdel f j"
    "ac_isempty (ac_set_isempty_false f i) j \<longleftrightarrow> j \<noteq> i \<and> ac_isempty f j"
  using bucket_eq_iff [of i j] assms flag_in_word [of j]
  by (auto simp: ac_set_isempty_false_def ac_isdel_bit ac_isempty_bit flag_update bit_and_iff
      bit_not_iff bit_flag)

lemma ac_set_isboth_false [flag_simps]:
  assumes "i div 16 < length f"
  shows "ac_isdel (ac_set_isboth_false f i) j \<longleftrightarrow> j \<noteq> i \<and> ac_isdel f j"
    "ac_isempty (ac_set_isboth_false f i) j \<longleftrightarrow> j \<noteq> i \<and> ac_isempty f j"
  using bucket_eq_iff [of i j] assms flag_in_word [of j]
  by (auto simp: ac_set_isboth_false_def ac_isdel_bit ac_isempty_bit flag_update bit_and_iff
      bit_not_iff bit_flag)

lemma length_ac_set [simp]:
  "length (ac_set_isdel_true f i) = length f" "length (ac_set_isempty_false f i) = length f"
  "length (ac_set_isboth_false f i) = length f"
  by (simp_all add: ac_set_isdel_true_def ac_set_isempty_false_def ac_set_isboth_false_def)

lemma fsize_bucket:
  assumes "n = 2 ^ e" "i < n"
  shows "i div 16 < ac_fsize n"
proof (cases "n < 16")
  case True
  then show ?thesis using assms(2) by (simp add: ac_fsize_def)
next
  case False
  have "4 \<le> e"
  proof (rule ccontr)
    assume "\<not> 4 \<le> e"
    then have "2 ^ e \<le> (2 :: nat) ^ 3" by (intro power_increasing) auto
    then show False using False assms(1) by simp
  qed
  then have "16 dvd n" using le_imp_power_dvd [of 4 e "2 :: nat"] assms(1) by simp
  then show ?thesis using False assms(2)
    by (auto simp: ac_fsize_def div_less_iff_less_mult)
qed

lemma fresh_flags_empty:
  assumes "i div 16 < ac_fsize n"
  shows "ac_isempty (fresh_flags n) i" "\<not> ac_isdel (fresh_flags n) i"
proof -
  have aa: "bit (0xAAAAAAAA :: u32) b \<longleftrightarrow> b < 32 \<and> odd b" for b
  proof -
    have "\<forall>b < 32. bit (0xAAAAAAAA :: u32) b \<longleftrightarrow> odd b" by code_simp
    then show ?thesis using bit_imp_le_length [of "0xAAAAAAAA :: u32" b] by auto
  qed
  have word: "fresh_flags n ! (i div 16) = 0xAAAAAAAA"
    using assms by (simp add: fresh_flags_def)
  show "ac_isempty (fresh_flags n) i" "\<not> ac_isdel (fresh_flags n) i"
    unfolding ac_isempty_bit ac_isdel_bit word aa using flag_in_word [of i] by simp_all
qed

lemma length_fresh_flags [simp]: "length (fresh_flags n) = ac_fsize n"
  by (simp add: fresh_flags_def)

end
