(* ===== verification/KhashMap.thy ===== *)
theory KhashMap
  imports Khash
begin

text \<open>
  The hash table of \<open>Khash\<close> is a finite map: \<open>kh_ok\<close> is its representation invariant and
  \<open>kh_map\<close> the map it stands for. The sections prove in turn that the probe sequence visits
  every bucket, that the rehash keeps the map whatever it kicks out, and that \<open>kh_get\<close>,
  \<open>kh_put\<close> and \<open>kh_del\<close> are lookup, insertion and deletion. The contract other components use
  is the locale \<open>int_map\<close>, interpreted on these operations.
\<close>

section \<open>The probe sequence\<close>

definition probe :: "nat \<Rightarrow> u32 \<Rightarrow> nat \<Rightarrow> nat" where
  "probe n key s = (unat key + s * (s + 1) div 2) mod n"

lemma and_mask_mod: "n = 2 ^ e \<Longrightarrow> a AND (n - 1) = a mod n" for a n :: nat
  using take_bit_eq_mask [of e a] by (simp add: take_bit_eq_mod mask_eq_exp_minus_1)

lemma probe_0: "n = 2 ^ e \<Longrightarrow> unat key AND (n - 1) = probe n key 0"
  using and_mask_mod [of n e "unat key"] by (simp add: probe_def)

lemma probe_Suc:
  assumes "n = 2 ^ e"
  shows "(probe n key s + Suc s) AND (n - 1) = probe n key (Suc s)"
proof -
  have "Suc s * (Suc s + 1) div 2 = s * (s + 1) div 2 + Suc s"
    by (simp add: algebra_simps)
  then have "probe n key (Suc s) = (unat key + s * (s + 1) div 2 + Suc s) mod n"
    by (simp add: probe_def add.assoc)
  also have "\<dots> = (probe n key s + Suc s) mod n"
    unfolding probe_def by (rule mod_add_left_eq [symmetric])
  finally show ?thesis using and_mask_mod [OF assms] by simp
qed

lemma probe_less: "n = 2 ^ e \<Longrightarrow> probe n key s < n"
  by (simp add: probe_def)

lemma pow2_factor:
  assumes "2 ^ e dvd a * b" "odd a"
  shows "2 ^ e dvd (b :: nat)"
  using assms by (metis coprime_dvd_mult_right_iff coprime_left_2_iff_odd coprime_power_left_iff)

lemma triangular_distinct:
  fixes a s t :: nat
  assumes "s < t" "t < 2 ^ e" "(a + s * (s + 1) div 2) mod 2 ^ e = (a + t * (t + 1) div 2) mod 2 ^ e"
  shows False
proof -
  define d where "d = t - s"
  have t: "t = s + d" "0 < d" using assms(1) by (auto simp: d_def)
  have ev: "even (s * (s + 1))" "even (t * (t + 1))" by auto
  have "s * (s + 1) \<le> t * (t + 1)" using assms(1) by (intro mult_mono) auto
  then have le: "s * (s + 1) div 2 \<le> t * (t + 1) div 2" by (rule div_le_mono)
  have "2 ^ e dvd (a + t * (t + 1) div 2) - (a + s * (s + 1) div 2)"
    using assms(3) le by (metis mod_eq_dvd_iff_nat nat_add_left_cancel_le)
  then have "2 ^ e dvd t * (t + 1) div 2 - s * (s + 1) div 2" by simp
  then have "2 * 2 ^ e dvd 2 * (t * (t + 1) div 2 - s * (s + 1) div 2)" by simp
  moreover have "2 * (t * (t + 1) div 2 - s * (s + 1) div 2) = d * (2 * s + d + 1)"
  proof -
    have "2 * (t * (t + 1) div 2 - s * (s + 1) div 2) = t * (t + 1) - s * (s + 1)"
      using ev by (simp add: diff_mult_distrib2)
    also have "\<dots> = d * (2 * s + d + 1)" by (simp add: t algebra_simps)
    finally show ?thesis .
  qed
  ultimately have dvd: "2 ^ Suc e dvd d * (2 * s + d + 1)"
    by (simp only: power_Suc)
  show False
  proof (cases "odd d")
    case True
    then have "2 ^ Suc e dvd 2 * s + d + 1" using dvd pow2_factor by blast
    then have "2 ^ Suc e \<le> 2 * s + d + 1" by (rule dvd_imp_le) simp
    moreover have "2 * s + d + 1 < 2 * t + 1" using t by simp
    ultimately show False using assms(2) by simp
  next
    case False
    then have "odd (2 * s + d + 1)" by simp
    then have "2 ^ Suc e dvd d" using dvd pow2_factor by (metis mult.commute)
    then have "2 ^ Suc e \<le> d" using t(2) by (rule dvd_imp_le)
    then show False using t assms(2) by simp
  qed
qed

lemma probe_inj:
  assumes "n = 2 ^ e" "s < n" "t < n" "probe n key s = probe n key t"
  shows "s = t"
  using triangular_distinct [of s t e "unat key"] triangular_distinct [of t s e "unat key"] assms
  unfolding probe_def by (metis linorder_neqE_nat)

lemma probe_surj:
  assumes "n = 2 ^ e" "i < n"
  obtains t where "t < n" "probe n key t = i"
proof -
  have "inj_on (probe n key) {..<n}" using probe_inj [OF assms(1)] by (auto intro: inj_onI)
  moreover have "probe n key ` {..<n} \<subseteq> {..<n}" using probe_less [OF assms(1)] by auto
  ultimately have "probe n key ` {..<n} = {..<n}"
    by (simp add: endo_inj_surj)
  then show thesis using that assms(2) by (metis imageE lessThan_iff)
qed

text \<open>The step at which a walk that has somewhere to stop does stop.\<close>

lemma first_stop:
  assumes "n = 2 ^ e" "i < n" "P i"
  obtains t where "t < n" "P (probe n key t)" "\<forall>s<t. \<not> P (probe n key s)"
proof -
  obtain t where "t < n" "probe n key t = i" using probe_surj assms by metis
  then have "\<exists>t. t < n \<and> P (probe n key t)" using assms(3) by auto
  then obtain u where "u < n \<and> P (probe n key u)" "\<forall>s<u. \<not> (s < n \<and> P (probe n key s))"
    using exists_least_iff [of "\<lambda>t. t < n \<and> P (probe n key t)"] by auto
  then show thesis using that by (meson less_trans)
qed

section \<open>The loops\<close>

lemma diff_Suc_less_Suc_diff: "s < t \<Longrightarrow> t - s < Suc m \<Longrightarrow> t - Suc s < m"
  by linarith

definition skips :: "'v khash \<Rightarrow> u32 \<Rightarrow> nat \<Rightarrow> bool" where
  "skips h key i \<longleftrightarrow> \<not> ac_isempty (kh_flags h) i \<and>
     (ac_isdel (kh_flags h) i \<or> kh_keys h ! i \<noteq> key)"

lemma walk_not_back:
  assumes "n = 2 ^ e" "s < t" "t < n"
  shows "probe n key (Suc s) \<noteq> probe n key 0"
  using probe_inj [OF assms(1), of "Suc s" 0 key] assms by auto

lemma kh_get_loop_stops:
  assumes n: "n = 2 ^ e" "kh_n_buckets h = n" and t: "t < n" "\<not> skips h key (probe n key t)"
    and before: "\<forall>s<t. skips h key (probe n key s)"
  shows "s \<le> t \<Longrightarrow> t - s < fuel \<Longrightarrow>
    kh_get_loop fuel h key (n - 1) (probe n key 0) (probe n key s) s =
      Some (if ac_iseither (kh_flags h) (probe n key t) then n else probe n key t)"
proof (induction fuel arbitrary: s)
  case (Suc fuel)
  show ?case
  proof (cases "s = t")
    case True
    then show ?thesis using t(2) n(2) by (auto simp: skips_def)
  next
    case False
    then have s: "s < t" "skips h key (probe n key s)" using Suc.prems before by auto
    have "kh_get_loop fuel h key (n - 1) (probe n key 0) (probe n key (Suc s)) (Suc s) =
      Some (if ac_iseither (kh_flags h) (probe n key t) then n else probe n key t)"
      using Suc.IH [of "Suc s"] Suc.prems s(1) by auto
    then show ?thesis
      using s walk_not_back [OF n(1) s(1) t(1), of key] probe_Suc [OF n(1), of key s]
      by (simp add: skips_def Let_def)
  qed
qed simp

lemma kh_put_loop_stops:
  assumes n: "n = 2 ^ e" "kh_n_buckets h = n" and t: "t < n" "\<not> skips h key (probe n key t)"
    and before: "\<forall>s<t. skips h key (probe n key s)"
  shows "s \<le> t \<Longrightarrow> t - s < fuel \<Longrightarrow>
    \<exists>site'. kh_put_loop fuel h key (n - 1) (probe n key 0) (probe n key s) s site =
        Some (probe n key t, site', n) \<and>
      (site' = site \<or> (\<exists>u<t. site' = probe n key u \<and> ac_isdel (kh_flags h) site'))"
proof (induction fuel arbitrary: s site)
  case (Suc fuel)
  show ?case
  proof (cases "s = t")
    case True
    then show ?thesis using t(2) n(2) by (auto simp: skips_def)
  next
    case False
    then have s: "s < t" "skips h key (probe n key s)" using Suc.prems before by auto
    let ?site = "if ac_isdel (kh_flags h) (probe n key s) then probe n key s else site"
    obtain site' where
      "kh_put_loop fuel h key (n - 1) (probe n key 0) (probe n key (Suc s)) (Suc s) ?site =
         Some (probe n key t, site', n)"
      "site' = ?site \<or> (\<exists>u<t. site' = probe n key u \<and> ac_isdel (kh_flags h) site')"
      using Suc.IH [of "Suc s" ?site] Suc.prems s(1) by (metis Suc_leI diff_Suc_less_Suc_diff)
    then show ?thesis
      using s walk_not_back [OF n(1) s(1) t(1), of key] probe_Suc [OF n(1), of key s]
      by (auto simp: skips_def Let_def split: if_splits)
  qed
qed simp

lemma find_empty_stops:
  assumes n: "n = 2 ^ e" and t: "ac_isempty f (probe n key t)"
    and before: "\<forall>s<t. \<not> ac_isempty f (probe n key s)"
  shows "s \<le> t \<Longrightarrow> t - s < fuel \<Longrightarrow>
    find_empty fuel f (n - 1) (probe n key s) s = Some (probe n key t)"
proof (induction fuel arbitrary: s)
  case (Suc fuel)
  show ?case
  proof (cases "s = t")
    case True
    then show ?thesis using t by simp
  next
    case False
    then have s: "s < t" "\<not> ac_isempty f (probe n key s)" using Suc.prems before by auto
    then show ?thesis
      using Suc.IH [of "Suc s"] Suc.prems probe_Suc [OF n, of key s] by (simp add: Let_def)
  qed
qed simp

lemma find_empty_finds:
  assumes "n = 2 ^ e" "i < n" "ac_isempty f i"
  obtains t where "t < n" "find_empty n f (n - 1) (unat key AND (n - 1)) 0 = Some (probe n key t)"
    "ac_isempty f (probe n key t)" "\<forall>s<t. \<not> ac_isempty f (probe n key s)"
proof -
  obtain t where "t < n" "ac_isempty f (probe n key t)" "\<forall>s<t. \<not> ac_isempty f (probe n key s)"
    using first_stop [of n e i "ac_isempty f" key] assms by metis
  then show thesis
    using that find_empty_stops [OF assms(1), of f key t 0 n] probe_0 [OF assms(1), of key] by simp
qed

section \<open>The map of a table\<close>

definition live :: "u32 list \<Rightarrow> nat \<Rightarrow> nat set" where
  "live f n = {i. i < n \<and> \<not> ac_iseither f i}"

definition used :: "u32 list \<Rightarrow> nat \<Rightarrow> nat set" where
  "used f n = {i. i < n \<and> \<not> ac_isempty f i}"

definition entries :: "nat set \<Rightarrow> u32 list \<Rightarrow> 'a list \<Rightarrow> (u32 \<times> 'a) set" where
  "entries A keys vals = (\<lambda>i. (keys ! i, vals ! i)) ` A"

definition reach :: "u32 list \<Rightarrow> nat \<Rightarrow> u32 \<Rightarrow> nat \<Rightarrow> bool" where
  "reach f n key i \<longleftrightarrow>
     (\<exists>t<n. probe n key t = i \<and> (\<forall>s<t. \<not> ac_isempty f (probe n key s)))"

definition kh_map :: "'v khash \<Rightarrow> u32 \<rightharpoonup> 'v option" where
  "kh_map h = map_of [(kh_keys h ! i, kh_vals h ! i). i \<leftarrow> [0..<kh_n_buckets h],
     \<not> ac_iseither (kh_flags h) i]"

definition kh_table_ok :: "nat \<Rightarrow> 'v khash \<Rightarrow> bool" where
  "kh_table_ok e h \<longleftrightarrow>
     (let n = kh_n_buckets h; f = kh_flags h in
      2 \<le> e \<and> e \<le> 31 \<and> n = 2 ^ e \<and>
      length f = ac_fsize n \<and> length (kh_keys h) = n \<and> length (kh_vals h) = n \<and>
      kh_size h = card (live f n) \<and> kh_n_occupied h = card (used f n) \<and>
      kh_n_occupied h \<le> kh_upper_bound h \<and> kh_upper_bound h = kh_upper n \<and>
      inj_on ((!) (kh_keys h)) (live f n) \<and> (\<forall>i\<in>live f n. reach f n (kh_keys h ! i) i))"

definition kh_ok :: "'v khash \<Rightarrow> bool" where
  "kh_ok h \<longleftrightarrow> h = kh_init \<or> (\<exists>e. kh_table_ok e h)"

lemma finite_live [simp, intro]: "finite (live f n)" "finite (used f n)"
  by (simp_all add: live_def used_def)

lemma live_used: "live f n \<subseteq> used f n"
  by (auto simp: live_def used_def ac_iseither_iff)

lemma concat_filter:
  "[f i. i \<leftarrow> xs, P i] = map f (filter P xs)"
  by (induction xs) auto

lemma free_bucket:
  assumes "card (used f n) < n"
  shows "\<exists>b<n. ac_isempty f b"
proof (rule ccontr)
  assume "\<not> (\<exists>b<n. ac_isempty f b)"
  then have "{..<n} \<subseteq> used f n" by (auto simp: used_def)
  then have "card {..<n} \<le> card (used f n)" by (rule card_mono [OF finite_live(2)])
  then show False using assms by simp
qed

lemma map_of_entries:
  assumes "inj_on ((!) keys) A" "A \<subseteq> set xs" "distinct xs" "\<And>i. i \<in> set xs \<Longrightarrow> P i \<longleftrightarrow> i \<in> A"
  shows "map_of [(keys ! i, vals ! i). i \<leftarrow> xs, P i] k = Some v \<longleftrightarrow> (k, v) \<in> entries A keys vals"
proof -
  have "inj_on ((!) keys) (set (filter P xs))"
    using assms(1) by (rule inj_on_subset) (use assms(4) in auto)
  then have "distinct (map fst (map (\<lambda>i. (keys ! i, vals ! i)) (filter P xs)))"
    using assms(3) by (simp add: distinct_map o_def)
  then show ?thesis
    using assms(2,4) unfolding concat_filter by (auto simp: map_of_eq_Some_iff entries_def)
qed

lemma kh_map_iff:
  assumes "inj_on ((!) (kh_keys h)) (live (kh_flags h) (kh_n_buckets h))"
  shows "kh_map h k = Some v \<longleftrightarrow>
      (k, v) \<in> entries (live (kh_flags h) (kh_n_buckets h)) (kh_keys h) (kh_vals h)"
  unfolding kh_map_def
  by (rule map_of_entries) (use assms in \<open>auto simp: live_def\<close>)

lemma fst_entries: "fst ` entries A keys vals = (!) keys ` A"
  by (simp add: entries_def image_image)

lemma kh_ok_init: "kh_ok kh_init" "kh_map kh_init = Map.empty"
  by (simp_all add: kh_ok_def kh_map_def kh_init_def)

section \<open>Rehashing\<close>

text \<open>
  During a rehash every entry of the map \<open>M\<close> is in one place: a bucket of the old table that
  is still live, a bucket of the new table, or in hand (\<open>hd\<close>).
\<close>

definition rehash_ok ::
    "nat \<Rightarrow> nat \<Rightarrow> (u32 \<rightharpoonup> 'v option) \<Rightarrow> 'v rehash \<Rightarrow> (u32 \<times> 'v option) option \<Rightarrow> bool" where
  "rehash_ok n m M s held \<longleftrightarrow>
     (let A = live (rh_flags s) n; B = used (rh_new_flags s) m in
      (n \<noteq> 0 \<longrightarrow> length (rh_flags s) = ac_fsize n) \<and> length (rh_new_flags s) = ac_fsize m \<and>
      length (rh_keys s) = max n m \<and> length (rh_vals s) = max n m \<and>
      (\<forall>i<m. \<not> ac_isdel (rh_new_flags s) i) \<and> A \<inter> B = {} \<and>
      inj_on ((!) (rh_keys s)) (A \<union> B) \<and>
      (\<forall>kv\<in>set_option held. fst kv \<notin> (!) (rh_keys s) ` (A \<union> B)) \<and>
      Map.graph M = entries (A \<union> B) (rh_keys s) (rh_vals s) \<union> set_option held \<and>
      (\<forall>i\<in>B. reach (rh_new_flags s) m (rh_keys s ! i) i))"

lemma rehash_okI:
  assumes "live (rh_flags s) n = A" "used (rh_new_flags s) m = B"
    and "n \<noteq> 0 \<Longrightarrow> length (rh_flags s) = ac_fsize n" "length (rh_new_flags s) = ac_fsize m"
    and "length (rh_keys s) = max n m" "length (rh_vals s) = max n m"
    and "\<And>i. i < m \<Longrightarrow> \<not> ac_isdel (rh_new_flags s) i" "A \<inter> B = {}"
    and "inj_on ((!) (rh_keys s)) (A \<union> B)"
    and "\<And>k v. held = Some (k, v) \<Longrightarrow> k \<notin> (!) (rh_keys s) ` (A \<union> B)"
    and "Map.graph M = entries (A \<union> B) (rh_keys s) (rh_vals s) \<union> set_option held"
    and "\<And>i. i \<in> B \<Longrightarrow> reach (rh_new_flags s) m (rh_keys s ! i) i"
  shows "rehash_ok n m M s held"
  using assms by (auto simp: rehash_ok_def Let_def)

lemma rehash_okD:
  assumes "rehash_ok n m M s held"
  shows "n \<noteq> 0 \<Longrightarrow> length (rh_flags s) = ac_fsize n" "length (rh_new_flags s) = ac_fsize m"
    "length (rh_keys s) = max n m" "length (rh_vals s) = max n m"
    "i < m \<Longrightarrow> \<not> ac_isdel (rh_new_flags s) i"
    "live (rh_flags s) n \<inter> used (rh_new_flags s) m = {}"
    "i \<in> used (rh_new_flags s) m \<Longrightarrow> reach (rh_new_flags s) m (rh_keys s ! i) i"
    "Map.graph M = entries (live (rh_flags s) n \<union> used (rh_new_flags s) m) (rh_keys s) (rh_vals s) \<union>
       set_option held"
    "inj_on ((!) (rh_keys s)) (live (rh_flags s) n \<union> used (rh_new_flags s) m)"
  using assms by (simp_all add: rehash_ok_def Let_def)

lemma rehash_count:
  assumes "rehash_ok n m M s held"
  shows "finite (dom M) \<and>
    card (dom M) = card (live (rh_flags s) n) + card (used (rh_new_flags s) m) +
      card (set_option held)"
proof -
  let ?A = "live (rh_flags s) n" and ?B = "used (rh_new_flags s) m"
  note ok = assms [unfolded rehash_ok_def Let_def]
  have dom: "dom M = (!) (rh_keys s) ` (?A \<union> ?B) \<union> fst ` set_option held"
    using ok fst_graph_eq_dom [of M] by (simp add: image_Un fst_entries)
  have disj: "(!) (rh_keys s) ` (?A \<union> ?B) \<inter> fst ` set_option held = {}" using ok by auto
  have "card (dom M) = card ((!) (rh_keys s) ` (?A \<union> ?B)) + card (fst ` set_option held)"
    unfolding dom by (rule card_Un_disjoint) (use disj in auto)
  also have "card ((!) (rh_keys s) ` (?A \<union> ?B)) = card ?A + card ?B"
    using ok by (simp add: card_image card_Un_disjoint)
  also have "card (fst ` set_option held) = card (set_option held)" by (cases held) auto
  finally show ?thesis using dom by simp
qed

lemma entries_insert:
  assumes "i < length keys" "i < length vals"
  shows "entries (insert i C) (keys[i := k]) (vals[i := v]) = insert (k, v) (entries (C - {i}) keys vals)"
proof -
  have split: "entries (insert i C) ks vs = insert (ks ! i, vs ! i) (entries (C - {i}) ks vs)"
    for ks and vs :: "'a list"
    by (auto simp: entries_def)
  have "entries (C - {i}) (keys[i := k]) (vals[i := v]) = entries (C - {i}) keys vals"
    unfolding entries_def by (rule image_cong) auto
  then show ?thesis
    using assms unfolding split by simp
qed

lemma entries_remove:
  "i \<in> C \<Longrightarrow> entries C keys vals = insert (keys ! i, vals ! i) (entries (C - {i}) keys vals)"
  by (auto simp: entries_def)

lemma inj_on_insert_key:
  assumes "inj_on ((!) keys) C" "k \<notin> (!) keys ` (C - {i})" "i < length keys"
  shows "inj_on ((!) (keys[i := k])) (insert i C)"
  using assms by (auto simp: inj_on_def nth_list_update image_iff)

lemma reach_mono:
  assumes "reach f n k i" "\<And>j. \<not> ac_isempty f j \<Longrightarrow> \<not> ac_isempty f' j"
  shows "reach f' n k i"
  using assms by (auto simp: reach_def)

definition size_pow2 :: "nat \<Rightarrow> bool" where
  "size_pow2 n \<longleftrightarrow> n = 0 \<or> (\<exists>e. n = 2 ^ e)"

lemma flag_word_in: "size_pow2 n \<Longrightarrow> i < n \<Longrightarrow> i div 16 < ac_fsize n"
  using fsize_bucket by (auto simp: size_pow2_def)

lemma used_set_isempty_false:
  "i < m \<Longrightarrow> i div 16 < length f \<Longrightarrow> used (ac_set_isempty_false f i) m = insert i (used f m)"
  by (auto simp: used_def flag_simps)

lemma live_set_isdel_true:
  "i div 16 < length f \<Longrightarrow> live (ac_set_isdel_true f i) n = live f n - {i}"
  by (auto simp: live_def ac_iseither_iff flag_simps)

text \<open>Putting the entry in hand into an empty bucket of the new table.\<close>

definition place :: "nat \<Rightarrow> u32 \<Rightarrow> 'v option \<Rightarrow> 'v rehash \<Rightarrow> 'v rehash" where
  "place i key val s = s\<lparr>rh_new_flags := ac_set_isempty_false (rh_new_flags s) i,
     rh_keys := (rh_keys s)[i := key], rh_vals := (rh_vals s)[i := val]\<rparr>"

lemma rehash_place:
  assumes ok: "rehash_ok n m M s (Some (key, val))" and m: "size_pow2 m" and i: "i < m"
    and e: "ac_isempty (rh_new_flags s) i" and r: "reach (rh_new_flags s) m key i"
    and free: "i \<notin> live (rh_flags s) n"
  shows "rehash_ok n m M (place i key val s) None"
proof -
  let ?A = "live (rh_flags s) n" and ?B = "used (rh_new_flags s) m"
  note ok' = ok [unfolded rehash_ok_def Let_def]
  have w: "i div 16 < length (rh_new_flags s)" using flag_word_in [OF m i] ok' by simp
  have len: "i < length (rh_keys s)" "i < length (rh_vals s)" using ok' i by auto
  have used: "used (rh_new_flags (place i key val s)) m = insert i ?B"
    using used_set_isempty_false [OF i w] by (simp add: place_def)
  have new: "i \<notin> ?A \<union> ?B" using e free by (simp add: used_def)
  have un: "?A \<union> insert i ?B = insert i (?A \<union> ?B)" by auto
  have keys: "rh_keys (place i key val s) = (rh_keys s)[i := key]" by (simp add: place_def)
  have reach: "reach (rh_new_flags (place i key val s)) m (rh_keys (place i key val s) ! j) j"
    if "j \<in> insert i ?B" for j
  proof (rule reach_mono)
    show "reach (rh_new_flags s) m (rh_keys (place i key val s) ! j) j"
      using that ok' r len new by (auto simp: place_def nth_list_update)
  qed (simp add: place_def flag_simps w)
  have inj: "inj_on ((!) (rh_keys (place i key val s))) (?A \<union> insert i ?B)"
    unfolding un keys by (rule inj_on_insert_key) (use ok' len in auto)
  have pairs: "entries (?A \<union> insert i ?B) (rh_keys (place i key val s)) (rh_vals (place i key val s)) =
      entries (?A \<union> ?B) (rh_keys s) (rh_vals s) \<union> {(key, val)}"
    unfolding un place_def using len new by (simp add: entries_insert)
  show ?thesis
  proof (rule rehash_okI [OF _ used])
    show "inj_on ((!) (rh_keys (place i key val s))) (?A \<union> insert i ?B)" by (rule inj)
    show "Map.graph M = entries (?A \<union> insert i ?B) (rh_keys (place i key val s))
        (rh_vals (place i key val s)) \<union> set_option None"
      using ok' pairs by simp
  qed (use ok' new reach in \<open>auto simp: place_def ac_set_isempty_false [OF w]\<close>)
qed

lemma rehash_kick:
  assumes ok: "rehash_ok n m M s (Some (key, val))" and m: "size_pow2 m" and i: "i < m"
    and n: "size_pow2 n"
    and e: "ac_isempty (rh_new_flags s) i" and r: "reach (rh_new_flags s) m key i"
    and taken: "i \<in> live (rh_flags s) n"
  shows "rehash_ok n m M
    ((place i key val s)\<lparr>rh_flags := ac_set_isdel_true (rh_flags s) i\<rparr>)
    (Some (rh_keys s ! i, rh_vals s ! i))"
proof -
  let ?A = "live (rh_flags s) n" and ?B = "used (rh_new_flags s) m"
  let ?s = "(place i key val s)\<lparr>rh_flags := ac_set_isdel_true (rh_flags s) i\<rparr>"
  note ok' = ok [unfolded rehash_ok_def Let_def]
  have w: "i div 16 < length (rh_new_flags s)" using flag_word_in [OF m i] ok' by simp
  have "i < n" using taken by (simp add: live_def)
  then have w': "i div 16 < length (rh_flags s)" using flag_word_in [OF n] ok' by simp
  have len: "i < length (rh_keys s)" "i < length (rh_vals s)" using ok' i by auto
  have used: "used (rh_new_flags ?s) m = insert i ?B"
    using used_set_isempty_false [OF i w] by (simp add: place_def)
  have live: "live (rh_flags ?s) n = ?A - {i}" using live_set_isdel_true [OF w'] by simp
  have new: "i \<notin> ?B" using e by (simp add: used_def)
  have un: "?A - {i} \<union> insert i ?B = insert i (?A \<union> ?B)" by auto
  have C: "i \<in> ?A \<union> ?B" using taken by simp
  have keys: "rh_keys ?s = (rh_keys s)[i := key]" "rh_vals ?s = (rh_vals s)[i := val]"
    by (simp_all add: place_def)
  have fresh: "key \<notin> (!) (rh_keys s) ` (?A \<union> ?B)" using ok' by simp
  have reach: "reach (rh_new_flags ?s) m (rh_keys ?s ! j) j" if "j \<in> insert i ?B" for j
  proof (rule reach_mono)
    show "reach (rh_new_flags s) m (rh_keys ?s ! j) j"
      using that ok' r len new by (auto simp: keys nth_list_update)
  qed (simp add: place_def flag_simps w)
  have inj: "inj_on ((!) (rh_keys ?s)) (?A - {i} \<union> insert i ?B)"
    unfolding un keys using ok' len fresh by (intro inj_on_insert_key) auto
  have old: "inj_on ((!) (rh_keys s)) (?A \<union> ?B)" using ok' by simp
  have out: "rh_keys s ! i \<notin> (!) (rh_keys ?s) ` (?A - {i} \<union> insert i ?B)"
  proof
    assume "rh_keys s ! i \<in> (!) (rh_keys ?s) ` (?A - {i} \<union> insert i ?B)"
    then obtain j where j: "j \<in> insert i (?A \<union> ?B)" "rh_keys s ! i = (rh_keys s)[i := key] ! j"
      unfolding un keys by auto
    then have "j \<noteq> i" using fresh C len by auto
    then show False using j old C by (auto dest: inj_onD)
  qed
  have pairs: "entries (?A - {i} \<union> insert i ?B) (rh_keys ?s) (rh_vals ?s) \<union>
        {(rh_keys s ! i, rh_vals s ! i)} =
      entries (?A \<union> ?B) (rh_keys s) (rh_vals s) \<union> {(key, val)}"
    unfolding un keys entries_insert [OF len] entries_remove [OF C] by auto
  show ?thesis
  proof (rule rehash_okI [OF live used])
    show "inj_on ((!) (rh_keys ?s)) (?A - {i} \<union> insert i ?B)" by (rule inj)
    show "\<And>k v. Some (rh_keys s ! i, rh_vals s ! i) = Some (k, v) \<Longrightarrow>
        k \<notin> (!) (rh_keys ?s) ` (?A - {i} \<union> insert i ?B)"
      using out by blast
    show "Map.graph M = entries (?A - {i} \<union> insert i ?B) (rh_keys ?s) (rh_vals ?s) \<union>
        set_option (Some (rh_keys s ! i, rh_vals s ! i))"
      using ok' pairs by simp
  qed (use ok' new reach in \<open>auto simp: place_def ac_set_isempty_false [OF w]\<close>)
qed

text \<open>Taking the entry of a live old bucket in hand.\<close>

lemma rehash_take:
  assumes ok: "rehash_ok n m M s None" and n: "size_pow2 n" and j: "j \<in> live (rh_flags s) n"
  shows "rehash_ok n m M (s\<lparr>rh_flags := ac_set_isdel_true (rh_flags s) j\<rparr>)
    (Some (rh_keys s ! j, rh_vals s ! j))"
proof -
  let ?A = "live (rh_flags s) n" and ?B = "used (rh_new_flags s) m"
  let ?s = "s\<lparr>rh_flags := ac_set_isdel_true (rh_flags s) j\<rparr>"
  note ok' = ok [unfolded rehash_ok_def Let_def]
  have "j < n" using j by (simp add: live_def)
  then have w: "j div 16 < length (rh_flags s)" using flag_word_in [OF n] ok' by simp
  have live: "live (rh_flags ?s) n = ?A - {j}" using live_set_isdel_true [OF w] by simp
  have new: "j \<notin> ?B" using j ok' by auto
  then have un: "?A \<union> ?B - {j} = ?A - {j} \<union> ?B" by auto
  have old: "inj_on ((!) (rh_keys s)) (?A \<union> ?B)" using ok' by simp
  show ?thesis
  proof (rule rehash_okI [OF live refl])
    show "inj_on ((!) (rh_keys ?s)) (?A - {j} \<union> used (rh_new_flags ?s) m)"
      using old by (auto intro: inj_on_subset)
    show "k \<notin> (!) (rh_keys ?s) ` (?A - {j} \<union> used (rh_new_flags ?s) m)"
      if "Some (rh_keys s ! j, rh_vals s ! j) = Some (k, v)" for k v
      using that old new j by (auto dest: inj_onD)
    show "Map.graph M = entries (?A - {j} \<union> used (rh_new_flags ?s) m) (rh_keys ?s) (rh_vals ?s) \<union>
        set_option (Some (rh_keys s ! j, rh_vals s ! j))"
      using ok' entries_remove [of j "?A \<union> ?B" "rh_keys s" "rh_vals s"] j un by simp
  qed (use rehash_okD(1-7) [OF ok] in auto)
qed

lemma kick_out_ends:
  assumes m: "m = 2 ^ e" and n: "size_pow2 n" and few: "card (dom M) \<le> m"
  shows "rehash_ok n m M s (Some (key, val)) \<Longrightarrow> card (live (rh_flags s) n) < fuel \<Longrightarrow>
    \<exists>s'. kick_out fuel n (m - 1) key val s = Some s' \<and> rehash_ok n m M s' None \<and>
      live (rh_flags s') n \<subseteq> live (rh_flags s) n"
proof (induction fuel arbitrary: s key val)
  case (Suc fuel)
  have m': "size_pow2 m" using m by (auto simp: size_pow2_def)
  have "card (used (rh_new_flags s) m) < m" using rehash_count [OF Suc.prems(1)] few by simp
  then obtain b where "b < m" "ac_isempty (rh_new_flags s) b" using free_bucket by blast
  then obtain t where t: "t < m" "ac_isempty (rh_new_flags s) (probe m key t)"
    "\<forall>u<t. \<not> ac_isempty (rh_new_flags s) (probe m key u)"
    "find_empty m (rh_new_flags s) (m - 1) (unat key AND (m - 1)) 0 = Some (probe m key t)"
    using find_empty_finds [OF m, of b "rh_new_flags s" key] by metis
  define i where "i = probe m key t"
  have i: "i < m" "ac_isempty (rh_new_flags s) i" "reach (rh_new_flags s) m key i"
    using t probe_less [OF m] by (auto simp: i_def reach_def)
  have fe: "find_empty (m - 1 + 1) (rh_new_flags s) (m - 1) (unat key AND (m - 1)) 0 = Some i"
    using t(1,4) by (simp add: i_def)
  show ?case
  proof (cases "i \<in> live (rh_flags s) n")
    case True
    let ?s = "(place i key val s)\<lparr>rh_flags := ac_set_isdel_true (rh_flags s) i\<rparr>"
    have ok: "rehash_ok n m M ?s (Some (rh_keys s ! i, rh_vals s ! i))"
      by (rule rehash_kick [OF Suc.prems(1) m' i(1) n i(2,3) True])
    have w: "i div 16 < length (rh_flags s)"
      using True flag_word_in [OF n] Suc.prems(1) by (simp add: live_def rehash_ok_def Let_def)
    have live: "live (rh_flags ?s) n = live (rh_flags s) n - {i}"
      using live_set_isdel_true [OF w] by simp
    then have "card (live (rh_flags ?s) n) < fuel"
      using True Suc.prems(2) card_Diff1_less [OF finite_live(1) True] by simp
    then obtain s' where "kick_out fuel n (m - 1) (rh_keys s ! i) (rh_vals s ! i) ?s = Some s'"
      "rehash_ok n m M s' None" "live (rh_flags s') n \<subseteq> live (rh_flags ?s) n"
      using Suc.IH [OF ok] by blast
    moreover have "kick_out (Suc fuel) n (m - 1) key val s =
        kick_out fuel n (m - 1) (rh_keys s ! i) (rh_vals s ! i) ?s"
      using fe True by (simp add: live_def place_def Let_def)
    ultimately show ?thesis using live by auto
  next
    case False
    then have "\<not> (i < n \<and> \<not> ac_iseither (rh_flags s) i)" by (simp add: live_def)
    then have "kick_out (Suc fuel) n (m - 1) key val s = Some (place i key val s)"
      using fe by (auto simp: place_def Let_def)
    moreover have "rehash_ok n m M (place i key val s) None"
      by (rule rehash_place [OF Suc.prems(1) m' i False])
    ultimately show ?thesis by (auto simp: place_def)
  qed
qed simp

lemma rehash_loop_ends:
  assumes m: "m = 2 ^ e" and n: "size_pow2 n" and few: "card (dom M) \<le> m"
  shows "rehash_ok n m M s None \<Longrightarrow> live (rh_flags s) n \<inter> {..<j} = {} \<Longrightarrow> j + left = n \<Longrightarrow>
    \<exists>s'. rehash_loop left j n (m - 1) s = Some s' \<and> rehash_ok n m M s' None \<and>
      live (rh_flags s') n = {}"
proof (induction left arbitrary: j s)
  case 0
  then have "live (rh_flags s) n = {}" by (auto simp: live_def)
  then show ?case using 0 by simp
next
  case (Suc left)
  show ?case
  proof (cases "ac_iseither (rh_flags s) j")
    case True
    then have "live (rh_flags s) n \<inter> {..<Suc j} = {}"
      using Suc.prems(2) by (auto simp: live_def less_Suc_eq)
    then show ?thesis using Suc.IH [of s "Suc j"] Suc.prems True by simp
  next
    case False
    then have j: "j \<in> live (rh_flags s) n" using Suc.prems(3) by (simp add: live_def)
    let ?s = "s\<lparr>rh_flags := ac_set_isdel_true (rh_flags s) j\<rparr>"
    have w: "j div 16 < length (rh_flags s)"
      using j flag_word_in [OF n] Suc.prems(1) by (simp add: live_def rehash_ok_def Let_def)
    have live: "live (rh_flags ?s) n = live (rh_flags s) n - {j}"
      using live_set_isdel_true [OF w] by simp
    have "card (live (rh_flags ?s) n) \<le> card {..<n}" by (rule card_mono) (auto simp: live_def)
    then have "card (live (rh_flags ?s) n) < n + 1" by simp
    then obtain s' where s': "kick_out (n + 1) n (m - 1) (rh_keys s ! j) (rh_vals s ! j) ?s = Some s'"
      "rehash_ok n m M s' None" "live (rh_flags s') n \<subseteq> live (rh_flags ?s) n"
      using kick_out_ends [OF m n few rehash_take [OF Suc.prems(1) n j]] by blast
    have "live (rh_flags s') n \<inter> {..<Suc j} = {}"
      using s'(3) Suc.prems(2) unfolding live lessThan_Suc by blast
    then show ?thesis using Suc.IH [OF s'(2), of "Suc j"] s'(1) Suc.prems(3) False by simp
  qed
qed

section \<open>Sizes\<close>

lemma smear:
  fixes x y :: u32
  assumes "\<And>i. bit y i \<longleftrightarrow> (\<exists>d<k. bit x (i + d))"
  shows "bit (y OR drop_bit k y) i \<longleftrightarrow> (\<exists>d<2 * k. bit x (i + d))"
proof -
  have "(\<exists>d<2 * k. bit x (i + d)) \<longleftrightarrow> (\<exists>d<k. bit x (i + d)) \<or> (\<exists>d<k. bit x (i + (k + d)))"
  proof
    assume "\<exists>d<2 * k. bit x (i + d)"
    then obtain d where d: "d < 2 * k" "bit x (i + d)" by auto
    show "(\<exists>d<k. bit x (i + d)) \<or> (\<exists>d<k. bit x (i + (k + d)))"
    proof (cases "d < k")
      case False
      then have "d - k < k" "i + (k + (d - k)) = i + d" using d(1) by auto
      then show ?thesis using d(2) by metis
    qed (use d in auto)
  next
    assume "(\<exists>d<k. bit x (i + d)) \<or> (\<exists>d<k. bit x (i + (k + d)))"
    then show "\<exists>d<2 * k. bit x (i + d)"
    proof
      assume "\<exists>d<k. bit x (i + d)"
      then obtain d where "d < k" "bit x (i + d)" by blast
      then show ?thesis by (intro exI [of _ d]) simp
    next
      assume "\<exists>d<k. bit x (i + (k + d))"
      then obtain d where "d < k" "bit x (i + (k + d))" by blast
      then show ?thesis by (intro exI [of _ "k + d"]) simp
    qed
  qed
  then show ?thesis using assms by (simp add: bit_or_iff bit_drop_bit_eq add.assoc add.left_commute)
qed

lemma kroundup32_smear:
  obtains y where "kroundup32 x = y + 1" "\<And>i. bit y i \<longleftrightarrow> (\<exists>j\<ge>i. bit (x - 1) j)"
proof -
  define w where "w = x - 1"
  define y1 where "y1 = w OR drop_bit 1 w"
  define y2 where "y2 = y1 OR drop_bit 2 y1"
  define y3 where "y3 = y2 OR drop_bit 4 y2"
  define y4 where "y4 = y3 OR drop_bit 8 y3"
  define y5 where "y5 = y4 OR drop_bit 16 y4"
  have b1: "bit y1 i \<longleftrightarrow> (\<exists>d<2. bit w (i + d))" for i
    using smear [of w 1 w i] by (simp add: y1_def)
  have b2: "bit y2 i \<longleftrightarrow> (\<exists>d<4. bit w (i + d))" for i
    using smear [OF b1, of i] by (simp add: y2_def)
  have b3: "bit y3 i \<longleftrightarrow> (\<exists>d<8. bit w (i + d))" for i
    using smear [OF b2, of i] by (simp add: y3_def)
  have b4: "bit y4 i \<longleftrightarrow> (\<exists>d<16. bit w (i + d))" for i
    using smear [OF b3, of i] by (simp add: y4_def)
  have b5: "bit y5 i \<longleftrightarrow> (\<exists>d<32. bit w (i + d))" for i
    using smear [OF b4, of i] by (simp add: y5_def)
  have "bit y5 i \<longleftrightarrow> (\<exists>j\<ge>i. bit w j)" for i
  proof
    assume "\<exists>j\<ge>i. bit w j"
    then obtain j where j: "i \<le> j" "bit w j" by auto
    then have "j < 32" using bit_imp_le_length [of w j] by simp
    then have "j - i < 32" "i + (j - i) = j" using j(1) by auto
    then show "bit y5 i" unfolding b5 using j(2) by metis
  next
    assume "bit y5 i"
    then obtain d where "bit w (i + d)" unfolding b5 by blast
    then show "\<exists>j\<ge>i. bit w j" by (intro exI [of _ "i + d"]) simp
  qed
  moreover have "kroundup32 x = y5 + 1"
    by (simp add: kroundup32_def Let_def w_def y1_def y2_def y3_def y4_def y5_def)
  ultimately show thesis using that by (simp add: w_def)
qed

lemma high_bit:
  fixes w :: u32
  assumes "w \<noteq> 0"
  obtains k where "k < 32" "bit w k" "\<forall>j>k. \<not> bit w j"
proof -
  have lt: "j < 32" if "bit w j" for j using that bit_imp_le_length [of w j] by simp
  obtain j where j: "bit w j" using assms by (auto simp: bit_eq_iff)
  have "\<forall>j. bit w j \<longrightarrow> j < 32" using lt by blast
  then obtain k where "bit w k" "\<forall>j. bit w j \<longrightarrow> j \<le> k"
    using ex_has_greatest_nat [of "bit w" j "\<lambda>j. j" 32] j by blast
  then show thesis using that lt by (meson not_le)
qed

text \<open>\<open>kroundup32\<close> is the next power of two.\<close>

lemma kroundup32_pow2:
  assumes "1 < unat x"
  obtains e where "0 < e" "e \<le> 32" "kroundup32 x = 2 ^ e" "2 ^ (e - 1) < unat x" "unat x \<le> 2 ^ e"
proof -
  obtain y where y: "kroundup32 x = y + 1" "\<And>i. bit y i \<longleftrightarrow> (\<exists>j\<ge>i. bit (x - 1) j)"
    using kroundup32_smear by blast
  have "x \<noteq> 0" using assms by auto
  then have w: "unat (x - 1) = unat x - 1" by (simp add: unat_minus_one)
  then have "x - 1 \<noteq> 0" using assms by (metis unat_0 zero_less_diff less_numeral_extra(3))
  then obtain k where k: "k < 32" "bit (x - 1) k" "\<forall>j>k. \<not> bit (x - 1) j" using high_bit by blast
  have "y = mask (Suc k)"
    by (rule bit_word_eqI) (use k y(2) in \<open>auto simp: bit_mask_iff less_Suc_eq_le
      intro: leI\<close>)
  then have "kroundup32 x = 2 ^ Suc k" using y(1) by (simp add: mask_eq_exp_minus_1)
  moreover have "2 ^ k \<le> unat (x - 1)"
  proof -
    have "bit (unat (x - 1)) k" using k(2) by (simp add: bit_unsigned_iff)
    then show ?thesis by (auto simp: bit_iff_odd intro: ccontr)
  qed
  moreover have "unat (x - 1) < 2 ^ Suc k"
  proof -
    have "take_bit (Suc k) (x - 1) = x - 1"
      by (rule bit_word_eqI) (use k(3) in \<open>auto simp: bit_take_bit_iff less_Suc_eq_le intro: leI\<close>)
    then have "unat (x - 1) = take_bit (Suc k) (unat (x - 1))" by (metis unsigned_take_bit_eq)
    then show ?thesis by (metis take_bit_nat_less_exp)
  qed
  ultimately show thesis using that [of "Suc k"] k(1) w by simp
qed

lemma unat_pow2: "e < 32 \<Longrightarrow> unat (2 ^ e :: u32) = 2 ^ e"
proof -
  assume "e < 32"
  then have "(2 :: nat) ^ e < 2 ^ 32" by (intro power_strict_increasing) auto
  then show "unat (2 ^ e :: u32) = 2 ^ e" by (intro of_nat_inverse) simp_all
qed

lemma kroundup32_down:
  assumes "2 \<le> e" "e \<le> 31"
  shows "unat (kroundup32 (of_nat (2 ^ e - 1))) = 2 ^ e"
proof -
  have four: "2 * 2 ^ (e - 1) = (2 :: nat) ^ e" "(2 :: nat) \<le> 2 ^ (e - 1)"
    using assms power_increasing [of 1 "e - 1" "2 :: nat"] by (simp_all add: power_eq_if)
  have lt: "(2 :: nat) ^ e < 2 ^ 32" using assms by (intro power_strict_increasing) auto
  then have u: "unat (of_nat (2 ^ e - 1) :: u32) = 2 ^ e - 1"
    by (intro of_nat_inverse [OF refl]) (simp add: less_imp_diff_less)
  then obtain d where d: "0 < d" "d \<le> 32" "kroundup32 (of_nat (2 ^ e - 1)) = 2 ^ d"
    "2 ^ (d - 1) < (2 :: nat) ^ e - 1" "(2 :: nat) ^ e - 1 \<le> 2 ^ d"
  proof -
    have "1 < unat (of_nat (2 ^ e - 1) :: u32)" unfolding u using four by linarith
    from kroundup32_pow2 [OF this] that show thesis unfolding u by metis
  qed
  have "(2 :: nat) ^ (d - 1) < 2 ^ e" using d(4) by linarith
  then have "d - 1 < e" by simp
  moreover have "\<not> d < e"
  proof
    assume "d < e"
    then have "(2 :: nat) ^ d \<le> 2 ^ (e - 1)" by (intro power_increasing) auto
    then show False using d(5) four by linarith
  qed
  ultimately have "d = e" by linarith
  then show ?thesis using d(3) unat_pow2 [OF assms(2) [THEN order.strict_trans1]] by simp
qed

lemma kroundup32_up:
  assumes "1 \<le> e" "e \<le> 30"
  shows "unat (kroundup32 (of_nat (2 ^ e + 1))) = 2 ^ Suc e"
proof -
  have four: "(2 :: nat) ^ 1 \<le> 2 ^ e" using assms by (intro power_increasing) auto
  have lt: "(2 :: nat) ^ Suc e < 2 ^ 32" using assms by (intro power_strict_increasing) auto
  then have u: "unat (of_nat (2 ^ e + 1) :: u32) = 2 ^ e + 1"
    using four by (intro of_nat_inverse [OF refl]) simp
  then obtain d where d: "0 < d" "d \<le> 32" "kroundup32 (of_nat (2 ^ e + 1)) = 2 ^ d"
    "2 ^ (d - 1) < (2 :: nat) ^ e + 1" "(2 :: nat) ^ e + 1 \<le> 2 ^ d"
    using kroundup32_pow2 [of "of_nat (2 ^ e + 1)"] four by auto
  have "(2 :: nat) ^ e < 2 ^ d" using d(5) by linarith
  then have "e < d" by simp
  moreover have "(2 :: nat) ^ (d - 1) \<le> 2 ^ e" using d(4) by linarith
  then have "d - 1 \<le> e" by simp
  ultimately have "d = Suc e" by linarith
  then show ?thesis using d(3) assms unat_pow2 [of "Suc e"] by simp
qed

lemma kh_upper_less: "4 \<le> n \<Longrightarrow> kh_upper n < n"
  unfolding kh_upper_def by (rule div_less_iff_less_mult [THEN iffD2]) simp_all

lemma kh_upper_half: "n \<le> 2 * kh_upper n"
proof -
  have "(n + 1) div 2 * 2 ^ 54 \<le> 2 * n * 6935543426150564 + 2 ^ 53"
    using div_times_less_eq_dividend [of "n + 1" 2] by simp
  then have "(n + 1) div 2 \<le> kh_upper n"
    unfolding kh_upper_def by (subst less_eq_div_iff_mult_less_eq) simp_all
  then show ?thesis by linarith
qed

lemma kh_upper_double: "4 \<le> n \<Longrightarrow> kh_upper n < kh_upper (2 * n)"
proof -
  assume n: "4 \<le> n"
  have "kh_upper n * 2 ^ 54 \<le> 2 * n * 6935543426150564 + 2 ^ 53"
    unfolding kh_upper_def by (rule div_times_less_eq_dividend)
  then have "(kh_upper n + 1) * 2 ^ 54 \<le> 2 * (2 * n) * 6935543426150564 + 2 ^ 53"
    using n by simp
  then have "kh_upper n + 1 \<le> kh_upper (2 * n)"
    unfolding kh_upper_def [of "2 * n"] by (subst less_eq_div_iff_mult_less_eq) simp_all
  then show ?thesis by simp
qed

section \<open>Resizing keeps the map\<close>

lemma kh_okD:
  assumes "kh_table_ok e h"
  shows "2 \<le> e" "e \<le> 31" "kh_n_buckets h = 2 ^ e" "4 \<le> kh_n_buckets h"
    "length (kh_flags h) = ac_fsize (kh_n_buckets h)" "length (kh_keys h) = kh_n_buckets h"
    "length (kh_vals h) = kh_n_buckets h" "kh_size h = card (live (kh_flags h) (kh_n_buckets h))"
    "kh_n_occupied h = card (used (kh_flags h) (kh_n_buckets h))"
    "kh_n_occupied h \<le> kh_upper_bound h" "kh_upper_bound h = kh_upper (kh_n_buckets h)"
    "inj_on ((!) (kh_keys h)) (live (kh_flags h) (kh_n_buckets h))"
    "i \<in> live (kh_flags h) (kh_n_buckets h) \<Longrightarrow> reach (kh_flags h) (kh_n_buckets h) (kh_keys h ! i) i"
    "size_pow2 (kh_n_buckets h)"
proof -
  have "(2 :: nat) ^ 2 \<le> 2 ^ e" using assms by (intro power_increasing) (auto simp: kh_table_ok_def Let_def)
  then show "4 \<le> kh_n_buckets h" using assms by (simp add: kh_table_ok_def Let_def)
qed (use assms in \<open>auto simp: kh_table_ok_def Let_def size_pow2_def\<close>)

lemma kh_map_graph:
  assumes "inj_on ((!) (kh_keys h)) (live (kh_flags h) (kh_n_buckets h))"
  shows "Map.graph (kh_map h) =
    entries (live (kh_flags h) (kh_n_buckets h)) (kh_keys h) (kh_vals h)"
  using kh_map_iff [OF assms] by (auto simp: Map.graph_def)

lemma graph_inject: "Map.graph m = Map.graph m' \<Longrightarrow> m = m'"
proof
  fix x
  assume g: "Map.graph m = Map.graph m'"
  have "m x = Some y \<longleftrightarrow> m' x = Some y" for y
  proof -
    have "(x, y) \<in> Map.graph m \<longleftrightarrow> (x, y) \<in> Map.graph m'" using g by simp
    then show ?thesis by (auto simp: Map.graph_def)
  qed
  then show "m x = m' x" by (metis not_None_eq)
qed

lemma entries_append:
  assumes "A \<subseteq> {..<length keys}" "length keys = length vals"
  shows "entries A (keys @ ks) (vals @ vs) = entries A keys vals"
  unfolding entries_def by (rule image_cong) (use assms in \<open>auto simp: nth_append\<close>)

lemma entries_take:
  assumes "A \<subseteq> {..<m}"
  shows "entries A (take m keys) (take m vals) = entries A keys vals"
  unfolding entries_def by (rule image_cong) (use assms in auto)

lemma fresh_used [simp]: "size_pow2 m \<Longrightarrow> used (fresh_flags m) m = {}"
  using fresh_flags_empty(1) flag_word_in by (auto simp: used_def)

definition rehash_start :: "'v khash \<Rightarrow> nat \<Rightarrow> 'v rehash" where
  "rehash_start h m = \<lparr>rh_flags = kh_flags h, rh_new_flags = fresh_flags m,
     rh_keys = (if kh_n_buckets h < m then kh_keys h @ replicate (m - kh_n_buckets h) 0 else kh_keys h),
     rh_vals = (if kh_n_buckets h < m then kh_vals h @ replicate (m - kh_n_buckets h) None
       else kh_vals h)\<rparr>"

lemma kh_ok_shape:
  assumes "kh_ok h"
  shows "length (kh_keys h) = kh_n_buckets h" "length (kh_vals h) = kh_n_buckets h"
    "kh_n_buckets h \<noteq> 0 \<Longrightarrow> length (kh_flags h) = ac_fsize (kh_n_buckets h)"
    "inj_on ((!) (kh_keys h)) (live (kh_flags h) (kh_n_buckets h))" "size_pow2 (kh_n_buckets h)"
    "kh_size h = card (live (kh_flags h) (kh_n_buckets h))"
proof -
  have "length (kh_keys h) = kh_n_buckets h \<and> length (kh_vals h) = kh_n_buckets h \<and>
    (kh_n_buckets h \<noteq> 0 \<longrightarrow> length (kh_flags h) = ac_fsize (kh_n_buckets h)) \<and>
    inj_on ((!) (kh_keys h)) (live (kh_flags h) (kh_n_buckets h)) \<and> size_pow2 (kh_n_buckets h) \<and>
    kh_size h = card (live (kh_flags h) (kh_n_buckets h))"
    using assms unfolding kh_ok_def
  proof (elim disjE exE)
    assume "h = kh_init"
    then show ?thesis by (simp add: kh_init_def live_def size_pow2_def)
  next
    fix e
    assume "kh_table_ok e h"
    then show ?thesis by (intro conjI impI kh_okD)
  qed
  then show "length (kh_keys h) = kh_n_buckets h" "length (kh_vals h) = kh_n_buckets h"
    "kh_n_buckets h \<noteq> 0 \<Longrightarrow> length (kh_flags h) = ac_fsize (kh_n_buckets h)"
    "inj_on ((!) (kh_keys h)) (live (kh_flags h) (kh_n_buckets h))" "size_pow2 (kh_n_buckets h)"
    "kh_size h = card (live (kh_flags h) (kh_n_buckets h))"
    by simp_all
qed

lemma rehash_start_ok:
  assumes h: "kh_ok h" and m: "size_pow2 m"
  shows "rehash_ok (kh_n_buckets h) m (kh_map h) (rehash_start h m) None"
proof -
  note sh = kh_ok_shape [OF h]
  let ?A = "live (kh_flags h) (kh_n_buckets h)"
  have sub: "?A \<subseteq> {..<length (kh_keys h)}" "length (kh_keys h) = length (kh_vals h)"
    using sh by (auto simp: live_def)
  have nth: "rh_keys (rehash_start h m) ! i = kh_keys h ! i" if "i \<in> ?A" for i
    using that sub by (auto simp: rehash_start_def nth_append)
  show ?thesis
  proof (rule rehash_okI)
    show "live (rh_flags (rehash_start h m)) (kh_n_buckets h) = ?A" by (simp add: rehash_start_def)
    show "used (rh_new_flags (rehash_start h m)) m = {}" using m by (simp add: rehash_start_def)
    show "inj_on ((!) (rh_keys (rehash_start h m))) (?A \<union> {})"
      using sh(4) nth by (simp add: inj_on_def)
    show "Map.graph (kh_map h) = entries (?A \<union> {}) (rh_keys (rehash_start h m))
        (rh_vals (rehash_start h m)) \<union> set_option None"
      using kh_map_graph [OF sh(4)] entries_append [OF sub] by (simp add: rehash_start_def)
    show "\<not> ac_isdel (rh_new_flags (rehash_start h m)) i" if "i < m" for i
      using fresh_flags_empty(2) [OF flag_word_in [OF m that]] by (simp add: rehash_start_def)
  qed (use sh in \<open>auto simp: rehash_start_def\<close>)
qed

lemma kh_resize_ok:
  assumes h: "kh_ok h" and e: "2 \<le> e" "e \<le> 31"
    and m: "max 4 (unat (kroundup32 (of_nat want))) = 2 ^ e" and fits: "kh_size h < kh_upper (2 ^ e)"
  shows "\<exists>h'. kh_resize h want = Inr h' \<and> kh_table_ok e h' \<and> kh_map h' = kh_map h \<and>
    kh_size h' = kh_size h \<and> kh_n_occupied h' = kh_size h"
proof -
  let ?m = "2 ^ e :: nat" and ?n = "kh_n_buckets h"
  note sh = kh_ok_shape [OF h]
  have four: "4 \<le> ?m" using m by (metis max.cobounded1)
  have pow: "size_pow2 ?m" by (auto simp: size_pow2_def)
  have start: "rehash_ok ?n ?m (kh_map h) (rehash_start h ?m) None"
    by (rule rehash_start_ok [OF h pow])
  have count: "card (dom (kh_map h)) = kh_size h"
    using rehash_count [OF start] pow sh(6) by (simp add: rehash_start_def)
  then have few: "card (dom (kh_map h)) \<le> ?m" using fits kh_upper_less [OF four] by simp
  obtain s where s: "rehash_loop ?n 0 ?n (?m - 1) (rehash_start h ?m) = Some s"
    "rehash_ok ?n ?m (kh_map h) s None" "live (rh_flags s) ?n = {}"
    using rehash_loop_ends [OF refl sh(5) few start, of 0 ?n] by auto
  define h' where "h' = \<lparr>kh_n_buckets = ?m, kh_size = kh_size h, kh_n_occupied = kh_size h,
     kh_upper_bound = kh_upper ?m, kh_flags = rh_new_flags s,
     kh_keys = (if ?m < ?n then take ?m (rh_keys s) else rh_keys s),
     kh_vals = (if ?m < ?n then take ?m (rh_vals s) else rh_vals s)\<rparr>"
  have run: "kh_resize h want = Inr h'"
  proof -
    have new: "(if unat (kroundup32 (of_nat want)) < 4 then 4 else unat (kroundup32 (of_nat want))) = ?m"
      using m by (auto simp: max_def split: if_splits)
    have nf: "\<not> kh_upper ?m \<le> kh_size h" using fits by simp
    show ?thesis
      unfolding kh_resize_def Let_def new if_not_P [OF nf] s(1) [unfolded rehash_start_def]
        fuelled_def option.case andThen.simps h'_def by (rule refl)
  qed
  note ok = rehash_okD [OF s(2)]
  have live: "live (rh_new_flags s) ?m = used (rh_new_flags s) ?m"
    using ok(5) by (auto simp: live_def used_def ac_iseither_iff)
  have sub: "used (rh_new_flags s) ?m \<subseteq> {..<?m}" by (auto simp: used_def)
  have keys: "kh_keys h' ! i = rh_keys s ! i" if "i < ?m" for i using that by (simp add: h'_def)
  have inj: "inj_on ((!) (kh_keys h')) (live (kh_flags h') ?m)"
  proof -
    have lv: "live (kh_flags h') ?m = used (rh_new_flags s) ?m" by (simp add: h'_def live)
    have "inj_on ((!) (rh_keys s)) (used (rh_new_flags s) ?m)" using ok(9) s(3) by simp
    moreover have "kh_keys h' ! i = rh_keys s ! i" if "i \<in> used (rh_new_flags s) ?m" for i
      using that sub keys by auto
    ultimately show ?thesis unfolding lv by (simp cong: inj_on_cong)
  qed
  have size: "card (used (rh_new_flags s) ?m) = kh_size h"
    using rehash_count [OF s(2)] s(3) count by simp
  have "Map.graph (kh_map h') = Map.graph (kh_map h)"
    using kh_map_graph [of h'] inj ok(8) s(3) live entries_take [OF sub, of "rh_keys s" "rh_vals s"]
    by (simp add: h'_def)
  then have "kh_map h' = kh_map h" by (rule graph_inject)
  moreover have "kh_table_ok e h'"
    unfolding kh_table_ok_def Let_def
    using e inj size ok(2-4,7) fits keys sub
    by (auto simp: h'_def live used_def)
  ultimately show ?thesis using run by (auto simp: h'_def)
qed

lemma kh_resize_keeps:
  assumes "kh_ok h" "want \<le> 2 ^ 31"
  shows "\<exists>h'. kh_resize h want = Inr h' \<and> kh_ok h' \<and> kh_map h' = kh_map h"
proof -
  have lt: "want < 2 ^ 32" using assms(2) by simp
  then have u: "unat (of_nat want :: u32) = want" by (intro of_nat_inverse [OF refl]) simp
  obtain e where e: "2 \<le> e" "e \<le> 31" "max 4 (unat (kroundup32 (of_nat want))) = 2 ^ e"
  proof (cases "want \<le> 1")
    case True
    then have "want = 0 \<or> want = 1" by linarith
    then have "unat (kroundup32 (of_nat want)) \<le> 1" by (auto simp: kroundup32_def)
    then show thesis using that [of 2] by simp
  next
    case False
    then obtain d where d: "0 < d" "kroundup32 (of_nat want) = 2 ^ d" "2 ^ (d - 1) < want"
      using kroundup32_pow2 [of "of_nat want"] u by auto
    have "(2 :: nat) ^ (d - 1) < 2 ^ 31" using d(3) assms(2) by linarith
    then have "d - 1 < 31" by (rule power_less_imp_less_exp [rotated]) simp
    then have "d \<le> 31" by simp
    then have k: "unat (kroundup32 (of_nat want)) = 2 ^ d" using d(2) unat_pow2 by simp
    show thesis
    proof (cases "d = 1")
      case True
      then show thesis using that [of 2] k by simp
    next
      case False
      then have "(2 :: nat) ^ 2 \<le> 2 ^ d" using d(1) by (intro power_increasing) auto
      then show thesis using that [of d] k \<open>d \<le> 31\<close> False d(1) by simp
    qed
  qed
  show ?thesis
  proof (cases "kh_size h < kh_upper (2 ^ e)")
    case True
    then show ?thesis using kh_resize_ok [OF assms(1) e True] by (auto simp: kh_ok_def)
  next
    case False
    have "(if unat (kroundup32 (of_nat want)) < 4 then 4 else unat (kroundup32 (of_nat want))) = 2 ^ e"
      using e(3) by (auto simp: max_def split: if_splits)
    then have "kh_resize h want = Inr h" using False by (simp add: kh_resize_def Let_def)
    then show ?thesis using assms(1) by simp
  qed
qed

section \<open>Lookup, insertion and deletion\<close>

lemma live_key_stop:
  assumes h: "kh_table_ok e h" and i: "i \<in> live (kh_flags h) (kh_n_buckets h)"
  obtains t where "t < kh_n_buckets h" "probe (kh_n_buckets h) (kh_keys h ! i) t = i"
    "\<not> skips h (kh_keys h ! i) i"
    "\<forall>s<t. skips h (kh_keys h ! i) (probe (kh_n_buckets h) (kh_keys h ! i) s)"
proof -
  let ?n = "kh_n_buckets h" and ?k = "kh_keys h ! i"
  obtain t where t: "t < ?n" "probe ?n ?k t = i" "\<forall>s<t. \<not> ac_isempty (kh_flags h) (probe ?n ?k s)"
    using kh_okD(13) [OF h i] by (auto simp: reach_def)
  have "skips h ?k (probe ?n ?k s)" if s: "s < t" for s
  proof (rule ccontr)
    assume "\<not> skips h ?k (probe ?n ?k s)"
    then have "probe ?n ?k s \<in> live (kh_flags h) ?n" "kh_keys h ! probe ?n ?k s = ?k"
      using t(3) s probe_less [OF kh_okD(3) [OF h]] by (auto simp: skips_def live_def ac_iseither_iff)
    then have "probe ?n ?k s = i" using kh_okD(12) [OF h] i by (auto dest: inj_onD)
    then show False using probe_inj [OF kh_okD(3) [OF h], of s t ?k] t s by simp
  qed
  moreover have "\<not> skips h ?k i" using i by (auto simp: skips_def live_def ac_iseither_iff)
  ultimately show thesis using that t by blast
qed

lemma absent_stop:
  assumes h: "kh_table_ok e h" and k: "key \<notin> (!) (kh_keys h) ` live (kh_flags h) (kh_n_buckets h)"
  obtains t where "t < kh_n_buckets h" "ac_isempty (kh_flags h) (probe (kh_n_buckets h) key t)"
    "\<forall>s<t. skips h key (probe (kh_n_buckets h) key s)"
proof -
  let ?n = "kh_n_buckets h"
  have "card (used (kh_flags h) ?n) < ?n"
    using kh_okD(9,10,11) [OF h] kh_upper_less [OF kh_okD(4) [OF h]] by simp
  then obtain b where "b < ?n" "ac_isempty (kh_flags h) b" using free_bucket by blast
  then obtain t where t: "t < ?n" "ac_isempty (kh_flags h) (probe ?n key t)"
    "\<forall>s<t. \<not> ac_isempty (kh_flags h) (probe ?n key s)"
    using first_stop [OF kh_okD(3) [OF h], of b "ac_isempty (kh_flags h)" key] by metis
  have "skips h key (probe ?n key s)" if "s < t" for s
    using that t(3) k probe_less [OF kh_okD(3) [OF h], of key s]
    by (auto simp: skips_def live_def ac_iseither_iff image_iff)
  then show thesis using that t by blast
qed

lemma kh_get_present:
  assumes "kh_table_ok e h" "i \<in> live (kh_flags h) (kh_n_buckets h)"
  shows "kh_get h (kh_keys h ! i) = Inr i"
proof -
  let ?n = "kh_n_buckets h" and ?k = "kh_keys h ! i"
  note n = kh_okD(3) [OF assms(1)] and four = kh_okD(4) [OF assms(1)]
  obtain t where t: "t < ?n" "probe ?n ?k t = i" "\<not> skips h ?k i"
    "\<forall>s<t. skips h ?k (probe ?n ?k s)"
    using live_key_stop [OF assms] by blast
  have "\<not> ac_iseither (kh_flags h) i" using assms(2) by (simp add: live_def)
  moreover have "t - 0 < 2 * ?n" using t(1) by simp
  ultimately have "kh_get_loop (2 * ?n) h ?k (?n - 1) (probe ?n ?k 0) (probe ?n ?k 0) 0 = Some i"
    using kh_get_loop_stops [OF n refl t(1), of ?k 0 "2 * ?n"] t by simp
  then show ?thesis
    using four unfolding kh_get_def Let_def probe_0 [OF n] by (simp add: fuelled_def)
qed

lemma kh_get_absent:
  assumes "kh_table_ok e h" "key \<notin> (!) (kh_keys h) ` live (kh_flags h) (kh_n_buckets h)"
  shows "kh_get h key = Inr (kh_n_buckets h)"
proof -
  let ?n = "kh_n_buckets h"
  note n = kh_okD(3) [OF assms(1)] and four = kh_okD(4) [OF assms(1)]
  obtain t where t: "t < ?n" "ac_isempty (kh_flags h) (probe ?n key t)"
    "\<forall>s<t. skips h key (probe ?n key s)"
    using absent_stop [OF assms] by blast
  then have "\<not> skips h key (probe ?n key t)" by (simp add: skips_def)
  moreover have "t - 0 < 2 * ?n" using t(1) by simp
  ultimately have "kh_get_loop (2 * ?n) h key (?n - 1) (probe ?n key 0) (probe ?n key 0) 0 = Some ?n"
    using kh_get_loop_stops [OF n refl t(1), of key 0 "2 * ?n"] t by (simp add: ac_iseither_iff)
  then show ?thesis
    using four unfolding kh_get_def Let_def probe_0 [OF n] by (simp add: fuelled_def)
qed

lemma kh_map_dom:
  assumes "kh_ok h"
  shows "dom (kh_map h) = (!) (kh_keys h) ` live (kh_flags h) (kh_n_buckets h)"
  using kh_map_graph [OF kh_ok_shape(4) [OF assms]] fst_graph_eq_dom [of "kh_map h"]
  by (simp add: fst_entries)

lemma kh_map_at:
  assumes "kh_ok h" "i \<in> live (kh_flags h) (kh_n_buckets h)"
  shows "kh_map h (kh_keys h ! i) = Some (kh_vals h ! i)"
  using kh_map_iff [OF kh_ok_shape(4) [OF assms(1)]] assms(2) by (auto simp: entries_def)

definition kh_holds :: "'v khash \<Rightarrow> nat \<Rightarrow> u32 \<Rightarrow> bool" where
  "kh_holds h i key \<longleftrightarrow> i \<in> live (kh_flags h) (kh_n_buckets h) \<and> kh_keys h ! i = key"

lemma kh_get_spec:
  assumes "kh_ok h"
  shows "case kh_map h key of
      None \<Rightarrow> kh_get h key = Inr (kh_n_buckets h)
    | Some v \<Rightarrow> \<exists>i. kh_get h key = Inr i \<and> kh_holds h i key \<and> kh_vals h ! i = v"
proof (cases "h = kh_init")
  case True
  then show ?thesis unfolding True kh_ok_init(2) by (simp add: kh_get_def kh_init_def)
next
  case False
  then obtain e where e: "kh_table_ok e h" using assms by (auto simp: kh_ok_def)
  show ?thesis
  proof (cases "kh_map h key")
    case None
    then have "key \<notin> (!) (kh_keys h) ` live (kh_flags h) (kh_n_buckets h)"
      using kh_map_dom [OF assms] by auto
    then show ?thesis using kh_get_absent [OF e] None by simp
  next
    case (Some v)
    then obtain i where "i \<in> live (kh_flags h) (kh_n_buckets h)" "kh_keys h ! i = key"
      "kh_vals h ! i = v"
      using kh_map_iff [OF kh_ok_shape(4) [OF assms]] by (auto simp: entries_def)
    then show ?thesis using kh_get_present [OF e] Some by (auto simp: kh_holds_def)
  qed
qed

lemma kh_put_bucket_present:
  assumes "kh_table_ok e h" "i \<in> live (kh_flags h) (kh_n_buckets h)"
  shows "kh_put_bucket h (kh_keys h ! i) = Inr i"
proof -
  let ?n = "kh_n_buckets h" and ?k = "kh_keys h ! i"
  note n = kh_okD(3) [OF assms(1)]
  obtain t where t: "t < ?n" "probe ?n ?k t = i" "\<not> skips h ?k i"
    "\<forall>s<t. skips h ?k (probe ?n ?k s)"
    using live_key_stop [OF assms] by blast
  have i: "\<not> ac_isempty (kh_flags h) i" "i < ?n"
    using assms(2) by (auto simp: live_def ac_iseither_iff)
  have first: "\<not> ac_isempty (kh_flags h) (probe ?n ?k 0)"
    using t(2,4) i by (cases "t = 0") (auto simp: skips_def)
  obtain site where "kh_put_loop (2 * ?n) h ?k (?n - 1) (probe ?n ?k 0) (probe ?n ?k 0) 0 ?n =
      Some (i, site, ?n)"
    using kh_put_loop_stops [OF n refl t(1), of ?k 0 "2 * ?n" ?n] t by auto
  then show ?thesis
    using first i unfolding kh_put_bucket_def Let_def probe_0 [OF n] by (simp add: fuelled_def)
qed

lemma kh_put_bucket_absent:
  assumes "kh_table_ok e h" "key \<notin> (!) (kh_keys h) ` live (kh_flags h) (kh_n_buckets h)"
  shows "\<exists>x. kh_put_bucket h key = Inr x \<and> x < kh_n_buckets h \<and> ac_iseither (kh_flags h) x \<and>
    reach (kh_flags h) (kh_n_buckets h) key x"
proof -
  let ?n = "kh_n_buckets h"
  note n = kh_okD(3) [OF assms(1)]
  obtain t where t: "t < ?n" "ac_isempty (kh_flags h) (probe ?n key t)"
    "\<forall>s<t. skips h key (probe ?n key s)"
    using absent_stop [OF assms] by blast
  have reach: "reach (kh_flags h) ?n key (probe ?n key u)" if "u \<le> t" for u
    using that t by (auto simp: reach_def skips_def intro!: exI [of _ u])
  show ?thesis
  proof (cases "ac_isempty (kh_flags h) (probe ?n key 0)")
    case True
    then have "kh_put_bucket h key = Inr (probe ?n key 0)"
      unfolding kh_put_bucket_def Let_def probe_0 [OF n] by simp
    then show ?thesis using True reach [of 0] probe_less [OF n] by (auto simp: ac_iseither_iff)
  next
    case False
    have stop: "\<not> skips h key (probe ?n key t)" using t(2) by (simp add: skips_def)
    obtain site where site: "kh_put_loop (2 * ?n) h key (?n - 1) (probe ?n key 0) (probe ?n key 0) 0 ?n =
        Some (probe ?n key t, site, ?n)"
      "site = ?n \<or> (\<exists>u<t. site = probe ?n key u \<and> ac_isdel (kh_flags h) site)"
      using kh_put_loop_stops [OF n refl t(1) stop t(3), of 0 "2 * ?n" ?n] t(1) by auto
    have "kh_put_bucket h key = Inr (if site \<noteq> ?n then site else probe ?n key t)"
      using False site(1) t(2) unfolding kh_put_bucket_def Let_def probe_0 [OF n]
      by (simp add: fuelled_def)
    then show ?thesis
      using site(2) t(2) reach probe_less [OF n] by (auto simp: ac_iseither_iff less_imp_le)
  qed
qed

definition occupy :: "'v khash \<Rightarrow> nat \<Rightarrow> u32 \<Rightarrow> 'v khash" where
  "occupy h x key =
     h\<lparr>kh_keys := (kh_keys h)[x := key], kh_flags := ac_set_isboth_false (kh_flags h) x,
       kh_size := kh_size h + 1,
       kh_n_occupied := (if ac_isempty (kh_flags h) x then kh_n_occupied h + 1 else kh_n_occupied h)\<rparr>"

lemma occupy_ok:
  assumes h: "kh_table_ok e h" and room: "kh_n_occupied h < kh_upper_bound h"
    and x: "x < kh_n_buckets h" "ac_iseither (kh_flags h) x" "reach (kh_flags h) (kh_n_buckets h) key x"
    and absent: "key \<notin> (!) (kh_keys h) ` live (kh_flags h) (kh_n_buckets h)"
  shows "kh_table_ok e (occupy h x key) \<and> kh_map (occupy h x key) = (kh_map h)(key \<mapsto> kh_vals h ! x)"
proof -
  let ?n = "kh_n_buckets h" and ?h = "occupy h x key"
  let ?L = "live (kh_flags h) ?n" and ?U = "used (kh_flags h) ?n"
  note ok = kh_okD [OF h]
  have w: "x div 16 < length (kh_flags h)" using flag_word_in [OF ok(14) x(1)] ok(5) by simp
  have xl: "x \<notin> ?L" using x(2) by (simp add: live_def)
  have live: "live (kh_flags ?h) ?n = insert x ?L"
    using x(1) by (auto simp: live_def occupy_def ac_iseither_iff ac_set_isboth_false [OF w])
  have used: "used (kh_flags ?h) ?n = insert x ?U"
    using x(1) by (auto simp: used_def occupy_def ac_set_isboth_false [OF w])
  have keys: "kh_keys ?h = (kh_keys h)[x := key]" "kh_vals ?h = kh_vals h" "kh_n_buckets ?h = ?n"
    by (simp_all add: occupy_def)
  have len: "x < length (kh_keys h)" "x < length (kh_vals h)" using x(1) ok(6,7) by simp_all
  have inj: "inj_on ((!) (kh_keys ?h)) (insert x ?L)"
    unfolding keys by (rule inj_on_insert_key) (use ok(12) absent len in auto)
  have "reach (kh_flags ?h) ?n (kh_keys ?h ! i) i" if "i \<in> insert x ?L" for i
  proof (rule reach_mono)
    show "reach (kh_flags h) ?n (kh_keys ?h ! i) i"
      using that x(3) ok(13) len xl by (auto simp: keys nth_list_update)
  qed (simp add: occupy_def ac_set_isboth_false [OF w])
  moreover have "card (insert x ?U) \<le> kh_upper_bound h" using room ok(9) by (simp add: card_insert_if)
  moreover have "kh_n_occupied ?h = card (insert x ?U)"
    using x(1) ok(9) by (auto simp: occupy_def card_insert_if used_def)
  moreover have "kh_size ?h = card (insert x ?L)" using xl ok(8) by (simp add: occupy_def)
  ultimately have tab: "kh_table_ok e ?h"
    unfolding kh_table_ok_def Let_def keys(3) live used using inj ok(1-7,11)
    by (simp add: occupy_def)
  have "vs[x := vs ! x] = vs" for vs :: "'a option list" by simp
  then have pairs: "entries (insert x ?L) (kh_keys ?h) (kh_vals h) =
      insert (key, kh_vals h ! x) (entries ?L (kh_keys h) (kh_vals h))"
    using entries_insert [OF len, of ?L key "kh_vals h ! x"] xl by (simp add: keys)
  have "kh_map h key = None" using absent kh_map_dom [of h] h by (auto simp: kh_ok_def)
  then have "Map.graph ((kh_map h)(key \<mapsto> kh_vals h ! x)) =
      insert (key, kh_vals h ! x) (Map.graph (kh_map h))"
    by (simp add: fun_upd_idem)
  also have "\<dots> = Map.graph (kh_map ?h)"
    using kh_map_graph [of ?h] kh_map_graph [OF ok(12)] inj live pairs keys by simp
  finally have "kh_map ?h = (kh_map h)(key \<mapsto> kh_vals h ! x)" by (intro graph_inject) simp
  then show ?thesis using tab by simp
qed

lemma kh_grow_ok:
  assumes h: "kh_ok h" and small: "kh_n_buckets h \<le> 2 ^ 30"
  shows "\<exists>e h'. kh_grow h = Inr h' \<and> kh_table_ok e h' \<and> kh_map h' = kh_map h \<and>
    kh_size h' = kh_size h \<and> kh_n_occupied h' < kh_upper_bound h' \<and>
    kh_n_buckets h' \<le> max (kh_n_buckets h) (max 4 (4 * kh_size h))"
proof (cases "h = kh_init")
  case True
  have "unat (kroundup32 (of_nat (0 + 1))) = 1" by (simp add: kroundup32_def)
  then have "max 4 (unat (kroundup32 (of_nat (0 + 1)))) = 2 ^ 2" by simp
  moreover have "kh_size h < kh_upper (2 ^ 2)" by (simp add: True kh_init_def kh_upper_def)
  ultimately obtain h' where h': "kh_resize h (0 + 1) = Inr h'" "kh_table_ok 2 h'"
    "kh_map h' = kh_map h" "kh_size h' = kh_size h" "kh_n_occupied h' = kh_size h"
    using kh_resize_ok [OF h, of 2 "0 + 1"] by auto
  moreover have "kh_grow h = kh_resize h (0 + 1)" by (simp add: True kh_init_def kh_grow_def)
  ultimately show ?thesis
    using kh_okD(3,11) [OF h'(2)] True by (auto simp: kh_init_def kh_upper_def intro!: exI [of _ 2])
next
  case False
  then obtain e where e: "kh_table_ok e h" using h by (auto simp: kh_ok_def)
  note ok = kh_okD [OF e]
  show ?thesis
  proof (cases "kh_upper_bound h \<le> kh_n_occupied h")
    case False
    then show ?thesis using e by (auto simp: kh_grow_def)
  next
    case full: True
    show ?thesis
    proof (cases "2 * kh_size h < kh_n_buckets h")
      case True
      have r: "max 4 (unat (kroundup32 (of_nat (kh_n_buckets h - 1)))) = 2 ^ e"
        using kroundup32_down [OF ok(1,2)] ok(3,4) by (simp add: max_def)
      have fits: "kh_size h < kh_upper (2 ^ e)" using kh_upper_half [of "kh_n_buckets h"] True ok(3) by simp
      obtain h' where h': "kh_resize h (kh_n_buckets h - 1) = Inr h'" "kh_table_ok e h'"
        "kh_map h' = kh_map h" "kh_size h' = kh_size h" "kh_n_occupied h' = kh_size h"
        using kh_resize_ok [OF h ok(1,2) r fits] by auto
      then show ?thesis
        using full True fits kh_okD(3,11) [OF h'(2)] ok(3) by (auto simp: kh_grow_def intro!: exI [of _ e])
    next
      case False
      have "(2 :: nat) ^ e \<le> 2 ^ 30" using small ok(3) by simp
      then have e30: "e \<le> 30" by (rule power_le_imp_le_exp [rotated]) simp
      have r: "max 4 (unat (kroundup32 (of_nat (kh_n_buckets h + 1)))) = 2 ^ Suc e"
        using kroundup32_up [of e] e30 ok(1,3,4) by (simp add: max_def)
      have "kh_size h \<le> kh_n_occupied h"
        unfolding ok(8,9) by (rule card_mono [OF finite_live(2) live_used])
      then have fits: "kh_size h < kh_upper (2 ^ Suc e)"
        using kh_upper_double [OF ok(4)] ok(3,10,11) by simp
      obtain h' where h': "kh_resize h (kh_n_buckets h + 1) = Inr h'" "kh_table_ok (Suc e) h'"
        "kh_map h' = kh_map h" "kh_size h' = kh_size h" "kh_n_occupied h' = kh_size h"
        using kh_resize_ok [OF h _ _ r fits] ok(1) e30 by auto
      then show ?thesis
        using full False fits kh_okD(3,11) [OF h'(2)] ok(3)
        by (auto simp: kh_grow_def intro!: exI [of _ "Suc e"])
    qed
  qed
qed

lemma kh_put_spec:
  assumes h: "kh_ok h" and small: "kh_n_buckets h \<le> 2 ^ 30"
  shows "\<exists>h' x r. kh_put h key = Inr (h', x, r) \<and> kh_ok h' \<and> kh_holds h' x key \<and>
    kh_map h' = (kh_map h)(key \<mapsto> kh_vals h' ! x) \<and> (r = 0 \<longleftrightarrow> key \<in> dom (kh_map h)) \<and>
    (r = 0 \<longrightarrow> kh_map h' = kh_map h) \<and>
    kh_n_buckets h' \<le> max (kh_n_buckets h) (max 4 (4 * kh_size h))"
proof -
  obtain e g where g: "kh_grow h = Inr g" "kh_table_ok e g" "kh_map g = kh_map h"
    "kh_n_occupied g < kh_upper_bound g"
    "kh_n_buckets g \<le> max (kh_n_buckets h) (max 4 (4 * kh_size h))"
    using kh_grow_ok [OF h small] by auto
  have gok: "kh_ok g" using g(2) by (auto simp: kh_ok_def)
  show ?thesis
  proof (cases "key \<in> (!) (kh_keys g) ` live (kh_flags g) (kh_n_buckets g)")
    case True
    then obtain i where i: "i \<in> live (kh_flags g) (kh_n_buckets g)" "key = kh_keys g ! i" by auto
    then have "kh_put h key = Inr (g, i, 0)"
      using g(1) kh_put_bucket_present [OF g(2) i(1)]
      by (simp add: kh_put_def live_def ac_iseither_iff)
    moreover have "kh_map h key = Some (kh_vals g ! i)" using kh_map_at [OF gok i(1)] i(2) g(3) by simp
    ultimately show ?thesis
      using i gok g(3,5) by (auto simp: kh_holds_def fun_upd_idem)
  next
    case False
    then obtain x where x: "kh_put_bucket g key = Inr x" "x < kh_n_buckets g"
      "ac_iseither (kh_flags g) x" "reach (kh_flags g) (kh_n_buckets g) key x"
      using kh_put_bucket_absent [OF g(2)] by blast
    have w: "x div 16 < length (kh_flags g)"
      using flag_word_in [OF kh_okD(14) [OF g(2)] x(2)] kh_okD(5) [OF g(2)] by simp
    have "kh_put h key = Inr (occupy g x key, x, if ac_isempty (kh_flags g) x then 1 else 2)"
      using g(1) x by (auto simp: kh_put_def occupy_def ac_iseither_iff)
    moreover note occupy_ok [OF g(2,4) x(2-4) False]
    moreover have "kh_holds (occupy g x key) x key"
      using x(2) kh_okD(6) [OF g(2)]
      by (simp add: kh_holds_def occupy_def live_def ac_iseither_iff ac_set_isboth_false [OF w])
    moreover have "key \<notin> dom (kh_map h)" using False kh_map_dom [OF gok] g(3) by simp
    ultimately show ?thesis using g(3,5) by (auto simp: kh_ok_def occupy_def)
  qed
qed

lemma kh_holdsD:
  assumes "kh_ok h" "kh_holds h x key"
  shows "x < kh_n_buckets h" "x < length (kh_vals h)" "kh_vals h \<noteq> []" "h \<noteq> kh_init"
    "kh_map h key = Some (kh_vals h ! x)" "x div 16 < length (kh_flags h)" "kh_flags h \<noteq> []"
    "\<not> ac_iseither (kh_flags h) x" "x \<noteq> kh_n_buckets h"
proof -
  show x: "x < kh_n_buckets h" and "\<not> ac_iseither (kh_flags h) x" "x \<noteq> kh_n_buckets h"
    using assms(2) by (auto simp: kh_holds_def live_def)
  then show "x < length (kh_vals h)" "kh_vals h \<noteq> []" "h \<noteq> kh_init"
    using kh_ok_shape(2) [OF assms(1)] by (auto simp: kh_init_def)
  show w: "x div 16 < length (kh_flags h)"
    using flag_word_in [OF kh_ok_shape(5) [OF assms(1)] x] kh_ok_shape(3) [OF assms(1)] x by simp
  then show "kh_flags h \<noteq> []" by auto
  show "kh_map h key = Some (kh_vals h ! x)"
    using kh_map_at [OF assms(1)] assms(2) by (auto simp: kh_holds_def)
qed

lemma kh_exist_holds: "kh_ok h \<Longrightarrow> kh_holds h x key \<Longrightarrow> kh_exist h x = Inr True"
  by (simp add: kh_exist_def kh_holdsD)

lemma kh_value_holds: "kh_ok h \<Longrightarrow> kh_holds h x key \<Longrightarrow> kh_vals h ! x = Some v \<Longrightarrow> kh_value h x = Inr v"
  by (simp add: kh_value_def kh_holdsD)

lemma kh_set_value_spec:
  assumes h: "kh_ok h" and x: "kh_holds h x key"
  shows "\<exists>h'. kh_set_value h x v = Inr h' \<and> kh_ok h' \<and> kh_map h' = (kh_map h)(key \<mapsto> Some v) \<and>
    kh_n_buckets h' = kh_n_buckets h"
proof -
  let ?h = "h\<lparr>kh_vals := (kh_vals h)[x := Some v]\<rparr>" and ?L = "live (kh_flags h) (kh_n_buckets h)"
  note d = kh_holdsD [OF h x]
  obtain e where e: "kh_table_ok e h" using h d(4) by (auto simp: kh_ok_def)
  have "kh_table_ok e ?h = kh_table_ok e h" by (simp add: kh_table_ok_def)
  then have ok: "kh_table_ok e ?h" using e by simp
  have L: "x \<in> ?L" "kh_keys h ! x = key" using x by (auto simp: kh_holds_def)
  have inj: "inj_on ((!) (kh_keys h)) ?L" by (rule kh_okD(12) [OF e])
  have len: "x < length (kh_keys h)" using kh_ok_shape(1) [OF h] d(1) by simp
  have "entries ?L (kh_keys h) ((kh_vals h)[x := Some v]) =
      insert (key, Some v) (entries (?L - {x}) (kh_keys h) (kh_vals h))"
  proof -
    have "insert x ?L = ?L" using L(1) by (rule insert_absorb)
    moreover have "(kh_keys h)[x := key] = kh_keys h" using list_update_id [of "kh_keys h" x] L(2) by simp
    ultimately show ?thesis using entries_insert [OF len d(2), of ?L key "Some v"] by simp
  qed
  also have "entries (?L - {x}) (kh_keys h) (kh_vals h) = Map.graph ((kh_map h)(key := None))"
  proof -
    have "entries (?L - {x}) (kh_keys h) (kh_vals h) =
        {p \<in> entries ?L (kh_keys h) (kh_vals h). fst p \<noteq> key}"
      using inj L by (auto simp: entries_def dest: inj_onD)
    then show ?thesis using kh_map_graph [OF inj] by (simp add: graph_fun_upd_None)
  qed
  also have "insert (key, Some v) \<dots> = Map.graph ((kh_map h)(key \<mapsto> Some v))" by simp
  finally have "Map.graph (kh_map ?h) = Map.graph ((kh_map h)(key \<mapsto> Some v))"
    using kh_map_graph [of ?h] inj by simp
  then have "kh_map ?h = (kh_map h)(key \<mapsto> Some v)" by (rule graph_inject)
  moreover have "kh_set_value h x v = Inr ?h" using d by (simp add: kh_set_value_def)
  ultimately show ?thesis using ok by (auto simp: kh_ok_def)
qed

lemma kh_del_spec:
  assumes h: "kh_ok h" and x: "kh_holds h x key"
  shows "kh_ok (kh_del h x) \<and> kh_map (kh_del h x) = (kh_map h)(key := None) \<and>
    kh_n_buckets (kh_del h x) = kh_n_buckets h"
proof -
  let ?h = "h\<lparr>kh_flags := ac_set_isdel_true (kh_flags h) x, kh_size := kh_size h - 1\<rparr>"
  let ?n = "kh_n_buckets h" and ?L = "live (kh_flags h) (kh_n_buckets h)"
  note d = kh_holdsD [OF h x]
  have del: "kh_del h x = ?h" using d(8,9) by (simp add: kh_del_def)
  obtain e where e: "kh_table_ok e h" using h d(4) by (auto simp: kh_ok_def)
  note ok = kh_okD [OF e]
  have L: "x \<in> ?L" "kh_keys h ! x = key" using x by (auto simp: kh_holds_def)
  have live: "live (kh_flags ?h) ?n = ?L - {x}" using live_set_isdel_true [OF d(6)] by simp
  have used: "used (kh_flags ?h) ?n = used (kh_flags h) ?n"
    by (simp add: used_def ac_set_isdel_true [OF d(6)])
  have inj: "inj_on ((!) (kh_keys h)) (?L - {x})" using ok(12) by (rule inj_on_subset) auto
  have "reach (kh_flags ?h) ?n (kh_keys h ! i) i" if "i \<in> ?L - {x}" for i
    by (rule reach_mono [OF ok(13)]) (use that in \<open>auto simp: ac_set_isdel_true [OF d(6)]\<close>)
  then have tab: "kh_table_ok e ?h"
    using ok(1-11) inj L(1) card_Diff_singleton [OF L(1)] live used
    by (simp add: kh_table_ok_def Let_def)
  have "entries (?L - {x}) (kh_keys h) (kh_vals h) =
      {p \<in> entries ?L (kh_keys h) (kh_vals h). fst p \<noteq> key}"
    using ok(12) L by (auto simp: entries_def dest: inj_onD)
  then have "Map.graph (kh_map ?h) = Map.graph ((kh_map h)(key := None))"
    using kh_map_graph [of ?h] kh_map_graph [OF ok(12)] inj live by (simp add: graph_fun_upd_None)
  then have "kh_map ?h = (kh_map h)(key := None)" by (rule graph_inject)
  then show ?thesis using tab del by (auto simp: kh_ok_def)
qed

section \<open>The table as the callers use it\<close>

text \<open>
  The three idioms of the callers: \<open>iter = kh_put( h, key, \&ret ); kh_value( h, iter ) = v\<close>;
  \<open>iter = kh_get( h, key )\<close> and, unless it is \<open>kh_end\<close>, \<open>kh_value( h, iter )\<close>; and
  \<open>kh_del( h, kh_get( h, key ) )\<close>.
\<close>

definition kh_insert :: "'v khash \<Rightarrow> u32 \<Rightarrow> 'v \<Rightarrow> 'v khash result" where
  "kh_insert h key v = andThen (kh_put h key) (\<lambda>(h, x, r). kh_set_value h x v)"

definition kh_lookup :: "'v khash \<Rightarrow> u32 \<Rightarrow> 'v option result" where
  "kh_lookup h key = andThen (kh_get h key) (\<lambda>x.
     if x = kh_end h then Inr None else andThen (kh_value h x) (\<lambda>v. Inr (Some v)))"

definition kh_remove :: "'v khash \<Rightarrow> u32 \<Rightarrow> 'v khash result" where
  "kh_remove h key = andThen (kh_get h key) (\<lambda>x. Inr (kh_del h x))"

definition kh_abs :: "'v khash \<Rightarrow> u32 \<rightharpoonup> 'v" where
  "kh_abs h key = (case kh_map h key of Some (Some v) \<Rightarrow> Some v | _ \<Rightarrow> None)"

definition kh_full :: "'v khash \<Rightarrow> bool" where
  "kh_full h \<longleftrightarrow> kh_ok h \<and> None \<notin> ran (kh_map h)"

lemma kh_full_init: "kh_full kh_init" "kh_abs kh_init = Map.empty" "kh_n_buckets kh_init = 0"
  by (simp_all add: kh_full_def kh_abs_def kh_ok_init fun_eq_iff) (simp add: kh_init_def)

lemma kh_abs_some: "kh_full h \<Longrightarrow> kh_abs h key = Some v \<longleftrightarrow> kh_map h key = Some (Some v)"
  by (auto simp: kh_full_def kh_abs_def ran_def split: option.splits)

lemma kh_abs_none: "kh_full h \<Longrightarrow> kh_abs h key = None \<longleftrightarrow> kh_map h key = None"
  by (auto simp: kh_full_def kh_abs_def ran_def split: option.splits)

lemma dom_kh_abs: "kh_full h \<Longrightarrow> dom (kh_abs h) = dom (kh_map h)"
  by (auto simp: dom_def kh_abs_none)

lemma kh_size_abs: "kh_full h \<Longrightarrow> kh_size h = card (dom (kh_abs h))"
  using kh_map_dom [of h] kh_ok_shape(4,6) [of h]
  by (simp add: dom_kh_abs kh_full_def card_image)

text \<open>Clearing keeps the buckets and forgets the entries.\<close>

lemma kh_clear_full:
  assumes "kh_full h"
  shows "kh_full (kh_clear h)" "kh_abs (kh_clear h) = Map.empty" "kh_n_buckets (kh_clear h) = kh_n_buckets h"
proof -
  have "kh_ok (kh_clear h) \<and> kh_map (kh_clear h) = Map.empty"
  proof (cases "h = kh_init")
    case True
    then have "kh_clear h = kh_init" by (simp add: kh_clear_def kh_init_def)
    then show ?thesis by (simp add: kh_ok_init)
  next
    case False
    then obtain e where "kh_table_ok e h" using assms by (auto simp: kh_full_def kh_ok_def)
    note ok = kh_okD [OF this]
    have "kh_flags h \<noteq> []" using ok(5) by (auto simp: ac_fsize_def split: if_splits)
    then have c: "kh_clear h = h\<lparr>kh_flags := fresh_flags (kh_n_buckets h), kh_size := 0, kh_n_occupied := 0\<rparr>"
      by (simp add: kh_clear_def)
    have none: "used (fresh_flags (kh_n_buckets h)) (kh_n_buckets h) = {}"
      "live (fresh_flags (kh_n_buckets h)) (kh_n_buckets h) = {}"
      using fresh_used [OF ok(14)] live_used [of "fresh_flags (kh_n_buckets h)" "kh_n_buckets h"] by simp_all
    have "kh_table_ok e (kh_clear h)"
      using ok(1-7,11) none by (simp add: c kh_table_ok_def Let_def fresh_flags_def)
    moreover have "kh_map (kh_clear h) = Map.empty"
      using none(2) unfolding c kh_map_def by (simp add: live_def)
    ultimately show ?thesis by (auto simp: kh_ok_def)
  qed
  then show "kh_full (kh_clear h)" "kh_abs (kh_clear h) = Map.empty"
    by (simp_all add: kh_full_def kh_abs_def [abs_def])
  show "kh_n_buckets (kh_clear h) = kh_n_buckets h" by (simp add: kh_clear_def)
qed

lemma kh_lookup_full:
  assumes h: "kh_full h"
  shows "kh_lookup h key = Inr (kh_abs h key)"
proof (cases "kh_map h key")
  case None
  then show ?thesis
    using kh_get_spec [of h key] h by (simp add: kh_lookup_def kh_full_def kh_abs_def)
next
  case (Some w)
  then obtain v where v: "w = Some v" using h by (cases w) (auto simp: kh_full_def ran_def)
  obtain i where i: "kh_get h key = Inr i" "kh_holds h i key" "kh_vals h ! i = w"
    using kh_get_spec [of h key] h Some by (auto simp: kh_full_def)
  have "kh_value h i = Inr v" using kh_value_holds [OF _ i(2)] i(3) v h by (simp add: kh_full_def)
  then show ?thesis
    using i kh_holdsD(9) [OF _ i(2)] h Some v by (simp add: kh_lookup_def kh_full_def kh_abs_def)
qed

lemma kh_remove_full:
  assumes h: "kh_full h"
  shows "\<exists>h'. kh_remove h key = Inr h' \<and> kh_full h' \<and> kh_abs h' = (kh_abs h)(key := None) \<and>
    kh_n_buckets h' = kh_n_buckets h"
proof (cases "kh_map h key")
  case None
  then have "kh_remove h key = Inr h"
    using kh_get_spec [of h key] h by (simp add: kh_remove_def kh_full_def kh_del_def)
  moreover have "kh_abs h key = None" using None by (simp add: kh_abs_def)
  ultimately show ?thesis using h by (simp add: fun_upd_idem)
next
  case (Some w)
  obtain i where i: "kh_get h key = Inr i" "kh_holds h i key"
    using kh_get_spec [of h key] h Some by (auto simp: kh_full_def)
  have d: "kh_ok (kh_del h i)" "kh_map (kh_del h i) = (kh_map h)(key := None)"
    "kh_n_buckets (kh_del h i) = kh_n_buckets h"
    using kh_del_spec [OF _ i(2)] h by (auto simp: kh_full_def)
  have "kh_full (kh_del h i)" using d(1,2) h by (auto simp: kh_full_def ran_def)
  moreover have "kh_abs (kh_del h i) = (kh_abs h)(key := None)"
    using d(2) by (auto simp: kh_abs_def fun_eq_iff)
  ultimately show ?thesis using i(1) d(3) by (simp add: kh_remove_def)
qed

text \<open>The steps of the idioms taken one by one.\<close>

lemma kh_bucket:
  assumes h: "kh_full h" and v: "kh_abs h key = Some v"
  shows "\<exists>x. kh_get h key = Inr x \<and> kh_holds h x key \<and> kh_value h x = Inr v \<and> x \<noteq> kh_end h"
proof -
  have ok: "kh_ok h" using h by (simp add: kh_full_def)
  have map: "kh_map h key = Some (Some v)" using kh_abs_some [OF h] v by simp
  obtain x where x: "kh_get h key = Inr x" "kh_holds h x key" "kh_vals h ! x = Some v"
    using kh_get_spec [OF ok, of key] map by auto
  then show ?thesis using kh_value_holds [OF ok x(2,3)] kh_holdsD(9) [OF ok x(2)] by auto
qed

lemma kh_no_bucket: "kh_full h \<Longrightarrow> kh_abs h key = None \<Longrightarrow> kh_get h key = Inr (kh_end h)"
  using kh_get_spec [of h key] kh_abs_none [of h key] by (simp add: kh_full_def)

lemma kh_get_holds:
  assumes "kh_full h" "kh_holds h x key"
  shows "kh_get h key = Inr x"
proof -
  have ok: "kh_ok h" using assms(1) by (simp add: kh_full_def)
  then obtain e where "kh_table_ok e h" using kh_holdsD(4) [OF ok assms(2)] by (auto simp: kh_ok_def)
  then show ?thesis using kh_get_present assms(2) by (auto simp: kh_holds_def)
qed

lemma kh_set_full:
  assumes h: "kh_full h" and x: "kh_holds h x key"
  shows "\<exists>h'. kh_set_value h x v = Inr h' \<and> kh_full h' \<and> kh_abs h' = (kh_abs h)(key \<mapsto> v) \<and>
    kh_n_buckets h' = kh_n_buckets h \<and> kh_holds h' x key"
proof -
  have ok: "kh_ok h" using h by (simp add: kh_full_def)
  obtain h' where h': "kh_set_value h x v = Inr h'" "kh_ok h'" "kh_map h' = (kh_map h)(key \<mapsto> Some v)"
    "kh_n_buckets h' = kh_n_buckets h"
    using kh_set_value_spec [OF ok x, of v] by blast
  have "kh_full h'" using h h'(2,3) by (auto simp: kh_full_def ran_def)
  moreover have "kh_abs h' = (kh_abs h)(key \<mapsto> v)" using h'(3) by (auto simp: kh_abs_def fun_eq_iff)
  moreover have "kh_holds h' x key"
    using h'(1) x by (auto simp: kh_set_value_def kh_holds_def split: if_splits)
  ultimately show ?thesis using h'(1,4) by blast
qed

lemma kh_put_set:
  assumes h: "kh_full h" and small: "kh_n_buckets h \<le> 2 ^ 30"
  shows "\<exists>h1 x r h'. kh_put h key = Inr (h1, x, r) \<and> kh_set_value h1 x v = Inr h' \<and> kh_full h' \<and>
    kh_abs h' = (kh_abs h)(key \<mapsto> v) \<and> kh_holds h' x key \<and>
    kh_n_buckets h' \<le> max (kh_n_buckets h) (max 4 (4 * card (dom (kh_abs h))))"
proof -
  have ok: "kh_ok h" using h by (simp add: kh_full_def)
  obtain h1 x r where put: "kh_put h key = Inr (h1, x, r)" "kh_ok h1" "kh_holds h1 x key"
    "kh_map h1 = (kh_map h)(key \<mapsto> kh_vals h1 ! x)"
    "kh_n_buckets h1 \<le> max (kh_n_buckets h) (max 4 (4 * kh_size h))"
    using kh_put_spec [OF ok small, of key] by blast
  obtain h' where set: "kh_set_value h1 x v = Inr h'" "kh_ok h'"
    "kh_map h' = (kh_map h1)(key \<mapsto> Some v)" "kh_n_buckets h' = kh_n_buckets h1"
    using kh_set_value_spec [OF put(2,3), of v] by blast
  have map: "kh_map h' = (kh_map h)(key \<mapsto> Some v)" using put(4) set(3) by simp
  then have "kh_full h'" using h set(2) by (auto simp: kh_full_def ran_def)
  moreover have "kh_abs h' = (kh_abs h)(key \<mapsto> v)" using map by (auto simp: kh_abs_def fun_eq_iff)
  moreover have "kh_holds h' x key"
    using put(3) set(1) by (auto simp: kh_set_value_def kh_holds_def split: if_splits)
  ultimately show ?thesis using put(1,5) set(1,4) kh_size_abs [OF h] by auto
qed

lemma kh_insert_full:
  assumes h: "kh_full h" and small: "kh_n_buckets h \<le> 2 ^ 30"
  shows "\<exists>h'. kh_insert h key v = Inr h' \<and> kh_full h' \<and> kh_abs h' = (kh_abs h)(key \<mapsto> v) \<and>
    kh_n_buckets h' \<le> max (kh_n_buckets h) (max 4 (4 * card (dom (kh_abs h))))"
  using kh_put_set [OF h small, of key v] by (auto simp: kh_insert_def)

section \<open>The contract\<close>

datatype 'v map_op = Put u32 'v | Get u32 | Del u32

fun map_run :: "'v map_op list \<Rightarrow> (u32 \<rightharpoonup> 'v) \<Rightarrow> 'v option list" where
  "map_run [] m = []"
| "map_run (Put k v # ops) m = map_run ops (m(k \<mapsto> v))"
| "map_run (Get k # ops) m = m k # map_run ops m"
| "map_run (Del k # ops) m = map_run ops (m(k := None))"

fun hash_run :: "'v map_op list \<Rightarrow> 'v khash \<Rightarrow> 'v option list result" where
  "hash_run [] h = Inr []"
| "hash_run (Put k v # ops) h = andThen (kh_insert h k v) (hash_run ops)"
| "hash_run (Get k # ops) h = andThen (kh_lookup h k) (\<lambda>r. andThen (hash_run ops h) (\<lambda>rs. Inr (r # rs)))"
| "hash_run (Del k # ops) h = andThen (kh_remove h k) (hash_run ops)"

locale int_map =
  fixes ins :: "'h \<Rightarrow> u32 \<Rightarrow> 'v \<Rightarrow> 'h result"
    and lookup :: "'h \<Rightarrow> u32 \<Rightarrow> 'v option result"
    and remove :: "'h \<Rightarrow> u32 \<Rightarrow> 'h result"
    and run :: "'v map_op list \<Rightarrow> 'h \<Rightarrow> 'v option list result"
    and invar :: "'h \<Rightarrow> bool" and abs :: "'h \<Rightarrow> u32 \<rightharpoonup> 'v" and cap :: "'h \<Rightarrow> nat"
  assumes insert_law: "invar h \<Longrightarrow> cap h \<le> 2 ^ 30 \<Longrightarrow>
      \<exists>h'. ins h k v = Inr h' \<and> invar h' \<and> abs h' = (abs h)(k \<mapsto> v) \<and>
        cap h' \<le> max (cap h) (max 4 (4 * card (dom (abs h))))"
    and lookup_law: "invar h \<Longrightarrow> lookup h k = Inr (abs h k)"
    and remove_law: "invar h \<Longrightarrow>
      \<exists>h'. remove h k = Inr h' \<and> invar h' \<and> abs h' = (abs h)(k := None) \<and> cap h' = cap h"
    and run_Nil: "run [] h = Inr []"
    and run_Put: "run (Put k v # ops) h = andThen (ins h k v) (run ops)"
    and run_Get: "run (Get k # ops) h =
      andThen (lookup h k) (\<lambda>r. andThen (run ops h) (\<lambda>rs. Inr (r # rs)))"
    and run_Del: "run (Del k # ops) h = andThen (remove h k) (run ops)"
begin

lemma run_is_map:
  "invar h \<Longrightarrow> finite (dom (abs h)) \<Longrightarrow> cap h \<le> 2 ^ 30 \<Longrightarrow>
     card (dom (abs h)) + length ops \<le> 2 ^ 28 \<Longrightarrow>
     run ops h = Inr (map_run ops (abs h))"
proof (induction ops arbitrary: h)
  case Nil
  then show ?case by (simp add: run_Nil)
next
  case (Cons opn ops)
  show ?case
  proof (cases opn)
    case (Put k v)
    obtain h' where h': "ins h k v = Inr h'" "invar h'" "abs h' = (abs h)(k \<mapsto> v)"
      "cap h' \<le> max (cap h) (max 4 (4 * card (dom (abs h))))"
      using insert_law [OF Cons.prems(1,3)] by blast
    have "card (dom (abs h')) \<le> Suc (card (dom (abs h)))"
      using Cons.prems(2) h'(3) by (simp add: card_insert_if)
    then have "card (dom (abs h')) + length ops \<le> 2 ^ 28" using Cons.prems(4) by simp
    moreover have "cap h' \<le> 2 ^ 30" using h'(4) Cons.prems(3,4) by simp
    moreover have "finite (dom (abs h'))" using Cons.prems(2) h'(3) by simp
    ultimately have "run ops h' = Inr (map_run ops (abs h'))" using Cons.IH [OF h'(2)] by blast
    then show ?thesis using Put h'(1,3) by (simp add: run_Put)
  next
    case (Get k)
    then show ?thesis using Cons lookup_law [OF Cons.prems(1)] by (simp add: run_Get)
  next
    case (Del k)
    obtain h' where h': "remove h k = Inr h'" "invar h'" "abs h' = (abs h)(k := None)" "cap h' = cap h"
      using remove_law [OF Cons.prems(1)] by blast
    have "card (dom (abs h')) \<le> card (dom (abs h))"
      using Cons.prems(2) h'(3) by (simp add: card_Diff1_le)
    then have "card (dom (abs h')) + length ops \<le> 2 ^ 28" using Cons.prems(4) by simp
    moreover have "cap h' \<le> 2 ^ 30" using h'(4) Cons.prems(3) by simp
    moreover have "finite (dom (abs h'))" using Cons.prems(2) h'(3) by simp
    ultimately have "run ops h' = Inr (map_run ops (abs h'))" using Cons.IH [OF h'(2)] by blast
    then show ?thesis using Del h'(1,3) by (simp add: run_Del)
  qed
qed

end

interpretation khash_map: int_map kh_insert kh_lookup kh_remove hash_run kh_full kh_abs kh_n_buckets
  by unfold_locales (simp_all add: kh_insert_full kh_lookup_full kh_remove_full)

text \<open>C4: From an empty table, any sequence of up to \<open>2 ^ 28\<close> insertions, lookups and deletions
  runs to its end (no probe loop or kick-out diverges, no access is out of bounds) and every lookup
  answers what a finite map would: the value inserted last under the key, or nothing.\<close>

theorem hash_run_is_map:
  assumes "length ops \<le> 2 ^ 28"
  shows "hash_run ops kh_init = Inr (map_run ops Map.empty)"
  using khash_map.run_is_map [of kh_init ops] assms by (simp add: kh_full_init)

theorem hash_run_is_map_witness:
  "hash_run [Put 5 True, Put 9 False, Del 5, Get 9, Get 5, Put 9 True, Get 9] kh_init =
     Inr [Some False, None, Some True]"
  using hash_run_is_map [of "[Put 5 True, Put 9 False, Del 5, Get 9, Get 5, Put 9 True, Get 9]"] by simp

text \<open>C7: \<open>kh_resize\<close> of a well-formed table, to any requested number of buckets up to
  \<open>2 ^ 31\<close> (growing, shrinking or rehashing at the same size), ends, yields a well-formed table
  and keeps the map it stands for: the in-place rehash that kicks out live entries loses and
  duplicates none of them.\<close>

theorem kh_resize_map:
  assumes "kh_ok h" "want \<le> 2 ^ 31"
  shows "\<exists>h'. kh_resize h want = Inr h' \<and> kh_ok h' \<and> kh_map h' = kh_map h"
  by (rule kh_resize_keeps [OF assms])

theorem kh_resize_map_witness:
  "\<exists>h h'. kh_insert (kh_init :: nat khash) 5 7 = Inr h \<and> kh_resize h 100 = Inr h' \<and>
     kh_ok h' \<and> kh_map h' 5 = Some (Some 7)"
proof -
  obtain h :: "nat khash" where h: "kh_insert kh_init 5 7 = Inr h" "kh_full h" "kh_abs h = [5 \<mapsto> 7]"
    using kh_insert_full [OF kh_full_init(1), of 5 7] by (auto simp: kh_full_init)
  have "kh_map h 5 = Some (Some 7)" using kh_abs_some [OF h(2), of 5 7] h(3) by simp
  then show ?thesis using kh_resize_map [of h 100] h(1,2) by (auto simp: kh_full_def)
qed

end
