(* ===== verification/Kvec.thy ===== *)
theory Kvec
  imports Prelude
begin

text \<open>
  \<open>lib/klib/kvec.h\<close>, the growable array of the contexts' forwarding lists. The array is a
  block whose elements nothing has written to are \<open>None\<close>; reading one is \<open>Uninitialised\<close>.
  \<open>realloc\<close> keeps the old elements and succeeds. The contract of a list that grows at its end is
  the locale \<open>growing_list\<close>, interpreted on \<open>kv_push\<close> and \<open>kv_A\<close>.
\<close>

section \<open>The macros\<close>

record 'a kvec =
  kv_n :: nat
  kv_m :: nat
  kv_arr :: "'a option list"

definition kv_init :: "'a kvec" where
  "kv_init = \<lparr>kv_n = 0, kv_m = 0, kv_arr = []\<rparr>"

abbreviation kv_size :: "'a kvec \<Rightarrow> nat" where "kv_size v \<equiv> kv_n v"
abbreviation kv_max :: "'a kvec \<Rightarrow> nat" where "kv_max v \<equiv> kv_m v"

definition kv_roundup32 :: "u64 \<Rightarrow> u64" where
  "kv_roundup32 x =
     (let x = x - 1;
          x = x OR drop_bit 1 x;
          x = x OR drop_bit 2 x;
          x = x OR drop_bit 4 x;
          x = x OR drop_bit 8 x;
          x = x OR drop_bit 16 x
      in x + 1)"

definition realloc :: "'a option list \<Rightarrow> nat \<Rightarrow> 'a option list" where
  "realloc a s = take s a @ replicate (s - length a) None"

definition kv_A :: "'a kvec \<Rightarrow> nat \<Rightarrow> 'a result" where
  "kv_A v i = andThen (load (kv_arr v) i) (\<lambda>x.
     case x of None \<Rightarrow> Inl Uninitialised | Some y \<Rightarrow> Inr y)"

definition kv_pop :: "'a kvec \<Rightarrow> ('a kvec \<times> 'a) result" where
  "kv_pop v = (let n = size_sub (kv_n v) 1; v = v\<lparr>kv_n := n\<rparr> in
     andThen (kv_A v n) (\<lambda>x. Inr (v, x)))"

definition kv_resize :: "'a kvec \<Rightarrow> nat \<Rightarrow> 'a kvec" where
  "kv_resize v s = v\<lparr>kv_m := s, kv_arr := realloc (kv_arr v) s\<rparr>"

definition kv_copy :: "'a kvec \<Rightarrow> 'a kvec \<Rightarrow> 'a kvec result" where
  "kv_copy v1 v0 =
     (let v1 = (if kv_m v1 < kv_n v0 then kv_resize v1 (kv_n v0) else v1);
          v1 = v1\<lparr>kv_n := kv_n v0\<rparr>
      in andThen (load_block (kv_arr v0) 0 (kv_n v0)) (\<lambda>xs.
         andThen (store_block (kv_arr v1) 0 xs) (\<lambda>a. Inr (v1\<lparr>kv_arr := a\<rparr>))))"

definition kv_grow :: "'a kvec \<Rightarrow> 'a kvec" where
  "kv_grow v =
     (if kv_n v = kv_m v then
        kv_resize v (if kv_m v \<noteq> 0 then kv_m v * 2 mod 2 ^ 64 else 2)
      else v)"

definition kv_push :: "'a kvec \<Rightarrow> 'a \<Rightarrow> 'a kvec result" where
  "kv_push v x =
     (let v = kv_grow v in
      andThen (store (kv_arr v) (kv_n v) (Some x)) (\<lambda>a.
      Inr (v\<lparr>kv_arr := a, kv_n := kv_n v + 1\<rparr>)))"

text \<open>\<open>kv_pushp\<close>: the new last element is left for the caller to write; its index is returned.\<close>

definition kv_pushp :: "'a kvec \<Rightarrow> 'a kvec \<times> nat" where
  "kv_pushp v = (let v = kv_grow v in (v\<lparr>kv_n := kv_n v + 1\<rparr>, kv_n v))"

text \<open>
  \<open>kv_a\<close> evaluates its index argument again at every use. \<open>ix k\<close> is the value of the
  argument's \<open>k\<close>-th evaluation; the result says how many evaluations there were.
\<close>

definition kv_a :: "'a kvec \<Rightarrow> (nat \<Rightarrow> nat) \<Rightarrow> ('a kvec \<times> nat \<times> 'a) result" where
  "kv_a v ix =
     (if kv_m v \<le> ix 0 then
        (let s = ix 1 + 1; m = unat (kv_roundup32 (of_nat s));
             v = v\<lparr>kv_n := s, kv_m := m, kv_arr := realloc (kv_arr v) m\<rparr>
         in andThen (kv_A v (ix 2)) (\<lambda>x. Inr (v, 3, x)))
      else if kv_n v \<le> ix 1 then
        (let v = v\<lparr>kv_n := ix 2 + 1\<rparr> in andThen (kv_A v (ix 3)) (\<lambda>x. Inr (v, 4, x)))
      else andThen (kv_A v (ix 2)) (\<lambda>x. Inr (v, 3, x)))"

section \<open>The list of a vector\<close>

definition kv_ok :: "'a kvec \<Rightarrow> bool" where
  "kv_ok v \<longleftrightarrow> kv_n v \<le> kv_m v \<and> length (kv_arr v) = kv_m v \<and>
     (\<forall>x\<in>set (take (kv_n v) (kv_arr v)). x \<noteq> None)"

definition kv_list :: "'a kvec \<Rightarrow> 'a list" where
  "kv_list v = map the (take (kv_n v) (kv_arr v))"

lemma kv_init_ok [simp]: "kv_ok kv_init" "kv_list kv_init = []"
  by (simp_all add: kv_ok_def kv_list_def kv_init_def)

lemma length_kv_list [simp]: "kv_ok v \<Longrightarrow> length (kv_list v) = kv_n v"
  by (simp add: kv_ok_def kv_list_def)

lemma kv_A_list:
  assumes "kv_ok v" "i < kv_n v"
  shows "kv_A v i = Inr (kv_list v ! i)"
proof -
  have len: "i < length (kv_arr v)" "length (take (kv_n v) (kv_arr v)) = kv_n v"
    using assms by (auto simp: kv_ok_def)
  have "kv_arr v ! i \<in> set (take (kv_n v) (kv_arr v))"
    using assms(2) len by (metis nth_mem nth_take)
  then obtain y where "kv_arr v ! i = Some y" using assms(1) by (auto simp: kv_ok_def)
  then show ?thesis using len assms(2) by (simp add: kv_A_def load_def kv_list_def)
qed

lemma kv_push_list:
  assumes "kv_ok v" "kv_n v < 2 ^ 62"
  shows "\<exists>v'. kv_push v x = Inr v' \<and> kv_ok v' \<and> kv_list v' = kv_list v @ [x]"
proof -
  define w where "w = kv_grow v"
  have w: "kv_n w = kv_n v" "kv_n w < kv_m w" "length (kv_arr w) = kv_m w"
    "take (kv_n w) (kv_arr w) = take (kv_n v) (kv_arr v)"
    using assms by (auto simp: w_def kv_grow_def kv_resize_def realloc_def kv_ok_def)
  define v' where "v' = w\<lparr>kv_arr := (kv_arr w)[kv_n w := Some x], kv_n := kv_n w + 1\<rparr>"
  have taken: "take (kv_n v') (kv_arr v') = take (kv_n v) (kv_arr v) @ [Some x]"
    using w by (simp add: v'_def take_Suc_conv_app_nth)
  then have "kv_ok v'" using assms(1) w unfolding kv_ok_def by (auto simp: v'_def)
  moreover have "kv_list v' = kv_list v @ [x]" using taken by (simp add: kv_list_def)
  moreover have "kv_push v x = Inr v'"
    using w by (simp add: kv_push_def w_def [symmetric] store_def v'_def Let_def)
  ultimately show ?thesis by blast
qed

lemma kv_a_inside:
  assumes "kv_ok v" "\<And>k. ix k < kv_n v"
  shows "kv_a v ix = Inr (v, 3, kv_list v ! ix 2)"
proof -
  have "\<not> kv_m v \<le> ix 0" "\<not> kv_n v \<le> ix 1"
    using assms(1) assms(2) [of 0] assms(2) [of 1] by (auto simp: kv_ok_def)
  then show ?thesis using kv_A_list [OF assms(1) assms(2)] by (simp add: kv_a_def)
qed

section \<open>The contract\<close>

locale growing_list =
  fixes empty :: 'v and push :: "'v \<Rightarrow> 'a \<Rightarrow> 'v result" and at :: "'v \<Rightarrow> nat \<Rightarrow> 'a result"
    and invar :: "'v \<Rightarrow> bool" and elems :: "'v \<Rightarrow> 'a list"
  assumes empty_law: "invar empty" "elems empty = []"
    and push_law: "invar v \<Longrightarrow> length (elems v) < 2 ^ 62 \<Longrightarrow>
      \<exists>v'. push v x = Inr v' \<and> invar v' \<and> elems v' = elems v @ [x]"
    and at_law: "invar v \<Longrightarrow> i < length (elems v) \<Longrightarrow> at v i = Inr (elems v ! i)"
begin

fun push_all :: "'a list \<Rightarrow> 'v \<Rightarrow> 'v result" where
  "push_all [] v = Inr v"
| "push_all (x # xs) v = andThen (push v x) (push_all xs)"

lemma push_all_elems:
  "invar v \<Longrightarrow> length (elems v) + length xs \<le> 2 ^ 62 \<Longrightarrow>
     \<exists>v'. push_all xs v = Inr v' \<and> invar v' \<and> elems v' = elems v @ xs"
proof (induction xs arbitrary: v)
  case (Cons x xs)
  obtain w where w: "push v x = Inr w" "invar w" "elems w = elems v @ [x]"
    using push_law [of v x] Cons.prems by auto
  then show ?case using Cons.IH [OF w(2)] Cons.prems(2) by auto
qed simp

end

interpretation kvec: growing_list kv_init kv_push kv_A kv_ok kv_list
  by unfold_locales (simp_all add: kv_push_list kv_A_list)

end
