(* ===== verification/Router.thy ===== *)
theory Router
  imports GraphNetwork KhashMap Kvec
begin

text \<open>
  \<open>GraphRouter.c\<close>: the contexts of the known addresses, the receive buffer of each
  connection, and the handlers of packets, poll events and poll rounds.

  The two hash tables, the counters of \<open>lib/GraphNetwork.c\<close>, the number of \<open>rand()\<close> calls so
  far and the descriptors closed are the record \<open>router\<close>. The operating system is the record
  \<open>os\<close>: what \<open>write\<close> returns, the sequence of \<open>rand()\<close> values and what a block from
  \<open>malloc\<close> or the stack holds before it is written. The log and the terminal output are not
  modelled, except for the table the main loop prints, whose loop may not end; the arguments of
  the log calls are, where evaluating them reads memory.

  \<open>GraphRouter\<close> calls \<open>setExitOnAssert( true )\<close>: a failed assertion is \<open>Exit\<close>.
\<close>

section \<open>State\<close>

record os =
  os_write :: "int \<Rightarrow> u8 list \<Rightarrow> int"
  os_rand :: "nat \<Rightarrow> nat"
  os_malloc :: "nat \<Rightarrow> u8 list"

record context_t =
  forward :: "gnw_address kvec"
  forward_policy :: int
  bound_fd :: int
  ctx_state :: int
  packets_in :: u64
  packets_out :: u64
  bytes_in :: u64
  bytes_out :: u64

text \<open>\<open>local_buffer_t\<close>: the two pointers, \<open>None\<close> when null; the tail is an offset.\<close>

record local_buffer =
  lb_buffer :: "u8 list option"
  lb_tail :: "nat option"

record router =
  address_table :: "context_t khash"
  local_buffers :: "local_buffer khash"
  rt_net :: net
  rt_rands :: nat
  rt_closed :: "int list"

definition fd_key :: "int \<Rightarrow> u32" where "fd_key fd = of_int fd"

definition policy_int :: "u8 \<Rightarrow> int" where "policy_int p = uint p"

section \<open>Contexts\<close>

definition reset_context :: "context_t \<Rightarrow> context_t" where
  "reset_context c =
     c\<lparr>packets_in := 0, packets_out := 0, bytes_in := 0, bytes_out := 0,
       forward := (if ctx_state c \<noteq> -1 then (forward c)\<lparr>kv_arr := []\<rparr> else forward c),
       forward_policy := -1, ctx_state := GNW_STATE_CLOSE, bound_fd := -1\<rparr>"

definition setup_context :: context_t where
  "setup_context = \<lparr>forward = kv_init, forward_policy = policy_int GNW_POLICY_BROADCAST,
     bound_fd = -1, ctx_state = GNW_STATE_OPEN,
     packets_in = 0, packets_out = 0, bytes_in = 0, bytes_out = 0\<rparr>"

text \<open>Assigning through the pointer \<open>kh_value( address_table, x )\<close>.\<close>

definition upd_context :: "router \<Rightarrow> nat \<Rightarrow> (context_t \<Rightarrow> context_t) \<Rightarrow> router result" where
  "upd_context r x f =
     andThen (kh_value (address_table r) x) (\<lambda>c.
     andThen (kh_set_value (address_table r) x (f c)) (\<lambda>h.
     Inr (r\<lparr>address_table := h\<rparr>)))"

text \<open>
  \<open>hint == kh_end || kh_exist( hint ) == 0\<close>, then \<open>kh_put\<close> and \<open>setup_context\<close>: the bucket of an
  address, with a fresh context in it when there was none.
\<close>

definition find_or_setup :: "router \<Rightarrow> gnw_address \<Rightarrow> (router \<times> nat) result" where
  "find_or_setup r address =
     andThen (kh_get (address_table r) address) (\<lambda>hint.
     andThen (if hint = kh_end (address_table r) then Inr True
              else andThen (kh_exist (address_table r) hint) (\<lambda>b. Inr (\<not> b))) (\<lambda>missing.
     if missing then
       andThen (kh_put (address_table r) address) (\<lambda>(h, hint, status).
       andThen (kh_set_value h hint setup_context) (\<lambda>h.
       Inr (r\<lparr>address_table := h\<rparr>, hint)))
     else Inr (r, hint)))"

section \<open>Packets\<close>

definition cmd_new_address ::
    "os \<Rightarrow> router \<Rightarrow> int \<Rightarrow> gnw_header \<Rightarrow> u8 list \<Rightarrow> nat \<Rightarrow> router result" where
  "cmd_new_address env r fd header buffer nxt =
     (let address_req = 0xFFFFF000 AND of_nat (os_rand env (rt_rands r));
          r = r\<lparr>rt_rands := rt_rands r + 1\<rparr>
      in andThen (if hdr_length header = 5 then
             andThen (packet_read_u32 buffer nxt) (\<lambda>(a, _). Inr a)
           else Inr address_req) (\<lambda>address_req.
         andThen (find_or_setup r address_req) (\<lambda>(r, hint).
         andThen (upd_context r hint (\<lambda>c. c\<lparr>bound_fd := fd\<rparr>)) (\<lambda>r.
         andThen (packet_write_u8 (replicate 5 0) 0 GNW_CMD_NEW_ADDRESS) (\<lambda>(reply, out).
         andThen (packet_write_u32 reply out address_req) (\<lambda>(reply, out).
         andThen (gnw_emitCommandPacket (os_write env) (rt_net r) fd GNW_REPLY (Some reply) out) (\<lambda>n.
         Inr (r\<lparr>rt_net := n\<rparr>))))))))"

definition cmd_connect :: "router \<Rightarrow> u8 list \<Rightarrow> nat \<Rightarrow> router result" where
  "cmd_connect r buffer nxt =
     andThen (packet_read_u32 buffer nxt) (\<lambda>(source, nxt).
     andThen (packet_read_u32 buffer nxt) (\<lambda>(target, nxt).
     andThen (find_or_setup r source) (\<lambda>(r, srcHint).
     andThen (assert_that True (srcHint \<noteq> kh_end (address_table r))) (\<lambda>_.
     andThen (kh_value (address_table r) srcHint) (\<lambda>srcContext.
     andThen (kv_push (forward srcContext) target) (\<lambda>f.
     upd_context r srcHint (\<lambda>c. c\<lparr>forward := f\<rparr>)))))))"

text \<open>The table \<open>policyStr\<close> has four entries; the log call reads the one of the new policy.\<close>

definition policyStr :: "string list" where
  "policyStr = [''BROADCAST'', ''ANYCAST'', ''ROUNDROBIN'', ''???'']"

definition cmd_policy :: "router \<Rightarrow> u8 list \<Rightarrow> nat \<Rightarrow> router result" where
  "cmd_policy r buffer nxt =
     andThen (packet_read_u8 buffer nxt) (\<lambda>(policy, nxt).
     andThen (packet_read_u32 buffer nxt) (\<lambda>(target, nxt).
     andThen (kh_get (address_table r) target) (\<lambda>targetHint.
     if targetHint = kh_end (address_table r) then Inr r
     else
       andThen (upd_context r targetHint (\<lambda>c. c\<lparr>forward_policy := policy_int policy\<rparr>)) (\<lambda>r.
       andThen (load policyStr (nat (policy_int policy))) (\<lambda>_.
       Inr r)))))"

text \<open>Sending the packet on to one target of the forwarding list.\<close>

definition forward_to ::
    "os \<Rightarrow> router \<Rightarrow> gnw_address \<Rightarrow> u8 list \<Rightarrow> nat \<Rightarrow> router result" where
  "forward_to env r target buffer len =
     andThen (kh_get (address_table r) target) (\<lambda>fwd.
     andThen (kh_exist (address_table r) fwd) (\<lambda>exists.
     if \<not> exists then Inr r
     else if fwd = kh_end (address_table r) then Inr r
     else
       andThen (kh_value (address_table r) fwd) (\<lambda>fwdEntry.
       andThen (gnw_emitPacket (os_write env) (rt_net r) (bound_fd fwdEntry) buffer len) (\<lambda>n.
       upd_context (r\<lparr>rt_net := n\<rparr>) fwd
         (\<lambda>c. c\<lparr>bytes_out := bytes_out c + of_nat len, packets_out := packets_out c + 1\<rparr>)))))"

text \<open>\<open>for( i = 0; i < kv_size( entry->forward ); i++ )\<close>, from \<open>i\<close> with \<open>left\<close> elements to go.\<close>

fun broadcast_loop ::
    "nat \<Rightarrow> os \<Rightarrow> router \<Rightarrow> nat \<Rightarrow> nat \<Rightarrow> u8 list \<Rightarrow> nat \<Rightarrow> router result" where
  "broadcast_loop 0 env r hint i buffer len = Inr r"
| "broadcast_loop (Suc left) env r hint i buffer len =
     andThen (kh_value (address_table r) hint) (\<lambda>entry.
     andThen (kv_a (forward entry) (\<lambda>_. i)) (\<lambda>(f, _, target).
     andThen (upd_context r hint (\<lambda>c. c\<lparr>forward := f\<rparr>)) (\<lambda>r.
     andThen (forward_to env r target buffer len) (\<lambda>r.
     broadcast_loop left env r hint (i + 1) buffer len))))"

text \<open>
  The anycast index \<open>rand() % kv_size\<close> and the round-robin index \<open>packets_in % kv_size\<close> stand in
  the argument of \<open>kv_a\<close>, which evaluates it three times; each evaluation of the first draws
  another random number. A remainder by zero is \<open>DivByZero\<close>.
\<close>

definition forward_pick ::
    "os \<Rightarrow> router \<Rightarrow> nat \<Rightarrow> context_t \<Rightarrow> (nat \<Rightarrow> nat) \<Rightarrow> bool \<Rightarrow> u8 list \<Rightarrow> nat \<Rightarrow> router result" where
  "forward_pick env r hint entry value random buffer len =
     (if kv_size (forward entry) = 0 then Inl DivByZero
      else andThen (kv_a (forward entry) (\<lambda>k. value k mod kv_size (forward entry)))
       (\<lambda>(f, used, target).
         andThen (upd_context r hint (\<lambda>c. c\<lparr>forward := f\<rparr>)) (\<lambda>r.
         forward_to env (if random then r\<lparr>rt_rands := rt_rands r + used\<rparr> else r)
           target buffer len)))"

definition handle_data ::
    "os \<Rightarrow> router \<Rightarrow> gnw_header \<Rightarrow> u8 list \<Rightarrow> nat \<Rightarrow> router result" where
  "handle_data env r header buffer len =
     andThen (kh_get (address_table r) (hdr_source header)) (\<lambda>hint.
     andThen (kh_exist (address_table r) hint) (\<lambda>exists.
     if \<not> exists then Inr r
     else
       andThen (upd_context r hint
          (\<lambda>c. c\<lparr>bytes_in := bytes_in c + of_nat len, packets_in := packets_in c + 1\<rparr>)) (\<lambda>r.
       andThen (kh_value (address_table r) hint) (\<lambda>entry.
       if forward_policy entry = policy_int GNW_POLICY_BROADCAST then
         broadcast_loop (kv_size (forward entry)) env r hint 0 buffer len
       else if forward_policy entry = policy_int GNW_POLICY_ANYCAST then
         forward_pick env r hint entry (\<lambda>k. os_rand env (rt_rands r + k)) True buffer len
       else if forward_policy entry = policy_int GNW_POLICY_ROUNDROBIN then
         forward_pick env r hint entry (\<lambda>k. unat (packets_in entry)) False buffer len
       else Inr r))))"

definition handle_command ::
    "os \<Rightarrow> router \<Rightarrow> int \<Rightarrow> gnw_header \<Rightarrow> u8 list \<Rightarrow> nat \<Rightarrow> router result" where
  "handle_command env r fd header buffer payload =
     (if hdr_length header = 0 then Inr r
      else andThen (packet_read_u8 buffer payload) (\<lambda>(directive, nxt).
        if directive = GNW_CMD_NEW_ADDRESS then cmd_new_address env r fd header buffer nxt
        else if directive = GNW_CMD_CONNECT then cmd_connect r buffer nxt
        else if directive = GNW_CMD_DISCONNECT then Inr r
        else if directive = GNW_CMD_POLICY then cmd_policy r buffer nxt
        else andThen (load buffer payload) (\<lambda>_. Inr r)))"

definition handle_packet :: "os \<Rightarrow> router \<Rightarrow> int \<Rightarrow> u8 list \<Rightarrow> nat \<Rightarrow> router result" where
  "handle_packet env r fd buffer len =
     andThen (assert_that True (0 < len)) (\<lambda>_.
     andThen (gnw_parse_header True buffer) (\<lambda>(header, payload).
     if hdr_type header = GNW_COMMAND then handle_command env r fd header buffer payload
     else if hdr_type header = GNW_DATA then handle_data env r header buffer len
     else andThen (gnw_dumpPacket buffer (int len)) (\<lambda>_. Inr r)))"

section \<open>Poll events\<close>

record pollfd =
  poll_fd :: int
  poll_events :: u16
  poll_revents :: u16

definition POLLIN :: u16 where "POLLIN = 1"
definition POLLHUP :: u16 where "POLLHUP = 0x10"

definition upd_buffer :: "router \<Rightarrow> nat \<Rightarrow> local_buffer \<Rightarrow> router result" where
  "upd_buffer r x b =
     andThen (kh_set_value (local_buffers r) x b) (\<lambda>h. Inr (r\<lparr>local_buffers := h\<rparr>))"

text \<open>
  Killing the buffer of a connection and the poll entry, as both the error path of
  \<open>handle_event\<close> and the hang-up path of the poll loop do.
\<close>

definition kill_buffer :: "router \<Rightarrow> int \<Rightarrow> router result" where
  "kill_buffer r fd =
     andThen (kh_get (local_buffers r) (fd_key fd)) (\<lambda>iter.
     if iter \<noteq> kh_end (local_buffers r) then
       andThen (kh_value (local_buffers r) iter) (\<lambda>b.
       andThen (upd_buffer r iter \<lparr>lb_buffer = None, lb_tail = None\<rparr>) (\<lambda>r.
       andThen (kh_get (local_buffers r) (fd_key fd)) (\<lambda>delHint.
       Inr (r\<lparr>local_buffers := kh_del (local_buffers r) delHint\<rparr>))))
     else Inr r)"

definition drop_client :: "router \<Rightarrow> pollfd \<Rightarrow> (router \<times> pollfd) result" where
  "drop_client r p =
     andThen (kill_buffer r (poll_fd p)) (\<lambda>r.
     Inr (r\<lparr>rt_closed := rt_closed r @ [poll_fd p]\<rparr>,
          \<lparr>poll_fd = -1, poll_events = 0, poll_revents = 0\<rparr>))"

text \<open>The buffer of a connection, made when it is not there: \<open>network_mtu * 20\<close> bytes.\<close>

definition ensure_buffer :: "os \<Rightarrow> nat \<Rightarrow> router \<Rightarrow> int \<Rightarrow> router result" where
  "ensure_buffer env mtu r fd =
     andThen (kh_get (local_buffers r) (fd_key fd)) (\<lambda>iter.
     if iter = kh_end (local_buffers r) then
       andThen (kh_put (local_buffers r) (fd_key fd)) (\<lambda>(h, iter, state).
       andThen (kh_set_value h iter
           \<lparr>lb_buffer = Some (os_malloc env (mtu * 20)), lb_tail = Some 0\<rparr>) (\<lambda>h.
       Inr (r\<lparr>local_buffers := h\<rparr>)))
     else Inr r)"

definition non_null :: "'a option \<Rightarrow> 'a result" where
  "non_null x = (case x of None \<Rightarrow> Inl (Exit EXIT_FAILURE) | Some y \<Rightarrow> Inr y)"

definition handle_event ::
    "os \<Rightarrow> nat \<Rightarrow> router \<Rightarrow> pollfd \<Rightarrow> u8 list \<Rightarrow> int \<Rightarrow> (router \<times> pollfd) result" where
  "handle_event env mtu r p buffer len =
     (if poll_revents p AND POLLIN \<noteq> POLLIN \<or> len < 1 then drop_client r p
      else
        andThen (ensure_buffer env mtu r (poll_fd p)) (\<lambda>r.
        andThen (kh_get (local_buffers r) (fd_key (poll_fd p))) (\<lambda>iter.
        andThen (kh_value (local_buffers r) iter) (\<lambda>local.
        andThen (non_null (lb_buffer local)) (\<lambda>block.
        andThen (non_null (lb_tail local)) (\<lambda>tail.
        (let n = nat len; buffer_size = tail; remaining = size_sub (mtu * 20) buffer_size in
         andThen (assert_that True (n < remaining)) (\<lambda>_.
         andThen (load_block buffer 0 n) (\<lambda>bs.
         andThen (store_block block tail bs) (\<lambda>block.
         andThen (resync_loop gnw_nextPacket (buffer_size + n + 1) block (buffer_size + n))
           (\<lambda>(block, buffer_size, ready).
          if 0 < ready then
            (let k = nat ready in
             andThen (packet_shift block 0 buffer_size (Some (os_malloc env k)) k)
               (\<lambda>(block, packet, _).
             andThen (upd_buffer r iter \<lparr>lb_buffer = Some block, lb_tail = Some (tail + n - k)\<rparr>) (\<lambda>r.
             andThen (assert_that True (k \<le> tail + n)) (\<lambda>_.
             andThen (handle_packet env r (poll_fd p) (the packet) k) (\<lambda>r.
             Inr (r, p))))))
          else
            andThen (upd_buffer r iter \<lparr>lb_buffer = Some block, lb_tail = Some (tail + n)\<rparr>) (\<lambda>r.
            Inr (r, p)))))))))))))"

text \<open>The router's state when \<open>router_process\<close> has made its two tables.\<close>

definition router_init :: router where
  "router_init = \<lparr>address_table = kh_init, local_buffers = kh_init,
     rt_net = \<lparr>link_stats = \<lparr>bytesWritten = 0, bytesRead = 0, dataPackets = 0, commandPackets = 0\<rparr>,
       sent = []\<rparr>, rt_rands = 0, rt_closed = []\<rparr>"

end
