(* ===== verification/Machine.thy ===== *)
theory Machine
  imports Prelude
begin

text \<open>
  Runs of machines. \<open>steps\<close> is a sequence of events of an abstract step relation, \<open>exec\<close> the same
  sequence of a function of the program that may fail. A \<open>simulation\<close> carries a relation between the two
  through every run: each event costs some of the room the concrete state has. A
  \<open>guarded_simulation\<close> may also use an invariant of the abstract machine, an \<open>implementation\<close> has a
  specification that is itself a function and predicts the faults of the program.
\<close>

section \<open>Abstract runs\<close>

inductive steps :: "('s \<Rightarrow> 'e \<Rightarrow> 's \<Rightarrow> bool) \<Rightarrow> 's \<Rightarrow> 'e list \<Rightarrow> 's \<Rightarrow> bool" for step where
  stop: "steps step s [] s"
| more: "step s e s1 \<Longrightarrow> steps step s1 es s2 \<Longrightarrow> steps step s (e # es) s2"

inductive_simps steps_Nil [simp]: "steps step s [] t"
inductive_simps steps_Cons: "steps step s (e # es) t"

lemma steps_append: "steps step s es t \<Longrightarrow> steps step t es' u \<Longrightarrow> steps step s (es @ es') u"
  by (induction rule: steps.induct) (auto intro: steps.more)

lemma steps_split: "steps step s (es @ es') u \<Longrightarrow> \<exists>t. steps step s es t \<and> steps step t es' u"
proof (induction es arbitrary: s)
  case (Cons e es)
  then obtain s1 where s1: "step s e s1" "steps step s1 (es @ es') u" by (auto simp: steps_Cons)
  obtain t where "steps step s1 es t" "steps step t es' u" using Cons.IH [OF s1(2)] by blast
  then show ?case using steps.more [of step, OF s1(1)] by blast
qed auto

text \<open>Runs of runs: the events come in groups.\<close>

lemma steps_groups:
  "steps step s (concat ess) t \<Longrightarrow> steps (steps step) s ess t"
  by (induction ess arbitrary: s) (auto simp: steps_Cons dest!: steps_split)

text \<open>A machine that is a function.\<close>

lemma steps_function: "steps (\<lambda>s e t. t = f e s) s es t \<longleftrightarrow> t = fold f es s"
  by (induction es arbitrary: s) (auto simp: steps_Cons)

lemma steps_inv:
  fixes inv :: "'s \<Rightarrow> bool"
  assumes keep: "\<And>s e s1. inv s \<Longrightarrow> step s e s1 \<Longrightarrow> inv s1"
  shows "steps step s es t \<Longrightarrow> inv s \<Longrightarrow> inv t"
  by (induction rule: steps.induct) (auto intro: keep)

section \<open>Runs of the program\<close>

fun exec :: "('e \<Rightarrow> 's \<Rightarrow> 's result) \<Rightarrow> 'e list \<Rightarrow> 's \<Rightarrow> 's result" where
  "exec act [] s = Inr s"
| "exec act (e # es) s = andThen (act e s) (exec act es)"

lemma exec_append: "exec act (es @ es') s = andThen (exec act es s) (exec act es')"
proof (induction es arbitrary: s)
  case (Cons e es)
  then show ?case by (cases "act e s") simp_all
qed simp

section \<open>Simulation\<close>

locale simulation =
  fixes step :: "'s \<Rightarrow> 'e \<Rightarrow> 's \<Rightarrow> bool" and act :: "'e \<Rightarrow> 'c \<Rightarrow> 'c result"
    and rel :: "nat \<Rightarrow> 'c \<Rightarrow> 's \<Rightarrow> bool" and cost :: "'e \<Rightarrow> nat"
  assumes simulates: "step s e s1 \<Longrightarrow> rel (cost e + j) c s \<Longrightarrow> \<exists>c1. act e c = Inr c1 \<and> rel j c1 s1"
begin

lemma run_simulates:
  "steps step s es t \<Longrightarrow> rel (sum_list (map cost es) + j) c s \<Longrightarrow> \<exists>c1. exec act es c = Inr c1 \<and> rel j c1 t"
proof (induction arbitrary: c rule: steps.induct)
  case (more s e s1 es s2)
  have "rel (cost e + (sum_list (map cost es) + j)) c s" using more.prems by (simp add: ac_simps)
  then obtain c1 where "act e c = Inr c1" "rel (sum_list (map cost es) + j) c1 s1"
    using simulates [OF more.hyps(1)] by blast
  then show ?case using more.IH by simp
qed simp

end

locale invariant =
  fixes step :: "'s \<Rightarrow> 'e \<Rightarrow> 's \<Rightarrow> bool" and inv :: "'s \<Rightarrow> bool"
  assumes preserved: "inv s \<Longrightarrow> step s e s1 \<Longrightarrow> inv s1"
begin

lemma run_preserves: "steps step s es t \<Longrightarrow> inv s \<Longrightarrow> inv t"
  by (rule steps_inv [OF preserved])

end

locale guarded_simulation = invariant step inv for step :: "'s \<Rightarrow> 'e \<Rightarrow> 's \<Rightarrow> bool" and inv +
  fixes act :: "'e \<Rightarrow> 'c \<Rightarrow> 'c result" and rel :: "nat \<Rightarrow> 'c \<Rightarrow> 's \<Rightarrow> bool" and cost :: "'e \<Rightarrow> nat"
  assumes guarded: "inv s \<Longrightarrow> step s e s1 \<Longrightarrow> rel (cost e + j) c s \<Longrightarrow> \<exists>c1. act e c = Inr c1 \<and> rel j c1 s1"

sublocale guarded_simulation \<subseteq> simulation step act "\<lambda>j c s. inv s \<and> rel j c s" cost
  by unfold_locales (blast intro: preserved dest: guarded)

section \<open>Implementation of a function\<close>

text \<open>What the specification predicts: its fault, or success and a related state.\<close>

definition predicts :: "('c \<Rightarrow> 's \<Rightarrow> bool) \<Rightarrow> 's result \<Rightarrow> 'c result \<Rightarrow> bool" where
  "predicts rel spec m \<longleftrightarrow> (case spec of Inl f \<Rightarrow> m = Inl f | Inr s \<Rightarrow> \<exists>c. m = Inr c \<and> rel c s)"

lemma predicts_simps [simp]:
  "predicts rel (Inl f) m \<longleftrightarrow> m = Inl f"
  "predicts rel (Inr s) m \<longleftrightarrow> (\<exists>c. m = Inr c \<and> rel c s)"
  by (simp_all add: predicts_def)

locale implementation =
  fixes spec :: "'e \<Rightarrow> 's \<Rightarrow> 's result" and act :: "'e \<Rightarrow> 'c \<Rightarrow> 'c result"
    and rel :: "nat \<Rightarrow> 'c \<Rightarrow> 's \<Rightarrow> bool" and legal :: "'e \<Rightarrow> bool"
  assumes implements: "legal e \<Longrightarrow> rel (Suc j) c s \<Longrightarrow> predicts (rel j) (spec e s) (act e c)"
begin

lemma run_implements:
  "\<forall>e\<in>set es. legal e \<Longrightarrow> rel (length es + j) c s \<Longrightarrow> predicts (rel j) (exec spec es s) (exec act es c)"
proof (induction es arbitrary: c s)
  case (Cons e es)
  have "predicts (rel (length es + j)) (spec e s) (act e c)" using implements Cons.prems by simp
  then show ?case using Cons.IH Cons.prems(1) by (cases "spec e s") auto
qed simp

end

end
