(* ===== verification/SpareFlag.thy ===== *)
theory SpareFlag
  imports KhashMap
begin

text \<open>
  The flag behind the last bucket. A table of 4 or 8 buckets keeps the flags of 16 in its only word, and
  \<open>kh_exist\<close> applied to \<open>kh_end\<close> reads the first that belongs to no bucket. \<open>kh_resize\<close> makes it
  empty and nothing that inserts changes it, so that \<open>kh_end\<close> does not exist in such a table.
\<close>

definition spare_empty :: "'v khash \<Rightarrow> bool" where
  "spare_empty h \<longleftrightarrow> (kh_n_buckets h < 16 \<longrightarrow> kh_flags h \<noteq> [] \<longrightarrow> ac_isempty (kh_flags h) (kh_n_buckets h))"

lemma spare_init: "spare_empty kh_init"
  by (simp add: spare_empty_def kh_init_def)

text \<open>Setting the flag of one bucket leaves those of the others, also out of range.\<close>

lemma other_flag:
  assumes "j \<noteq> i"
  shows "ac_isempty (ac_set_isempty_false f i) j \<longleftrightarrow> ac_isempty f j"
    "ac_isempty (ac_set_isboth_false f i) j \<longleftrightarrow> ac_isempty f j"
proof -
  show "ac_isempty (ac_set_isempty_false f i) j \<longleftrightarrow> ac_isempty f j"
    using assms ac_set_isempty_false(2) [of i f j]
    by (cases "i div 16 < length f") (simp_all add: ac_set_isempty_false_def list_update_beyond)
  show "ac_isempty (ac_set_isboth_false f i) j \<longleftrightarrow> ac_isempty f j"
    using assms ac_set_isboth_false(2) [of i f j]
    by (cases "i div 16 < length f") (simp_all add: ac_set_isboth_false_def list_update_beyond)
qed

section \<open>Resizing\<close>

lemma and_le: "(i :: nat) AND m \<le> m"
proof -
  have "int i AND int m \<le> int m" by simp
  then have "int (i AND m) \<le> int m" by (simp only: of_nat_and_eq)
  then show ?thesis by (simp only: of_nat_le_iff)
qed

lemma find_empty_le: "find_empty fuel f msk i step = Some k \<Longrightarrow> i \<le> msk \<Longrightarrow> k \<le> msk"
  by (induction fuel f msk i step rule: find_empty.induct) (auto simp: Let_def and_le split: if_splits)

lemma kick_out_spare:
  "kick_out fuel n msk key val s = Some s' \<Longrightarrow> msk < j \<Longrightarrow>
     ac_isempty (rh_new_flags s') j \<longleftrightarrow> ac_isempty (rh_new_flags s) j"
proof (induction fuel n msk key val s rule: kick_out.induct)
  case (2 fuel n msk key val s)
  obtain i where i: "find_empty (msk + 1) (rh_new_flags s) msk (unat key AND msk) 0 = Some i"
    using "2.prems"(1) by (auto split: option.splits)
  have "j \<noteq> i" using find_empty_le [OF i] and_le [of "unat key" msk] "2.prems"(2) by simp
  then show ?case using "2.prems" "2.IH" [OF i refl] i by (auto simp: other_flag Let_def split: if_splits)
qed simp

lemma rehash_loop_spare:
  "rehash_loop left i n msk s = Some s' \<Longrightarrow> msk < j \<Longrightarrow>
     ac_isempty (rh_new_flags s') j \<longleftrightarrow> ac_isempty (rh_new_flags s) j"
proof (induction left i n msk s rule: rehash_loop.induct)
  case (2 left i n msk s)
  show ?case
  proof (cases "ac_iseither (rh_flags s) i")
    case True
    then show ?thesis using 2 by simp
  next
    case False
    let ?s = "s\<lparr>rh_flags := ac_set_isdel_true (rh_flags s) i\<rparr>"
    obtain s1 where s1: "kick_out (n + 1) n msk (rh_keys s ! i) (rh_vals s ! i) ?s = Some s1"
      using 2(3) False by (auto simp del: kick_out.simps split: option.splits)
    have "ac_isempty (rh_new_flags s1) j \<longleftrightarrow> ac_isempty (rh_new_flags s) j"
      using kick_out_spare [OF s1 2(4)] by simp
    then show ?thesis using 2 False s1 by (simp del: kick_out.simps)
  qed
qed simp

lemma kh_resize_spare:
  assumes "kh_resize h want = Inr h'" "spare_empty h"
  shows "spare_empty h'"
proof -
  let ?r = "unat (kroundup32 (of_nat want))"
  define m where "m = (if ?r < 4 then 4 else ?r)"
  have m4: "m - 1 < m" by (simp add: m_def)
  have fresh: "ac_isempty (fresh_flags m) m" if "m < 16"
    by (rule fresh_flags_empty(1)) (use that in \<open>simp add: ac_fsize_def\<close>)
  show ?thesis
  proof (cases "kh_upper m \<le> kh_size h")
    case True
    then show ?thesis using assms by (simp add: kh_resize_def Let_def m_def)
  next
    case False
    let ?n = "kh_n_buckets h"
    define s0 where "s0 = \<lparr>rh_flags = kh_flags h, rh_new_flags = fresh_flags m,
      rh_keys = (if ?n < m then kh_keys h @ replicate (m - ?n) 0 else kh_keys h),
      rh_vals = (if ?n < m then kh_vals h @ replicate (m - ?n) None else kh_vals h)\<rparr>"
    obtain s1 where s1: "rehash_loop ?n 0 ?n (m - 1) s0 = Some s1" "kh_n_buckets h' = m" "kh_flags h' = rh_new_flags s1"
      using assms(1) False unfolding kh_resize_def Let_def m_def [symmetric] s0_def [symmetric]
      by (auto simp: andThen_eq_Inr fuelled_def split: option.splits)
    have "ac_isempty (rh_new_flags s1) m \<longleftrightarrow> ac_isempty (fresh_flags m) m"
      using rehash_loop_spare [OF s1(1) m4] by (simp add: s0_def)
    then show ?thesis using fresh s1(2,3) by (simp add: spare_empty_def)
  qed
qed

section \<open>Insertion\<close>

lemma kh_put_spare:
  assumes "kh_put h key = Inr (h', x, r)" "kh_ok h" "kh_n_buckets h \<le> 2 ^ 30" "spare_empty h"
  shows "spare_empty h'"
proof -
  obtain g where g: "kh_grow h = Inr g" using assms(1) by (auto simp: kh_put_def andThen_eq_Inr)
  have spare: "spare_empty g"
    using g assms(4) kh_resize_spare by (auto simp: kh_grow_def split: if_splits)
  have "kh_holds h' x key" "kh_ok h'" using kh_put_spec [OF assms(2,3), of key] assms(1) by auto
  then have "x < kh_n_buckets h'" using kh_holdsD(1) by blast
  then show ?thesis
    using assms(1) g spare by (auto simp: kh_put_def andThen_eq_Inr spare_empty_def ac_set_isboth_false_def [symmetric]
        other_flag split: if_splits) (auto simp: ac_set_isboth_false_def)
qed

lemma kh_set_value_spare: "kh_set_value h x v = Inr h' \<Longrightarrow> spare_empty h' \<longleftrightarrow> spare_empty h"
  by (auto simp: kh_set_value_def spare_empty_def split: if_splits)

lemma kh_ok_no_buckets: "kh_ok h \<Longrightarrow> kh_n_buckets h = 0 \<Longrightarrow> h = kh_init"
  by (auto simp: kh_ok_def kh_table_ok_def Let_def)

text \<open>What \<open>kh_exist\<close> finds at \<open>kh_end\<close>.\<close>

lemma kh_exist_end:
  assumes "kh_ok h" "spare_empty h"
  shows "kh_exist h (kh_end h) =
    (if kh_n_buckets h = 0 then Inl NullDeref else if kh_n_buckets h < 16 then Inr False else Inl OutOfBounds)"
proof (cases "kh_n_buckets h = 0")
  case True
  then have "h = kh_init" using kh_ok_no_buckets [OF assms(1)] by simp
  then show ?thesis by (simp add: kh_exist_def kh_init_def)
next
  case False
  then have len: "length (kh_flags h) = ac_fsize (kh_n_buckets h)" by (rule kh_ok_shape(3) [OF assms(1)])
  then have ne: "kh_flags h \<noteq> []" by (auto simp: ac_fsize_def split: if_splits)
  show ?thesis
    using False len ne assms(2) by (auto simp: kh_exist_def spare_empty_def ac_fsize_def ac_iseither_iff)
qed

end
