(* ===== verification/RouterSpec.thy ===== *)
theory RouterSpec
  imports Router Machine SpareFlag
begin

text \<open>
  What the router promises for the packets it is given: an abstract address table \<open>atable\<close> (a
  map from addresses to contexts with their forwarding lists as lists), the abstract effect of a
  data packet (\<open>data_spec\<close>) and of each command, and the proof that \<open>handle_packet\<close> on the hash
  table, the growable arrays and the raw bytes implements them.
\<close>

section \<open>The abstract table\<close>

record actx =
  a_forward :: "gnw_address list"
  a_policy :: int
  a_fd :: int
  a_state :: int
  a_packets_in :: u64
  a_packets_out :: u64
  a_bytes_in :: u64
  a_bytes_out :: u64

type_synonym atable = "gnw_address \<rightharpoonup> actx"

definition abs_ctx :: "context_t \<Rightarrow> actx" where
  "abs_ctx c = \<lparr>a_forward = kv_list (forward c), a_policy = forward_policy c, a_fd = bound_fd c,
     a_state = ctx_state c, a_packets_in = packets_in c, a_packets_out = packets_out c,
     a_bytes_in = bytes_in c, a_bytes_out = bytes_out c\<rparr>"

definition ctx_ok :: "context_t \<Rightarrow> bool" where
  "ctx_ok c \<longleftrightarrow> kv_ok (forward c)"

definition table_ok :: "context_t khash \<Rightarrow> bool" where
  "table_ok h \<longleftrightarrow> kh_full h \<and> (\<forall>c\<in>ran (kh_abs h). ctx_ok c)"

definition table_abs :: "context_t khash \<Rightarrow> atable" where
  "table_abs h = map_option abs_ctx \<circ> kh_abs h"

definition fresh_ctx :: actx where
  "fresh_ctx = abs_ctx setup_context"

section \<open>The abstract effects\<close>

definition net_emit :: "(int \<Rightarrow> u8 list \<Rightarrow> int) \<Rightarrow> net \<Rightarrow> int \<Rightarrow> u8 list \<Rightarrow> net" where
  "net_emit wr n fd bs =
     n\<lparr>link_stats := (link_stats n)
         \<lparr>bytesWritten := bytesWritten (link_stats n) + of_int (wr fd bs)\<rparr>,
       sent := sent n @ (if 0 < wr fd bs then [(fd, take (nat (wr fd bs)) bs)] else [])\<rparr>"

definition net_command :: "(int \<Rightarrow> u8 list \<Rightarrow> int) \<Rightarrow> net \<Rightarrow> int \<Rightarrow> u8 \<Rightarrow> u8 list \<Rightarrow> net" where
  "net_command wr n fd type payload =
     net_emit wr (n\<lparr>link_stats := (link_stats n)
         \<lparr>commandPackets := commandPackets (link_stats n) + 1\<rparr>\<rparr>) fd
       (frame_bytes type 0xFFFFFFFF payload)"

definition forward_spec ::
    "(int \<Rightarrow> u8 list \<Rightarrow> int) \<Rightarrow> u8 list \<Rightarrow> gnw_address \<Rightarrow> atable \<times> net \<Rightarrow> atable \<times> net" where
  "forward_spec wr packet target s =
     (case fst s target of
        None \<Rightarrow> s
      | Some c \<Rightarrow>
          ((fst s)(target \<mapsto> c\<lparr>a_bytes_out := a_bytes_out c + of_nat (length packet),
              a_packets_out := a_packets_out c + 1\<rparr>),
           net_emit wr (snd s) (a_fd c) packet))"

text \<open>The targets a packet goes to; \<open>r\<close> is the random number an anycast uses.\<close>

definition route :: "nat \<Rightarrow> actx \<Rightarrow> gnw_address list" where
  "route r c =
     (if a_policy c = policy_int GNW_POLICY_BROADCAST then a_forward c
      else if a_policy c = policy_int GNW_POLICY_ANYCAST then
        [a_forward c ! (r mod length (a_forward c))]
      else if a_policy c = policy_int GNW_POLICY_ROUNDROBIN then
        [a_forward c ! (unat (a_packets_in c) mod length (a_forward c))]
      else [])"

definition count_in :: "nat \<Rightarrow> actx \<Rightarrow> actx" where
  "count_in len c =
     c\<lparr>a_bytes_in := a_bytes_in c + of_nat len, a_packets_in := a_packets_in c + 1\<rparr>"

definition data_spec ::
    "os \<Rightarrow> nat \<Rightarrow> gnw_address \<Rightarrow> u8 list \<Rightarrow> atable \<times> net \<Rightarrow> atable \<times> net" where
  "data_spec env rands source packet s =
     (case fst s source of
        None \<Rightarrow> s
      | Some c \<Rightarrow>
          (let c = count_in (length packet) c in
           fold (forward_spec (os_write env) packet) (route (os_rand env (rands + 2)) c)
             ((fst s)(source \<mapsto> c), snd s)))"

text \<open>How many random numbers a data packet draws.\<close>

definition data_rands :: "atable \<Rightarrow> gnw_address \<Rightarrow> nat" where
  "data_rands m source = (case m source of
     None \<Rightarrow> 0
   | Some c \<Rightarrow> if a_policy c = policy_int GNW_POLICY_ANYCAST then 3 else 0)"

section \<open>The table operations on the abstract table\<close>

lemma table_okD: "table_ok h \<Longrightarrow> kh_full h" "table_ok h \<Longrightarrow> kh_ok h"
  "table_ok h \<Longrightarrow> kh_abs h a = Some c \<Longrightarrow> ctx_ok c"
  by (auto simp: table_ok_def kh_full_def ran_def)

lemma table_abs_some: "table_abs h a = Some ac \<longleftrightarrow> (\<exists>c. kh_abs h a = Some c \<and> abs_ctx c = ac)"
  by (simp add: table_abs_def)

lemma dom_table_abs [simp]: "dom (table_abs h) = dom (kh_abs h)"
  by (auto simp: table_abs_def dom_def)

text \<open>What the code finds at a known address.\<close>

definition at_bucket :: "context_t khash \<Rightarrow> gnw_address \<Rightarrow> nat \<Rightarrow> context_t \<Rightarrow> bool" where
  "at_bucket h a x c \<longleftrightarrow> kh_holds h x a \<and> kh_abs h a = Some c"

lemma known_address:
  assumes h: "table_ok h" and a: "kh_abs h a = Some c"
  obtains x where "kh_get h a = Inr x" "at_bucket h a x c"
proof -
  have "kh_map h a = Some (Some c)" using kh_abs_some [OF table_okD(1) [OF h]] a by simp
  then show thesis
    using kh_get_spec [OF table_okD(2) [OF h], of a] that a by (auto simp: at_bucket_def)
qed

lemma at_bucketD:
  assumes h: "table_ok h" and x: "at_bucket h a x c"
  shows "kh_get h a = Inr x" "kh_exist h x = Inr True" "kh_value h x = Inr c"
    "x \<noteq> kh_end h" "ctx_ok c"
proof -
  have holds: "kh_holds h x a" and abs: "kh_abs h a = Some c" using x by (auto simp: at_bucket_def)
  have map: "kh_map h a = Some (Some c)" using kh_abs_some [OF table_okD(1) [OF h]] abs by simp
  note d = kh_holdsD [OF table_okD(2) [OF h] holds]
  have val: "kh_vals h ! x = Some c" using d(5) map by simp
  show "kh_value h x = Inr c" by (rule kh_value_holds [OF table_okD(2) [OF h] holds val])
  show "kh_exist h x = Inr True" by (rule kh_exist_holds [OF table_okD(2) [OF h] holds])
  show "x \<noteq> kh_end h" by (rule d(9))
  show "ctx_ok c" by (rule table_okD(3) [OF h abs])
  show "kh_get h a = Inr x"
  proof -
    obtain e where "kh_table_ok e h" using table_okD(2) [OF h] d(4) by (auto simp: kh_ok_def)
    then show ?thesis using kh_get_present holds by (auto simp: kh_holds_def)
  qed
qed

lemma set_value_at:
  assumes h: "table_ok h" and x: "at_bucket h a x c" and c': "ctx_ok c'"
  obtains h' where "kh_set_value h x c' = Inr h'" "table_ok h'" "kh_abs h' = (kh_abs h)(a \<mapsto> c')"
    "kh_n_buckets h' = kh_n_buckets h" "\<And>b y. kh_holds h' y b = kh_holds h y b"
proof -
  have holds: "kh_holds h x a" using x by (simp add: at_bucket_def)
  obtain h' where h': "kh_set_value h x c' = Inr h'" "kh_ok h'" "kh_map h' = (kh_map h)(a \<mapsto> Some c')"
    "kh_n_buckets h' = kh_n_buckets h"
    using kh_set_value_spec [OF table_okD(2) [OF h] holds] by blast
  have full: "kh_full h'" using h'(2,3) table_okD(1) [OF h] by (auto simp: kh_full_def ran_def)
  have abs: "kh_abs h' = (kh_abs h)(a \<mapsto> c')" using h'(3) by (auto simp: kh_abs_def fun_eq_iff)
  then have "table_ok h'" using full h c' by (auto simp: table_ok_def ran_def)
  moreover have "kh_holds h' y b = kh_holds h y b" for b y
    using h'(1) by (auto simp: kh_set_value_def kh_holds_def split: if_splits)
  ultimately show thesis using that h'(1,4) abs by blast
qed

lemma upd_context_at:
  assumes h: "table_ok (address_table r)" and x: "at_bucket (address_table r) a x c"
    and c': "ctx_ok (f c)"
  shows "\<exists>h'. upd_context r x f = Inr (r\<lparr>address_table := h'\<rparr>) \<and> table_ok h' \<and>
    kh_abs h' = (kh_abs (address_table r))(a \<mapsto> f c) \<and>
    kh_n_buckets h' = kh_n_buckets (address_table r) \<and>
    (\<forall>b y. kh_holds h' y b = kh_holds (address_table r) y b) \<and> at_bucket h' a x (f c)"
proof -
  obtain h' where h': "kh_set_value (address_table r) x (f c) = Inr h'" "table_ok h'"
    "kh_abs h' = (kh_abs (address_table r))(a \<mapsto> f c)"
    "kh_n_buckets h' = kh_n_buckets (address_table r)"
    "\<And>b y. kh_holds h' y b = kh_holds (address_table r) y b"
    using set_value_at [OF h x c'] by blast
  then show ?thesis
    using at_bucketD(3) [OF h x] x by (auto simp: upd_context_def at_bucket_def)
qed

section \<open>Forwarding\<close>

lemma gnw_emitPacket_spec:
  "gnw_emitPacket wr n fd packet (length packet) = Inr (net_emit wr n fd packet)"
  by (simp add: gnw_emitPacket_def load_block_def net_emit_def Let_def)

text \<open>What a step keeps: the buckets and the forwarding lists.\<close>

definition same_layout :: "context_t khash \<Rightarrow> context_t khash \<Rightarrow> bool" where
  "same_layout h h' \<longleftrightarrow> kh_n_buckets h' = kh_n_buckets h \<and>
     (\<forall>a x. kh_holds h' x a = kh_holds h x a) \<and>
     (\<forall>a. map_option forward (kh_abs h' a) = map_option forward (kh_abs h a))"

lemma same_layout_refl [simp]: "same_layout h h"
  by (simp add: same_layout_def)

lemma same_layout_trans: "same_layout h h' \<Longrightarrow> same_layout h' h'' \<Longrightarrow> same_layout h h''"
  by (simp add: same_layout_def)

lemma same_layout_at:
  assumes "same_layout h h'" "at_bucket h a x c"
  obtains c' where "at_bucket h' a x c'" "forward c' = forward c"
proof -
  have "map_option forward (kh_abs h' a) = map_option forward (Some c)"
    using assms by (simp add: same_layout_def at_bucket_def)
  then obtain c' where "kh_abs h' a = Some c'" "forward c' = forward c" by auto
  then show thesis using that assms by (simp add: same_layout_def at_bucket_def)
qed

lemma same_layout_dom:
  assumes "same_layout h h'"
  shows "dom (kh_abs h') = dom (kh_abs h)"
proof -
  have "kh_abs h' a = None \<longleftrightarrow> kh_abs h a = None" for a
    using assms unfolding same_layout_def by (metis map_option_is_None)
  then show ?thesis by (auto simp: dom_def)
qed

lemma update_layout:
  assumes "kh_n_buckets h' = kh_n_buckets h" "\<forall>b y. kh_holds h' y b = kh_holds h y b"
    "kh_abs h' = (kh_abs h)(a \<mapsto> c')" "kh_abs h a = Some c" "forward c' = forward c"
  shows "same_layout h h'"
  using assms by (simp add: same_layout_def)

lemma forward_to_known:
  assumes h: "table_ok (address_table r)" and t: "t \<in> dom (kh_abs (address_table r))"
  shows "\<exists>h'. forward_to env r t packet (length packet) =
      Inr (r\<lparr>address_table := h',
        rt_net := snd (forward_spec (os_write env) packet t (table_abs (address_table r), rt_net r))\<rparr>) \<and>
    table_ok h' \<and> same_layout (address_table r) h' \<and>
    table_abs h' = fst (forward_spec (os_write env) packet t (table_abs (address_table r), rt_net r))"
proof -
  obtain c where c: "kh_abs (address_table r) t = Some c" using t by auto
  obtain x where x: "kh_get (address_table r) t = Inr x" "at_bucket (address_table r) t x c"
    using known_address [OF h c] by blast
  note b = at_bucketD [OF h x(2)]
  let ?n = "net_emit (os_write env) (rt_net r) (bound_fd c) packet"
  let ?f = "\<lambda>c. c\<lparr>bytes_out := bytes_out c + of_nat (length packet), packets_out := packets_out c + 1\<rparr>"
  have ok: "ctx_ok (?f c)" using b(5) by (simp add: ctx_ok_def)
  have h2: "table_ok (address_table (r\<lparr>rt_net := ?n\<rparr>))" using h by simp
  have x2: "at_bucket (address_table (r\<lparr>rt_net := ?n\<rparr>)) t x c" using x(2) by simp
  obtain h' where h': "upd_context (r\<lparr>rt_net := ?n\<rparr>) x ?f = Inr (r\<lparr>rt_net := ?n, address_table := h'\<rparr>)"
    "table_ok h'" "kh_abs h' = (kh_abs (address_table r))(t \<mapsto> ?f c)"
    "kh_n_buckets h' = kh_n_buckets (address_table r)"
    "\<forall>b y. kh_holds h' y b = kh_holds (address_table r) y b"
    using upd_context_at [where f = ?f, OF h2 x2 ok] by auto
  have lay: "same_layout (address_table r) h'"
    by (rule update_layout [OF h'(4,5,3) c]) simp
  have run: "forward_to env r t packet (length packet) = Inr (r\<lparr>address_table := h', rt_net := ?n\<rparr>)"
    using h'(1) b by (simp add: forward_to_def gnw_emitPacket_spec)
  have "forward_spec (os_write env) packet t (table_abs (address_table r), rt_net r) = (table_abs h', ?n)"
    using c h'(3) by (auto simp: forward_spec_def table_abs_def abs_ctx_def fun_eq_iff)
  then show ?thesis using run h'(2) lay by auto
qed

text \<open>One round of a broadcast. Writing the forwarding list back, as \<open>kv_a\<close> does, changes nothing.\<close>

lemma broadcast_step:
  assumes h: "table_ok (address_table r)" and x: "at_bucket (address_table r) a x c"
    and i: "i < kv_n (forward c)" and ts: "set (kv_list (forward c)) \<subseteq> dom (kh_abs (address_table r))"
  obtains h2 n2 c2 where
    "broadcast_loop (Suc left) env r x i packet (length packet) =
      broadcast_loop left env (r\<lparr>address_table := h2, rt_net := n2\<rparr>) x (i + 1) packet (length packet)"
    "table_ok h2" "same_layout (address_table r) h2" "at_bucket h2 a x c2" "forward c2 = forward c"
    "(table_abs h2, n2) = forward_spec (os_write env) packet (kv_list (forward c) ! i)
      (table_abs (address_table r), rt_net r)"
proof -
  note b = at_bucketD [OF h x]
  have kv: "kv_ok (forward c)" using b(5) by (simp add: ctx_ok_def)
  let ?t = "kv_list (forward c) ! i"
  have len: "i < length (kv_list (forward c))" using kv i by simp
  have fetch: "kv_a (forward c) (\<lambda>_. i) = Inr (forward c, 3, ?t)"
    using kv_a_inside [OF kv, of "\<lambda>_. i"] i by simp
  let ?g = "\<lambda>d. d\<lparr>forward := forward c\<rparr>"
  have ok: "ctx_ok (?g c)" using b(5) by (simp add: ctx_ok_def)
  obtain h1 where h1: "upd_context r x ?g = Inr (r\<lparr>address_table := h1\<rparr>)" "table_ok h1"
    "kh_abs h1 = (kh_abs (address_table r))(a \<mapsto> ?g c)"
    "kh_n_buckets h1 = kh_n_buckets (address_table r)"
    "\<forall>b y. kh_holds h1 y b = kh_holds (address_table r) y b" "at_bucket h1 a x (?g c)"
    using upd_context_at [where f = ?g, OF h x ok] by blast
  have same: "kh_abs h1 = kh_abs (address_table r)"
    using h1(3) x by (simp add: at_bucket_def fun_upd_idem)
  then have abs1: "table_abs h1 = table_abs (address_table r)" by (simp add: table_abs_def)
  have lay1: "same_layout (address_table r) h1" using same h1(4,5) by (simp add: same_layout_def)
  let ?r1 = "r\<lparr>address_table := h1\<rparr>"
  have t: "?t \<in> dom (kh_abs (address_table ?r1))" using ts nth_mem [OF len] same by auto
  have h1': "table_ok (address_table ?r1)" using h1(2) by simp
  let ?s = "forward_spec (os_write env) packet ?t (table_abs h1, rt_net r)"
  obtain h2 where h2: "forward_to env ?r1 ?t packet (length packet) = Inr (?r1\<lparr>address_table := h2, rt_net := snd ?s\<rparr>)"
    "table_ok h2" "same_layout h1 h2" "table_abs h2 = fst ?s"
    using forward_to_known [OF h1' t, of env packet] by auto
  obtain c2 where c2: "at_bucket h2 a x c2" "forward c2 = forward c"
    using same_layout_at [OF h2(3) h1(6)] by auto
  have "(table_abs h2, snd ?s) = forward_spec (os_write env) packet ?t (table_abs (address_table r), rt_net r)"
    unfolding h2(4) abs1 by (rule prod.collapse)
  then show thesis
    by (intro that [OF _ h2(2) same_layout_trans [OF lay1 h2(3)] c2]) (use b(3) fetch h1(1) h2(1) in simp_all)
qed

lemma broadcast_loop_spec:
  assumes "table_ok (address_table r)" "at_bucket (address_table r) a x c"
    and "i + left = kv_n (forward c)" "set (kv_list (forward c)) \<subseteq> dom (kh_abs (address_table r))"
  shows "\<exists>h' n'. broadcast_loop left env r x i packet (length packet) =
      Inr (r\<lparr>address_table := h', rt_net := n'\<rparr>) \<and>
    table_ok h' \<and> same_layout (address_table r) h' \<and>
    (table_abs h', n') = fold (forward_spec (os_write env) packet) (drop i (kv_list (forward c)))
      (table_abs (address_table r), rt_net r)"
  using assms
proof (induction left arbitrary: r c i)
  case 0
  have "length (kv_list (forward c)) = i"
    using at_bucketD(5) [OF 0(1,2)] 0(3) by (simp add: ctx_ok_def)
  then show ?case
    using 0(1) by (intro exI [of _ "address_table r"] exI [of _ "rt_net r"]) simp
next
  case (Suc left)
  have i: "i < kv_n (forward c)" using Suc.prems(3) by simp
  have kv: "kv_ok (forward c)" using at_bucketD(5) [OF Suc.prems(1,2)] by (simp add: ctx_ok_def)
  obtain h2 n2 c2 where step: "broadcast_loop (Suc left) env r x i packet (length packet) =
      broadcast_loop left env (r\<lparr>address_table := h2, rt_net := n2\<rparr>) x (i + 1) packet (length packet)"
    "table_ok h2" "same_layout (address_table r) h2" "at_bucket h2 a x c2" "forward c2 = forward c"
    "(table_abs h2, n2) = forward_spec (os_write env) packet (kv_list (forward c) ! i)
      (table_abs (address_table r), rt_net r)"
    by (rule broadcast_step [OF Suc.prems(1,2) i Suc.prems(4)])
  let ?r2 = "r\<lparr>address_table := h2, rt_net := n2\<rparr>"
  obtain h' n' where IH: "broadcast_loop left env ?r2 x (i + 1) packet (length packet) =
      Inr (?r2\<lparr>address_table := h', rt_net := n'\<rparr>)" "table_ok h'" "same_layout h2 h'"
    "(table_abs h', n') = fold (forward_spec (os_write env) packet) (drop (i + 1) (kv_list (forward c)))
      (table_abs h2, n2)"
    using Suc.IH [of ?r2 c2 "i + 1"] step(2,4,5) Suc.prems(3,4) same_layout_dom [OF step(3)] by auto
  have dr: "drop i (kv_list (forward c)) = kv_list (forward c) ! i # drop (i + 1) (kv_list (forward c))"
    using kv i by (simp add: Cons_nth_drop_Suc)
  have "(table_abs h', n') = fold (forward_spec (os_write env) packet) (drop i (kv_list (forward c)))
      (table_abs (address_table r), rt_net r)"
    unfolding dr using IH(4) step(6) by simp
  then show ?case
    using step(1) IH(1,2) same_layout_trans [OF step(3) IH(3)] by auto
qed

lemma forward_pick_spec:
  assumes h: "table_ok (address_table r)" and x: "at_bucket (address_table r) a x c"
    and ne: "kv_list (forward c) \<noteq> []" and ts: "set (kv_list (forward c)) \<subseteq> dom (kh_abs (address_table r))"
  shows "\<exists>h' n'. forward_pick env r x c value random packet (length packet) =
      Inr (r\<lparr>address_table := h', rt_net := n', rt_rands := rt_rands r + (if random then 3 else 0)\<rparr>) \<and>
    table_ok h' \<and> same_layout (address_table r) h' \<and>
    (table_abs h', n') = forward_spec (os_write env) packet
      (kv_list (forward c) ! (value 2 mod length (kv_list (forward c))))
      (table_abs (address_table r), rt_net r)"
proof -
  have kv: "kv_ok (forward c)" using at_bucketD(5) [OF h x] by (simp add: ctx_ok_def)
  then have len: "length (kv_list (forward c)) = kv_n (forward c)" by simp
  then have pos: "0 < kv_n (forward c)" using ne by (metis length_greater_0_conv)
  let ?t = "kv_list (forward c) ! (value 2 mod kv_n (forward c))"
  have "?t \<in> set (kv_list (forward c))" using pos len by (intro nth_mem) simp
  then have t: "?t \<in> dom (kh_abs (address_table r))" using ts by blast
  have fetch: "kv_a (forward c) (\<lambda>k. value k mod kv_n (forward c)) = Inr (forward c, 3, ?t)"
    using kv_a_inside [OF kv, of "\<lambda>k. value k mod kv_n (forward c)"] pos by simp
  let ?g = "\<lambda>d. d\<lparr>forward := forward c\<rparr>"
  have ok: "ctx_ok (?g c)" using kv by (simp add: ctx_ok_def)
  obtain h1 where h1: "upd_context r x ?g = Inr (r\<lparr>address_table := h1\<rparr>)" "table_ok h1"
    "kh_abs h1 = (kh_abs (address_table r))(a \<mapsto> ?g c)"
    "kh_n_buckets h1 = kh_n_buckets (address_table r)"
    "\<forall>b y. kh_holds h1 y b = kh_holds (address_table r) y b" "at_bucket h1 a x (?g c)"
    using upd_context_at [where f = ?g, OF h x ok] by blast
  have same: "kh_abs h1 = kh_abs (address_table r)"
    using h1(3) x by (simp add: at_bucket_def fun_upd_idem)
  then have abs1: "table_abs h1 = table_abs (address_table r)" by (simp add: table_abs_def)
  have lay1: "same_layout (address_table r) h1" using same h1(4,5) by (simp add: same_layout_def)
  let ?r1 = "(if random then r\<lparr>address_table := h1, rt_rands := rt_rands r + 3\<rparr>
    else r\<lparr>address_table := h1\<rparr>)"
  have t1: "?t \<in> dom (kh_abs (address_table ?r1))" "table_ok (address_table ?r1)"
    using t same h1(2) by simp_all
  have net: "rt_net ?r1 = rt_net r" "address_table ?r1 = h1" by simp_all
  obtain h2 where h2: "forward_to env ?r1 ?t packet (length packet) =
      Inr (?r1\<lparr>address_table := h2,
        rt_net := snd (forward_spec (os_write env) packet ?t (table_abs h1, rt_net r))\<rparr>)"
    "table_ok h2" "same_layout h1 h2"
    "table_abs h2 = fst (forward_spec (os_write env) packet ?t (table_abs h1, rt_net r))"
    using forward_to_known [OF t1(2,1), of env packet] unfolding net by blast
  let ?n2 = "snd (forward_spec (os_write env) packet ?t (table_abs h1, rt_net r))"
  have "forward_pick env r x c value random packet (length packet) =
      forward_to env ?r1 ?t packet (length packet)"
    using pos fetch h1(1) by (simp add: forward_pick_def)
  also have "\<dots> = Inr (r\<lparr>address_table := h2, rt_net := ?n2,
      rt_rands := rt_rands r + (if random then 3 else 0)\<rparr>)"
    unfolding h2(1) by simp
  finally show ?thesis
    using h2(2,4) same_layout_trans [OF lay1 h2(3)] len abs1
    by (intro exI [of _ h2] exI [of _ ?n2]) simp
qed

definition routable :: "atable \<Rightarrow> gnw_address \<Rightarrow> bool" where
  "routable m a \<longleftrightarrow> (case m a of
     None \<Rightarrow> False
   | Some c \<Rightarrow> set (a_forward c) \<subseteq> dom m \<and>
       (a_policy c = policy_int GNW_POLICY_ANYCAST \<or> a_policy c = policy_int GNW_POLICY_ROUNDROBIN \<longrightarrow>
          a_forward c \<noteq> []))"

lemma policy_int_distinct:
  "policy_int GNW_POLICY_BROADCAST \<noteq> policy_int GNW_POLICY_ANYCAST"
  "policy_int GNW_POLICY_BROADCAST \<noteq> policy_int GNW_POLICY_ROUNDROBIN"
  "policy_int GNW_POLICY_ANYCAST \<noteq> policy_int GNW_POLICY_ROUNDROBIN"
  by (simp_all add: policy_int_def gnw_constants)

text \<open>Sending by the policy of a source \<open>c\<close> that is already counted.\<close>

lemma policy_sends:
  assumes h: "table_ok (address_table r)" "at_bucket (address_table r) a x c"
    and ts: "set (kv_list (forward c)) \<subseteq> dom (kh_abs (address_table r))"
    and ne: "forward_policy c = policy_int GNW_POLICY_ANYCAST \<or> forward_policy c = policy_int GNW_POLICY_ROUNDROBIN \<Longrightarrow>
      kv_list (forward c) \<noteq> []"
  shows "\<exists>h' n'.
      (if forward_policy c = policy_int GNW_POLICY_BROADCAST then
         broadcast_loop (kv_size (forward c)) env r x 0 packet (length packet)
       else if forward_policy c = policy_int GNW_POLICY_ANYCAST then
         forward_pick env r x c (\<lambda>k. os_rand env (rt_rands r + k)) True packet (length packet)
       else if forward_policy c = policy_int GNW_POLICY_ROUNDROBIN then
         forward_pick env r x c (\<lambda>k. unat (packets_in c)) False packet (length packet)
       else Inr r) =
      Inr (r\<lparr>address_table := h', rt_net := n', rt_rands := rt_rands r +
        (if forward_policy c = policy_int GNW_POLICY_ANYCAST then 3 else 0)\<rparr>) \<and>
    table_ok h' \<and> same_layout (address_table r) h' \<and>
    (table_abs h', n') = fold (forward_spec (os_write env) packet)
      (route (os_rand env (rt_rands r + 2)) (abs_ctx c)) (table_abs (address_table r), rt_net r)"
proof -
  consider (bc) "forward_policy c = policy_int GNW_POLICY_BROADCAST"
    | (ac) "forward_policy c = policy_int GNW_POLICY_ANYCAST"
    | (rr) "forward_policy c = policy_int GNW_POLICY_ROUNDROBIN"
    | (other) "forward_policy c \<noteq> policy_int GNW_POLICY_BROADCAST"
        "forward_policy c \<noteq> policy_int GNW_POLICY_ANYCAST"
        "forward_policy c \<noteq> policy_int GNW_POLICY_ROUNDROBIN"
    by blast
  then show ?thesis
  proof cases
    case bc
    then have "route (os_rand env (rt_rands r + 2)) (abs_ctx c) = kv_list (forward c)"
      by (simp add: route_def abs_ctx_def)
    then show ?thesis
      using bc broadcast_loop_spec [OF h, of 0 "kv_size (forward c)" env packet] ts policy_int_distinct by auto
  next
    case ac
    then have "route (os_rand env (rt_rands r + 2)) (abs_ctx c) =
        [kv_list (forward c) ! (os_rand env (rt_rands r + 2) mod length (kv_list (forward c)))]"
      using policy_int_distinct by (simp add: route_def abs_ctx_def)
    then show ?thesis
      using ac forward_pick_spec [OF h ne ts, of env "\<lambda>k. os_rand env (rt_rands r + k)" True packet]
        policy_int_distinct by auto
  next
    case rr
    then have "route (os_rand env (rt_rands r + 2)) (abs_ctx c) =
        [kv_list (forward c) ! (unat (packets_in c) mod length (kv_list (forward c)))]"
      using policy_int_distinct by (simp add: route_def abs_ctx_def)
    then show ?thesis
      using rr forward_pick_spec [OF h ne ts, of env "\<lambda>k. unat (packets_in c)" False packet]
        policy_int_distinct by auto
  next
    case other
    then have "route (os_rand env (rt_rands r + 2)) (abs_ctx c) = []" by (simp add: route_def abs_ctx_def)
    then show ?thesis
      using other h(1) by (intro exI [of _ "address_table r"] exI [of _ "rt_net r"]) (simp add: same_layout_def)
  qed
qed

lemma handle_data_spec:
  assumes h: "table_ok (address_table r)" and rt: "routable (table_abs (address_table r)) (hdr_source header)"
  shows "\<exists>h' n'. handle_data env r header packet (length packet) =
      Inr (r\<lparr>address_table := h', rt_net := n',
        rt_rands := rt_rands r + data_rands (table_abs (address_table r)) (hdr_source header)\<rparr>) \<and>
    table_ok h' \<and> same_layout (address_table r) h' \<and>
    (table_abs h', n') = data_spec env (rt_rands r) (hdr_source header) packet
      (table_abs (address_table r), rt_net r)"
proof -
  let ?a = "hdr_source header" and ?h = "address_table r"
  obtain c where c: "kh_abs ?h ?a = Some c" using rt by (auto simp: routable_def table_abs_def split: option.splits)
  obtain x where x: "kh_get ?h ?a = Inr x" "at_bucket ?h ?a x c" using known_address [OF h c] by blast
  note b = at_bucketD [OF h x(2)]
  let ?f = "\<lambda>c. c\<lparr>bytes_in := bytes_in c + of_nat (length packet), packets_in := packets_in c + 1\<rparr>"
  have ok: "ctx_ok (?f c)" using b(5) by (simp add: ctx_ok_def)
  obtain h1 where h1: "upd_context r x ?f = Inr (r\<lparr>address_table := h1\<rparr>)" "table_ok h1"
    "kh_abs h1 = (kh_abs ?h)(?a \<mapsto> ?f c)" "kh_n_buckets h1 = kh_n_buckets ?h"
    "\<forall>b y. kh_holds h1 y b = kh_holds ?h y b" "at_bucket h1 ?a x (?f c)"
    using upd_context_at [where f = ?f, OF h x(2) ok] by blast
  have lay: "same_layout ?h h1" using h1(3-5) c by (simp add: same_layout_def)
  let ?r1 = "r\<lparr>address_table := h1\<rparr>"
  have h1': "table_ok (address_table ?r1)" "at_bucket (address_table ?r1) ?a x (?f c)" using h1(2,6) by simp_all
  have ts: "set (kv_list (forward (?f c))) \<subseteq> dom (kh_abs (address_table ?r1))"
    using rt c same_layout_dom [OF lay] by (auto simp: routable_def table_abs_def abs_ctx_def dom_def)
  have ne: "forward_policy (?f c) = policy_int GNW_POLICY_ANYCAST \<or> forward_policy (?f c) = policy_int GNW_POLICY_ROUNDROBIN \<Longrightarrow>
      kv_list (forward (?f c)) \<noteq> []"
    using rt c by (auto simp: routable_def table_abs_def abs_ctx_def)
  have counted: "abs_ctx (?f c) = count_in (length packet) (abs_ctx c)" by (simp add: abs_ctx_def count_in_def)
  have "table_abs h1 = (table_abs ?h)(?a \<mapsto> abs_ctx (?f c))"
    using h1(3) by (auto simp: table_abs_def fun_eq_iff)
  then have spec: "data_spec env (rt_rands r) ?a packet (table_abs ?h, rt_net r) =
      fold (forward_spec (os_write env) packet)
        (route (os_rand env (rt_rands r + 2)) (abs_ctx (?f c))) (table_abs h1, rt_net r)"
    using c counted by (simp add: data_spec_def table_abs_def Let_def)
  have rands: "data_rands (table_abs ?h) ?a = (if forward_policy c = policy_int GNW_POLICY_ANYCAST then 3 else 0)"
    using c by (simp add: data_rands_def table_abs_def abs_ctx_def)
  obtain h' n' where sent: "(if forward_policy (?f c) = policy_int GNW_POLICY_BROADCAST then
         broadcast_loop (kv_size (forward (?f c))) env ?r1 x 0 packet (length packet)
       else if forward_policy (?f c) = policy_int GNW_POLICY_ANYCAST then
         forward_pick env ?r1 x (?f c) (\<lambda>k. os_rand env (rt_rands ?r1 + k)) True packet (length packet)
       else if forward_policy (?f c) = policy_int GNW_POLICY_ROUNDROBIN then
         forward_pick env ?r1 x (?f c) (\<lambda>k. unat (packets_in (?f c))) False packet (length packet)
       else Inr ?r1) =
      Inr (?r1\<lparr>address_table := h', rt_net := n', rt_rands := rt_rands ?r1 +
        (if forward_policy (?f c) = policy_int GNW_POLICY_ANYCAST then 3 else 0)\<rparr>)"
    "table_ok h'" "same_layout h1 h'"
    "(table_abs h', n') = fold (forward_spec (os_write env) packet)
      (route (os_rand env (rt_rands ?r1 + 2)) (abs_ctx (?f c))) (table_abs h1, rt_net ?r1)"
    using policy_sends [OF h1' ts ne, of env packet] by auto
  have "handle_data env r header packet (length packet) =
      Inr (r\<lparr>address_table := h', rt_net := n', rt_rands := rt_rands r + data_rands (table_abs ?h) ?a\<rparr>)"
    using x(1) b(2) h1(1) at_bucketD(3) [OF h1(2,6)] sent(1) unfolding rands by (simp add: handle_data_def)
  then show ?thesis using sent(2,4) same_layout_trans [OF lay sent(3)] spec by auto
qed

section \<open>Commands\<close>

definition grows_to :: "context_t khash \<Rightarrow> context_t khash \<Rightarrow> bool" where
  "grows_to h h' \<longleftrightarrow>
     kh_n_buckets h' \<le> max (kh_n_buckets h) (max 4 (4 * card (dom (table_abs h))))"

lemma grows_to_same: "kh_n_buckets h' = kh_n_buckets h \<Longrightarrow> grows_to h h'"
  by (simp add: grows_to_def)

lemma find_or_setup_spec:
  assumes h: "table_ok (address_table r)" and small: "kh_n_buckets (address_table r) \<le> 2 ^ 30"
  shows "\<exists>h' x c. find_or_setup r a = Inr (r\<lparr>address_table := h'\<rparr>, x) \<and> table_ok h' \<and>
    at_bucket h' a x c \<and> kh_abs h' = (kh_abs (address_table r))(a \<mapsto> c) \<and>
    abs_ctx c = (case table_abs (address_table r) a of None \<Rightarrow> fresh_ctx | Some d \<Rightarrow> d) \<and>
    grows_to (address_table r) h'"
proof (cases "kh_abs (address_table r) a")
  case (Some c)
  obtain x where x: "kh_get (address_table r) a = Inr x" "at_bucket (address_table r) a x c"
    using known_address [OF h Some] by blast
  have "find_or_setup r a = Inr (r\<lparr>address_table := address_table r\<rparr>, x)"
    using at_bucketD [OF h x(2)] by (simp add: find_or_setup_def)
  then show ?thesis
    using Some x(2) h by (intro exI [of _ "address_table r"] exI [of _ x] exI [of _ c])
      (simp add: table_abs_def fun_upd_idem grows_to_same)
next
  case None
  let ?h = "address_table r"
  have ok: "kh_ok ?h" and full: "kh_full ?h" using table_okD [OF h] by simp_all
  have "kh_get ?h a = Inr (kh_end ?h)"
    using kh_get_spec [OF ok, of a] kh_abs_none [OF full] None by simp
  moreover obtain h1 x st where put: "kh_put ?h a = Inr (h1, x, st)" "kh_ok h1" "kh_holds h1 x a"
    "kh_map h1 = (kh_map ?h)(a \<mapsto> kh_vals h1 ! x)"
    "kh_n_buckets h1 \<le> max (kh_n_buckets ?h) (max 4 (4 * kh_size ?h))"
    using kh_put_spec [OF ok small, of a] by blast
  moreover obtain h2 where set: "kh_set_value h1 x setup_context = Inr h2" "kh_ok h2"
    "kh_map h2 = (kh_map h1)(a \<mapsto> Some setup_context)" "kh_n_buckets h2 = kh_n_buckets h1"
    using kh_set_value_spec [OF put(2,3), of setup_context] by blast
  ultimately have run: "find_or_setup r a = Inr (r\<lparr>address_table := h2\<rparr>, x)"
    by (simp add: find_or_setup_def)
  have map: "kh_map h2 = (kh_map ?h)(a \<mapsto> Some setup_context)" using put(4) set(3) by simp
  have full2: "kh_full h2" using full set(2) map by (auto simp: kh_full_def ran_def)
  have abs: "kh_abs h2 = (kh_abs ?h)(a \<mapsto> setup_context)" using map by (auto simp: kh_abs_def fun_eq_iff)
  have "ctx_ok setup_context" by (simp add: ctx_ok_def setup_context_def)
  then have "table_ok h2" using full2 abs h by (auto simp: table_ok_def ran_def)
  moreover have "kh_holds h2 x a"
    using put(3) set(1) by (auto simp: kh_set_value_def kh_holds_def split: if_splits)
  moreover have "grows_to ?h h2"
    using put(5) set(4) kh_size_abs [OF full] by (simp add: grows_to_def)
  ultimately show ?thesis
    using run abs None by (auto simp: at_bucket_def fresh_ctx_def table_abs_def)
qed

datatype message = Data gnw_address "u8 list" | Claim gnw_address | Connect gnw_address gnw_address
  | Policy u8 gnw_address | Disconnect gnw_address gnw_address

text \<open>The bytes of a message, as the clients frame them.\<close>

fun message_bytes :: "message \<Rightarrow> u8 list" where
  "message_bytes (Data a payload) = frame_bytes GNW_DATA a payload"
| "message_bytes (Claim a) =
     frame_bytes GNW_COMMAND 0xFFFFFFFF ([GNW_CMD_NEW_ADDRESS] @ bytes32 a)"
| "message_bytes (Connect a t) =
     frame_bytes GNW_COMMAND 0xFFFFFFFF ([GNW_CMD_CONNECT] @ bytes32 a @ bytes32 t)"
| "message_bytes (Policy p a) =
     frame_bytes GNW_COMMAND 0xFFFFFFFF ([GNW_CMD_POLICY, p] @ bytes32 a)"
| "message_bytes (Disconnect a t) =
     frame_bytes GNW_COMMAND 0xFFFFFFFF ([GNW_CMD_DISCONNECT] @ bytes32 a @ bytes32 t)"

definition ctx_at :: "atable \<Rightarrow> gnw_address \<Rightarrow> actx" where
  "ctx_at m a = (case m a of None \<Rightarrow> fresh_ctx | Some c \<Rightarrow> c)"

text \<open>What a message does to the abstract table and the network.\<close>

fun message_spec ::
    "os \<Rightarrow> nat \<Rightarrow> int \<Rightarrow> message \<Rightarrow> atable \<times> net \<Rightarrow> atable \<times> net" where
  "message_spec env rands fd (Data a payload) s =
     data_spec env rands a (message_bytes (Data a payload)) s"
| "message_spec env rands fd (Claim a) s =
     ((fst s)(a \<mapsto> (ctx_at (fst s) a)\<lparr>a_fd := fd\<rparr>),
      net_command (os_write env) (snd s) fd GNW_REPLY ([GNW_CMD_NEW_ADDRESS] @ bytes32 a))"
| "message_spec env rands fd (Connect a t) s =
     ((fst s)(a \<mapsto> (ctx_at (fst s) a)\<lparr>a_forward := a_forward (ctx_at (fst s) a) @ [t]\<rparr>), snd s)"
| "message_spec env rands fd (Policy p a) s =
     (case fst s a of
        None \<Rightarrow> s
      | Some c \<Rightarrow> ((fst s)(a \<mapsto> c\<lparr>a_policy := policy_int p\<rparr>), snd s))"
| "message_spec env rands fd (Disconnect a t) s = s"

fun rands_of :: "atable \<Rightarrow> message \<Rightarrow> nat" where
  "rands_of m (Data a payload) = data_rands m a"
| "rands_of m (Claim a) = 1"
| "rands_of m (Connect a t) = 0"
| "rands_of m (Policy p a) = 0"
| "rands_of m (Disconnect a t) = 0"

text \<open>The messages for which the handler does not leave its data.\<close>

fun acceptable :: "atable \<Rightarrow> message \<Rightarrow> bool" where
  "acceptable m (Data a payload) \<longleftrightarrow> routable m a"
| "acceptable m (Claim a) \<longleftrightarrow> True"
| "acceptable m (Connect a t) \<longleftrightarrow> length (a_forward (ctx_at m a)) < 2 ^ 62"
| "acceptable m (Policy p a) \<longleftrightarrow> unat p < 4 \<or> m a = None"
| "acceptable m (Disconnect a t) \<longleftrightarrow> True"

lemma header_bytes:
  "frame_bytes t s pl = ([GNW_MAGIC, GNW_VERSION, t] @ bytes32 s @ bytes32 (of_nat (length pl))) @ pl"
  "length ([GNW_MAGIC, GNW_VERSION, t] @ bytes32 s @ bytes32 k) = 11"
  by (simp_all add: frame_bytes_def)

lemma payload_u8: "packet_read_u8 (frame_bytes t s (v # pl)) 11 = Inr (v, 12)"
  using packet_read_u8_middle [of 11 "[GNW_MAGIC, GNW_VERSION, t] @ bytes32 s @
      bytes32 (of_nat (length (v # pl)))" v pl]
  by (simp add: header_bytes)

lemma payload_u8_next:
  "p = 11 + length xs \<Longrightarrow> packet_read_u8 (frame_bytes t s (xs @ v # pl)) p = Inr (v, p + 1)"
  using packet_read_u8_middle [of p "([GNW_MAGIC, GNW_VERSION, t] @ bytes32 s @
      bytes32 (of_nat (length (xs @ v # pl)))) @ xs" v pl]
  by (simp add: header_bytes)

lemma payload_u32:
  "p = 11 + length xs \<Longrightarrow> packet_read_u32 (frame_bytes t s (xs @ bytes32 v @ pl)) p = Inr (v, p + 4)"
  using packet_read_u32_on_middle [of p "([GNW_MAGIC, GNW_VERSION, t] @ bytes32 s @
      bytes32 (of_nat (length (xs @ bytes32 v @ pl)))) @ xs" LittleEndian v pl]
  by (simp add: header_bytes)

lemma parse_frame:
  "gnw_parse_header True (frame_bytes t s pl) =
     Inr (\<lparr>hdr_magic = GNW_MAGIC, hdr_version = GNW_VERSION, hdr_type = t,
           hdr_source = s, hdr_length = of_nat (length pl)\<rparr>, 11)"
  using gnw_parse_header_frame [of True t s pl "[]"] by simp

lemma gnw_emitCommandPacket_spec:
  "gnw_emitCommandPacket wr n fd type (Some payload) (length payload) =
     Inr (net_command wr n fd type payload)"
  using gnw_emitPacket_spec [of wr _ fd "frame_bytes type 0xFFFFFFFF payload"]
  by (simp add: gnw_emitCommandPacket_def net_command_def frame_packet_eq add.commute)

text \<open>How the state after a message relates to the one before.\<close>

definition refines :: "router \<Rightarrow> router \<Rightarrow> nat \<Rightarrow> atable \<times> net \<Rightarrow> bool" where
  "refines r r' k s \<longleftrightarrow> table_ok (address_table r') \<and> (table_abs (address_table r'), rt_net r') = s \<and>
     local_buffers r' = local_buffers r \<and> rt_closed r' = rt_closed r \<and>
     grows_to (address_table r) (address_table r') \<and> rt_rands r' = rt_rands r + k"

lemma table_abs_upd: "kh_abs h' = (kh_abs h)(a \<mapsto> c) \<Longrightarrow> table_abs h' = (table_abs h)(a \<mapsto> abs_ctx c)"
  by (auto simp: table_abs_def fun_eq_iff)

lemma reply_bytes:
  "packet_write_u8 (replicate 5 0) 0 v = Inr (v # replicate 4 0, 1)"
  "packet_write_u32 (v # replicate 4 0) 1 a = Inr (v # bytes32 a, 5)"
proof -
  have five: "replicate 5 (0 :: u8) = [] @ 0 # replicate 4 0" by (simp add: eval_nat_numeral)
  show "packet_write_u8 (replicate 5 0) 0 v = Inr (v # replicate 4 0, 1)"
    unfolding five by (subst packet_write_u8_middle) simp_all
  show "packet_write_u32 (v # replicate 4 0) 1 a = Inr (v # bytes32 a, 5)"
    using packet_write_u32_on_middle [of 1 "[v]" "replicate 4 0" LittleEndian "[]" a] by simp
qed

lemma cmd_new_address_spec:
  assumes h: "table_ok (address_table r)" and small: "kh_n_buckets (address_table r) \<le> 2 ^ 30"
    and five: "hdr_length header = 5" and rd: "packet_read_u32 buffer nxt = Inr (a, q)"
  shows "\<exists>r'. cmd_new_address env r fd header buffer nxt = Inr r' \<and>
    refines r r' 1 ((table_abs (address_table r))(a \<mapsto> (ctx_at (table_abs (address_table r)) a)\<lparr>a_fd := fd\<rparr>),
      net_command (os_write env) (rt_net r) fd GNW_REPLY ([GNW_CMD_NEW_ADDRESS] @ bytes32 a))"
proof -
  let ?r0 = "r\<lparr>rt_rands := rt_rands r + 1\<rparr>"
  have h0: "table_ok (address_table ?r0)" "kh_n_buckets (address_table ?r0) \<le> 2 ^ 30"
    using h small by simp_all
  obtain h1 x c where f: "find_or_setup ?r0 a = Inr (?r0\<lparr>address_table := h1\<rparr>, x)" "table_ok h1"
    "at_bucket h1 a x c" "kh_abs h1 = (kh_abs (address_table r))(a \<mapsto> c)"
    "abs_ctx c = ctx_at (table_abs (address_table r)) a" "grows_to (address_table r) h1"
    using find_or_setup_spec [OF h0, of a] by (auto simp: ctx_at_def)
  let ?r1 = "?r0\<lparr>address_table := h1\<rparr>" and ?f = "\<lambda>c. c\<lparr>bound_fd := fd\<rparr>"
  have h1: "table_ok (address_table ?r1)" "at_bucket (address_table ?r1) a x c" using f(2,3) by simp_all
  have ok: "ctx_ok (?f c)" using at_bucketD(5) [OF f(2,3)] by (simp add: ctx_ok_def)
  obtain h2 where u: "upd_context ?r1 x ?f = Inr (?r1\<lparr>address_table := h2\<rparr>)" "table_ok h2"
    "kh_abs h2 = (kh_abs h1)(a \<mapsto> ?f c)" "kh_n_buckets h2 = kh_n_buckets h1"
    using upd_context_at [where f = ?f, OF h1 ok] by auto
  let ?r2 = "?r1\<lparr>address_table := h2\<rparr>"
  let ?n = "net_command (os_write env) (rt_net r) fd GNW_REPLY ([GNW_CMD_NEW_ADDRESS] @ bytes32 a)"
  have emit: "gnw_emitCommandPacket (os_write env) (rt_net ?r2) fd GNW_REPLY
      (Some (GNW_CMD_NEW_ADDRESS # bytes32 a)) 5 = Inr ?n"
    using gnw_emitCommandPacket_spec [of "os_write env" "rt_net r" fd GNW_REPLY
        "GNW_CMD_NEW_ADDRESS # bytes32 a"] by simp
  have run: "cmd_new_address env r fd header buffer nxt = Inr (?r2\<lparr>rt_net := ?n\<rparr>)"
    unfolding cmd_new_address_def Let_def five
    using rd f(1) u(1) emit by (simp add: reply_bytes reply_bytes(2) [simplified])
  have "kh_abs h2 = (kh_abs (address_table r))(a \<mapsto> ?f c)" using u(3) f(4) by simp
  then have "table_abs h2 = (table_abs (address_table r))(a \<mapsto> abs_ctx (?f c))" by (rule table_abs_upd)
  moreover have "abs_ctx (?f c) = (ctx_at (table_abs (address_table r)) a)\<lparr>a_fd := fd\<rparr>"
    unfolding f(5) [symmetric] by (simp add: abs_ctx_def)
  ultimately show ?thesis using run u(2,4) f(6) by (auto simp: refines_def grows_to_def)
qed

lemma cmd_connect_spec:
  assumes h: "table_ok (address_table r)" and small: "kh_n_buckets (address_table r) \<le> 2 ^ 30"
    and rd: "packet_read_u32 buffer nxt = Inr (a, p)" "packet_read_u32 buffer p = Inr (t, q)"
    and room: "length (a_forward (ctx_at (table_abs (address_table r)) a)) < 2 ^ 62"
  shows "\<exists>r'. cmd_connect r buffer nxt = Inr r' \<and>
    refines r r' 0 ((table_abs (address_table r))(a \<mapsto> (ctx_at (table_abs (address_table r)) a)
      \<lparr>a_forward := a_forward (ctx_at (table_abs (address_table r)) a) @ [t]\<rparr>), rt_net r)"
proof -
  obtain h1 x c where f: "find_or_setup r a = Inr (r\<lparr>address_table := h1\<rparr>, x)" "table_ok h1"
    "at_bucket h1 a x c" "kh_abs h1 = (kh_abs (address_table r))(a \<mapsto> c)"
    "abs_ctx c = ctx_at (table_abs (address_table r)) a" "grows_to (address_table r) h1"
    using find_or_setup_spec [OF h small, of a] by (auto simp: ctx_at_def)
  note b = at_bucketD [OF f(2,3)]
  have kv: "kv_ok (forward c)" using b(5) by (simp add: ctx_ok_def)
  have list: "kv_list (forward c) = a_forward (ctx_at (table_abs (address_table r)) a)"
    unfolding f(5) [symmetric] by (simp add: abs_ctx_def)
  then have "kv_n (forward c) < 2 ^ 62" using room kv by (metis length_kv_list)
  then obtain w where w: "kv_push (forward c) t = Inr w" "kv_ok w" "kv_list w = kv_list (forward c) @ [t]"
    using kv_push_list [OF kv, of t] by blast
  let ?r1 = "r\<lparr>address_table := h1\<rparr>" and ?f = "\<lambda>c. c\<lparr>forward := w\<rparr>"
  have h1: "table_ok (address_table ?r1)" "at_bucket (address_table ?r1) a x c" using f(2,3) by simp_all
  have ok: "ctx_ok (?f c)" using w(2) by (simp add: ctx_ok_def)
  obtain h2 where u: "upd_context ?r1 x ?f = Inr (?r1\<lparr>address_table := h2\<rparr>)" "table_ok h2"
    "kh_abs h2 = (kh_abs h1)(a \<mapsto> ?f c)" "kh_n_buckets h2 = kh_n_buckets h1"
    using upd_context_at [where f = ?f, OF h1 ok] by auto
  have run: "cmd_connect r buffer nxt = Inr (?r1\<lparr>address_table := h2\<rparr>)"
    using rd f(1) b(3,4) w(1) u(1) by (simp add: cmd_connect_def)
  have "kh_abs h2 = (kh_abs (address_table r))(a \<mapsto> ?f c)" using u(3) f(4) by simp
  then have "table_abs h2 = (table_abs (address_table r))(a \<mapsto> abs_ctx (?f c))" by (rule table_abs_upd)
  moreover have "abs_ctx (?f c) = (ctx_at (table_abs (address_table r)) a)
      \<lparr>a_forward := a_forward (ctx_at (table_abs (address_table r)) a) @ [t]\<rparr>"
    unfolding list [symmetric] f(5) [symmetric] using w(3) by (simp add: abs_ctx_def)
  ultimately show ?thesis using run u(2,4) f(6) by (auto simp: refines_def grows_to_def)
qed

lemma cmd_policy_spec:
  assumes h: "table_ok (address_table r)"
    and rd: "packet_read_u8 buffer nxt = Inr (p, k)" "packet_read_u32 buffer k = Inr (a, q)"
    and valid: "unat p < 4 \<or> table_abs (address_table r) a = None"
  shows "\<exists>r'. cmd_policy r buffer nxt = Inr r' \<and>
    refines r r' 0 (case table_abs (address_table r) a of
        None \<Rightarrow> (table_abs (address_table r), rt_net r)
      | Some c \<Rightarrow> ((table_abs (address_table r))(a \<mapsto> c\<lparr>a_policy := policy_int p\<rparr>), rt_net r))"
proof (cases "kh_abs (address_table r) a")
  case None
  have ok: "kh_ok (address_table r)" and full: "kh_full (address_table r)" using table_okD [OF h] by simp_all
  have "kh_get (address_table r) a = Inr (kh_end (address_table r))"
    using kh_get_spec [OF ok, of a] kh_abs_none [OF full] None by simp
  then have "cmd_policy r buffer nxt = Inr r" using rd by (simp add: cmd_policy_def)
  then show ?thesis using h None by (auto simp: refines_def table_abs_def grows_to_same)
next
  case (Some c)
  obtain x where x: "kh_get (address_table r) a = Inr x" "at_bucket (address_table r) a x c"
    using known_address [OF h Some] by blast
  note b = at_bucketD [OF h x(2)]
  let ?f = "\<lambda>c. c\<lparr>forward_policy := policy_int p\<rparr>"
  have ok: "ctx_ok (?f c)" using b(5) by (simp add: ctx_ok_def)
  obtain h2 where u: "upd_context r x ?f = Inr (r\<lparr>address_table := h2\<rparr>)" "table_ok h2"
    "kh_abs h2 = (kh_abs (address_table r))(a \<mapsto> ?f c)"
    "kh_n_buckets h2 = kh_n_buckets (address_table r)"
    using upd_context_at [where f = ?f, OF h x(2) ok] by auto
  have "unat p < 4" using valid Some by (simp add: table_abs_def)
  moreover have "nat (policy_int p) = unat p" by (simp add: policy_int_def)
  ultimately have "load policyStr (nat (policy_int p)) = Inr (policyStr ! unat p)"
    by (simp add: load_def policyStr_def)
  then have run: "cmd_policy r buffer nxt = Inr (r\<lparr>address_table := h2\<rparr>)"
    using rd x(1) b(4) u(1) by (simp add: cmd_policy_def)
  have "table_abs h2 = (table_abs (address_table r))(a \<mapsto> (abs_ctx c)\<lparr>a_policy := policy_int p\<rparr>)"
    using table_abs_upd [OF u(3)] by (simp add: abs_ctx_def)
  then show ?thesis
    using run u(2) Some grows_to_same [OF u(4)] by (auto simp: refines_def table_abs_def)
qed

lemma distinct_directives:
  "GNW_CMD_CONNECT \<noteq> GNW_CMD_NEW_ADDRESS" "GNW_CMD_POLICY \<noteq> GNW_CMD_NEW_ADDRESS"
  "GNW_CMD_POLICY \<noteq> GNW_CMD_CONNECT" "GNW_CMD_POLICY \<noteq> GNW_CMD_DISCONNECT"
  "GNW_CMD_DISCONNECT \<noteq> GNW_CMD_NEW_ADDRESS" "GNW_CMD_DISCONNECT \<noteq> GNW_CMD_CONNECT"
  "GNW_DATA \<noteq> GNW_COMMAND"
  by (simp_all add: gnw_constants)

lemma handle_packet_command:
  assumes "pl = d # rest" "length pl < 2 ^ 32"
  shows "handle_packet env r fd (frame_bytes GNW_COMMAND s pl) (length (frame_bytes GNW_COMMAND s pl)) =
    (let header = \<lparr>hdr_magic = GNW_MAGIC, hdr_version = GNW_VERSION, hdr_type = GNW_COMMAND,
           hdr_source = s, hdr_length = of_nat (length pl)\<rparr>; buffer = frame_bytes GNW_COMMAND s pl in
     if d = GNW_CMD_NEW_ADDRESS then cmd_new_address env r fd header buffer 12
     else if d = GNW_CMD_CONNECT then cmd_connect r buffer 12
     else if d = GNW_CMD_DISCONNECT then Inr r
     else if d = GNW_CMD_POLICY then cmd_policy r buffer 12
     else andThen (load buffer 11) (\<lambda>_. Inr r))"
proof -
  have "unat (of_nat (length pl) :: u32) = length pl"
    using assms(2) by (intro of_nat_inverse [OF refl]) simp
  then have "(of_nat (length pl) :: u32) \<noteq> 0" using assms(1) by (metis length_Cons nat.distinct(1) unat_0)
  then show ?thesis
    using payload_u8 [of GNW_COMMAND s d rest] assms(1)
    by (simp add: handle_packet_def handle_command_def parse_frame Let_def)
qed

lemma handle_packet_data:
  "handle_packet env r fd (frame_bytes GNW_DATA s pl) (length (frame_bytes GNW_DATA s pl)) =
     handle_data env r \<lparr>hdr_magic = GNW_MAGIC, hdr_version = GNW_VERSION, hdr_type = GNW_DATA,
       hdr_source = s, hdr_length = of_nat (length pl)\<rparr> (frame_bytes GNW_DATA s pl)
       (length (frame_bytes GNW_DATA s pl))"
  by (simp add: handle_packet_def parse_frame distinct_directives)

text \<open>A policy command needs no room in the table.\<close>

lemma policy_after:
  assumes h: "table_ok (address_table r)" and valid: "unat p < 4 \<or> table_abs (address_table r) a = None"
  shows "\<exists>r'. handle_packet env r fd (message_bytes (Policy p a)) (length (message_bytes (Policy p a))) = Inr r' \<and>
    refines r r' 0 (message_spec env (rt_rands r) fd (Policy p a) (table_abs (address_table r), rt_net r))"
proof -
  let ?pl = "GNW_CMD_POLICY # p # bytes32 a"
  have "packet_read_u8 (frame_bytes GNW_COMMAND 0xFFFFFFFF ?pl) 12 = Inr (p, 13)"
    using payload_u8_next [of 12 "[GNW_CMD_POLICY]" GNW_COMMAND "0xFFFFFFFF" p "bytes32 a"] by simp
  moreover have "packet_read_u32 (frame_bytes GNW_COMMAND 0xFFFFFFFF ?pl) 13 = Inr (a, 17)"
    using payload_u32 [of 13 "[GNW_CMD_POLICY, p]" GNW_COMMAND "0xFFFFFFFF" a "[]"] by simp
  ultimately show ?thesis
    using cmd_policy_spec [OF h, of "frame_bytes GNW_COMMAND 0xFFFFFFFF ?pl" 12 p 13 a 17]
      handle_packet_command [of ?pl GNW_CMD_POLICY "p # bytes32 a" env r fd "0xFFFFFFFF"] valid
    by (simp add: Let_def distinct_directives cong: option.case_cong)
qed

lemma handle_packet_spec:
  assumes h: "table_ok (address_table r)" and small: "kh_n_buckets (address_table r) \<le> 2 ^ 30"
    and ok: "acceptable (table_abs (address_table r)) msg"
  shows "\<exists>r'. handle_packet env r fd (message_bytes msg) (length (message_bytes msg)) = Inr r' \<and>
    refines r r' (rands_of (table_abs (address_table r)) msg)
      (message_spec env (rt_rands r) fd msg (table_abs (address_table r), rt_net r))"
proof (cases msg)
  case (Data a payload)
  obtain h' n' where "handle_packet env r fd (message_bytes msg) (length (message_bytes msg)) =
      Inr (r\<lparr>address_table := h', rt_net := n',
        rt_rands := rt_rands r + rands_of (table_abs (address_table r)) msg\<rparr>)" "table_ok h'"
    "same_layout (address_table r) h'" "(table_abs h', n') = message_spec env (rt_rands r) fd msg (table_abs (address_table r), rt_net r)"
    using handle_data_spec [OF h, of "\<lparr>hdr_magic = GNW_MAGIC, hdr_version = GNW_VERSION,
        hdr_type = GNW_DATA, hdr_source = a, hdr_length = of_nat (length payload)\<rparr>" env
        "frame_bytes GNW_DATA a payload"] ok Data
    by (auto simp: handle_packet_data simp del: length_frame_bytes)
  then show ?thesis by (auto simp: refines_def same_layout_def grows_to_same)
next
  case (Claim a)
  let ?pl = "GNW_CMD_NEW_ADDRESS # bytes32 a"
  have "packet_read_u32 (frame_bytes GNW_COMMAND 0xFFFFFFFF ?pl) 12 = Inr (a, 16)"
    using payload_u32 [of 12 "[GNW_CMD_NEW_ADDRESS]" GNW_COMMAND "0xFFFFFFFF" a "[]"] by simp
  then show ?thesis
    using cmd_new_address_spec [OF h small, where header = "\<lparr>hdr_magic = GNW_MAGIC,
        hdr_version = GNW_VERSION, hdr_type = GNW_COMMAND, hdr_source = 0xFFFFFFFF,
        hdr_length = of_nat (length ?pl)\<rparr>" and buffer = "frame_bytes GNW_COMMAND 0xFFFFFFFF ?pl"
        and nxt = 12 and a = a and env = env and fd = fd]
      handle_packet_command [of ?pl GNW_CMD_NEW_ADDRESS "bytes32 a" env r fd "0xFFFFFFFF"] Claim
    by (simp add: Let_def)
next
  case (Connect a t)
  let ?pl = "GNW_CMD_CONNECT # bytes32 a @ bytes32 t"
  have "packet_read_u32 (frame_bytes GNW_COMMAND 0xFFFFFFFF ?pl) 12 = Inr (a, 16)"
    using payload_u32 [of 12 "[GNW_CMD_CONNECT]" GNW_COMMAND "0xFFFFFFFF" a "bytes32 t"] by simp
  moreover have "packet_read_u32 (frame_bytes GNW_COMMAND 0xFFFFFFFF ?pl) 16 = Inr (t, 20)"
    using payload_u32 [of 16 "GNW_CMD_CONNECT # bytes32 a" GNW_COMMAND "0xFFFFFFFF" t "[]"] by simp
  ultimately show ?thesis
    using cmd_connect_spec [OF h small, of "frame_bytes GNW_COMMAND 0xFFFFFFFF ?pl" 12 a 16 t 20]
      handle_packet_command [of ?pl GNW_CMD_CONNECT "bytes32 a @ bytes32 t" env r fd "0xFFFFFFFF"]
      Connect ok
    by (simp add: Let_def distinct_directives)
next
  case (Policy p a)
  then show ?thesis using policy_after [OF h, of p a env fd] ok by simp
next
  case (Disconnect a t)
  then show ?thesis
    using handle_packet_command [of "GNW_CMD_DISCONNECT # bytes32 a @ bytes32 t" GNW_CMD_DISCONNECT
        "bytes32 a @ bytes32 t" env r fd "0xFFFFFFFF"] h
    by (simp add: Let_def distinct_directives refines_def grows_to_same)
qed

lemma router_init_ok:
  "table_ok (address_table router_init)" "table_abs (address_table router_init) = Map.empty"
  "kh_n_buckets (address_table router_init) = 0"
proof -
  have init: "address_table router_init = kh_init" by (simp add: router_init_def)
  show "table_ok (address_table router_init)" "kh_n_buckets (address_table router_init) = 0"
    unfolding init by (simp_all add: table_ok_def kh_full_init)
  show "table_abs (address_table router_init) = Map.empty"
    unfolding init table_abs_def kh_full_init by (simp add: fun_eq_iff)
qed

section \<open>Properties\<close>

text \<open>A system in which every write succeeds, for the witnesses.\<close>

definition plain_os :: os where
  "plain_os = \<lparr>os_write = (\<lambda>fd bs. int (length bs)), os_rand = (\<lambda>k. 4), os_malloc = (\<lambda>n. replicate n 0)\<rparr>"

text \<open>
  \<open>handle_packet\<close> implements its abstract specification. Given the bytes of a data packet
  (from an address whose forwarding targets are known), a claim, a connect, a policy or a
  disconnect command, the router neither faults nor diverges; its hash table stays well formed
  and stands for exactly the table \<open>message_spec\<close> prescribes (forwarding lists extended at the
  end, the claimed descriptor bound, the policy set, every packet and byte counter moved), the
  bytes sent are those of \<open>message_spec\<close> in their order, and no connection's buffer changes.
\<close>

theorem handle_packet_refines:
  assumes "table_ok (address_table r)" "kh_n_buckets (address_table r) \<le> 2 ^ 30"
    and "acceptable (table_abs (address_table r)) msg"
  shows "\<exists>r'. handle_packet env r fd (message_bytes msg) (length (message_bytes msg)) = Inr r' \<and>
    table_ok (address_table r') \<and>
    (table_abs (address_table r'), rt_net r') =
      message_spec env (rt_rands r) fd msg (table_abs (address_table r), rt_net r) \<and>
    local_buffers r' = local_buffers r"
  using handle_packet_spec [OF assms, of env fd] by (auto simp: refines_def)

theorem handle_packet_refines_witness:
  "\<exists>r'. handle_packet plain_os router_init 5 (message_bytes (Claim 0x1000)) 16 = Inr r' \<and>
     (case table_abs (address_table r') 0x1000 of Some c \<Rightarrow> a_fd c = 5 | None \<Rightarrow> False)"
proof -
  obtain r' where "handle_packet plain_os router_init 5 (message_bytes (Claim 0x1000))
      (length (message_bytes (Claim 0x1000))) = Inr r'"
    "(table_abs (address_table r'), rt_net r') = message_spec plain_os (rt_rands router_init) 5 (Claim 0x1000)
       (table_abs (address_table router_init), rt_net router_init)"
    using handle_packet_refines [of router_init "Claim 0x1000" plain_os 5] router_init_ok by auto
  then show ?thesis by simp
qed

text \<open>
  C14: Once a connected address without forwarding targets is given the anycast or the round-robin
  policy, its next data packet makes the router divide by zero (the remainder by the length of
  the empty forwarding list).
\<close>

theorem pick_without_targets_faults:
  assumes "table_ok (address_table r)" "table_abs (address_table r) source = Some c"
    and "a_forward c = []"
    and "a_policy c = policy_int GNW_POLICY_ANYCAST \<or> a_policy c = policy_int GNW_POLICY_ROUNDROBIN"
  shows "handle_packet env r fd (frame_bytes GNW_DATA source payload)
      (length (frame_bytes GNW_DATA source payload)) = Inl DivByZero"
proof -
  let ?h = "address_table r"
  obtain d where d: "kh_abs ?h source = Some d" "abs_ctx d = c"
    using assms(2) by (auto simp: table_abs_some)
  obtain x where x: "kh_get ?h source = Inr x" "at_bucket ?h source x d"
    using known_address [OF assms(1) d(1)] by blast
  note b = at_bucketD [OF assms(1) x(2)]
  let ?len = "length (frame_bytes GNW_DATA source payload)"
  let ?f = "\<lambda>c. c\<lparr>bytes_in := bytes_in c + of_nat ?len, packets_in := packets_in c + 1\<rparr>"
  have ok: "ctx_ok (?f d)" using b(5) by (simp add: ctx_ok_def)
  obtain h1 where h1: "upd_context r x ?f = Inr (r\<lparr>address_table := h1\<rparr>)" "table_ok h1"
    "at_bucket h1 source x (?f d)"
    using upd_context_at [where f = ?f, OF assms(1) x(2) ok] by blast
  have kv: "kv_ok (forward d)" using b(5) by (simp add: ctx_ok_def)
  have "kv_list (forward d) = []" using assms(3) unfolding d(2) [symmetric] by (simp add: abs_ctx_def)
  then have empty: "kv_n (forward d) = 0" using length_kv_list [OF kv] by simp
  have pol: "forward_policy d = policy_int GNW_POLICY_ANYCAST \<or>
      forward_policy d = policy_int GNW_POLICY_ROUNDROBIN"
    using assms(4) d(2) by (auto simp: abs_ctx_def)
  have "handle_data env r hdr (frame_bytes GNW_DATA source payload) ?len = Inl DivByZero"
    if "hdr_source hdr = source" for hdr
    using x(1) b(2) h1(1) at_bucketD(3) [OF h1(2,3)] empty pol that policy_int_distinct
    by (auto simp: handle_data_def forward_pick_def)
  then show ?thesis by (simp only: handle_packet_data) simp
qed

theorem pick_without_targets_faults_witness:
  "\<exists>r1 r2. handle_packet plain_os router_init 5 (message_bytes (Claim 7)) 16 = Inr r1 \<and>
     handle_packet plain_os r1 5 (message_bytes (Policy 1 7)) 17 = Inr r2 \<and>
     handle_packet plain_os r2 5 (frame_bytes GNW_DATA 7 [1]) 12 = Inl DivByZero"
proof -
  have pol: "policy_int 1 = policy_int GNW_POLICY_ANYCAST" by (simp add: gnw_constants)
  obtain r1 where r1: "handle_packet plain_os router_init 5 (message_bytes (Claim 7)) 16 = Inr r1"
    "refines router_init r1 1 (message_spec plain_os (rt_rands router_init) 5 (Claim 7)
       (table_abs (address_table router_init), rt_net router_init))"
    using handle_packet_spec [of router_init "Claim 7" plain_os 5] router_init_ok by auto
  have t1: "table_ok (address_table r1)" "table_abs (address_table r1) = [7 \<mapsto> fresh_ctx\<lparr>a_fd := 5\<rparr>]"
    using r1(2) router_init_ok by (auto simp: refines_def ctx_at_def)
  obtain r2 where r2: "handle_packet plain_os r1 5 (message_bytes (Policy 1 7)) 17 = Inr r2"
    "table_ok (address_table r2)"
    "table_abs (address_table r2) = [7 \<mapsto> fresh_ctx\<lparr>a_fd := 5, a_policy := policy_int 1\<rparr>]"
    using policy_after [OF t1(1), of 1 7 plain_os 5] t1(2) by (auto simp: refines_def)
  have "handle_packet plain_os r2 5 (frame_bytes GNW_DATA 7 [1]) (length (frame_bytes GNW_DATA 7 [1])) =
      Inl DivByZero"
    by (rule pick_without_targets_faults [OF r2(2), of 7 "fresh_ctx\<lparr>a_fd := 5, a_policy := policy_int 1\<rparr>"])
      (simp_all add: r2(3) pol fresh_ctx_def abs_ctx_def setup_context_def)
  then show ?thesis using r1(1) r2(1) by auto
qed

section \<open>Round robin\<close>

text \<open>Successive data packets of one source.\<close>

fun data_run :: "os \<Rightarrow> router \<Rightarrow> int \<Rightarrow> gnw_address \<Rightarrow> u8 list list \<Rightarrow> router result" where
  "data_run env r fd source [] = Inr r"
| "data_run env r fd source (pl # pls) =
     andThen (handle_packet env r fd (frame_bytes GNW_DATA source pl)
        (length (frame_bytes GNW_DATA source pl))) (\<lambda>r.
     data_run env r fd source pls)"

definition same_routes :: "atable \<Rightarrow> atable \<Rightarrow> bool" where
  "same_routes m m' \<longleftrightarrow> (\<forall>a. map_option (\<lambda>c. (a_forward c, a_policy c, a_fd c)) (m' a) =
     map_option (\<lambda>c. (a_forward c, a_policy c, a_fd c)) (m a))"

lemma same_routes_refl: "same_routes m m"
  by (simp add: same_routes_def)

lemma same_routes_trans: "same_routes m m' \<Longrightarrow> same_routes m' m'' \<Longrightarrow> same_routes m m''"
  by (simp add: same_routes_def)

lemma same_routes_some:
  assumes "same_routes m m'" "m a = Some c"
  obtains c' where "m' a = Some c'" "a_forward c' = a_forward c" "a_policy c' = a_policy c"
    "a_fd c' = a_fd c"
proof -
  have "map_option (\<lambda>c. (a_forward c, a_policy c, a_fd c)) (m' a) =
      Some (a_forward c, a_policy c, a_fd c)"
    using assms by (simp add: same_routes_def)
  then show thesis using that by auto
qed

lemma same_routes_dom:
  assumes "same_routes m m'"
  shows "dom m' = dom m"
proof -
  have "m' a = None \<longleftrightarrow> m a = None" for a
  proof -
    have "map_option (\<lambda>c. (a_forward c, a_policy c, a_fd c)) (m' a) =
        map_option (\<lambda>c. (a_forward c, a_policy c, a_fd c)) (m a)"
      using assms by (simp add: same_routes_def)
    then show ?thesis by (cases "m' a"; cases "m a") simp_all
  qed
  then show ?thesis by (auto simp: dom_def)
qed

lemma forward_spec_routes:
  "same_routes m (fst (forward_spec wr packet t (m, n)))"
  "map_option a_packets_in (fst (forward_spec wr packet t (m, n)) a) = map_option a_packets_in (m a)"
  by (auto simp: forward_spec_def same_routes_def split: option.splits)

definition robin_source :: "atable \<Rightarrow> gnw_address \<Rightarrow> gnw_address list \<Rightarrow> nat \<Rightarrow> bool" where
  "robin_source m source ts p \<longleftrightarrow> set ts \<subseteq> dom m \<and> ts \<noteq> [] \<and>
     (\<exists>c. m source = Some c \<and> a_policy c = policy_int GNW_POLICY_ROUNDROBIN \<and>
       a_forward c = ts \<and> unat (a_packets_in c) = p)"

lemma data_spec_robin:
  assumes src: "robin_source m source ts p" and room: "p + 1 < 2 ^ 64"
  defines "t \<equiv> ts ! ((p + 1) mod length ts)"
  shows "same_routes m (fst (data_spec env k source packet (m, n))) \<and>
    robin_source (fst (data_spec env k source packet (m, n))) source ts (p + 1) \<and>
    snd (data_spec env k source packet (m, n)) =
      net_emit (os_write env) n (a_fd (the (m t))) packet"
proof -
  obtain c where c: "m source = Some c" "a_policy c = policy_int GNW_POLICY_ROUNDROBIN"
    "a_forward c = ts" "unat (a_packets_in c) = p" and ts: "set ts \<subseteq> dom m" "ts \<noteq> []"
    using src by (auto simp: robin_source_def)
  let ?c = "count_in (length packet) c"
  let ?m = "m(source \<mapsto> ?c)"
  have p1: "unat (a_packets_in ?c) = p + 1"
  proof -
    have "unat (a_packets_in c + 1) = (p + 1) mod 2 ^ 64"
      using c(4) by (simp add: unat_word_ariths)
    then show ?thesis using room by (simp add: count_in_def)
  qed
  have "t \<in> set ts" using ts(2) by (simp add: t_def)
  then have tm: "t \<in> dom m" using ts(1) by blast
  have route: "route (os_rand env (k + 2)) ?c = [t]"
    using c(2,3) p1 policy_int_distinct by (simp add: route_def t_def) (simp add: count_in_def)
  have spec: "data_spec env k source packet (m, n) = forward_spec (os_write env) packet t (?m, n)"
    using c(1) route by (simp add: data_spec_def Let_def)
  have r0: "same_routes m ?m" using c(1) by (simp add: same_routes_def count_in_def)
  have r1: "same_routes m (fst (data_spec env k source packet (m, n)))"
    unfolding spec by (rule same_routes_trans [OF r0 forward_spec_routes(1)])
  obtain c' where c': "fst (data_spec env k source packet (m, n)) source = Some c'"
    "a_forward c' = ts" "a_policy c' = policy_int GNW_POLICY_ROUNDROBIN"
    using same_routes_some [OF r1 c(1)] c(2,3) by metis
  have "map_option a_packets_in (fst (data_spec env k source packet (m, n)) source) =
      Some (a_packets_in ?c)"
    unfolding spec using forward_spec_routes(2) [of "os_write env" packet t ?m n source] by simp
  then have "unat (a_packets_in c') = p + 1" using c'(1) p1 by simp
  then have "robin_source (fst (data_spec env k source packet (m, n))) source ts (p + 1)"
    using c' ts same_routes_dom [OF r1] by (auto simp: robin_source_def)
  moreover have "snd (forward_spec (os_write env) packet t (?m, n)) =
      net_emit (os_write env) n (a_fd (the (m t))) packet"
    using tm c(1) by (auto simp: forward_spec_def count_in_def)
  ultimately show ?thesis using r1 spec by simp
qed

lemma data_run_robin:
  assumes "table_ok (address_table r)" "same_routes m (table_abs (address_table r))"
    and "robin_source (table_abs (address_table r)) source ts p" "p + length pls < 2 ^ 64"
  shows "\<exists>r'. data_run env r fd source pls = Inr r' \<and> table_ok (address_table r') \<and>
    rt_net r' = fold (\<lambda>(i, pl) n. net_emit (os_write env) n (a_fd (the (m (ts ! ((p + 1 + i) mod length ts)))))
        (frame_bytes GNW_DATA source pl)) (enumerate 0 pls) (rt_net r)"
  using assms
proof (induction pls arbitrary: r p)
  case (Cons pl pls)
  let ?m0 = "table_abs (address_table r)"
  have routable: "acceptable ?m0 (Data source pl)"
    using Cons.prems(3) by (auto simp: robin_source_def routable_def)
  let ?packet = "frame_bytes GNW_DATA source pl"
  obtain h' n' k where step: "handle_packet env r fd ?packet (length ?packet) =
      Inr (r\<lparr>address_table := h', rt_net := n', rt_rands := rt_rands r + k\<rparr>)" "table_ok h'"
    "(table_abs h', n') = data_spec env (rt_rands r) source ?packet (?m0, rt_net r)"
    using handle_data_spec [OF Cons.prems(1), of "\<lparr>hdr_magic = GNW_MAGIC, hdr_version = GNW_VERSION,
        hdr_type = GNW_DATA, hdr_source = source, hdr_length = of_nat (length pl)\<rparr>" env ?packet] routable
    unfolding handle_packet_data by auto
  let ?r1 = "r\<lparr>address_table := h', rt_net := n', rt_rands := rt_rands r + k\<rparr>"
  have "p + 1 < 2 ^ 64" using Cons.prems(4) by simp
  note robin = data_spec_robin [OF Cons.prems(3) this, of env "rt_rands r" ?packet "rt_net r"]
  have m1: "table_abs h' = fst (data_spec env (rt_rands r) source ?packet (?m0, rt_net r))"
    and n1: "n' = snd (data_spec env (rt_rands r) source ?packet (?m0, rt_net r))"
    using step(3) by (metis fst_conv, metis snd_conv)
  let ?t = "ts ! ((p + 1) mod length ts)"
  have "ts \<noteq> []" "set ts \<subseteq> dom ?m0" using Cons.prems(3) by (auto simp: robin_source_def)
  then have "?t \<in> dom ?m0" by (meson length_greater_0_conv mod_less_divisor nth_mem subsetD)
  then have "?t \<in> dom m" using same_routes_dom [OF Cons.prems(2)] by simp
  then obtain c where c: "m ?t = Some c" by auto
  then obtain c' where "?m0 ?t = Some c'" "a_fd c' = a_fd c"
    using same_routes_some [OF Cons.prems(2)] by metis
  then have fd: "a_fd (the (?m0 ?t)) = a_fd (the (m ?t))" using c by simp
  have net1: "n' = net_emit (os_write env) (rt_net r) (a_fd (the (m ?t))) ?packet"
    using robin n1 fd by simp
  have pre: "table_ok (address_table ?r1)" "same_routes m (table_abs (address_table ?r1))"
    "robin_source (table_abs (address_table ?r1)) source ts (p + 1)" "p + 1 + length pls < 2 ^ 64"
    using step(2) robin m1 Cons.prems(2,4) same_routes_trans by auto
  obtain r' where r': "data_run env ?r1 fd source pls = Inr r'" "table_ok (address_table r')"
    "rt_net r' = fold (\<lambda>(i, pl) n. net_emit (os_write env) n
        (a_fd (the (m (ts ! ((p + 1 + 1 + i) mod length ts))))) (frame_bytes GNW_DATA source pl))
      (enumerate 0 pls) (rt_net ?r1)"
    using Cons.IH [OF pre] by blast
  have shift: "enumerate 0 (pl # pls) = (0, pl) # map (\<lambda>(i, pl). (Suc i, pl)) (enumerate 0 pls)"
    by (auto simp: enumerate_Suc_eq)
  have "rt_net r' = fold (\<lambda>(i, pl) n. net_emit (os_write env) n
        (a_fd (the (m (ts ! ((p + 1 + i) mod length ts))))) (frame_bytes GNW_DATA source pl))
      (enumerate 0 (pl # pls)) (rt_net r)"
    unfolding shift using r'(3) net1 by (simp add: fold_map o_def case_prod_unfold)
  then show ?case using r'(1,2) step(1) by auto
qed simp

section \<open>Runs\<close>

text \<open>Messages in the order in which the router handles them, each with the descriptor it came from.\<close>

fun handle_message :: "os \<Rightarrow> int \<times> message \<Rightarrow> router \<Rightarrow> router result" where
  "handle_message env (fd, msg) r = handle_packet env r fd (message_bytes msg) (length (message_bytes msg))"

abbreviation message_run :: "os \<Rightarrow> (int \<times> message) list \<Rightarrow> router \<Rightarrow> router result" where
  "message_run env \<equiv> exec (handle_message env)"

text \<open>The same on the abstract table; \<open>k\<close> counts the random numbers drawn.\<close>

fun spec_run :: "os \<Rightarrow> (int \<times> message) list \<Rightarrow> nat \<Rightarrow> atable \<times> net \<Rightarrow> atable \<times> net" where
  "spec_run env [] k s = s"
| "spec_run env ((fd, msg) # ms) k s =
     spec_run env ms (k + rands_of (fst s) msg) (message_spec env k fd msg s)"

fun run_acceptable :: "os \<Rightarrow> (int \<times> message) list \<Rightarrow> nat \<Rightarrow> atable \<times> net \<Rightarrow> bool" where
  "run_acceptable env [] k s = True"
| "run_acceptable env ((fd, msg) # ms) k s \<longleftrightarrow> acceptable (fst s) msg \<and>
     run_acceptable env ms (k + rands_of (fst s) msg) (message_spec env k fd msg s)"

lemma fold_forward_dom: "dom (fst (fold (forward_spec wr packet) ts s)) = dom (fst s)"
proof (induction ts arbitrary: s)
  case (Cons t ts)
  have "dom (fst (forward_spec wr packet t s)) = dom (fst s)"
    by (auto simp: forward_spec_def split: option.splits)
  then show ?case using Cons by simp
qed simp

lemma message_spec_dom:
  "\<exists>A. dom (fst (message_spec env k fd msg s)) = dom (fst s) \<union> A \<and> finite A \<and> card A \<le> 1"
proof (cases msg)
  case (Data a payload)
  have "dom (fst (message_spec env k fd msg s)) = dom (fst s)"
    unfolding Data message_spec.simps data_spec_def Let_def
    by (auto simp: fold_forward_dom split: option.splits)
  then show ?thesis by (intro exI [of _ "{}"]) simp
next
  case (Claim a)
  then show ?thesis by (intro exI [of _ "{a}"]) auto
next
  case (Connect a t)
  then show ?thesis by (intro exI [of _ "{a}"]) auto
next
  case (Policy p a)
  then show ?thesis by (intro exI [of _ "{}"]) (auto split: option.splits)
next
  case (Disconnect a t)
  then show ?thesis by (intro exI [of _ "{}"]) simp
qed

lemma message_spec_card:
  assumes "finite (dom (fst s))"
  shows "finite (dom (fst (message_spec env k fd msg s))) \<and>
    card (dom (fst (message_spec env k fd msg s))) \<le> Suc (card (dom (fst s)))"
proof -
  obtain A where A: "dom (fst (message_spec env k fd msg s)) = dom (fst s) \<union> A" "finite A" "card A \<le> 1"
    using message_spec_dom [of env k fd msg s] by blast
  have "card (dom (fst s) \<union> A) \<le> card (dom (fst s)) + card A" by (rule card_Un_le)
  then have "card (dom (fst s) \<union> A) \<le> Suc (card (dom (fst s)))" using A(3) by linarith
  then show ?thesis unfolding A(1) using assms A(2) by simp
qed

text \<open>The flag behind the last bucket stays empty, whatever packet is handled.\<close>

lemma upd_context_spare:
  "upd_context r x f = Inr r' \<Longrightarrow> spare_empty (address_table r') \<longleftrightarrow> spare_empty (address_table r)"
  by (auto simp: upd_context_def andThen_eq_Inr kh_set_value_spare)

lemma find_or_setup_spare:
  assumes "find_or_setup r a = Inr (r', x)" "kh_ok (address_table r)" "kh_n_buckets (address_table r) \<le> 2 ^ 30"
    and "spare_empty (address_table r)"
  shows "spare_empty (address_table r')"
proof -
  consider "r' = r" | h st h2 where "kh_put (address_table r) a = Inr (h, x, st)" "kh_set_value h x setup_context = Inr h2"
    "r' = r\<lparr>address_table := h2\<rparr>"
    using assms(1) by (auto simp: find_or_setup_def andThen_eq_Inr split: if_splits)
  then show ?thesis
  proof cases
    case 2
    then show ?thesis using kh_put_spare [OF 2(1) assms(2-4)] kh_set_value_spare [OF 2(2)] by simp
  qed (use assms(4) in simp)
qed

lemma forward_to_spare:
  "forward_to env r t buffer len = Inr r' \<Longrightarrow> spare_empty (address_table r') \<longleftrightarrow> spare_empty (address_table r)"
  by (auto simp: forward_to_def andThen_eq_Inr dest!: upd_context_spare split: if_splits)

lemma broadcast_loop_spare:
  "broadcast_loop left env r hint i buffer len = Inr r' \<Longrightarrow>
     spare_empty (address_table r') \<longleftrightarrow> spare_empty (address_table r)"
proof (induction left arbitrary: r i)
  case (Suc left)
  then show ?case by (auto simp: andThen_eq_Inr dest!: upd_context_spare forward_to_spare)
qed simp

lemma forward_pick_spare:
  "forward_pick env r hint entry value random buffer len = Inr r' \<Longrightarrow>
     spare_empty (address_table r') \<longleftrightarrow> spare_empty (address_table r)"
  by (auto simp: forward_pick_def andThen_eq_Inr dest!: upd_context_spare forward_to_spare split: if_splits)

lemma handle_data_spare:
  "handle_data env r header buffer len = Inr r' \<Longrightarrow> spare_empty (address_table r') \<longleftrightarrow> spare_empty (address_table r)"
  by (auto simp: handle_data_def andThen_eq_Inr
      dest!: upd_context_spare broadcast_loop_spare forward_pick_spare split: if_splits)

lemma handle_packet_spare:
  assumes "handle_packet env r fd buffer len = Inr r'" "kh_ok (address_table r)"
    and "kh_n_buckets (address_table r) \<le> 2 ^ 30" "spare_empty (address_table r)"
  shows "spare_empty (address_table r')"
proof -
  note found = find_or_setup_spare [OF _ assms(2-4)]
  have new: "spare_empty (address_table r')" if "cmd_new_address env r fd header buffer nxt = Inr r'" for header nxt
    using that find_or_setup_spare [of "r\<lparr>rt_rands := rt_rands r + 1\<rparr>"] assms(2-4)
    by (auto simp: cmd_new_address_def Let_def andThen_eq_Inr dest!: upd_context_spare)
  have connect: "spare_empty (address_table r')" if "cmd_connect r buffer nxt = Inr r'" for nxt
    using that found by (auto simp: cmd_connect_def andThen_eq_Inr dest!: upd_context_spare)
  have policy: "spare_empty (address_table r')" if "cmd_policy r buffer nxt = Inr r'" for nxt
    using that assms(4) by (auto simp: cmd_policy_def andThen_eq_Inr dest!: upd_context_spare split: if_splits)
  have command: "spare_empty (address_table r')" if "handle_command env r fd header buffer payload = Inr r'" for header payload
    using that new connect policy assms(4) by (auto simp: handle_command_def andThen_eq_Inr split: if_splits)
  show ?thesis
    using assms(1,4) command handle_data_spare by (auto simp: handle_packet_def andThen_eq_Inr split: if_splits)
qed

text \<open>The specification as a machine on the random numbers drawn, the table and the network.\<close>

fun message_step :: "os \<Rightarrow> nat \<times> atable \<times> net \<Rightarrow> int \<times> message \<Rightarrow> nat \<times> atable \<times> net \<Rightarrow> bool" where
  "message_step env (k, s) (fd, msg) x \<longleftrightarrow>
     acceptable (fst s) msg \<and> x = (k + rands_of (fst s) msg, message_spec env k fd msg s)"

lemma spec_run_steps: "run_acceptable env ms k s \<Longrightarrow> \<exists>k'. steps (message_step env) (k, s) ms (k', spec_run env ms k s)"
proof (induction env ms k s rule: run_acceptable.induct)
  case (2 env fd msg ms k s)
  then obtain k' where "steps (message_step env) (k + rands_of (fst s) msg, message_spec env k fd msg s) ms
      (k', spec_run env ms (k + rands_of (fst s) msg) (message_spec env k fd msg s))" by auto
  then show ?case using "2.prems" by (auto simp: steps_Cons)
qed auto

definition table_room :: "nat \<Rightarrow> context_t khash \<Rightarrow> bool" where
  "table_room j h \<longleftrightarrow> kh_n_buckets h \<le> 2 ^ 30 \<and> finite (dom (table_abs h)) \<and> card (dom (table_abs h)) + j \<le> 2 ^ 28"

definition routes_like :: "nat \<Rightarrow> router \<Rightarrow> nat \<times> atable \<times> net \<Rightarrow> bool" where
  "routes_like j r x \<longleftrightarrow> table_ok (address_table r) \<and> table_room j (address_table r) \<and> spare_empty (address_table r) \<and>
     x = (rt_rands r, table_abs (address_table r), rt_net r)"

lemma table_room_kept:
  assumes "table_room (Suc j) (address_table r)" "s = (table_abs (address_table r), rt_net r)"
    and "refines r r' n (message_spec env k fd msg s)"
  shows "table_room j (address_table r')"
proof -
  have d: "finite (dom (table_abs (address_table r)))" "card (dom (table_abs (address_table r))) + Suc j \<le> 2 ^ 28"
    "kh_n_buckets (address_table r) \<le> 2 ^ 30"
    using assms(1) by (simp_all add: table_room_def)
  note ref = assms(3) [unfolded refines_def]
  have m: "table_abs (address_table r') = fst (message_spec env k fd msg s)" using ref by (metis fst_conv)
  have "finite (dom (table_abs (address_table r')))" "card (dom (table_abs (address_table r'))) + j \<le> 2 ^ 28"
    unfolding m using message_spec_card [of s env k fd msg] d assms(2) by simp_all
  moreover have "kh_n_buckets (address_table r') \<le> max (kh_n_buckets (address_table r))
      (max 4 (4 * card (dom (table_abs (address_table r)))))"
    using ref by (simp add: grows_to_def)
  ultimately show ?thesis using d(2,3) by (simp add: table_room_def)
qed

lemma table_room_init: "j \<le> 2 ^ 28 \<Longrightarrow> table_room j (address_table router_init)"
  by (simp add: table_room_def router_init_ok)

lemma spare_router_init: "spare_empty (address_table router_init)"
  by (simp add: router_init_def spare_init)

interpretation messages: simulation "message_step env" "handle_message env" routes_like "\<lambda>_. 1" for env
proof
  fix x e x1 j r
  assume step: "message_step env x e x1" and "routes_like (1 + j) r x"
  then have r: "table_ok (address_table r)" "table_room (Suc j) (address_table r)"
    "x = (rt_rands r, table_abs (address_table r), rt_net r)" "spare_empty (address_table r)"
    by (simp_all add: routes_like_def)
  obtain fd msg where e: "e = (fd, msg)" by (cases e)
  let ?s = "(table_abs (address_table r), rt_net r)"
  have acc: "acceptable (table_abs (address_table r)) msg" using step r(3) e by simp
  have small: "kh_n_buckets (address_table r) \<le> 2 ^ 30" using r(2) by (simp add: table_room_def)
  obtain r1 where r1: "handle_packet env r fd (message_bytes msg) (length (message_bytes msg)) = Inr r1"
    "refines r r1 (rands_of (table_abs (address_table r)) msg) (message_spec env (rt_rands r) fd msg ?s)"
    using handle_packet_spec [OF r(1) small acc] by blast
  have "spare_empty (address_table r1)" by (rule handle_packet_spare [OF r1(1) table_okD(2) [OF r(1)] small r(4)])
  then have "routes_like j r1 x1"
    using r1(2) [unfolded refines_def] step r(3) e table_room_kept [OF r(2) refl r1(2)] by (simp add: routes_like_def)
  then show "\<exists>r1. handle_message env e r = Inr r1 \<and> routes_like j r1 x1" using r1(1) e by auto
qed

lemma message_run_spec:
  assumes "table_ok (address_table r)" "table_room (length ms) (address_table r)" "spare_empty (address_table r)"
    and "run_acceptable env ms (rt_rands r) (table_abs (address_table r), rt_net r)"
  shows "\<exists>r'. message_run env ms r = Inr r' \<and> table_ok (address_table r') \<and> spare_empty (address_table r') \<and>
    (table_abs (address_table r'), rt_net r') =
      spec_run env ms (rt_rands r) (table_abs (address_table r), rt_net r)"
proof -
  let ?s = "(table_abs (address_table r), rt_net r)"
  obtain k' where run: "steps (message_step env) (rt_rands r, ?s) ms (k', spec_run env ms (rt_rands r) ?s)"
    using spec_run_steps [OF assms(4)] by blast
  have "routes_like (sum_list (map (\<lambda>_. 1) ms) + 0) r (rt_rands r, ?s)"
    using assms(1-3) by (simp add: routes_like_def sum_list_triv)
  from messages.run_simulates [OF run this] show ?thesis by (auto simp: routes_like_def)
qed

text \<open>
  C3: The whole life of a router. From start-up, any sequence of up to \<open>2 ^ 28\<close> messages that are
  acceptable when they arrive is handled without a fault, and the hash table, the forwarding
  arrays and the bytes sent stand at the end for exactly what the messages do one after the other
  on a plain map from addresses to contexts.
\<close>

theorem router_run:
  assumes "length ms \<le> 2 ^ 28"
    and "run_acceptable env ms 0 (Map.empty, rt_net router_init)"
  shows "\<exists>r'. message_run env ms router_init = Inr r' \<and> table_ok (address_table r') \<and>
    (table_abs (address_table r'), rt_net r') = spec_run env ms 0 (Map.empty, rt_net router_init)"
proof -
  have "rt_rands router_init = 0" by (simp add: router_init_def)
  then show ?thesis
    using message_run_spec [OF router_init_ok(1) table_room_init spare_router_init, of ms env] router_init_ok assms by auto
qed

theorem router_run_witness:
  "\<exists>r'. message_run plain_os
      [(5, Claim 7), (6, Claim 8), (5, Connect 7 8), (5, Data 7 [1, 2])] router_init = Inr r' \<and>
    last (sent (rt_net r')) = (6, frame_bytes GNW_DATA 7 [1, 2])"
proof -
  let ?ms = "[(5, Claim 7), (6, Claim 8), (5, Connect 7 8), (5, Data 7 [1, 2])] :: (int \<times> message) list"
  have pol: "a_policy fresh_ctx = policy_int GNW_POLICY_BROADCAST" "a_forward fresh_ctx = []"
    by (simp_all add: fresh_ctx_def abs_ctx_def setup_context_def)
  have acc: "run_acceptable plain_os ?ms 0 (Map.empty, rt_net router_init)"
    using policy_int_distinct by (simp add: routable_def ctx_at_def pol)
  obtain r' where r': "message_run plain_os ?ms router_init = Inr r'"
    "(table_abs (address_table r'), rt_net r') = spec_run plain_os ?ms 0 (Map.empty, rt_net router_init)"
    using router_run [of ?ms plain_os] acc by auto
  have "rt_net r' = snd (spec_run plain_os ?ms 0 (Map.empty, rt_net router_init))"
    using r'(2) by (metis snd_conv)
  then have "last (sent (rt_net r')) = (6, frame_bytes GNW_DATA 7 [1, 2])"
    by (simp add: data_spec_def Let_def ctx_at_def pol route_def count_in_def forward_spec_def
        net_emit_def plain_os_def)
  then show ?thesis using r'(1) by blast
qed

text \<open>A data packet from an unknown source, whatever the size of the table.\<close>

lemma unknown_source_outcome:
  assumes "table_ok (address_table r)" "spare_empty (address_table r)" "table_abs (address_table r) source = None"
  shows "handle_packet env r fd (frame_bytes GNW_DATA source payload) (length (frame_bytes GNW_DATA source payload)) =
    (if kh_n_buckets (address_table r) = 0 then Inl NullDeref
     else if kh_n_buckets (address_table r) < 16 then Inr r else Inl OutOfBounds)"
proof -
  let ?h = "address_table r"
  have ok: "kh_ok ?h" and full: "kh_full ?h" using table_okD [OF assms(1)] by simp_all
  have "kh_abs ?h source = None" using assms(3) by (simp add: table_abs_def)
  then have "kh_get ?h source = Inr (kh_end ?h)"
    using kh_get_spec [OF ok, of source] kh_abs_none [OF full] by simp
  then show ?thesis
    using kh_exist_end [OF ok assms(2)] by (simp only: handle_packet_data) (simp add: handle_data_def)
qed

lemma seven_addresses:
  assumes "table_ok h" "finite (dom (table_abs h))" "6 < card (dom (table_abs h))"
  shows "16 \<le> kh_n_buckets h"
proof -
  have full: "kh_full h" "kh_ok h" using table_okD [OF assms(1)] by simp_all
  have "dom (table_abs h) = dom (kh_abs h)" by (auto simp: table_abs_def)
  then have size: "6 < kh_size h" using kh_size_abs [OF full(1)] assms(3) by simp
  then have "h \<noteq> kh_init" by (auto simp: kh_init_def)
  then obtain e where e: "kh_table_ok e h" using full(2) by (auto simp: kh_ok_def)
  note ok = kh_okD [OF e]
  have "kh_size h \<le> kh_n_occupied h" unfolding ok(8,9) by (rule card_mono [OF finite_live(2) live_used])
  then have "6 < kh_upper (2 ^ e)" using size ok(3,10,11) by simp
  moreover have "e = 2 \<or> e = 3 \<or> 4 \<le> e" using ok(1) by linarith
  ultimately have "4 \<le> e" by (auto simp: kh_upper_def)
  then have "(2 :: nat) ^ 4 \<le> 2 ^ e" by (rule power_increasing) simp
  then show ?thesis using ok(3) by simp
qed

text \<open>
  C13: A data packet from an address the router does not know should be dropped, as the comment in the handler
  says. After any run of up to \<open>2 ^ 28\<close> acceptable messages it is dropped only while the table has fewer than 16
  buckets and not none. While the table has no buckets, as at the start, the router goes through a null
  pointer, and with 16 buckets or more, which it has whenever it holds seven addresses, it reads one word past
  the end of the flags (\<open>kh_exist\<close> is applied to \<open>kh_end\<close>).
\<close>

theorem unknown_source_packet:
  assumes "length ms \<le> 2 ^ 28" "run_acceptable env ms 0 (Map.empty, rt_net router_init)"
    and "message_run env ms router_init = Inr r" "table_abs (address_table r) source = None"
  shows "handle_packet env r fd (frame_bytes GNW_DATA source payload) (length (frame_bytes GNW_DATA source payload)) =
      (if kh_n_buckets (address_table r) = 0 then Inl NullDeref
       else if kh_n_buckets (address_table r) < 16 then Inr r else Inl OutOfBounds) \<and>
    (6 < card (dom (table_abs (address_table r))) \<longrightarrow> 16 \<le> kh_n_buckets (address_table r))"
proof -
  have "rt_rands router_init = 0" by (simp add: router_init_def)
  then have r: "table_ok (address_table r)" "spare_empty (address_table r)"
    using message_run_spec [OF router_init_ok(1) table_room_init spare_router_init, of ms env] router_init_ok assms(1-3)
    by auto
  have "16 \<le> kh_n_buckets (address_table r)" if "6 < card (dom (table_abs (address_table r)))"
    using seven_addresses [OF r(1) _ that] that card_ge_0_finite [of "dom (table_abs (address_table r))"] by simp
  then show ?thesis using unknown_source_outcome [OF r assms(4)] by blast
qed

definition seven_claims :: "(int \<times> message) list" where
  "seven_claims = map (\<lambda>a. (5, Claim a)) [1, 2, 3, 4, 5, 6, 7]"

theorem unknown_source_packet_witness:
  "handle_packet plain_os router_init 5 (frame_bytes GNW_DATA 9 [1]) 12 = Inl NullDeref \<and>
   (\<exists>r. message_run plain_os [(5, Claim 7)] router_init = Inr r \<and>
     handle_packet plain_os r 5 (frame_bytes GNW_DATA 9 [1]) 12 = Inr r) \<and>
   (\<exists>r. message_run plain_os seven_claims router_init = Inr r \<and>
     handle_packet plain_os r 5 (frame_bytes GNW_DATA 9 [1]) 12 = Inl OutOfBounds)"
proof (intro conjI)
  let ?s0 = "(Map.empty :: atable, rt_net router_init)"
  have rands: "rt_rands router_init = 0" by (simp add: router_init_def)
  have len: "length (frame_bytes GNW_DATA 9 [1]) = 12" by simp
  show "handle_packet plain_os router_init 5 (frame_bytes GNW_DATA 9 [1]) 12 = Inl NullDeref"
    using unknown_source_packet [of "[]" plain_os router_init 9 5 "[1]"] router_init_ok by simp
  have acc: "run_acceptable plain_os [(5, Claim 7)] 0 ?s0" by simp
  obtain r where r: "message_run plain_os [(5, Claim 7)] router_init = Inr r"
    "refines router_init r (rands_of (fst ?s0) (Claim 7)) (message_spec plain_os 0 5 (Claim 7) ?s0)"
    using handle_packet_spec [of router_init "Claim 7" plain_os 5] router_init_ok rands by auto
  note ref = r(2) [unfolded refines_def]
  have "kh_n_buckets (address_table r) \<le> 4" using ref router_init_ok by (simp add: grows_to_def)
  moreover have t: "table_abs (address_table r) = [7 \<mapsto> fresh_ctx\<lparr>a_fd := 5\<rparr>]" using ref by (simp add: ctx_at_def)
  moreover have "kh_n_buckets (address_table r) \<noteq> 0"
  proof
    assume "kh_n_buckets (address_table r) = 0"
    moreover have "kh_ok (address_table r)" by (rule table_okD(2)) (use ref in simp)
    ultimately have "address_table r = kh_init" by (intro kh_ok_no_buckets)
    then show False using t by (simp add: table_abs_def kh_full_init fun_eq_iff) (metis option.distinct(1))
  qed
  ultimately show "\<exists>r. message_run plain_os [(5, Claim 7)] router_init = Inr r \<and>
     handle_packet plain_os r 5 (frame_bytes GNW_DATA 9 [1]) 12 = Inr r"
    using unknown_source_packet [OF _ acc r(1), of 9 5 "[1]"] r(1) by auto
  have acc7: "run_acceptable plain_os seven_claims 0 ?s0" "length seven_claims \<le> 2 ^ 28"
    by (simp_all add: seven_claims_def)
  obtain r7 where r7: "message_run plain_os seven_claims router_init = Inr r7"
    "(table_abs (address_table r7), rt_net r7) = spec_run plain_os seven_claims 0 ?s0"
    using router_run [OF acc7(2,1)] by blast
  have "table_abs (address_table r7) = fst (spec_run plain_os seven_claims 0 ?s0)" using r7(2) by (metis fst_conv)
  then have d: "dom (table_abs (address_table r7)) = {1, 2, 3, 4, 5, 6, 7}" by (auto simp: seven_claims_def)
  have "9 \<notin> dom (table_abs (address_table r7))" unfolding d by simp
  then have "table_abs (address_table r7) 9 = None" by (simp only: domIff not_not)
  moreover have "6 < card (dom (table_abs (address_table r7)))" unfolding d by simp
  ultimately show "\<exists>r. message_run plain_os seven_claims router_init = Inr r \<and>
     handle_packet plain_os r 5 (frame_bytes GNW_DATA 9 [1]) 12 = Inl OutOfBounds"
    using unknown_source_packet [OF acc7(2,1) r7(1), of 9 5 "[1]"] r7(1) by auto
qed

text \<open>
  C9: Round robin is fair. From a source whose policy is round robin, with \<open>n\<close> known targets and
  \<open>p\<close> packets received so far, the next \<open>n\<close> data packets go one to each target, in the order of
  the forwarding list rotated by \<open>p + 1\<close>: each packet is written whole to the descriptor bound
  to its target, and to no other.
\<close>

theorem roundrobin_round:
  assumes "table_ok (address_table r)" "robin_source (table_abs (address_table r)) source ts p"
    and "length payloads = length ts" "p + length ts < 2 ^ 64"
  shows "\<exists>r'. data_run env r fd source payloads = Inr r' \<and> table_ok (address_table r') \<and>
    rt_net r' = fold (\<lambda>(t, pl) n. net_emit (os_write env) n
        (a_fd (the (table_abs (address_table r) t))) (frame_bytes GNW_DATA source pl))
      (zip (rotate (p + 1) ts) payloads) (rt_net r)"
proof -
  have z: "zip (rotate (p + 1) ts) payloads =
      map (\<lambda>(i, pl). (ts ! ((p + 1 + i) mod length ts), pl)) (enumerate 0 payloads)"
    by (rule nth_equalityI) (use assms(3) in \<open>auto simp: nth_rotate nth_enumerate_eq simp del: rotate_Suc\<close>)
  show ?thesis
    unfolding z fold_map
    using data_run_robin [OF assms(1) same_routes_refl assms(2), of payloads env fd] assms(3,4)
    by (simp add: o_def case_prod_unfold)
qed

text \<open>A router with address 7 sending round robin to 8 and 9.\<close>

definition robin_setup :: "(int \<times> message) list" where
  "robin_setup = [(5, Claim 7), (6, Claim 8), (3, Claim 9), (5, Connect 7 8), (5, Connect 7 9),
     (5, Policy 2 7)]"

theorem roundrobin_round_witness:
  "\<exists>r r'. message_run plain_os robin_setup router_init = Inr r \<and>
     data_run plain_os r 5 7 [[1], [2]] = Inr r' \<and>
     sent (rt_net r') = sent (rt_net r) @
       [(3, frame_bytes GNW_DATA 7 [1]), (6, frame_bytes GNW_DATA 7 [2])]"
proof -
  let ?s0 = "(Map.empty :: atable, rt_net router_init)"
  have pol: "a_forward fresh_ctx = []" "a_packets_in fresh_ctx = 0"
    by (simp_all add: fresh_ctx_def abs_ctx_def setup_context_def)
  have two: "policy_int 2 = policy_int GNW_POLICY_ROUNDROBIN" by (simp add: gnw_constants)
  have acc: "run_acceptable plain_os robin_setup 0 ?s0"
    by (simp add: robin_setup_def ctx_at_def pol)
  obtain r where r: "message_run plain_os robin_setup router_init = Inr r" "table_ok (address_table r)"
    "(table_abs (address_table r), rt_net r) = spec_run plain_os robin_setup 0 ?s0"
  proof -
    have "length robin_setup \<le> 2 ^ 28" by (simp add: robin_setup_def)
    moreover have "rt_rands router_init = 0" by (simp add: router_init_def)
    ultimately show thesis
      using that message_run_spec [OF router_init_ok(1) table_room_init spare_router_init, of robin_setup plain_os] router_init_ok acc
      by auto
  qed
  have "table_abs (address_table r) = fst (spec_run plain_os robin_setup 0 ?s0)"
    using r(3) by (metis fst_conv)
  then have tab: "table_abs (address_table r) =
      [7 \<mapsto> fresh_ctx\<lparr>a_fd := 5, a_forward := [8, 9], a_policy := policy_int 2\<rparr>,
       8 \<mapsto> fresh_ctx\<lparr>a_fd := 6\<rparr>, 9 \<mapsto> fresh_ctx\<lparr>a_fd := 3\<rparr>]"
    by (simp add: robin_setup_def ctx_at_def pol fun_eq_iff)
  have robin: "robin_source (table_abs (address_table r)) 7 [8, 9] 0"
    unfolding tab by (simp add: robin_source_def two pol)
  obtain r' where r': "data_run plain_os r 5 7 [[1], [2]] = Inr r'"
    "rt_net r' = fold (\<lambda>(t, pl) n. net_emit (os_write plain_os) n
        (a_fd (the (table_abs (address_table r) t))) (frame_bytes GNW_DATA 7 pl))
      (zip (rotate (0 + 1) [8, 9]) [[1], [2]]) (rt_net r)"
    using roundrobin_round [OF r(2) robin, of "[[1], [2]]" plain_os 5] by auto
  have "sent (rt_net r') = sent (rt_net r) @
      [(3, frame_bytes GNW_DATA 7 [1]), (6, frame_bytes GNW_DATA 7 [2])]"
    unfolding r'(2) tab by (simp add: net_emit_def plain_os_def)
  then show ?thesis using r(1) r'(1) by blast
qed

end
