(* ===== verification/RouterLoop.thy ===== *)
theory RouterLoop
  imports RouterSpec Utility
begin

text \<open>
  The rest of \<open>GraphRouter.c\<close>: the table the main loop prints, the poll loop of
  \<open>router_process\<close> with its 128 entries, and the commands \<open>main\<close> sends when it is given
  arguments. The kernel's answers (\<open>poll\<close>, \<open>accept\<close>, \<open>read\<close>) are arguments.

  The properties are about \<open>handle_event\<close>: what a connection's buffer holds between events, and
  what happens to a stream of frames, to a stream that has to be resynchronised, and to a header
  whose length wraps.
\<close>

section \<open>Printing the address table\<close>

text \<open>One line of the table: a context marked as closed, or a full line.\<close>

datatype row = Closed gnw_address
  | Row gnw_address string "gnw_address list" "(nat \<times> nat) \<times> string" "(nat \<times> nat) \<times> string" u64 u64 bool

fun print_targets :: "context_t \<Rightarrow> nat \<Rightarrow> nat \<Rightarrow> gnw_address list result" where
  "print_targets entry i 0 = Inr []"
| "print_targets entry i (Suc left) =
     andThen (kv_a (forward entry) (\<lambda>_. i)) (\<lambda>(f, _, t).
     andThen (print_targets (entry\<lparr>forward := f\<rparr>) (i + 1) left) (\<lambda>ts. Inr (t # ts)))"

definition policy_text :: "context_t \<Rightarrow> string" where
  "policy_text entry =
     (if kv_size (forward entry) = 0 then ''{drop} to {}''
      else if forward_policy entry = policy_int GNW_POLICY_BROADCAST then ''{broadcast}''
      else if forward_policy entry = policy_int GNW_POLICY_ANYCAST then ''{anycast}''
      else if forward_policy entry = policy_int GNW_POLICY_ROUNDROBIN then ''{round-robin}''
      else ''{BAD POLICY}'')"

definition print_row :: "gnw_address \<Rightarrow> context_t \<Rightarrow> row result" where
  "print_row key entry =
     andThen (print_targets entry 0 (kv_size (forward entry))) (\<lambda>ts.
     andThen (fmt_iec_size (bytes_in entry)) (\<lambda>bin.
     andThen (fmt_iec_size (bytes_out entry)) (\<lambda>bout.
     Inr (Row key (policy_text entry) ts bin bout (packets_in entry) (packets_out entry)
       (bound_fd entry > -1)))))"

text \<open>
  The loop over the buckets. A closed context is skipped by \<open>continue\<close>, which does not advance
  \<open>iter\<close>.
\<close>

fun print_table :: "nat \<Rightarrow> context_t khash \<Rightarrow> nat \<Rightarrow> row list result" where
  "print_table 0 h iter = Inl Diverges"
| "print_table (Suc fuel) h iter =
     (if iter = kh_end h then Inr []
      else andThen (kh_exist h iter) (\<lambda>exists.
        if exists then
          andThen (kh_value h iter) (\<lambda>entry.
          if ctx_state entry = GNW_STATE_CLOSE then
            andThen (print_table fuel h iter) (\<lambda>rows. Inr (Closed (kh_keys h ! iter) # rows))
          else
            andThen (print_row (kh_keys h ! iter) entry) (\<lambda>row.
            andThen (print_table fuel h (iter + 1)) (\<lambda>rows. Inr (row # rows))))
        else print_table fuel h (iter + 1)))"

section \<open>The poll loop\<close>

definition MAX_MONITOR_FDS :: nat where "MAX_MONITOR_FDS = 128"

definition no_poll :: pollfd where
  "no_poll = \<lparr>poll_fd = -1, poll_events = 0, poll_revents = 0\<rparr>"

definition poll_list_init :: "int \<Rightarrow> pollfd list" where
  "poll_list_init listen_fd =
     \<lparr>poll_fd = listen_fd, poll_events = POLLIN, poll_revents = 0\<rparr> #
     replicate (MAX_MONITOR_FDS - 1) no_poll"

text \<open>\<open>poll\<close>: the kernel fills in \<open>revents\<close>; entries with a negative descriptor are ignored.\<close>

definition poll_fill :: "(int \<Rightarrow> u16) \<Rightarrow> pollfd list \<Rightarrow> pollfd list" where
  "poll_fill ready polls =
     map (\<lambda>p. p\<lparr>poll_revents := (if poll_fd p < 0 then 0 else ready (poll_fd p))\<rparr>) polls"

fun free_entry :: "pollfd list \<Rightarrow> nat \<Rightarrow> nat \<Rightarrow> nat" where
  "free_entry polls i 0 = i"
| "free_entry polls i (Suc left) =
     (if poll_fd (polls ! i) = -1 then i else free_entry polls (i + 1) left)"

definition poll_accept :: "int \<Rightarrow> pollfd list \<Rightarrow> router \<Rightarrow> (pollfd list \<times> router) result" where
  "poll_accept remote_fd polls r =
     (if remote_fd = -1 then Inr (polls, r)
      else
        (let entry = free_entry polls 1 (MAX_MONITOR_FDS - 1);
             polls = (if entry < MAX_MONITOR_FDS then
                 polls[entry := (polls ! entry)\<lparr>poll_fd := remote_fd, poll_events := POLLIN\<rparr>]
               else polls)
         in andThen (load polls entry) (\<lambda>p.
            if poll_fd p \<noteq> remote_fd then
              Inr (polls[0 := (polls ! 0)\<lparr>poll_revents := 0\<rparr>], r\<lparr>rt_closed := rt_closed r @ [remote_fd]\<rparr>)
            else Inr (polls[0 := (polls ! 0)\<lparr>poll_revents := 0\<rparr>], r))))"

text \<open>
  The scan over the client entries. \<open>rd\<close> is \<open>read\<close>: the bytes it stored in the zeroed buffer
  of \<open>network_mtu\<close> bytes, and what it returned.
\<close>

fun poll_scan ::
    "os \<Rightarrow> nat \<Rightarrow> (int \<Rightarrow> u8 list \<times> int) \<Rightarrow> nat \<Rightarrow> nat \<Rightarrow> pollfd list \<Rightarrow> router \<Rightarrow>
     (pollfd list \<times> router) result" where
  "poll_scan env mtu rd i 0 polls r = Inr (polls, r)"
| "poll_scan env mtu rd i (Suc left) polls r =
     (let p = polls ! i in
      if poll_fd p = -1 then poll_scan env mtu rd (i + 1) left polls r
      else if poll_revents p \<noteq> 0 then
        (if poll_revents p AND POLLHUP = POLLHUP then
           andThen (drop_client r p) (\<lambda>(r, p).
           poll_scan env mtu rd (i + 1) left (polls[i := p]) r)
         else
           (let (bs, len) = rd (poll_fd p);
                buffer = take mtu bs @ replicate (mtu - length bs) 0
            in andThen (handle_event env mtu r p buffer len) (\<lambda>(r, p).
               poll_scan env mtu rd (i + 1) left (polls[i := p\<lparr>poll_revents := 0\<rparr>]) r)))
      else poll_scan env mtu rd (i + 1) left polls r)"

record kernel =
  k_ready :: "int \<Rightarrow> u16"
  k_accept :: int
  k_read :: "int \<Rightarrow> u8 list \<times> int"

definition poll_step :: "os \<Rightarrow> nat \<Rightarrow> kernel \<Rightarrow> pollfd list \<Rightarrow> router \<Rightarrow> (pollfd list \<times> router) result" where
  "poll_step env mtu k polls r =
     (let polls = poll_fill (k_ready k) polls in
      if poll_revents (polls ! 0) \<noteq> 0 then poll_accept (k_accept k) polls r
      else poll_scan env mtu (k_read k) 1 (MAX_MONITOR_FDS - 1) polls r)"

text \<open>\<open>while( poll( ... ) > 0 && jumpout++ < 4000 )\<close> for the kernel's successive answers.\<close>

fun poll_loop ::
    "os \<Rightarrow> nat \<Rightarrow> kernel list \<Rightarrow> nat \<Rightarrow> pollfd list \<Rightarrow> router \<Rightarrow> (pollfd list \<times> router) result" where
  "poll_loop env mtu [] jumpout polls r = Inr (polls, r)"
| "poll_loop env mtu (k # ks) jumpout polls r =
     (if jumpout < 4000 then
        andThen (poll_step env mtu k polls r) (\<lambda>(polls, r). poll_loop env mtu ks (jumpout + 1) polls r)
      else Inr (polls, r))"

text \<open>
  \<open>while( config.system_state )\<close>: the table is printed, then the poll loop runs; each element of
  the list holds the answers of one inner loop. Printing gets fuel for every bucket.
\<close>

fun router_loop ::
    "os \<Rightarrow> nat \<Rightarrow> kernel list list \<Rightarrow> pollfd list \<Rightarrow> router \<Rightarrow> (pollfd list \<times> router) result" where
  "router_loop env mtu [] polls r = Inr (polls, r)"
| "router_loop env mtu (ks # rest) polls r =
     andThen (print_table (kh_n_buckets (address_table r) + 1) (address_table r) 0) (\<lambda>_.
     andThen (poll_loop env mtu ks 0 polls r) (\<lambda>(polls, r). router_loop env mtu rest polls r))"

definition router_process ::
    "os \<Rightarrow> nat \<Rightarrow> int \<Rightarrow> kernel list list \<Rightarrow> (pollfd list \<times> router) result" where
  "router_process env mtu listen_fd rounds =
     router_loop env mtu rounds (poll_list_init listen_fd) router_init"

section \<open>The command line\<close>

record client =
  cl_source :: gnw_address
  cl_target :: gnw_address
  cl_mtu :: u64
  cl_dot :: bool
  cl_verbosity :: nat

datatype option_arg = OptHelp | OptStatus | OptPolicy string | OptConnect | OptDisconnect
  | OptSource string | OptTarget string | OptMtu string | OptDot | OptVersion | OptVerbose | OptBad

text \<open>An option either ends the program, with what it sent, or changes the configuration.\<close>

datatype outcome = Done net | Continue client

definition is_prefix :: "string \<Rightarrow> string \<Rightarrow> bool" where
  "is_prefix p s \<longleftrightarrow> take (length p) s = p"

definition send_policy ::
    "(int \<Rightarrow> u8 list \<Rightarrow> int) \<Rightarrow> net \<Rightarrow> int \<Rightarrow> gnw_address \<Rightarrow> string \<Rightarrow> net result" where
  "send_policy wr n rfd target optarg =
     andThen (packet_write_u8 (replicate 6 0) 0 GNW_CMD_POLICY) (\<lambda>(buffer, nxt).
     andThen (if is_prefix ''broadcast'' optarg then packet_write_u8 buffer nxt GNW_POLICY_BROADCAST
              else if is_prefix ''roundrobin'' optarg then packet_write_u8 buffer nxt GNW_POLICY_ROUNDROBIN
              else if is_prefix ''anycast'' optarg then packet_write_u8 buffer nxt GNW_POLICY_ANYCAST
              else Inr (buffer, nxt)) (\<lambda>(buffer, nxt).
     andThen (packet_write_u32 buffer nxt target) (\<lambda>(buffer, nxt).
     gnw_emitCommandPacket wr n rfd GNW_COMMAND (Some buffer) nxt)))"

definition send_link ::
    "(int \<Rightarrow> u8 list \<Rightarrow> int) \<Rightarrow> net \<Rightarrow> int \<Rightarrow> u8 \<Rightarrow> gnw_address \<Rightarrow> gnw_address \<Rightarrow> net result" where
  "send_link wr n rfd directive source target =
     andThen (packet_write_u8 (replicate 9 0) 0 directive) (\<lambda>(buffer, nxt).
     andThen (packet_write_u32 buffer nxt source) (\<lambda>(buffer, nxt).
     andThen (packet_write_u32 buffer nxt target) (\<lambda>(buffer, nxt).
     gnw_emitCommandPacket wr n rfd GNW_COMMAND (Some buffer) nxt)))"

fun client_option ::
    "(int \<Rightarrow> u8 list \<Rightarrow> int) \<Rightarrow> net \<Rightarrow> int \<Rightarrow> client \<Rightarrow> option_arg \<Rightarrow> outcome result" where
  "client_option wr n rfd c OptHelp = Inr (Done n)"
| "client_option wr n rfd c OptStatus =
     andThen (gnw_emitCommandPacket wr n rfd GNW_COMMAND (Some [GNW_CMD_STATUS]) 1) (\<lambda>n. Inr (Done n))"
| "client_option wr n rfd c (OptPolicy optarg) =
     andThen (send_policy wr n rfd (cl_target c) optarg) (\<lambda>n. Inr (Done n))"
| "client_option wr n rfd c OptConnect =
     andThen (send_link wr n rfd GNW_CMD_CONNECT (cl_source c) (cl_target c)) (\<lambda>n. Inr (Done n))"
| "client_option wr n rfd c OptDisconnect =
     andThen (send_link wr n rfd GNW_CMD_DISCONNECT (cl_source c) (cl_target c)) (\<lambda>n. Inr (Done n))"
| "client_option wr n rfd c (OptSource optarg) =
     Inr (Continue (c\<lparr>cl_source := ucast (strtoul optarg 16)\<rparr>))"
| "client_option wr n rfd c (OptTarget optarg) =
     Inr (Continue (c\<lparr>cl_target := ucast (strtoul optarg 16)\<rparr>))"
| "client_option wr n rfd c (OptMtu optarg) =
     Inr (Continue (c\<lparr>cl_mtu := scast (ucast (strtoul optarg 10) :: u32)\<rparr>))"
| "client_option wr n rfd c OptDot = Inr (Continue (c\<lparr>cl_dot := True\<rparr>))"
| "client_option wr n rfd c OptVersion = Inr (Done n)"
| "client_option wr n rfd c OptVerbose = Inr (Continue (c\<lparr>cl_verbosity := cl_verbosity c + 1\<rparr>))"
| "client_option wr n rfd c OptBad = Inr (Done n)"

fun client_options ::
    "(int \<Rightarrow> u8 list \<Rightarrow> int) \<Rightarrow> net \<Rightarrow> int \<Rightarrow> client \<Rightarrow> option_arg list \<Rightarrow> outcome result" where
  "client_options wr n rfd c [] = Inr (Continue c)"
| "client_options wr n rfd c (a # rest) =
     andThen (client_option wr n rfd c a) (\<lambda>out.
     case out of Done n \<Rightarrow> Inr (Done n) | Continue c \<Rightarrow> client_options wr n rfd c rest)"

section \<open>The connection buffers\<close>

definition buffer_ok :: "nat \<Rightarrow> local_buffer \<Rightarrow> bool" where
  "buffer_ok mtu b \<longleftrightarrow> (\<exists>block t. b = \<lparr>lb_buffer = Some block, lb_tail = Some t\<rparr> \<and>
     length block = mtu * 20 \<and> t \<le> mtu * 20)"

definition buffers_ok :: "nat \<Rightarrow> local_buffer khash \<Rightarrow> bool" where
  "buffers_ok mtu h \<longleftrightarrow> kh_full h \<and> (\<forall>b\<in>ran (kh_abs h). buffer_ok mtu b)"

definition buffer_bytes :: "local_buffer \<Rightarrow> u8 list" where
  "buffer_bytes b = take (the (lb_tail b)) (the (lb_buffer b))"

text \<open>The bytes received on a descriptor and not yet handled.\<close>

definition pending :: "local_buffer khash \<Rightarrow> int \<Rightarrow> u8 list" where
  "pending h fd = (case kh_abs h (fd_key fd) of None \<Rightarrow> [] | Some b \<Rightarrow> buffer_bytes b)"

lemma ensure_buffer_spec:
  assumes h: "buffers_ok mtu (local_buffers r)" and small: "kh_n_buckets (local_buffers r) \<le> 2 ^ 30"
    and malloc: "length (os_malloc env (mtu * 20)) = mtu * 20"
  shows "\<exists>h' x block t. ensure_buffer env mtu r fd = Inr (r\<lparr>local_buffers := h'\<rparr>) \<and>
    kh_full h' \<and> kh_holds h' x (fd_key fd) \<and>
    kh_abs h' = (kh_abs (local_buffers r))(fd_key fd \<mapsto> \<lparr>lb_buffer = Some block, lb_tail = Some t\<rparr>) \<and>
    length block = mtu * 20 \<and> t \<le> mtu * 20 \<and> take t block = pending (local_buffers r) fd \<and>
    kh_n_buckets h' \<le> max (kh_n_buckets (local_buffers r))
      (max 4 (4 * card (dom (kh_abs (local_buffers r)))))"
proof (cases "kh_abs (local_buffers r) (fd_key fd)")
  case None
  let ?b = "\<lparr>lb_buffer = Some (os_malloc env (mtu * 20)), lb_tail = Some 0\<rparr>"
  have full: "kh_full (local_buffers r)" using h by (simp add: buffers_ok_def)
  obtain h1 x s h' where p: "kh_put (local_buffers r) (fd_key fd) = Inr (h1, x, s)"
    "kh_set_value h1 x ?b = Inr h'" "kh_full h'"
    "kh_abs h' = (kh_abs (local_buffers r))(fd_key fd \<mapsto> ?b)" "kh_holds h' x (fd_key fd)"
    "kh_n_buckets h' \<le> max (kh_n_buckets (local_buffers r))
      (max 4 (4 * card (dom (kh_abs (local_buffers r)))))"
    using kh_put_set [OF full small, of "fd_key fd" ?b] by blast
  have "ensure_buffer env mtu r fd = Inr (r\<lparr>local_buffers := h'\<rparr>)"
    using kh_no_bucket [OF full None] p(1,2) by (simp add: ensure_buffer_def)
  moreover have "take 0 (os_malloc env (mtu * 20)) = pending (local_buffers r) fd"
    using None by (simp add: pending_def)
  ultimately show ?thesis using p(3-6) malloc by blast
next
  case (Some b)
  have full: "kh_full (local_buffers r)" using h by (simp add: buffers_ok_def)
  have "buffer_ok mtu b" using h Some by (auto simp: buffers_ok_def ran_def)
  then obtain block t where b: "b = \<lparr>lb_buffer = Some block, lb_tail = Some t\<rparr>"
    "length block = mtu * 20" "t \<le> mtu * 20"
    by (auto simp: buffer_ok_def)
  obtain x where x: "kh_get (local_buffers r) (fd_key fd) = Inr x" "kh_holds (local_buffers r) x (fd_key fd)"
    "x \<noteq> kh_end (local_buffers r)"
    using kh_bucket [OF full Some] by blast
  have "ensure_buffer env mtu r fd = Inr (r\<lparr>local_buffers := local_buffers r\<rparr>)"
    using x(1,3) by (simp add: ensure_buffer_def)
  moreover have "take t block = pending (local_buffers r) fd"
    using Some b(1) by (simp add: pending_def buffer_bytes_def)
  moreover have "kh_abs (local_buffers r) = (kh_abs (local_buffers r))
      (fd_key fd \<mapsto> \<lparr>lb_buffer = Some block, lb_tail = Some t\<rparr>)"
    using Some b(1) by (simp add: fun_upd_idem)
  ultimately show ?thesis using full x(2) b(2,3) by (metis max.cobounded1)
qed

lemma take_store:
  assumes "t + length chunk \<le> length block"
  shows "take (t + length chunk) (take t block @ chunk @ drop (t + length chunk) block) =
    take t block @ chunk"
  using assms by simp

definition good_malloc :: "os \<Rightarrow> bool" where
  "good_malloc env \<longleftrightarrow> (\<forall>n. length (os_malloc env n) = n)"

text \<open>Writing back a buffer at the bucket of its descriptor.\<close>

lemma upd_buffer_spec:
  assumes full: "kh_full h" and x: "kh_holds h x (fd_key fd)"
    and abs: "kh_abs h = (kh_abs h0)(fd_key fd \<mapsto> b0)" and h0: "buffers_ok mtu h0"
    and b: "length block = mtu * 20" "t \<le> mtu * 20"
  shows "\<exists>h'. upd_buffer (r\<lparr>local_buffers := h\<rparr>) x \<lparr>lb_buffer = Some block, lb_tail = Some t\<rparr> =
      Inr (r\<lparr>local_buffers := h'\<rparr>) \<and> buffers_ok mtu h' \<and> pending h' fd = take t block \<and>
    (\<forall>k. k \<noteq> fd_key fd \<longrightarrow> kh_abs h' k = kh_abs h0 k) \<and> kh_n_buckets h' = kh_n_buckets h"
proof -
  let ?b = "\<lparr>lb_buffer = Some block, lb_tail = Some t\<rparr>"
  obtain h' where h': "kh_set_value h x ?b = Inr h'" "kh_full h'" "kh_abs h' = (kh_abs h)(fd_key fd \<mapsto> ?b)"
    "kh_n_buckets h' = kh_n_buckets h"
    using kh_set_full [OF full x, of ?b] by blast
  have "buffer_ok mtu ?b" using b by (simp add: buffer_ok_def)
  then have "buffers_ok mtu h'"
    using h'(2,3) abs h0 by (auto simp: buffers_ok_def ran_def split: if_splits)
  moreover have "pending h' fd = take t block" using h'(3) by (simp add: pending_def buffer_bytes_def)
  ultimately show ?thesis
    using h'(1,3,4) abs by (intro exI [of _ h']) (simp add: upd_buffer_def)
qed

text \<open>What resynchronisation leaves at the front of the block, and the packet shifted out of it.\<close>

lemma event_resync:
  assumes "length v < length block" "take (length v) block = v"
  obtains k q block' where "k + q \<le> length v"
    "resync_loop gnw_nextPacket (length v + 1) block (length v) = Inr (block', length v - k, int q)"
    "length block' = length block" "take (length v - k) block' = drop k v"
    "gnw_nextPacket (drop k v) (length v - k) = Inr (int q)"
    "\<forall>i<k. \<exists>e. gnw_nextPacket (drop i v) (length v - i) = Inr e \<and> e < 0"
proof -
  have sz: "length v \<le> length block" "length v < length v + 1" using assms(1) by simp_all
  obtain k block' r where rs: "k \<le> length v"
    "resync_loop gnw_nextPacket (length v + 1) block (length v) = Inr (block', length v - k, r)"
    "length block' = length block" "take (length v - k) block' = take (length v - k) (drop k block)"
    "gnw_nextPacket (drop k block) (length v - k) = Inr r" "0 \<le> r" "r \<le> int (length v - k)"
    "\<forall>i<k. \<exists>e. gnw_nextPacket (drop i block) (length v - i) = Inr e \<and> e < 0"
    using gnw.resync_ends [OF sz] by blast
  have q: "r = int (nat r)" "k + nat r \<le> length v" using rs(1,6,7) by simp_all
  have dropv: "take (length v - i) (drop i block) = drop i v" for i
    using assms(2) by (metis drop_take)
  have same: "gnw_nextPacket (drop i block) (length v - i) = gnw_nextPacket (drop i v) (length v - i)"
    if "i \<le> length v" for i
    by (rule gnw_nextPacket_local) (use dropv [of i] sz(1) in simp_all)
  have neg: "\<forall>i<k. \<exists>e. gnw_nextPacket (drop i v) (length v - i) = Inr e \<and> e < 0"
    using rs(1,8) same by (metis less_imp_le order_trans)
  show ?thesis
    by (rule that [OF q(2) _ rs(3) _ _ neg]) (use rs(2,4,5) same [OF rs(1)] dropv q(1) in simp_all)
qed

lemma event_shift:
  assumes "q \<le> sz" "sz \<le> length block" "take sz block = w" "length d = q"
  obtains block' where "packet_shift block 0 sz (Some d) q = Inr (block', Some (take q w), sz - q)"
    "length block' = length block" "take (sz - q) block' = drop q w"
proof
  let ?b = "take (sz - q) (drop q block) @ drop (sz - q) block"
  have "take q w = take q block" "drop q w = take (sz - q) (drop q block)"
    using assms(1,3) by (auto simp: min_def drop_take)
  then show "packet_shift block 0 sz (Some d) q = Inr (?b, Some (take q w), sz - q)"
    "length ?b = length block" "take (sz - q) ?b = drop q w"
    using packet_shift_copy_eq [OF assms(1,2,4)] assms(1,2) by simp_all
qed

text \<open>An event up to the point where the buffer is written back.\<close>

lemma event_step:
  assumes e: "ensure_buffer env mtu r (poll_fd p) = Inr r0" "kh_get (local_buffers r0) (fd_key (poll_fd p)) = Inr x"
    "kh_value (local_buffers r0) x = Inr \<lparr>lb_buffer = Some block, lb_tail = Some t\<rparr>"
    "length block = mtu * 20" "t \<le> mtu * 20"
    and malloc: "good_malloc env" and ready: "poll_revents p AND POLLIN = POLLIN"
    and chunk: "chunk \<noteq> []" and mtu: "mtu * 20 < 2 ^ 64"
    and v: "v = take t block @ chunk" and room: "length v < mtu * 20"
  obtains k q block' where "k + q \<le> length v" "gnw_nextPacket (drop k v) (length v - k) = Inr (int q)"
    "\<forall>i<k. \<exists>e. gnw_nextPacket (drop i v) (length v - i) = Inr e \<and> e < 0"
    "length block' = mtu * 20" "take (length v - k - q) block' = drop (k + q) v"
    "handle_event env mtu r p (chunk @ rest) (int (length chunk)) =
       andThen (upd_buffer r0 x \<lparr>lb_buffer = Some block', lb_tail = Some (length v - q)\<rparr>) (\<lambda>r.
       if 0 < q then andThen (handle_packet env r (poll_fd p) (take q (drop k v)) q) (\<lambda>r. Inr (r, p))
       else Inr (r, p))"
proof -
  let ?n = "length chunk"
  have lv: "length v = t + ?n" using v e(4,5) by simp
  have sub: "size_sub (mtu * 20) t = mtu * 20 - t" by (rule size_sub_eq [OF e(5) mtu])
  have fits: "?n < mtu * 20 - t" using room lv by simp
  define block2 where "block2 = take t block @ chunk @ drop (t + ?n) block"
  have st: "store_block block t chunk = Inr block2" using fits e(4) by (simp add: store_block_def block2_def)
  have b2: "length block2 = mtu * 20" "take (length v) block2 = v"
    using fits e(4,5) lv v take_store [of t chunk block] by (simp_all add: block2_def)
  have small: "length v < length block2" using room b2(1) by simp
  obtain k q block3 where rs: "k + q \<le> length v"
    "resync_loop gnw_nextPacket (length v + 1) block2 (length v) = Inr (block3, length v - k, int q)"
    "length block3 = length block2" "take (length v - k) block3 = drop k v"
    "gnw_nextPacket (drop k v) (length v - k) = Inr (int q)"
    "\<forall>i<k. \<exists>e. gnw_nextPacket (drop i v) (length v - i) = Inr e \<and> e < 0"
    using event_resync [OF small b2(2)] by blast
  have pre: "handle_event env mtu r p (chunk @ rest) (int ?n) =
      (if 0 < q then
         andThen (packet_shift block3 0 (length v - k) (Some (os_malloc env q)) q) (\<lambda>(block, packet, _).
         andThen (upd_buffer r0 x \<lparr>lb_buffer = Some block, lb_tail = Some (length v - q)\<rparr>) (\<lambda>r.
         andThen (assert_that True (q \<le> length v)) (\<lambda>_.
         andThen (handle_packet env r (poll_fd p) (the packet) q) (\<lambda>r. Inr (r, p)))))
       else andThen (upd_buffer r0 x \<lparr>lb_buffer = Some block3, lb_tail = Some (length v)\<rparr>) (\<lambda>r. Inr (r, p)))"
    using ready chunk e(1-3) sub fits st rs(2) lv
    unfolding handle_event_def by (simp add: non_null_def load_block_def Let_def)
  show ?thesis
  proof (cases "0 < q")
    case False
    then show ?thesis using rs pre b2(1) by (intro that [of k q block3]) simp_all
  next
    case True
    have le: "q \<le> length v - k" "length v - k \<le> length block3" "length (os_malloc env q) = q"
      using rs(1,3) small malloc by (simp_all add: good_malloc_def)
    obtain block4 where b4: "packet_shift block3 0 (length v - k) (Some (os_malloc env q)) q =
        Inr (block4, Some (take q (drop k v)), length v - k - q)"
      "length block4 = length block3" "take (length v - k - q) block4 = drop q (drop k v)"
      using event_shift [OF le(1,2) rs(4) le(3)] by blast
    have "q \<le> length v" using rs(1) by simp
    then show ?thesis
      using rs pre b4 b2(1) True by (intro that [of k q block4]) (simp_all add: add.commute)
  qed
qed

lemma handle_event_spec:
  assumes h: "buffers_ok mtu (local_buffers r)" and small: "kh_n_buckets (local_buffers r) \<le> 2 ^ 30"
    and malloc: "good_malloc env" and ready: "poll_revents p AND POLLIN = POLLIN"
    and chunk: "chunk \<noteq> []" and mtu: "mtu * 20 < 2 ^ 64"
    and v: "v = pending (local_buffers r) (poll_fd p) @ chunk" and room: "length v < mtu * 20"
  shows "\<exists>k q h1. k \<le> length v \<and> gnw_nextPacket (drop k v) (length v - k) = Inr (int q) \<and>
    k + q \<le> length v \<and> (\<forall>i<k. \<exists>e. gnw_nextPacket (drop i v) (length v - i) = Inr e \<and> e < 0) \<and>
    handle_event env mtu r p (chunk @ rest) (int (length chunk)) =
      (if 0 < q then andThen (handle_packet env (r\<lparr>local_buffers := h1\<rparr>) (poll_fd p) (take q (drop k v)) q)
         (\<lambda>r. Inr (r, p))
       else Inr (r\<lparr>local_buffers := h1\<rparr>, p)) \<and>
    buffers_ok mtu h1 \<and> length (pending h1 (poll_fd p)) = length v - q \<and>
    take (length v - k - q) (pending h1 (poll_fd p)) = drop (k + q) v \<and>
    (\<forall>a. a \<noteq> fd_key (poll_fd p) \<longrightarrow> kh_abs h1 a = kh_abs (local_buffers r) a) \<and>
    kh_n_buckets h1 \<le> max (kh_n_buckets (local_buffers r))
      (max 4 (4 * card (dom (kh_abs (local_buffers r)))))"
proof -
  let ?fd = "poll_fd p"
  have ml: "length (os_malloc env m) = m" for m using malloc by (simp add: good_malloc_def)
  obtain h0 x block t where e: "ensure_buffer env mtu r ?fd = Inr (r\<lparr>local_buffers := h0\<rparr>)"
    "kh_full h0" "kh_holds h0 x (fd_key ?fd)"
    "kh_abs h0 = (kh_abs (local_buffers r))(fd_key ?fd \<mapsto> \<lparr>lb_buffer = Some block, lb_tail = Some t\<rparr>)"
    "length block = mtu * 20" "t \<le> mtu * 20" "take t block = pending (local_buffers r) ?fd"
    "kh_n_buckets h0 \<le> max (kh_n_buckets (local_buffers r))
      (max 4 (4 * card (dom (kh_abs (local_buffers r)))))"
    using ensure_buffer_spec [OF h small ml, of ?fd] by blast
  have get: "kh_get (local_buffers (r\<lparr>local_buffers := h0\<rparr>)) (fd_key ?fd) = Inr x"
    using kh_get_holds [OF e(2,3)] by simp
  have val: "kh_value (local_buffers (r\<lparr>local_buffers := h0\<rparr>)) x = Inr \<lparr>lb_buffer = Some block, lb_tail = Some t\<rparr>"
    using kh_bucket [OF e(2), of "fd_key ?fd"] e(4) get by auto
  obtain k q block' where step: "k + q \<le> length v" "gnw_nextPacket (drop k v) (length v - k) = Inr (int q)"
    "\<forall>i<k. \<exists>e. gnw_nextPacket (drop i v) (length v - i) = Inr e \<and> e < 0"
    "length block' = mtu * 20" "take (length v - k - q) block' = drop (k + q) v"
    "handle_event env mtu r p (chunk @ rest) (int (length chunk)) =
       andThen (upd_buffer (r\<lparr>local_buffers := h0\<rparr>) x \<lparr>lb_buffer = Some block', lb_tail = Some (length v - q)\<rparr>) (\<lambda>r.
       if 0 < q then andThen (handle_packet env r ?fd (take q (drop k v)) q) (\<lambda>r. Inr (r, p)) else Inr (r, p))"
    by (rule event_step [OF e(1) get val e(5,6) malloc ready chunk mtu _ room, of rest]) (use v e(7) in simp, blast)
  have fits: "length v - q \<le> mtu * 20" using room by simp
  obtain h1 where u: "upd_buffer (r\<lparr>local_buffers := h0\<rparr>) x
      \<lparr>lb_buffer = Some block', lb_tail = Some (length v - q)\<rparr> = Inr (r\<lparr>local_buffers := h1\<rparr>)"
    "buffers_ok mtu h1" "pending h1 ?fd = take (length v - q) block'"
    "\<forall>a. a \<noteq> fd_key ?fd \<longrightarrow> kh_abs h1 a = kh_abs (local_buffers r) a" "kh_n_buckets h1 = kh_n_buckets h0"
    using upd_buffer_spec [OF e(2,3,4) h step(4) fits] by blast
  have "length (pending h1 ?fd) = length v - q" "take (length v - k - q) (pending h1 ?fd) = drop (k + q) v"
    using u(3) step(4,5) fits by (simp_all add: min_absorb1)
  then show ?thesis
    using step(1-3,6) u(1,2,4,5) e(8) by (intro exI [of _ k] exI [of _ q] exI [of _ h1]) simp
qed

end
