(* ===== verification/RouterEvents.thy ===== *)
theory RouterEvents
  imports RouterLoop
begin

text \<open>
  Properties of the router's event handling: frames cut into arbitrary reads are put together
  again, and what happens when they cannot be (a wrapped length, junk on the wire, a full buffer),
  the printing of the table, and the policy command of the command line.
\<close>

section \<open>Frames in pieces\<close>

definition room_ok :: "local_buffer khash \<Rightarrow> int \<Rightarrow> bool" where
  "room_ok h fd \<longleftrightarrow> kh_n_buckets h \<le> 2 ^ 30 \<and>
     finite (dom (kh_abs h)) \<and> card (Set.insert (fd_key fd) (dom (kh_abs h))) \<le> 2 ^ 28"

lemma room_ok_next:
  assumes "room_ok h fd" "\<forall>a. a \<noteq> fd_key fd \<longrightarrow> kh_abs h1 a = kh_abs h a"
    and "kh_n_buckets h1 \<le> max (kh_n_buckets h) (max 4 (4 * card (dom (kh_abs h))))"
  shows "room_ok h1 fd"
proof -
  have eq: "Set.insert (fd_key fd) (dom (kh_abs h1)) = Set.insert (fd_key fd) (dom (kh_abs h))"
    using assms(2) by (auto simp: dom_def)
  have fin: "finite (dom (kh_abs h1))"
    using assms(1) eq unfolding room_ok_def by (metis finite_insert)
  have "card (dom (kh_abs h)) \<le> card (Set.insert (fd_key fd) (dom (kh_abs h)))"
    using assms(1) by (intro card_mono) (auto simp: room_ok_def)
  then have "card (dom (kh_abs h)) \<le> 2 ^ 28" using assms(1) unfolding room_ok_def by linarith
  then have "max (kh_n_buckets h) (max 4 (4 * card (dom (kh_abs h)))) \<le> 2 ^ 30"
    using assms(1) unfolding room_ok_def by simp
  then have "kh_n_buckets h1 \<le> 2 ^ 30" using assms(3) by (rule order_trans [rotated])
  then show ?thesis using assms(1) eq fin unfolding room_ok_def by simp
qed

lemma event_whole:
  assumes h: "buffers_ok mtu (local_buffers r)" and small: "kh_n_buckets (local_buffers r) \<le> 2 ^ 30"
    and malloc: "good_malloc env" and ready: "poll_revents p AND POLLIN = POLLIN"
    and chunk: "chunk \<noteq> []" and mtu: "mtu * 20 < 2 ^ 64"
    and v: "pending (local_buffers r) (poll_fd p) @ chunk = frame_bytes t s pl @ rest"
    and room: "11 + length pl + length rest < mtu * 20" and len: "11 + length pl < 2 ^ 32"
  shows "\<exists>h1. handle_event env mtu r p chunk (int (length chunk)) =
      andThen (handle_packet env (r\<lparr>local_buffers := h1\<rparr>) (poll_fd p) (frame_bytes t s pl) (11 + length pl))
        (\<lambda>r. Inr (r, p)) \<and>
    buffers_ok mtu h1 \<and> pending h1 (poll_fd p) = rest \<and>
    (\<forall>a. a \<noteq> fd_key (poll_fd p) \<longrightarrow> kh_abs h1 a = kh_abs (local_buffers r) a) \<and>
    kh_n_buckets h1 \<le> max (kh_n_buckets (local_buffers r))
      (max 4 (4 * card (dom (kh_abs (local_buffers r)))))"
proof -
  let ?v = "frame_bytes t s pl @ rest"
  have room': "length ?v < mtu * 20" using room by simp
  obtain k q h1 where e: "k \<le> length ?v" "gnw_nextPacket (drop k ?v) (length ?v - k) = Inr (int q)"
    "k + q \<le> length ?v" "\<forall>i<k. \<exists>e. gnw_nextPacket (drop i ?v) (length ?v - i) = Inr e \<and> e < 0"
    "handle_event env mtu r p (chunk @ []) (int (length chunk)) =
      (if 0 < q then andThen (handle_packet env (r\<lparr>local_buffers := h1\<rparr>) (poll_fd p) (take q (drop k ?v)) q)
         (\<lambda>r. Inr (r, p))
       else Inr (r\<lparr>local_buffers := h1\<rparr>, p))"
    "buffers_ok mtu h1" "length (pending h1 (poll_fd p)) = length ?v - q"
    "take (length ?v - k - q) (pending h1 (poll_fd p)) = drop (k + q) ?v"
    "\<forall>a. a \<noteq> fd_key (poll_fd p) \<longrightarrow> kh_abs h1 a = kh_abs (local_buffers r) a"
    "kh_n_buckets h1 \<le> max (kh_n_buckets (local_buffers r))
      (max 4 (4 * card (dom (kh_abs (local_buffers r)))))"
    using handle_event_spec [OF h small malloc ready chunk mtu v [symmetric] room', of "[]"] by blast
  have next0: "gnw_nextPacket ?v (length ?v) = Inr (11 + int (length pl))"
    by (rule gnw_nextPacket_frame [OF len]) simp_all
  have k: "k = 0"
  proof (rule ccontr)
    assume "k \<noteq> 0"
    then obtain e where "gnw_nextPacket (drop 0 ?v) (length ?v - 0) = Inr e" "e < 0" using e(4) by blast
    then show False using next0 by simp
  qed
  then have "int q = 11 + int (length pl)" using e(2) next0 by simp
  then have q: "q = 11 + length pl" by simp
  have "pending h1 (poll_fd p) = rest" using e(7,8) k q by simp
  then show ?thesis using e(5,6,9,10) k q by (intro exI [of _ h1]) simp
qed

lemma event_partial:
  assumes h: "buffers_ok mtu (local_buffers r)" and small: "kh_n_buckets (local_buffers r) \<le> 2 ^ 30"
    and malloc: "good_malloc env" and ready: "poll_revents p AND POLLIN = POLLIN"
    and chunk: "chunk \<noteq> []" and mtu: "mtu * 20 < 2 ^ 64"
    and v: "frame_bytes t s pl = (pending (local_buffers r) (poll_fd p) @ chunk) @ missing"
    and missing: "missing \<noteq> []"
    and room: "11 + length pl < mtu * 20" and len: "11 + length pl < 2 ^ 32"
  shows "\<exists>h1. handle_event env mtu r p chunk (int (length chunk)) = Inr (r\<lparr>local_buffers := h1\<rparr>, p) \<and>
    buffers_ok mtu h1 \<and> pending h1 (poll_fd p) = pending (local_buffers r) (poll_fd p) @ chunk \<and>
    (\<forall>a. a \<noteq> fd_key (poll_fd p) \<longrightarrow> kh_abs h1 a = kh_abs (local_buffers r) a) \<and>
    kh_n_buckets h1 \<le> max (kh_n_buckets (local_buffers r))
      (max 4 (4 * card (dom (kh_abs (local_buffers r)))))"
proof -
  let ?v = "pending (local_buffers r) (poll_fd p) @ chunk"
  have "length (frame_bytes t s pl) = length ?v + length missing" unfolding v by simp
  then have lv: "length ?v < 11 + length pl" using missing by simp
  then have room': "length ?v < mtu * 20" using room by linarith
  obtain k q h1 where e: "k \<le> length ?v" "gnw_nextPacket (drop k ?v) (length ?v - k) = Inr (int q)"
    "k + q \<le> length ?v" "\<forall>i<k. \<exists>e. gnw_nextPacket (drop i ?v) (length ?v - i) = Inr e \<and> e < 0"
    "handle_event env mtu r p (chunk @ []) (int (length chunk)) =
      (if 0 < q then andThen (handle_packet env (r\<lparr>local_buffers := h1\<rparr>) (poll_fd p) (take q (drop k ?v)) q)
         (\<lambda>r. Inr (r, p))
       else Inr (r\<lparr>local_buffers := h1\<rparr>, p))"
    "buffers_ok mtu h1" "length (pending h1 (poll_fd p)) = length ?v - q"
    "take (length ?v - k - q) (pending h1 (poll_fd p)) = drop (k + q) ?v"
    "\<forall>a. a \<noteq> fd_key (poll_fd p) \<longrightarrow> kh_abs h1 a = kh_abs (local_buffers r) a"
    "kh_n_buckets h1 \<le> max (kh_n_buckets (local_buffers r))
      (max 4 (4 * card (dom (kh_abs (local_buffers r)))))"
    using handle_event_spec [OF h small malloc ready chunk mtu refl room', of "[]"] by blast
  have "take (length ?v) ?v = take (length ?v) (frame_bytes t s pl)" unfolding v by simp
  then have next0: "gnw_nextPacket ?v (length ?v) = Inr 0"
    using gnw_nextPacket_partial [OF len lv, of ?v t s] by simp
  have k: "k = 0"
  proof (rule ccontr)
    assume "k \<noteq> 0"
    then obtain e where "gnw_nextPacket (drop 0 ?v) (length ?v - 0) = Inr e" "e < 0" using e(4) by blast
    then show False using next0 by simp
  qed
  then have q: "q = 0" using e(2) next0 by simp
  have "pending h1 (poll_fd p) = ?v" using e(7,8) k q by simp
  then show ?thesis using e(5,6,9,10) k q by (intro exI [of _ h1]) simp
qed

text \<open>Successive reads of one connection.\<close>

fun event_run :: "os \<Rightarrow> nat \<Rightarrow> pollfd \<Rightarrow> u8 list list \<Rightarrow> router \<Rightarrow> router result" where
  "event_run env mtu p [] r = Inr r"
| "event_run env mtu p (c # cs) r =
     andThen (handle_event env mtu r p c (int (length c))) (\<lambda>(r, p). event_run env mtu p cs r)"

lemma andThen_pair: "andThen (andThen m (\<lambda>r. Inr (r, p))) (\<lambda>(r, p). Inr r) = m"
  by (cases m) simp_all

lemma event_run_frame:
  assumes "good_malloc env" "poll_revents p AND POLLIN = POLLIN" "mtu * 20 < 2 ^ 64"
    and "11 + length pl < mtu * 20" "11 + length pl < 2 ^ 32"
  shows "buffers_ok mtu (local_buffers r) \<Longrightarrow> room_ok (local_buffers r) (poll_fd p) \<Longrightarrow>
    pending (local_buffers r) (poll_fd p) @ concat cs = frame_bytes t s pl \<Longrightarrow>
    \<forall>c\<in>set cs. c \<noteq> [] \<Longrightarrow> cs \<noteq> [] \<Longrightarrow>
    \<exists>h1. event_run env mtu p cs r =
      handle_packet env (r\<lparr>local_buffers := h1\<rparr>) (poll_fd p) (frame_bytes t s pl) (11 + length pl) \<and>
    buffers_ok mtu h1 \<and> pending h1 (poll_fd p) = [] \<and>
    (\<forall>a. a \<noteq> fd_key (poll_fd p) \<longrightarrow> kh_abs h1 a = kh_abs (local_buffers r) a)"
proof (induction cs arbitrary: r)
  case (Cons c cs)
  have small: "kh_n_buckets (local_buffers r) \<le> 2 ^ 30" using Cons.prems(2) by (simp add: room_ok_def)
  have c: "c \<noteq> []" using Cons.prems(4) by simp
  show ?case
  proof (cases "cs = []")
    case True
    then have v: "pending (local_buffers r) (poll_fd p) @ c = frame_bytes t s pl @ []"
      using Cons.prems(3) by simp
    have room: "11 + length pl + length ([] :: u8 list) < mtu * 20" using assms(4) by simp
    obtain h1 where h1: "handle_event env mtu r p c (int (length c)) =
        andThen (handle_packet env (r\<lparr>local_buffers := h1\<rparr>) (poll_fd p) (frame_bytes t s pl) (11 + length pl))
          (\<lambda>r. Inr (r, p))"
      "buffers_ok mtu h1" "pending h1 (poll_fd p) = []"
      "\<forall>a. a \<noteq> fd_key (poll_fd p) \<longrightarrow> kh_abs h1 a = kh_abs (local_buffers r) a"
      using event_whole [OF Cons.prems(1) small assms(1,2) c assms(3) v room assms(5)] by blast
    then show ?thesis using True by (intro exI [of _ h1]) (simp add: andThen_pair)
  next
    case False
    then have miss: "concat cs \<noteq> []" using Cons.prems(4) by (cases cs) auto
    have v: "frame_bytes t s pl = (pending (local_buffers r) (poll_fd p) @ c) @ concat cs"
      using Cons.prems(3) by simp
    obtain h1 where h1: "handle_event env mtu r p c (int (length c)) = Inr (r\<lparr>local_buffers := h1\<rparr>, p)"
      "buffers_ok mtu h1" "pending h1 (poll_fd p) = pending (local_buffers r) (poll_fd p) @ c"
      "\<forall>a. a \<noteq> fd_key (poll_fd p) \<longrightarrow> kh_abs h1 a = kh_abs (local_buffers r) a"
      "kh_n_buckets h1 \<le> max (kh_n_buckets (local_buffers r))
        (max 4 (4 * card (dom (kh_abs (local_buffers r)))))"
      using event_partial [OF Cons.prems(1) small assms(1,2) c assms(3) v miss assms(4,5)] by blast
    let ?r1 = "r\<lparr>local_buffers := h1\<rparr>"
    have pre: "buffers_ok mtu (local_buffers ?r1)" "room_ok (local_buffers ?r1) (poll_fd p)"
      "pending (local_buffers ?r1) (poll_fd p) @ concat cs = frame_bytes t s pl"
      "\<forall>c\<in>set cs. c \<noteq> []" "cs \<noteq> []"
      using h1(2,3) room_ok_next [OF Cons.prems(2) h1(4,5)] v Cons.prems(4) False by simp_all
    show ?thesis using Cons.IH [OF pre] h1(1,4) by simp
  qed
qed simp

text \<open>
  C5: How TCP cuts a frame into reads does not matter. When nothing is pending on a connection and
  one whole frame arrives over any number of non-empty reads cut anywhere, the events handle
  exactly that frame, once, at the last read, and leave nothing pending; the buffers of all other
  connections are untouched.
\<close>

theorem frame_reassembled:
  assumes "buffers_ok mtu (local_buffers r)" "room_ok (local_buffers r) (poll_fd p)"
    and "pending (local_buffers r) (poll_fd p) = []"
    and "concat cs = frame_bytes t s pl" "\<forall>c\<in>set cs. c \<noteq> []"
    and "good_malloc env" "poll_revents p AND POLLIN = POLLIN" "mtu * 20 < 2 ^ 64"
    and "11 + length pl < mtu * 20" "11 + length pl < 2 ^ 32"
  shows "\<exists>h1. event_run env mtu p cs r =
      handle_packet env (r\<lparr>local_buffers := h1\<rparr>) (poll_fd p) (frame_bytes t s pl) (11 + length pl) \<and>
    buffers_ok mtu h1 \<and> pending h1 (poll_fd p) = [] \<and>
    (\<forall>a. a \<noteq> fd_key (poll_fd p) \<longrightarrow> kh_abs h1 a = kh_abs (local_buffers r) a)"
proof -
  have "cs \<noteq> []" using assms(4) by (auto simp: frame_bytes_def)
  then show ?thesis
    using event_run_frame [OF assms(6-10,1,2), of cs t s] assms(3-5) by simp
qed

lemma router_init_buffers: "buffers_ok mtu (local_buffers router_init)"
  "room_ok (local_buffers router_init) fd" "pending (local_buffers router_init) fd = []"
  "kh_n_buckets (local_buffers router_init) = 0"
proof -
  have init: "local_buffers router_init = kh_init" by (simp add: router_init_def)
  show "buffers_ok mtu (local_buffers router_init)" "room_ok (local_buffers router_init) fd"
    "pending (local_buffers router_init) fd = []" "kh_n_buckets (local_buffers router_init) = 0"
    unfolding init by (simp_all add: buffers_ok_def room_ok_def pending_def kh_full_init)
qed

lemma plain_os_malloc: "good_malloc plain_os"
  by (simp add: good_malloc_def plain_os_def)

definition client_poll :: pollfd where
  "client_poll = \<lparr>poll_fd = 5, poll_events = POLLIN, poll_revents = POLLIN\<rparr>"

lemma client_poll_simps [simp]: "poll_fd client_poll = 5" "poll_revents client_poll AND POLLIN = POLLIN"
  by (simp_all add: client_poll_def POLLIN_def)

theorem frame_reassembled_witness:
  "\<exists>h1. event_run plain_os 1500 client_poll
        [take 3 (message_bytes (Claim 7)), drop 3 (message_bytes (Claim 7))] router_init =
      handle_packet plain_os (router_init\<lparr>local_buffers := h1\<rparr>) 5 (message_bytes (Claim 7)) 16 \<and>
    pending h1 5 = []"
proof -
  let ?f = "frame_bytes GNW_COMMAND 0xFFFFFFFF (GNW_CMD_NEW_ADDRESS # bytes32 7)"
  have "length (take 3 ?f) = 3" "length (drop 3 ?f) = 13" by simp_all
  then have "take 3 ?f \<noteq> []" "drop 3 ?f \<noteq> []" by (metis list.size(3) zero_neq_numeral)+
  then have ne: "\<forall>c\<in>set [take 3 ?f, drop 3 ?f]. c \<noteq> []" by simp
  show ?thesis
    using frame_reassembled [OF router_init_buffers(1,2), of client_poll "[take 3 ?f, drop 3 ?f]"
        GNW_COMMAND "0xFFFFFFFF" "GNW_CMD_NEW_ADDRESS # bytes32 7" plain_os 1500]
      ne plain_os_malloc router_init_buffers(3)
    by auto
qed

section \<open>Frames that cannot be handled\<close>

lemma short_packet_faults:
  "0 < len \<Longrightarrow> length buffer < 11 \<Longrightarrow> handle_packet env r fd buffer len = Inl OutOfBounds"
  by (simp add: handle_packet_def gnw_parse_header_short)

text \<open>
  C12: Eleven bytes from any client end the router. On a connection with nothing pending, a read
  that delivers only a header with a length field between \<open>2 ^ 32 - 10\<close> and \<open>2 ^ 32 - 1\<close> makes the
  parser announce a packet of one to ten bytes, and \<open>handle_packet\<close> reads its header beyond the
  end of the copied packet, whatever the state of the router.
\<close>

theorem wrapped_length_faults:
  assumes "buffers_ok mtu (local_buffers r)" "kh_n_buckets (local_buffers r) \<le> 2 ^ 30"
    and "pending (local_buffers r) (poll_fd p) = []"
    and "good_malloc env" "poll_revents p AND POLLIN = POLLIN" "mtu * 20 < 2 ^ 64" "1 \<le> mtu"
    and "length chunk = 11" "chunk ! 0 = GNW_MAGIC" "chunk ! 1 = GNW_VERSION"
    and "2 ^ 32 - 10 \<le> uint (wire_length chunk)"
  shows "handle_event env mtu r p chunk 11 = Inl OutOfBounds"
proof -
  have ne: "chunk \<noteq> []" using assms(8) by auto
  have v: "chunk = pending (local_buffers r) (poll_fd p) @ chunk" using assms(3) by simp
  have room: "length chunk < mtu * 20" using assms(7,8) by simp
  obtain k q h1 where e: "gnw_nextPacket (drop k chunk) (length chunk - k) = Inr (int q)"
    "\<forall>i<k. \<exists>e. gnw_nextPacket (drop i chunk) (length chunk - i) = Inr e \<and> e < 0"
    "handle_event env mtu r p (chunk @ []) (int (length chunk)) =
      (if 0 < q then andThen (handle_packet env (r\<lparr>local_buffers := h1\<rparr>) (poll_fd p) (take q (drop k chunk)) q)
         (\<lambda>r. Inr (r, p))
       else Inr (r\<lparr>local_buffers := h1\<rparr>, p))"
    using handle_event_spec [OF assms(1,2,4,5) ne assms(6) v room, of "[]"] by blast
  let ?w = "wire_length chunk"
  have lt: "uint ?w < 2 ^ 32" using uint_lt2p [of ?w] by simp
  have "uint (11 + ?w) = (11 + uint ?w) mod 2 ^ 32" by (simp add: uint_word_ariths)
  also have "\<dots> = uint ?w - (2 ^ 32 - 11)" using lt assms(11) by (subst mod_pos_geq) auto
  finally have u: "uint (11 + ?w) = uint ?w - (2 ^ 32 - 11)" .
  then have small: "int (unat (11 + ?w)) < 11" "0 < uint (11 + ?w)" using lt assms(11) by auto
  then have "unat (11 + ?w) \<le> 11" by linarith
  then have next0: "gnw_nextPacket chunk 11 = Inr (uint (11 + ?w))"
    using gnw_nextPacket_eq [of 11 chunk] assms(8-10) by simp
  have k: "k = 0"
  proof (rule ccontr)
    assume "k \<noteq> 0"
    then obtain e where "gnw_nextPacket (drop 0 chunk) (length chunk - 0) = Inr e" "e < 0"
      using e(2) by blast
    then show False using next0 assms(8) small(2) by simp
  qed
  then have "int q = uint (11 + ?w)" using e(1) next0 assms(8) by simp
  then have q: "0 < q" "q < 11" using small by auto
  then have "handle_packet env (r\<lparr>local_buffers := h1\<rparr>) (poll_fd p) (take q (drop k chunk)) q = Inl OutOfBounds"
    by (intro short_packet_faults) simp_all
  then show ?thesis using e(3) q assms(8) by simp
qed

theorem wrapped_length_faults_witness:
  "handle_event plain_os 1500 router_init client_poll
     [0x55, 2, 0x10, 1, 0, 0, 0, 0xF8, 0xFF, 0xFF, 0xFF] 11 = Inl OutOfBounds"
proof -
  let ?b = "[0x55, 2, 0x10, 1, 0, 0, 0, 0xF8, 0xFF, 0xFF, 0xFF] :: u8 list"
  have w: "wire_length ?b = 0xFFFFFFF8"
    by (simp add: wire_length_def word32_at_def byteswap32_def)
  show ?thesis
    by (rule wrapped_length_faults)
      (simp_all add: router_init_buffers plain_os_malloc w gnw_constants)
qed

text \<open>
  C15: Resynchronisation leaves stale bytes. When bytes other than the magic number precede a frame,
  the router skips them and handles the frame, but it keeps as many stale bytes pending as it
  skipped: the tail of the buffer is moved back by the packet only. Without junk nothing would
  stay.
\<close>

theorem resync_leaves_stale:
  assumes "buffers_ok mtu (local_buffers r)" "kh_n_buckets (local_buffers r) \<le> 2 ^ 30"
    and "pending (local_buffers r) (poll_fd p) = []"
    and "good_malloc env" "poll_revents p AND POLLIN = POLLIN" "mtu * 20 < 2 ^ 64"
    and "GNW_MAGIC \<notin> set junk" "length junk + 11 + length pl < mtu * 20" "11 + length pl < 2 ^ 32"
  shows "\<exists>h1. handle_event env mtu r p (junk @ frame_bytes t s pl) (int (length (junk @ frame_bytes t s pl))) =
      andThen (handle_packet env (r\<lparr>local_buffers := h1\<rparr>) (poll_fd p) (frame_bytes t s pl) (11 + length pl))
        (\<lambda>r. Inr (r, p)) \<and>
    length (pending h1 (poll_fd p)) = length junk"
proof -
  let ?v = "junk @ frame_bytes t s pl"
  have lv: "length ?v = length junk + 11 + length pl" by simp
  have ne: "?v \<noteq> []" using lv by (metis add_is_0 list.size(3) zero_neq_numeral)
  have v: "?v = pending (local_buffers r) (poll_fd p) @ ?v" using assms(3) by simp
  have room: "length ?v < mtu * 20" using assms(8) by simp
  obtain k q h1 where e: "k \<le> length ?v" "gnw_nextPacket (drop k ?v) (length ?v - k) = Inr (int q)"
    "\<forall>i<k. \<exists>e. gnw_nextPacket (drop i ?v) (length ?v - i) = Inr e \<and> e < 0"
    "handle_event env mtu r p (?v @ []) (int (length ?v)) =
      (if 0 < q then andThen (handle_packet env (r\<lparr>local_buffers := h1\<rparr>) (poll_fd p) (take q (drop k ?v)) q)
         (\<lambda>r. Inr (r, p))
       else Inr (r\<lparr>local_buffers := h1\<rparr>, p))"
    "length (pending h1 (poll_fd p)) = length ?v - q"
    using handle_event_spec [OF assms(1,2,4,5) ne assms(6) v room, of "[]"] by blast
  have skip: "gnw_nextPacket (drop i ?v) (length ?v - i) = Inr (-1)" if "i < length junk" for i
  proof -
    have "drop i ?v ! 0 = junk ! i" using that by (simp add: nth_append)
    then have "drop i ?v ! 0 \<noteq> GNW_MAGIC" using that assms(7) by (metis nth_mem)
    then show ?thesis using that gnw_nextPacket_eq [of "length ?v - i" "drop i ?v"] by simp
  qed
  have stop: "gnw_nextPacket (drop (length junk) ?v) (length ?v - length junk) = Inr (11 + int (length pl))"
    using gnw_nextPacket_frame [OF assms(9), of "11 + length pl" "[]" t s] by simp
  have k: "k = length junk"
  proof (rule linorder_cases)
    assume "k < length junk"
    then show ?thesis using skip [of k] e(2) by simp
  next
    assume "length junk < k"
    then obtain e where "gnw_nextPacket (drop (length junk) ?v) (length ?v - length junk) = Inr e" "e < 0"
      using e(3) by blast
    then show ?thesis using stop by simp
  qed
  then have q: "q = 11 + length pl" using e(2) stop by simp
  have "take q (drop k ?v) = frame_bytes t s pl" using k q by simp
  then show ?thesis using e(4,5) q by (intro exI [of _ h1]) simp
qed

theorem resync_leaves_stale_witness:
  "\<exists>h1. handle_event plain_os 1500 router_init client_poll ([1, 2] @ message_bytes (Claim 7)) 18 =
      andThen (handle_packet plain_os (router_init\<lparr>local_buffers := h1\<rparr>) 5 (message_bytes (Claim 7)) 16)
        (\<lambda>r. Inr (r, client_poll)) \<and>
    length (pending h1 5) = 2"
  using resync_leaves_stale [OF router_init_buffers(1), of client_poll plain_os 1500 "[1, 2]"
      "GNW_CMD_NEW_ADDRESS # bytes32 7" GNW_COMMAND "0xFFFFFFFF"]
  by (simp add: router_init_buffers plain_os_malloc gnw_constants small_numerals)

section \<open>Printing\<close>

lemma print_targets_total:
  assumes "kv_ok (forward c)"
  shows "i + left \<le> kv_n (forward c) \<Longrightarrow>
    print_targets c i left = Inr (take left (drop i (kv_list (forward c))))"
proof (induction left arbitrary: i)
  case (Suc left)
  have i: "i < kv_n (forward c)" using Suc.prems by simp
  have "kv_a (forward c) (\<lambda>_. i) = Inr (forward c, 3, kv_list (forward c) ! i)"
    using kv_a_inside [OF assms, of "\<lambda>_. i"] i by simp
  moreover have "drop i (kv_list (forward c)) = kv_list (forward c) ! i # drop (i + 1) (kv_list (forward c))"
    using i assms by (simp add: Cons_nth_drop_Suc)
  moreover have "c\<lparr>forward := forward c\<rparr> = c" by simp
  ultimately show ?case using Suc.IH [of "i + 1"] Suc.prems by simp
qed simp

lemma print_row_total:
  assumes "ctx_ok c"
  shows "\<exists>row. print_row key c = Inr row"
proof -
  have "print_targets c 0 (kv_n (forward c)) = Inr (take (kv_n (forward c)) (drop 0 (kv_list (forward c))))"
    by (rule print_targets_total) (use assms in \<open>simp_all add: ctx_ok_def\<close>)
  moreover obtain b where "fmt_iec_size (bytes_in c) = Inr b" using fmt_iec_size_total by blast
  moreover obtain b' where "fmt_iec_size (bytes_out c) = Inr b'" using fmt_iec_size_total by blast
  ultimately show ?thesis by (simp add: print_row_def)
qed

lemma kh_exist_in:
  assumes "kh_ok h" "i < kh_n_buckets h"
  shows "kh_exist h i = Inr (i \<in> live (kh_flags h) (kh_n_buckets h))"
proof -
  have "i div 16 < length (kh_flags h)"
    using flag_word_in [OF kh_ok_shape(5) [OF assms(1)] assms(2)] kh_ok_shape(3) [OF assms(1)] assms(2)
    by simp
  then show ?thesis using assms(2) by (auto simp: kh_exist_def live_def)
qed

lemma live_context:
  assumes "table_ok h" "i \<in> live (kh_flags h) (kh_n_buckets h)"
  obtains c where "kh_value h i = Inr c" "kh_abs h (kh_keys h ! i) = Some c" "ctx_ok c"
proof -
  have full: "kh_full h" and ok: "kh_ok h" using table_okD [OF assms(1)] by simp_all
  have holds: "kh_holds h i (kh_keys h ! i)" using assms(2) by (simp add: kh_holds_def)
  have map: "kh_map h (kh_keys h ! i) = Some (kh_vals h ! i)" by (rule kh_holdsD(5) [OF ok holds])
  then obtain c where c: "kh_vals h ! i = Some c"
    using full by (cases "kh_vals h ! i") (auto simp: kh_full_def ran_def)
  have "kh_abs h (kh_keys h ! i) = Some c" using kh_abs_some [OF full] map c by simp
  then show thesis using that kh_value_holds [OF ok holds c] table_okD(3) [OF assms(1)] by blast
qed

lemma print_table_from:
  assumes h: "table_ok h" and opened: "\<forall>a c. kh_abs h a = Some c \<longrightarrow> ctx_state c \<noteq> GNW_STATE_CLOSE"
  shows "iter \<le> kh_n_buckets h \<Longrightarrow> kh_n_buckets h - iter < fuel \<Longrightarrow>
    \<exists>rows. print_table fuel h iter = Inr rows \<and>
      length rows = card {i \<in> live (kh_flags h) (kh_n_buckets h). iter \<le> i}"
proof (induction fuel arbitrary: iter)
  case (Suc fuel)
  let ?L = "live (kh_flags h) (kh_n_buckets h)"
  show ?case
  proof (cases "iter = kh_n_buckets h")
    case True
    then have "{i \<in> ?L. iter \<le> i} = {}" by (auto simp: live_def)
    then show ?thesis using True by simp
  next
    case False
    then have lt: "iter < kh_n_buckets h" using Suc.prems(1) by simp
    have ex: "kh_exist h iter = Inr (iter \<in> ?L)" by (rule kh_exist_in [OF table_okD(2) [OF h] lt])
    obtain rows where rows: "print_table fuel h (iter + 1) = Inr rows"
      "length rows = card {i \<in> ?L. iter + 1 \<le> i}"
    proof -
      have "kh_n_buckets h - (iter + 1) < fuel" using Suc.prems(2) lt by linarith
      then show thesis using that Suc.IH [of "iter + 1"] lt by auto
    qed
    show ?thesis
    proof (cases "iter \<in> ?L")
      case True
      obtain c where c: "kh_value h iter = Inr c" "kh_abs h (kh_keys h ! iter) = Some c" "ctx_ok c"
        using live_context [OF h True] by blast
      obtain row where row: "print_row (kh_keys h ! iter) c = Inr row" using print_row_total [OF c(3)] by blast
      have "{i \<in> ?L. iter \<le> i} = Set.insert iter {i \<in> ?L. iter + 1 \<le> i}" using True by auto
      then have "card {i \<in> ?L. iter \<le> i} = Suc (card {i \<in> ?L. iter + 1 \<le> i})" by simp
      then show ?thesis using False ex True c(1,2) opened row rows by simp
    next
      case dead: False
      have "{i \<in> ?L. iter \<le> i} = {i \<in> ?L. iter + 1 \<le> i}"
        using dead by (auto simp: Suc_le_eq le_less)
      then show ?thesis using False ex dead rows by simp
    qed
  qed
qed simp

text \<open>
  Printing the address table ends and prints one line for each known address, as long as no
  context is marked as closed (no handler marks one: \<open>reset_context\<close> is never called). A closed
  context among the printed ones would make the loop run forever.
\<close>

theorem print_table_prints_all:
  assumes "table_ok h" "\<forall>a c. kh_abs h a = Some c \<longrightarrow> ctx_state c \<noteq> GNW_STATE_CLOSE"
  shows "\<exists>rows. print_table (kh_n_buckets h + 1) h 0 = Inr rows \<and> length rows = card (dom (table_abs h))"
proof -
  have L: "{i \<in> live (kh_flags h) (kh_n_buckets h). 0 \<le> i} = live (kh_flags h) (kh_n_buckets h)" by auto
  have "card (live (kh_flags h) (kh_n_buckets h)) = card (dom (table_abs h))"
    using kh_size_abs [OF table_okD(1) [OF assms(1)]] kh_ok_shape(6) [OF table_okD(2) [OF assms(1)]] by simp
  then show ?thesis using print_table_from [OF assms, of 0 "kh_n_buckets h + 1"] L by simp
qed

theorem print_table_prints_all_witness:
  "\<exists>r rows. message_run plain_os [(5, Claim 7), (6, Claim 8)] router_init = Inr r \<and>
     print_table (kh_n_buckets (address_table r) + 1) (address_table r) 0 = Inr rows \<and> length rows = 2"
proof -
  let ?ms = "[(5, Claim 7), (6, Claim 8)] :: (int \<times> message) list" and ?s0 = "(Map.empty :: atable, rt_net router_init)"
  have "rt_rands router_init = 0" by (simp add: router_init_def)
  then obtain r where r: "message_run plain_os ?ms router_init = Inr r" "table_ok (address_table r)"
    "(table_abs (address_table r), rt_net r) = spec_run plain_os ?ms 0 ?s0"
    using message_run_spec [OF router_init_ok(1) table_room_init spare_router_init, of ?ms plain_os] router_init_ok by auto
  have "table_abs (address_table r) = fst (spec_run plain_os ?ms 0 ?s0)" using r(3) by (metis fst_conv)
  then have tab: "table_abs (address_table r) = [7 \<mapsto> fresh_ctx\<lparr>a_fd := 5\<rparr>, 8 \<mapsto> fresh_ctx\<lparr>a_fd := 6\<rparr>]"
    by (simp add: ctx_at_def)
  have "ctx_state c \<noteq> GNW_STATE_CLOSE" if "kh_abs (address_table r) a = Some c" for a c
  proof -
    have "table_abs (address_table r) a = Some (abs_ctx c)" using that by (simp add: table_abs_def)
    then have "abs_ctx c = fresh_ctx\<lparr>a_fd := 5\<rparr> \<or> abs_ctx c = fresh_ctx\<lparr>a_fd := 6\<rparr>"
      unfolding tab by (auto split: if_splits)
    then have "a_state (abs_ctx c) = GNW_STATE_OPEN"
      by (auto simp: fresh_ctx_def setup_context_def abs_ctx_def)
    then show ?thesis by (simp add: abs_ctx_def gnw_constants)
  qed
  then have opened: "\<forall>a c. kh_abs (address_table r) a = Some c \<longrightarrow> ctx_state c \<noteq> GNW_STATE_CLOSE" by blast
  obtain rows where "print_table (kh_n_buckets (address_table r) + 1) (address_table r) 0 = Inr rows"
    "length rows = card (dom (table_abs (address_table r)))"
    using print_table_prints_all [OF r(2) opened] by blast
  then show ?thesis using r(1) by (auto simp: tab)
qed

section \<open>The policy command\<close>

lemma six_zeros: "replicate 6 (0 :: u8) = [0, 0] @ replicate 4 0"
  by (simp add: eval_nat_numeral)

text \<open>
  C16: The command \<open>--policy\<close> with a name that is none of the three known ones still sends a policy
  command, without the policy byte: whatever its state, the router takes the first byte of the address for
  the policy and reads the address one byte past the end of the packet.
\<close>

theorem bad_policy_name_faults:
  assumes "\<not> is_prefix ''broadcast'' name" "\<not> is_prefix ''roundrobin'' name" "\<not> is_prefix ''anycast'' name"
  shows "\<exists>packet. send_policy wr n rfd target name = Inr (net_command wr n rfd GNW_COMMAND packet) \<and>
    handle_packet env r fd (frame_bytes GNW_COMMAND 0xFFFFFFFF packet)
      (length (frame_bytes GNW_COMMAND 0xFFFFFFFF packet)) = Inl OutOfBounds"
proof -
  have w8: "packet_write_u8 (replicate 6 0) 0 GNW_CMD_POLICY = Inr (GNW_CMD_POLICY # replicate 5 0, 1)"
    using packet_write_u8_middle [of 0 "[]" 0 "replicate 5 0" GNW_CMD_POLICY] by (simp add: eval_nat_numeral)
  have five: "GNW_CMD_POLICY # replicate 5 0 = [GNW_CMD_POLICY] @ replicate 4 0 @ [0]"
    by (simp add: eval_nat_numeral)
  have w32: "packet_write_u32 (GNW_CMD_POLICY # replicate 5 0) 1 target =
      Inr (GNW_CMD_POLICY # bytes32 target @ [0], 5)"
    unfolding five by (subst packet_write_u32_on_middle) simp_all
  let ?pl = "GNW_CMD_POLICY # bytes32 target"
  have emit: "gnw_emitCommandPacket wr n rfd GNW_COMMAND (Some (?pl @ [0])) 5 =
      Inr (net_command wr n rfd GNW_COMMAND ?pl)"
    using gnw_emitCommandPacket_spec [of wr n rfd GNW_COMMAND ?pl]
    by (simp add: gnw_emitCommandPacket_def frame_packet_eq)
  have send: "send_policy wr n rfd target name = Inr (net_command wr n rfd GNW_COMMAND ?pl)"
    using assms w8 w32 w32 [simplified] emit by (simp add: send_policy_def)
  obtain b bs where bytes: "bytes32 target = b # bs" "length bs = 3"
    using length_bytes(2) [of LittleEndian target] by (cases "bytes32 target") auto
  let ?buf = "frame_bytes GNW_COMMAND 0xFFFFFFFF ?pl"
  have "packet_read_u8 ?buf 12 = Inr (b, 13)"
    using payload_u8_next [of 12 "[GNW_CMD_POLICY]" GNW_COMMAND "0xFFFFFFFF" b bs] bytes(1) by simp
  moreover have "packet_read_u32 ?buf 13 = Inl OutOfBounds"
    by (rule packet_read_u32_on_out) simp
  ultimately have "cmd_policy r ?buf 12 = Inl OutOfBounds" by (simp add: cmd_policy_def)
  then have "handle_packet env r fd ?buf (length ?buf) = Inl OutOfBounds"
    using handle_packet_command [of ?pl GNW_CMD_POLICY "bytes32 target" env r fd "0xFFFFFFFF"]
    by (simp add: Let_def distinct_directives)
  then show ?thesis using send by blast
qed

theorem bad_policy_name_faults_witness:
  "\<exists>packet. send_policy (\<lambda>fd bs. int (length bs)) (rt_net router_init) 3 7 ''multicast'' =
      Inr (net_command (\<lambda>fd bs. int (length bs)) (rt_net router_init) 3 GNW_COMMAND packet) \<and>
    handle_packet plain_os router_init 5 (frame_bytes GNW_COMMAND 0xFFFFFFFF packet)
      (length (frame_bytes GNW_COMMAND 0xFFFFFFFF packet)) = Inl OutOfBounds"
  by (rule bad_policy_name_faults) (simp_all add: is_prefix_def)

end
