(* ===== verification/Wire.thy ===== *)
theory Wire
  imports RouterEvents
begin

text \<open>
  The router as a state machine on the bytes of all its connections. The abstract machine
  \<open>wire_step\<close> keeps the bytes received on each connection; a read either leaves a message
  incomplete, or completes it and does what \<open>message_spec\<close> says. One read handles one message: what
  follows it stays pending until the connection is read again. Reads of different connections
  interleave in any order. \<open>serve_simulates\<close>: whatever the machine does, the router does, with its
  tables, buffers and assertions.
\<close>

section \<open>The abstract machine\<close>

type_synonym wire_state = "(u32 \<Rightarrow> u8 list) \<times> nat \<times> atable \<times> net"

inductive wire_step :: "os \<Rightarrow> nat \<Rightarrow> wire_state \<Rightarrow> int \<times> u8 list \<Rightarrow> wire_state \<Rightarrow> bool" for env mtu where
  incomplete: "c \<noteq> [] \<Longrightarrow> missing \<noteq> [] \<Longrightarrow> message_bytes msg = pend (fd_key fd) @ c @ missing \<Longrightarrow>
     length (message_bytes msg) < mtu * 20 \<Longrightarrow>
     wire_step env mtu (pend, k, s) (fd, c) (pend(fd_key fd := pend (fd_key fd) @ c), k, s)"
| complete: "c \<noteq> [] \<Longrightarrow> message_bytes msg @ rest = pend (fd_key fd) @ c \<Longrightarrow> acceptable (fst s) msg \<Longrightarrow>
     length (message_bytes msg @ rest) < mtu * 20 \<Longrightarrow>
     wire_step env mtu (pend, k, s) (fd, c)
       (pend(fd_key fd := rest), k + rands_of (fst s) msg, message_spec env k fd msg s)"

abbreviation wire_steps :: "os \<Rightarrow> nat \<Rightarrow> wire_state \<Rightarrow> (int \<times> u8 list) list \<Rightarrow> wire_state \<Rightarrow> bool" where
  "wire_steps env mtu \<equiv> steps (wire_step env mtu)"

lemmas wire_more = steps.more [where step = "wire_step env mtu" for env mtu]

definition wire_init :: wire_state where
  "wire_init = (\<lambda>_. [], 0, Map.empty, rt_net router_init)"

section \<open>The router on the same reads\<close>

definition readable :: "int \<Rightarrow> pollfd" where
  "readable fd = \<lparr>poll_fd = fd, poll_events = POLLIN, poll_revents = POLLIN\<rparr>"

lemma readable_simps [simp]: "poll_fd (readable fd) = fd" "poll_revents (readable fd) AND POLLIN = POLLIN"
  by (simp_all add: readable_def)

fun serve_read :: "os \<Rightarrow> nat \<Rightarrow> int \<times> u8 list \<Rightarrow> router \<Rightarrow> router result" where
  "serve_read env mtu (fd, c) r =
     andThen (handle_event env mtu r (readable fd) c (int (length c))) (\<lambda>(r, _). Inr r)"

abbreviation serve :: "os \<Rightarrow> nat \<Rightarrow> (int \<times> u8 list) list \<Rightarrow> router \<Rightarrow> router result" where
  "serve env mtu \<equiv> exec (serve_read env mtu)"

text \<open>What the router's state stands for, and room for \<open>j\<close> more reads in its tables.\<close>

definition stands_for :: "nat \<Rightarrow> router \<Rightarrow> wire_state \<Rightarrow> bool" where
  "stands_for mtu r w \<longleftrightarrow> (case w of (pend, k, s) \<Rightarrow>
     table_ok (address_table r) \<and> buffers_ok mtu (local_buffers r) \<and>
     s = (table_abs (address_table r), rt_net r) \<and> rt_rands r = k \<and>
     (\<forall>fd. pending (local_buffers r) fd = pend (fd_key fd)))"

definition roomy :: "nat \<Rightarrow> router \<Rightarrow> bool" where
  "roomy j r \<longleftrightarrow> table_room j (address_table r) \<and> kh_n_buckets (local_buffers r) \<le> 2 ^ 30 \<and>
     finite (dom (kh_abs (local_buffers r))) \<and> card (dom (kh_abs (local_buffers r))) + j \<le> 2 ^ 28"

lemma message_frame: "\<exists>t s pl. message_bytes msg = frame_bytes t s pl"
  by (cases msg) auto

lemma dom_grows_one:
  assumes "\<forall>a. a \<noteq> k \<longrightarrow> f a = g a" "finite (dom g)"
  shows "finite (dom f) \<and> card (dom f) \<le> Suc (card (dom g))"
proof -
  have sub: "dom f \<subseteq> Set.insert k (dom g)" using assms(1) by (auto simp: dom_def)
  have fin: "finite (Set.insert k (dom g))" using assms(2) by simp
  have "card (dom f) \<le> card (Set.insert k (dom g))" by (rule card_mono [OF fin sub])
  also have "\<dots> \<le> Suc (card (dom g))" by (rule card_insert_le_m1) simp_all
  finally show ?thesis using finite_subset [OF sub fin] by simp
qed

lemma buckets_bound:
  fixes n :: nat
  shows "n \<le> max b (max 4 (4 * d)) \<Longrightarrow> b \<le> 2 ^ 30 \<Longrightarrow> d + Suc j \<le> 2 ^ 28 \<Longrightarrow> n \<le> 2 ^ 30"
  by simp

lemma roomy_buffers:
  assumes "roomy (Suc j) r" "\<forall>a. a \<noteq> fd_key fd \<longrightarrow> kh_abs h1 a = kh_abs (local_buffers r) a"
    and "kh_n_buckets h1 \<le> max (kh_n_buckets (local_buffers r)) (max 4 (4 * card (dom (kh_abs (local_buffers r)))))"
  shows "finite (dom (kh_abs h1))" "card (dom (kh_abs h1)) + j \<le> 2 ^ 28" "kh_n_buckets h1 \<le> 2 ^ 30"
proof -
  have r: "finite (dom (kh_abs (local_buffers r)))" "card (dom (kh_abs (local_buffers r))) + Suc j \<le> 2 ^ 28"
    "kh_n_buckets (local_buffers r) \<le> 2 ^ 30"
    using assms(1) by (simp_all add: roomy_def)
  show "finite (dom (kh_abs h1))" "card (dom (kh_abs h1)) + j \<le> 2 ^ 28"
    using dom_grows_one [OF assms(2) r(1)] r(2) by simp_all
  show "kh_n_buckets h1 \<le> 2 ^ 30" by (rule buckets_bound [OF assms(3) r(3,2)])
qed

lemma pending_other:
  assumes "\<forall>a. a \<noteq> fd_key fd \<longrightarrow> kh_abs h1 a = kh_abs h a" "pending h1 fd = p"
    and "\<forall>fd'. pending h fd' = pend (fd_key fd')"
  shows "\<forall>fd'. pending h1 fd' = (pend(fd_key fd := p)) (fd_key fd')"
proof
  fix fd'
  show "pending h1 fd' = (pend(fd_key fd := p)) (fd_key fd')"
  proof (cases "fd_key fd' = fd_key fd")
    case True
    then have "pending h1 fd' = pending h1 fd" by (simp add: pending_def)
    then show ?thesis using True assms(2) by simp
  next
    case False
    then have "pending h1 fd' = pending h fd'" using assms(1) by (simp add: pending_def)
    then show ?thesis using False assms(3) by simp
  qed
qed

section \<open>Simulation\<close>

lemma incomplete_simulates:
  assumes env: "good_malloc env" "mtu * 20 < 2 ^ 32"
    and r: "stands_for mtu r (pend, k, s)" "roomy (Suc j) r"
    and c: "c \<noteq> []" "missing \<noteq> []" "message_bytes msg = pend (fd_key fd) @ c @ missing"
      "length (message_bytes msg) < mtu * 20"
  shows "\<exists>r'. handle_event env mtu r (readable fd) c (int (length c)) = Inr (r', readable fd) \<and>
    stands_for mtu r' (pend(fd_key fd := pend (fd_key fd) @ c), k, s) \<and> roomy j r'"
proof -
  obtain t sr pl where f: "message_bytes msg = frame_bytes t sr pl" using message_frame by blast
  have st: "buffers_ok mtu (local_buffers r)" "\<forall>fd. pending (local_buffers r) fd = pend (fd_key fd)"
    using r(1) by (simp_all add: stands_for_def)
  have small: "kh_n_buckets (local_buffers r) \<le> 2 ^ 30" using r(2) by (simp add: roomy_def)
  have len: "11 + length pl < mtu * 20" "11 + length pl < 2 ^ 32" "mtu * 20 < 2 ^ 64"
    using c(4) env(2) f by simp_all
  have v: "frame_bytes t sr pl = (pending (local_buffers r) (poll_fd (readable fd)) @ c) @ missing"
    using c(3) f st(2) by simp
  obtain h1 where h1: "handle_event env mtu r (readable fd) c (int (length c)) =
      Inr (r\<lparr>local_buffers := h1\<rparr>, readable fd)"
    "buffers_ok mtu h1" "pending h1 fd = pend (fd_key fd) @ c"
    "\<forall>a. a \<noteq> fd_key fd \<longrightarrow> kh_abs h1 a = kh_abs (local_buffers r) a"
    "kh_n_buckets h1 \<le> max (kh_n_buckets (local_buffers r)) (max 4 (4 * card (dom (kh_abs (local_buffers r)))))"
    using event_partial [OF st(1) small env(1) readable_simps(2) c(1) len(3) v c(2) len(1,2)] st(2) by auto
  have "stands_for mtu (r\<lparr>local_buffers := h1\<rparr>) (pend(fd_key fd := pend (fd_key fd) @ c), k, s)"
    using r(1) h1(2) pending_other [OF h1(4,3) st(2)] by (simp add: stands_for_def)
  moreover have "roomy j (r\<lparr>local_buffers := h1\<rparr>)"
    using r(2) roomy_buffers [OF r(2) h1(4,5)] by (simp add: roomy_def table_room_def)
  ultimately show ?thesis using h1(1) by blast
qed

lemma complete_simulates:
  assumes env: "good_malloc env" "mtu * 20 < 2 ^ 32"
    and r: "stands_for mtu r (pend, k, s)" "roomy (Suc j) r"
    and c: "c \<noteq> []" "message_bytes msg @ rest = pend (fd_key fd) @ c" "acceptable (fst s) msg"
      "length (message_bytes msg @ rest) < mtu * 20"
  shows "\<exists>r'. handle_event env mtu r (readable fd) c (int (length c)) = Inr (r', readable fd) \<and>
    stands_for mtu r' (pend(fd_key fd := rest), k + rands_of (fst s) msg, message_spec env k fd msg s) \<and> roomy j r'"
proof -
  obtain t sr pl where f: "message_bytes msg = frame_bytes t sr pl" using message_frame by blast
  have st: "buffers_ok mtu (local_buffers r)" "\<forall>fd. pending (local_buffers r) fd = pend (fd_key fd)"
    "table_ok (address_table r)" "s = (table_abs (address_table r), rt_net r)" "rt_rands r = k"
    using r(1) by (simp_all add: stands_for_def)
  have small: "kh_n_buckets (local_buffers r) \<le> 2 ^ 30" "kh_n_buckets (address_table r) \<le> 2 ^ 30"
    using r(2) by (simp_all add: roomy_def table_room_def)
  have len: "11 + length pl + length rest < mtu * 20" "11 + length pl < 2 ^ 32" "mtu * 20 < 2 ^ 64"
    using c(4) env(2) f by simp_all
  have v: "pending (local_buffers r) (poll_fd (readable fd)) @ c = frame_bytes t sr pl @ rest"
    using c(2) f st(2) by simp
  obtain h1 where h1: "handle_event env mtu r (readable fd) c (int (length c)) =
      andThen (handle_packet env (r\<lparr>local_buffers := h1\<rparr>) fd (frame_bytes t sr pl) (11 + length pl))
        (\<lambda>r. Inr (r, readable fd))"
    "buffers_ok mtu h1" "pending h1 fd = rest"
    "\<forall>a. a \<noteq> fd_key fd \<longrightarrow> kh_abs h1 a = kh_abs (local_buffers r) a"
    "kh_n_buckets h1 \<le> max (kh_n_buckets (local_buffers r)) (max 4 (4 * card (dom (kh_abs (local_buffers r)))))"
    using event_whole [OF st(1) small(1) env(1) readable_simps(2) c(1) len(3) v len(1,2)] by auto
  let ?r1 = "r\<lparr>local_buffers := h1\<rparr>"
  have l: "length (message_bytes msg) = 11 + length pl" using f by simp
  obtain r' where r': "handle_packet env ?r1 fd (message_bytes msg) (length (message_bytes msg)) = Inr r'"
    "refines ?r1 r' (rands_of (fst s) msg) (message_spec env k fd msg s)"
    using handle_packet_spec [of ?r1 msg env fd] st(3-5) small(2) c(3) by auto
  note ref = r'(2) [unfolded refines_def]
  have "handle_event env mtu r (readable fd) c (int (length c)) = Inr (r', readable fd)"
    using h1(1) r'(1) f l by simp
  moreover have "stands_for mtu r' (pend(fd_key fd := rest), k + rands_of (fst s) msg, message_spec env k fd msg s)"
    using ref h1(2) pending_other [OF h1(4,3) st(2)] st(5) by (auto simp: stands_for_def)
  moreover have "roomy j r'"
    using ref roomy_buffers [OF r(2) h1(4,5)] table_room_kept [OF _ _ r'(2)] r(2) st(4) by (simp add: roomy_def)
  ultimately show ?thesis by blast
qed

lemma wire_step_simulates:
  assumes "good_malloc env" "mtu * 20 < 2 ^ 32"
    and "wire_step env mtu w e w'" "stands_for mtu r w" "roomy (Suc j) r"
  shows "\<exists>r'. handle_event env mtu r (readable (fst e)) (snd e) (int (length (snd e))) = Inr (r', readable (fst e)) \<and>
    stands_for mtu r' w' \<and> roomy j r'"
  using assms(3)
proof (cases rule: wire_step.cases)
  case (incomplete c missing msg pend fd k s)
  then show ?thesis
    using incomplete_simulates [OF assms(1,2), of r pend k s j c missing msg fd] assms(4,5) by simp
next
  case (complete c msg rest pend fd s k)
  then show ?thesis
    using complete_simulates [OF assms(1,2), of r pend k s j c msg rest fd] assms(4,5) by simp
qed

definition serves :: "os \<Rightarrow> nat \<Rightarrow> nat \<Rightarrow> router \<Rightarrow> wire_state \<Rightarrow> bool" where
  "serves env mtu j r w \<longleftrightarrow> good_malloc env \<and> mtu * 20 < 2 ^ 32 \<and> stands_for mtu r w \<and> roomy j r"

interpretation serving: simulation "wire_step env mtu" "serve_read env mtu" "serves env mtu" "\<lambda>_. 1" for env mtu
proof
  fix w e w1 j r
  assume w: "wire_step env mtu w e w1" and "serves env mtu (1 + j) r w"
  then have r: "good_malloc env" "mtu * 20 < 2 ^ 32" "stands_for mtu r w" "roomy (Suc j) r"
    by (simp_all add: serves_def)
  show "\<exists>r1. serve_read env mtu e r = Inr r1 \<and> serves env mtu j r1 w1"
    using wire_step_simulates [OF r(1,2) w r(3,4)] r(1,2) by (cases e) (auto simp: serves_def)
qed

lemma serve_simulates:
  assumes "good_malloc env" "mtu * 20 < 2 ^ 32" "wire_steps env mtu w es w'" "stands_for mtu r w" "roomy (length es) r"
  shows "\<exists>r'. serve env mtu es r = Inr r' \<and> stands_for mtu r' w'"
  using serving.run_simulates [OF assms(3), of 0 r] assms by (auto simp: serves_def sum_list_triv)

lemma wire_init_start: "stands_for mtu router_init wire_init" "j \<le> 2 ^ 28 \<Longrightarrow> roomy j router_init"
  using router_init_ok router_init_buffers
  table_room_init
  by (simp_all add: stands_for_def wire_init_def roomy_def router_init_def kh_full_init)

end
