(* ===== verification/Common.thy ===== *)
theory Common
  imports Utility
begin

text \<open>
  \<open>common.c\<close>: connecting to a host, the MTU of an interface, and the search of a program in
  the directories of \<open>PATH\<close>. What the resolver, the sockets and the file system answer are
  arguments: the candidates \<open>getaddrinfo\<close> lists, each with what \<open>socket\<close> and \<open>connect\<close>
  return for it, the answer of the \<open>ioctl\<close>, and \<open>access\<close> as a predicate on paths.
  A C string is the list of its characters; a buffer is a block of characters, read as a string up
  to its first zero.
\<close>

section \<open>Connecting\<close>

text \<open>A candidate: the descriptor \<open>socket\<close> returns (-1 on failure), whether \<open>connect\<close> succeeds.\<close>

type_synonym candidate = "int \<times> bool"

fun connect_loop :: "candidate list \<Rightarrow> int list \<Rightarrow> int \<times> int list" where
  "connect_loop [] closed = (-1, closed)"
| "connect_loop ((sockfd, connects) # p) closed =
     (if sockfd = -1 then connect_loop p closed
      else if \<not> connects then connect_loop p (closed @ [sockfd])
      else (sockfd, closed))"

text \<open>The descriptor returned and the descriptors closed; \<open>None\<close> when \<open>getaddrinfo\<close> fails.\<close>

definition socket_connect :: "candidate list option \<Rightarrow> int \<times> int list" where
  "socket_connect client_info =
     (case client_info of None \<Rightarrow> (-1, []) | Some cs \<Rightarrow> connect_loop cs [])"

lemma connect_loop_eq:
  "connect_loop cs closed =
     ((case List.find (\<lambda>(s, c). s \<noteq> -1 \<and> c) cs of None \<Rightarrow> -1 | Some (s, _) \<Rightarrow> s),
      closed @ map fst (filter (\<lambda>(s, c). s \<noteq> -1) (takeWhile (\<lambda>(s, c). \<not> (s \<noteq> -1 \<and> c)) cs)))"
  by (induction cs closed rule: connect_loop.induct) auto

section \<open>The MTU of an interface\<close>

definition IFNAMSIZ :: nat where "IFNAMSIZ = 16"

text \<open>
  \<open>sock\<close> is what \<open>socket\<close> returns, \<open>mtu_of\<close> what the \<open>ioctl\<close> stores for the name in
  \<open>ifr_name\<close>; the \<open>memcpy\<close> and the final zero must fit into the \<open>IFNAMSIZ\<close> bytes of it.
\<close>

definition getIFaceMTU :: "int \<Rightarrow> (string \<Rightarrow> int option) \<Rightarrow> string \<Rightarrow> int result" where
  "getIFaceMTU sock mtu_of interface =
     andThen (store_block (replicate IFNAMSIZ (CHR 0x00)) 0 interface) (\<lambda>name.
     andThen (store name (length interface) (CHR 0x00)) (\<lambda>name.
     if sock < 0 then Inr (-1)
     else case mtu_of (takeWhile (\<lambda>c. c \<noteq> CHR 0x00) name) of
         Some mtu \<Rightarrow> Inr mtu
       | None \<Rightarrow> Inr (-1)))"

section \<open>The search of a program\<close>

lemma dropWhile_Cons_length: "dropWhile P s = c # s' \<Longrightarrow> length s' < length s"
  using length_dropWhile_le [of P s] by simp

text \<open>
  The loop of \<open>findRealPath\<close>: \<open>s\<close> is the part of the copy of \<open>PATH\<close> not yet tried; a \<open>:\<close>
  ends a directory, and the directory after the last one ends the loop.
\<close>

function path_loop :: "(string \<Rightarrow> bool) \<Rightarrow> string \<Rightarrow> string \<Rightarrow> string option" where
  "path_loop access binary s =
     (let dir = takeWhile (\<lambda>c. c \<noteq> CHR '':'') s; tryPath = dir @ ''/'' @ binary in
      if access tryPath then Some tryPath
      else case dropWhile (\<lambda>c. c \<noteq> CHR '':'') s of
          [] \<Rightarrow> None
        | _ # s' \<Rightarrow> path_loop access binary s')"
  by pat_completeness auto
termination
  by (relation "measure (\<lambda>(_, _, s). length s)") (auto dest: dropWhile_Cons_length)

declare path_loop.simps [simp del]

definition findRealPath ::
    "(string \<Rightarrow> bool) \<Rightarrow> string option \<Rightarrow> string \<Rightarrow> string \<Rightarrow> string result" where
  "findRealPath access env_path target binary =
     (case env_path of None \<Rightarrow> Inl NullDeref
      | Some path \<Rightarrow>
          (case path_loop access binary path of
             Some tryPath \<Rightarrow> store_block target 0 tryPath
           | None \<Rightarrow> store target 0 (CHR 0x00)))"

text \<open>The string a buffer holds.\<close>

definition c_string :: "string \<Rightarrow> string" where
  "c_string block = takeWhile (\<lambda>c. c \<noteq> CHR 0x00) block"

text \<open>The directories of a \<open>PATH\<close> value, by the position of its colons.\<close>

fun path_dirs :: "string \<Rightarrow> string list" where
  "path_dirs [] = [[]]"
| "path_dirs (c # s) =
     (if c = CHR '':'' then [] # path_dirs s
      else (case path_dirs s of d # ds \<Rightarrow> (c # d) # ds | [] \<Rightarrow> [[c]]))"

lemma path_dirs_unfold:
  "path_dirs s = takeWhile (\<lambda>c. c \<noteq> CHR '':'') s #
     (case dropWhile (\<lambda>c. c \<noteq> CHR '':'') s of [] \<Rightarrow> [] | _ # s' \<Rightarrow> path_dirs s')"
  by (induction s) auto

lemma path_loop_eq:
  "path_loop access binary s = List.find access (map (\<lambda>d. d @ ''/'' @ binary) (path_dirs s))"
proof (induction access binary s rule: path_loop.induct)
  case (1 access binary s)
  let ?dir = "takeWhile (\<lambda>c. c \<noteq> CHR '':'') s"
  show ?case
  proof (cases "access (?dir @ ''/'' @ binary)")
    case True
    then show ?thesis by (subst path_loop.simps, subst path_dirs_unfold) simp
  next
    case False
    show ?thesis
    proof (cases "dropWhile (\<lambda>c. c \<noteq> CHR '':'') s")
      case Nil
      then show ?thesis using False by (subst path_loop.simps, subst path_dirs_unfold) (simp add: Let_def del: dropWhile_eq_Nil_conv)
    next
      case (Cons c s')
      have "path_loop access binary s' = List.find access (map (\<lambda>d. d @ ''/'' @ binary) (path_dirs s'))"
        by (rule "1.IH" [OF refl refl False Cons])
      then show ?thesis using False Cons
        by (subst path_loop.simps, subst path_dirs_unfold) (simp add: Let_def)
    qed
  qed
qed

lemma path_dirs_chars: "d \<in> set (path_dirs s) \<Longrightarrow> set d \<subseteq> set s"
  by (induction s arbitrary: d) (fastforce split: list.splits if_splits)+

section \<open>Properties\<close>

text \<open>
  C24: The program found is the first existing one along \<open>PATH\<close>. Into a zeroed buffer with
  room for every candidate path, \<open>findRealPath\<close> writes the first path \<open>directory/binary\<close>, in the
  order of \<open>PATH\<close>, that exists; when none does, the string left in the buffer is empty. Its
  documentation promises the original name of the binary in that case, and a search in the working
  directory, and neither happens.
\<close>

theorem findRealPath_first:
  assumes "binary_dirs = path_dirs path" and "0 < n"
    and "\<forall>d\<in>set binary_dirs. length d + 1 + length binary < n"
    and "CHR 0x00 \<notin> set path" "CHR 0x00 \<notin> set binary"
  shows "\<exists>target. findRealPath access (Some path) (replicate n (CHR 0x00)) binary = Inr target \<and>
    length target = n \<and>
    c_string target = (case List.find access (map (\<lambda>d. d @ ''/'' @ binary) binary_dirs) of
       Some found \<Rightarrow> found | None \<Rightarrow> [])"
proof (cases "List.find access (map (\<lambda>d. d @ ''/'' @ binary) binary_dirs)")
  case None
  then have "findRealPath access (Some path) (replicate n (CHR 0x00)) binary =
      Inr (replicate n (CHR 0x00))"
    using assms(1,2) by (simp add: findRealPath_def path_loop_eq store_def list_update_same_conv)
  then show ?thesis using None assms(2) by (simp add: c_string_def takeWhile_eq_Nil_iff hd_replicate)
next
  case (Some found)
  then obtain i where "i < length binary_dirs" "found = binary_dirs ! i @ ''/'' @ binary"
    unfolding find_Some_iff by auto
  then have "\<exists>d. d \<in> set binary_dirs \<and> found = d @ ''/'' @ binary" using nth_mem by blast
  then obtain d where d: "d \<in> set binary_dirs" "found = d @ ''/'' @ binary" by blast
  have "CHR 0x00 \<notin> set d" using d(1) path_dirs_chars assms(1,4) by blast
  then have clean: "\<forall>c\<in>set found. c \<noteq> CHR 0x00" using d(2) assms(5) by auto
  have len: "length found < n" using d assms(3) by auto
  have st: "findRealPath access (Some path) (replicate n (CHR 0x00)) binary =
      Inr (found @ replicate (n - length found) (CHR 0x00))"
    using Some assms(1) len by (simp add: findRealPath_def path_loop_eq store_block_def)
  have "takeWhile (\<lambda>c. c \<noteq> CHR 0x00) (found @ replicate (n - length found) (CHR 0x00)) = found"
    using clean len by (simp add: takeWhile_append2 takeWhile_eq_Nil_iff hd_replicate)
  then show ?thesis using Some st len by (simp add: c_string_def)
qed

theorem findRealPath_first_witness:
  "\<exists>target. findRealPath (\<lambda>p. p = ''/bin/cat'') (Some ''/usr/bin:/bin'') (replicate 2048 (CHR 0x00)) ''cat''
      = Inr target \<and> length target = 2048 \<and> c_string target = ''/bin/cat''"
  using findRealPath_first [OF refl, where path = "''/usr/bin:/bin''" and n = 2048 and binary = "''cat''"
      and access = "\<lambda>p. p = ''/bin/cat''"]
  by simp

end
