(* ===== verification/Wrap.thy ===== *)
theory Wrap
  imports Router Common
begin

text \<open>
  \<open>GraphWrap.c\<close>, the program \<open>Graph\<close> that wraps a process: it reads its standard input or the
  output of the processes it starts, cuts it into packets at a delimiter and sends them to the
  router, and passes the packets that come from the router to its standard output or to the
  processes.

  All globals are the record \<open>wrap\<close>. The operating system is the record \<open>wrap_os\<close>: what \<open>write\<close>
  returns, what the n-th call of \<open>pipe\<close>, \<open>fork\<close> and \<open>socket_connect\<close> returns, which descriptors
  \<open>fcntl\<close> finds valid, what a fresh block holds and the address of a buffer. What \<open>read\<close> finds is an
  argument of the handlers: \<open>None\<close> is an error, \<open>Some []\<close> the end of the stream. The program
  does not call \<open>setExitOnAssert\<close>: its assertions only print.
  Log output is not modelled, except where evaluating an argument reads memory.
\<close>

section \<open>State\<close>

record wrap_os =
  wo_write :: "int \<Rightarrow> u8 list \<Rightarrow> int"
  wo_pipe :: "nat \<Rightarrow> (int \<times> int) option"
  wo_fork :: "nat \<Rightarrow> int"
  wo_connect :: "nat \<Rightarrow> int"
  wo_valid :: "int \<Rightarrow> bool"
  wo_malloc :: "nat \<Rightarrow> u8 list"
  wo_address :: "int \<Rightarrow> nat"

definition MUX_NOOP :: u32 where "MUX_NOOP = 0"
definition MUX_MERGE :: u32 where "MUX_MERGE = 1"

definition DEMUX_NOOP :: u32 where "DEMUX_NOOP = 0"
definition DEMUX_SPAWN :: u32 where "DEMUX_SPAWN = 1"
definition DEMUX_MERGE :: u32 where "DEMUX_MERGE = 2"

definition IGNORE_FD :: int where "IGNORE_FD = -1"
definition MAX_INPUT_STREAMS :: nat where "MAX_INPUT_STREAMS = 256"

text \<open>\<open>struct _configuration\<close>; \<open>arg_delimiter\<close> is a \<open>char\<close>, which is signed.\<close>

record configuration =
  network_mtu :: int
  read_timeout :: u32
  arg_host :: string
  arg_port :: string
  arg_address :: gnw_address
  gnw_local_mask :: gnw_address
  arg_immediate :: bool
  arg_verbosity :: u32
  arg_echo :: bool
  arg_delimiter :: u8

text \<open>A pipe is its read end and its write end. The member \<open>address\<close> is never used.\<close>

record sink_context =
  sc_pid :: int
  wrap_stdin :: "int \<times> int"
  wrap_stdout :: "int \<times> int"
  sc_packets_in :: u64
  sc_packets_out :: u64
  sc_bytes_in :: u64
  sc_bytes_out :: u64

definition PIPE_READ :: "int \<times> int \<Rightarrow> int" where "PIPE_READ p = fst p"
definition PIPE_WRITE :: "int \<times> int \<Rightarrow> int" where "PIPE_WRITE p = snd p"

text \<open>
  \<open>w_net\<close> holds the bytes every \<open>write\<close> took with its descriptor, \<open>w_stdout\<close> what went to standard
  output; \<open>w_pipes\<close>, \<open>w_forks\<close> and \<open>w_connects\<close> count the calls made.
\<close>

record wrap =
  w_config :: configuration
  mux_mode :: u32
  demux_mode :: u32
  binary_path :: string
  binary_argv :: "string list"
  stream_fd :: "pollfd list"
  nextLocalAddress :: gnw_address
  sinkTable :: "sink_context khash"
  input_buffer :: "local_buffer khash"
  router_fd :: int
  w_net :: net
  w_stdout :: "u8 list"
  w_pipes :: nat
  w_forks :: nat
  w_connects :: nat
  w_closed :: "int list"

definition deref :: "'a option \<Rightarrow> 'a result" where
  "deref p = (case p of None \<Rightarrow> Inl NullDeref | Some x \<Rightarrow> Inr x)"

section \<open>The input buffers\<close>

text \<open>\<open>config.network_mtu * 20\<close> as a \<open>size_t\<close>.\<close>

definition block_size :: "wrap \<Rightarrow> nat" where
  "block_size w = nat (network_mtu (w_config w) * 20 mod 2 ^ 64)"

text \<open>\<open>tail - head\<close> (0 for two null pointers) and \<open>network_mtu * 20 - (tail - head)\<close>.\<close>

definition used_bytes :: "local_buffer \<Rightarrow> nat" where
  "used_bytes b = (case lb_tail b of None \<Rightarrow> 0 | Some t \<Rightarrow> t)"

definition free_bytes :: "wrap \<Rightarrow> nat \<Rightarrow> nat" where
  "free_bytes w filled = nat ((network_mtu (w_config w) * 20 - int filled) mod 2 ^ 64)"

definition getLocalBuffer :: "wrap_os \<Rightarrow> wrap \<Rightarrow> int \<Rightarrow> (wrap \<times> nat) result" where
  "getLocalBuffer env w fd =
     andThen (kh_get (input_buffer w) (fd_key fd)) (\<lambda>hint.
     if hint = kh_end (input_buffer w) then
       andThen (kh_put (input_buffer w) (fd_key fd)) (\<lambda>(h, hint, status).
       andThen (assert_that False (status \<noteq> 0)) (\<lambda>_.
       andThen (kh_set_value h hint
           \<lparr>lb_buffer = Some (wo_malloc env (block_size w)), lb_tail = Some 0\<rparr>) (\<lambda>h.
       Inr (w\<lparr>input_buffer := h\<rparr>, hint))))
     else Inr (w, hint))"

text \<open>The entry of a destroyed buffer stays in the table, with two null pointers.\<close>

definition destroyLocalBuffer :: "wrap \<Rightarrow> int \<Rightarrow> wrap result" where
  "destroyLocalBuffer w fd =
     andThen (kh_get (input_buffer w) (fd_key fd)) (\<lambda>hint.
     if hint = kh_end (input_buffer w) then Inr w
     else
       andThen (kh_value (input_buffer w) hint) (\<lambda>_.
       andThen (kh_set_value (input_buffer w) hint \<lparr>lb_buffer = None, lb_tail = None\<rparr>) (\<lambda>h.
       Inr (w\<lparr>input_buffer := h\<rparr>))))"

text \<open>
  \<open>read( fd, buffer->tail, capacity )\<close>: the buffer afterwards and the value returned. A read
  of something into a null pointer fails (\<open>EFAULT\<close>).
\<close>

definition read_into ::
    "u8 list option \<Rightarrow> u8 list option \<Rightarrow> nat \<Rightarrow> nat \<Rightarrow> (u8 list option \<times> int) result" where
  "read_into avail buffer filled capacity =
     (case avail of
        None \<Rightarrow> Inr (buffer, -1)
      | Some bytes \<Rightarrow>
          (let got = take capacity bytes in
           if got = [] then Inr (buffer, 0)
           else case buffer of
               None \<Rightarrow> Inr (None, -1)
             | Some block \<Rightarrow>
                 andThen (store_block block filled got) (\<lambda>block. Inr (Some block, int (length got)))))"

definition upd_input :: "wrap \<Rightarrow> nat \<Rightarrow> local_buffer \<Rightarrow> wrap result" where
  "upd_input w x b =
     andThen (kh_set_value (input_buffer w) x b) (\<lambda>h. Inr (w\<lparr>input_buffer := h\<rparr>))"

section \<open>Addresses and processes\<close>

definition getRouterFD :: "wrap_os \<Rightarrow> wrap \<Rightarrow> wrap \<times> int" where
  "getRouterFD env w =
     (let w = (if router_fd w = -1
               then w\<lparr>router_fd := wo_connect env (w_connects w), w_connects := w_connects w + 1\<rparr>
               else w)
      in (w, router_fd w))"

text \<open>\<open>GNW_CMD_NEW_ADDRESS\<close> with the address asked for, five bytes.\<close>

definition request_address :: "wrap_os \<Rightarrow> wrap \<Rightarrow> int \<Rightarrow> gnw_address \<Rightarrow> wrap result" where
  "request_address env w fd address =
     andThen (packet_write_u8 (replicate 5 0) 0 GNW_CMD_NEW_ADDRESS) (\<lambda>(reqBuffer, ptr).
     andThen (packet_write_u32 reqBuffer ptr address) (\<lambda>(reqBuffer, ptr).
     andThen (gnw_emitCommandPacket (wo_write env) (w_net w) fd GNW_COMMAND (Some reqBuffer) 5) (\<lambda>n.
     Inr (w\<lparr>w_net := n\<rparr>))))"

definition getNextLocalAddress :: "wrap_os \<Rightarrow> wrap \<Rightarrow> (wrap \<times> gnw_address) result" where
  "getNextLocalAddress env w =
     (let local_mask = gnw_local_mask (w_config w);
          w = w\<lparr>nextLocalAddress := (nextLocalAddress w + 1) AND local_mask\<rparr>;
          realAddress = (nextLocalAddress w AND local_mask)
                        OR (arg_address (w_config w) AND NOT local_mask);
          (w, fd) = getRouterFD env w
      in andThen (request_address env w fd realAddress) (\<lambda>w. Inr (w, realAddress)))"

definition applyMuxPolicy :: "wrap \<Rightarrow> gnw_address \<Rightarrow> gnw_address" where
  "applyMuxPolicy w address =
     (if mux_mode w = MUX_NOOP then address
      else if mux_mode w = MUX_MERGE then arg_address (w_config w)
      else address)"

text \<open>The first entry of \<open>stream_fd\<close> that is free; past the end of the array there is none.\<close>

fun watch_slot :: "pollfd list \<Rightarrow> nat \<Rightarrow> nat result" where
  "watch_slot [] index = Inl OutOfBounds"
| "watch_slot (p # ps) index =
     (if poll_fd p \<noteq> IGNORE_FD then watch_slot ps (index + 1) else Inr index)"

definition addNewWatch :: "wrap \<Rightarrow> int \<Rightarrow> (wrap \<times> nat) result" where
  "addNewWatch w fd =
     andThen (watch_slot (stream_fd w) 0) (\<lambda>index.
     Inr (w\<lparr>stream_fd := (stream_fd w)[index := (stream_fd w ! index)
              \<lparr>poll_fd := fd, poll_events := POLLIN\<rparr>]\<rparr>, index))"

text \<open>
  The system calls of the child of a \<open>fork\<close>, in order. \<open>processRunner\<close> only comes back, with -1,
  when \<open>execve\<close> failed.
\<close>

datatype syscall = CloseFd int | Dup2 int int | Execve string "string list"

definition processRunner :: "int \<Rightarrow> int \<Rightarrow> string \<Rightarrow> string list \<Rightarrow> syscall list \<times> int" where
  "processRunner stdin_fd stdout_fd cmd argv =
     ([Dup2 stdin_fd 0, Dup2 stdout_fd 1, Execve cmd argv], -1)"

definition child_process :: "sink_context \<Rightarrow> string \<Rightarrow> string list \<Rightarrow> syscall list" where
  "child_process c path argv =
     [CloseFd (PIPE_WRITE (wrap_stdin c)), CloseFd (PIPE_READ (wrap_stdout c))] @
     fst (processRunner (PIPE_READ (wrap_stdin c)) (PIPE_WRITE (wrap_stdout c)) path argv)"

text \<open>
  \<open>autoSpawn\<close>: the parent's side. A \<open>fork\<close> that returns 0 is the child whose \<open>execve\<close> failed,
  which exits; a failed \<open>fork\<close> (-1) is not noticed.
\<close>

definition autoSpawn :: "wrap_os \<Rightarrow> wrap \<Rightarrow> gnw_address \<Rightarrow> (wrap \<times> nat) result" where
  "autoSpawn env w address =
     andThen (kh_put (sinkTable w) address) (\<lambda>(h, hint, status).
     case (wo_pipe env (w_pipes w), wo_pipe env (w_pipes w + 1)) of
       (Some pin, Some pout) \<Rightarrow>
         (let pid = wo_fork env (w_forks w) in
          if pid = 0 then Inl (Exit EXIT_FAILURE)
          else
            andThen (kh_set_value h hint
                \<lparr>sc_pid = pid, wrap_stdin = pin, wrap_stdout = pout, sc_packets_in = 0,
                 sc_packets_out = 0, sc_bytes_in = 0, sc_bytes_out = 0\<rparr>) (\<lambda>h.
            andThen (addNewWatch (w\<lparr>sinkTable := h, w_pipes := w_pipes w + 2, w_forks := w_forks w + 1,
                w_closed := w_closed w @ [PIPE_READ pin, PIPE_WRITE pout]\<rparr>) (PIPE_READ pout)) (\<lambda>(w, _).
            Inr (w, hint))))
     | _ \<Rightarrow> Inl (Exit EXIT_FAILURE))"

definition applyDeMuxPolicy :: "wrap_os \<Rightarrow> wrap \<Rightarrow> gnw_address \<Rightarrow> (wrap \<times> gnw_address) result" where
  "applyDeMuxPolicy env w address =
     (let address = (if demux_mode w = DEMUX_MERGE then arg_address (w_config w) else address) in
      andThen (kh_get (sinkTable w) address) (\<lambda>hint.
      if hint \<noteq> kh_end (sinkTable w) then Inr (w, address)
      else
        andThen (if demux_mode w = DEMUX_SPAWN then getNextLocalAddress env w else Inr (w, address))
          (\<lambda>(w, address).
        andThen (autoSpawn env w address) (\<lambda>(w, _).
        Inr (w, address)))))"

definition dropRouterFD :: "wrap \<Rightarrow> wrap \<times> int" where
  "dropRouterFD w =
     (if router_fd w \<noteq> -1 then w\<lparr>w_closed := w_closed w @ [router_fd w]\<rparr> else w, -1)"

section \<open>Packets from the router\<close>

text \<open>
  Writing to the standard input of a process: what \<open>write\<close> takes arrives, and the value it
  returns is not looked at.
\<close>

definition write_sink :: "wrap_os \<Rightarrow> wrap \<Rightarrow> int \<Rightarrow> u8 list \<Rightarrow> wrap" where
  "write_sink env w fd bytes =
     (let written = wo_write env fd bytes in
      w\<lparr>w_net := (w_net w)\<lparr>sent := sent (w_net w) @
        (if 0 < written then [(fd, take (nat written) bytes)] else [])\<rparr>\<rparr>)"

definition handleDataPacket :: "wrap_os \<Rightarrow> wrap \<Rightarrow> gnw_header \<Rightarrow> u8 list \<Rightarrow> wrap result" where
  "handleDataPacket env w header payload =
     (let len = unat (hdr_length header) in
      if arg_echo (w_config w) then
        andThen (load_block payload 0 len) (\<lambda>bytes. Inr (w\<lparr>w_stdout := w_stdout w @ bytes\<rparr>))
      else
        andThen (applyDeMuxPolicy env w (hdr_source header)) (\<lambda>(w, source).
        andThen (kh_get (sinkTable w) source) (\<lambda>hint.
        if hint = kh_end (sinkTable w) then Inr w
        else
          andThen (kh_value (sinkTable w) hint) (\<lambda>c.
          andThen (load_block payload 0 len) (\<lambda>bytes.
          andThen (kh_set_value (sinkTable w) hint
              (c\<lparr>sc_packets_in := sc_packets_in c + 1,
                 sc_bytes_in := sc_bytes_in c + ucast (hdr_length header)\<rparr>)) (\<lambda>h.
          Inr (write_sink env (w\<lparr>sinkTable := h\<rparr>) (PIPE_WRITE (wrap_stdin c)) bytes)))))))"

definition handleCommandPacket :: "wrap \<Rightarrow> gnw_header \<Rightarrow> u8 list \<Rightarrow> wrap result" where
  "handleCommandPacket w header payload =
     andThen (packet_read_u8 payload 0) (\<lambda>(directive, nxt).
     if hdr_length header < 1 then Inr w
     else if directive = GNW_CMD_NEW_ADDRESS then
       andThen (packet_read_u32 payload nxt) (\<lambda>(a, nxt).
       if arg_address (w_config w) = 0
       then Inr (w\<lparr>w_config := (w_config w)\<lparr>arg_address := a\<rparr>\<rparr>)
       else Inr w)
     else andThen (load payload 0) (\<lambda>_. Inr w))"

definition handlePacket :: "wrap_os \<Rightarrow> wrap \<Rightarrow> gnw_header \<Rightarrow> u8 list \<Rightarrow> wrap result" where
  "handlePacket env w header payload =
     (if hdr_type header = GNW_DATA then handleDataPacket env w header payload
      else if hdr_type header = GNW_COMMAND \<or> hdr_type header = GNW_REPLY
      then handleCommandPacket w header payload
      else Inr w)"

text \<open>
  The loop over the complete packets of a buffer. \<open>payload\<close> is an array of \<open>11 + header.length\<close>
  bytes (a 32-bit sum) on the stack, its contents those of \<open>wo_malloc\<close> until written. One unit of
  fuel a round; every round takes a byte at least out of the buffer.
\<close>

fun remote_loop :: "nat \<Rightarrow> wrap_os \<Rightarrow> wrap \<Rightarrow> nat \<Rightarrow> wrap result" where
  "remote_loop 0 env w x = Inl Diverges"
| "remote_loop (Suc fuel) env w x =
     andThen (kh_value (input_buffer w) x) (\<lambda>local.
     andThen (deref (lb_buffer local)) (\<lambda>block.
     andThen (deref (lb_tail local)) (\<lambda>tail.
     andThen (gnw_nextPacket block tail) (\<lambda>readyBytes.
     if readyBytes = 0 then Inr w
     else if readyBytes < 0 then
       andThen (packet_shift block 0 (block_size w) None 1) (\<lambda>(block, _, _).
       andThen (upd_input w x \<lparr>lb_buffer = Some block, lb_tail = Some (tail - 1)\<rparr>) (\<lambda>w.
       remote_loop fuel env w x))
     else
       andThen (gnw_parse_header False block) (\<lambda>(header, ptr).
       (let total = unat (11 + hdr_length header) in
        andThen (load_block block ptr (unat (hdr_length header))) (\<lambda>bytes.
        andThen (store_block (wo_malloc env total) 0 bytes) (\<lambda>payload.
        andThen (packet_shift block 0 (block_size w) None total) (\<lambda>(block, _, _).
        andThen (upd_input w x \<lparr>lb_buffer = Some block, lb_tail = Some (tail - total)\<rparr>) (\<lambda>w.
        andThen (handlePacket env w header payload) (\<lambda>w.
        remote_loop fuel env w x)))))))))))"

text \<open>
  The handlers return the state, the new value of \<open>*fd\<close> and whether they set \<open>*shutdown\<close>.
\<close>

definition handleRemoteData ::
    "wrap_os \<Rightarrow> wrap \<Rightarrow> int \<Rightarrow> u16 \<Rightarrow> u8 list option \<Rightarrow> (wrap \<times> int \<times> bool) result" where
  "handleRemoteData env w fd events avail =
     andThen (getLocalBuffer env w fd) (\<lambda>(w, x).
     andThen (kh_value (input_buffer w) x) (\<lambda>local.
     (let filled = used_bytes local in
      andThen (read_into avail (lb_buffer local) filled (free_bytes w filled)) (\<lambda>(buffer, actualRead).
      if actualRead < 1 then
        (let (w, rfd) = getRouterFD env w in
         andThen (destroyLocalBuffer w fd) (\<lambda>w. Inr (w, -1, fd = rfd)))
      else
        andThen (upd_input w x \<lparr>lb_buffer = buffer, lb_tail = Some (filled + nat actualRead)\<rparr>) (\<lambda>w.
        andThen (remote_loop (filled + nat actualRead + 1) env w x) (\<lambda>w.
        Inr (w, fd, False)))))))"

section \<open>Data for the router\<close>

text \<open>Forgetting the process whose output ended: the scan over the table stops at the first match.\<close>

fun sink_scan :: "nat \<Rightarrow> sink_context khash \<Rightarrow> int \<Rightarrow> nat \<Rightarrow> sink_context khash result" where
  "sink_scan 0 h fd iter = Inr h"
| "sink_scan (Suc left) h fd iter =
     andThen (kh_exist h iter) (\<lambda>exists.
     if exists then
       andThen (kh_value h iter) (\<lambda>c.
       if fd = PIPE_READ (wrap_stdout c) then Inr (kh_del h iter)
       else sink_scan left h fd (iter + 1))
     else sink_scan left h fd (iter + 1))"

text \<open>
  The loop that cuts the buffer at the delimiter. The byte is compared as an unsigned value with
  the signed \<open>char\<close>. The delimiter is left at the start of the next packet.
\<close>

function delimiter_loop ::
    "(int \<Rightarrow> u8 list \<Rightarrow> int) \<Rightarrow> net \<Rightarrow> int \<Rightarrow> gnw_address \<Rightarrow> u8 \<Rightarrow> nat \<Rightarrow> u8 list \<Rightarrow> nat \<Rightarrow> nat \<Rightarrow>
       (net \<times> u8 list \<times> nat) result" where
  "delimiter_loop wr n fd source delim sz block tail cursor =
     (if cursor < tail then
        andThen (load block cursor) (\<lambda>b.
        if uint b = sint delim then
          andThen (gnw_emitDataPacket wr n fd source (Some block) cursor) (\<lambda>n.
          andThen (packet_shift block 0 sz None cursor) (\<lambda>(block, _, _).
          delimiter_loop wr n fd source delim sz block (tail - cursor) 1))
        else delimiter_loop wr n fd source delim sz block tail (cursor + 1))
      else Inr (n, block, tail))"
  by pat_completeness auto
termination
  by (relation "measure (\<lambda>(_, _, _, _, _, _, _, tail, cursor). tail - cursor)") auto

declare delimiter_loop.simps [simp del]

definition POLLNVAL :: u16 where "POLLNVAL = 0x20"

definition handleLocalData ::
    "wrap_os \<Rightarrow> wrap \<Rightarrow> int \<Rightarrow> u16 \<Rightarrow> u8 list option \<Rightarrow> (wrap \<times> int \<times> bool) result" where
  "handleLocalData env w fd events avail =
     andThen (getLocalBuffer env w fd) (\<lambda>(w, x).
     andThen (kh_value (input_buffer w) x) (\<lambda>local.
     (let filled = used_bytes local in
      andThen (read_into avail (lb_buffer local) filled (free_bytes w filled)) (\<lambda>(buffer, actualRead).
      if actualRead < 1 then
        (if events AND POLLNVAL = POLLNVAL \<or> events AND POLLHUP = POLLHUP \<or> \<not> wo_valid env fd then
           andThen (sink_scan (kh_end (sinkTable w)) (sinkTable w) fd 0) (\<lambda>h.
           andThen (destroyLocalBuffer (w\<lparr>sinkTable := h\<rparr>) fd) (\<lambda>w.
           Inr (w, -1, fd = 0)))
         else Inr (w, fd, False))
      else
        (let tail = filled + nat actualRead; source = applyMuxPolicy w (arg_address (w_config w)) in
         if free_bytes w tail < nat (network_mtu (w_config w) mod 2 ^ 64) then
           andThen (gnw_emitDataPacket (wo_write env) (w_net w) (router_fd w) source buffer
               (wo_address env fd + tail)) (\<lambda>n.
           andThen (upd_input (w\<lparr>w_net := n\<rparr>) x \<lparr>lb_buffer = buffer, lb_tail = Some 0\<rparr>) (\<lambda>w.
           Inr (w, fd, False)))
         else
           andThen (deref buffer) (\<lambda>block.
           andThen (delimiter_loop (wo_write env) (w_net w) (router_fd w) source
               (arg_delimiter (w_config w)) (block_size w) block tail 0) (\<lambda>(n, block, tail).
           andThen (upd_input (w\<lparr>w_net := n\<rparr>) x \<lparr>lb_buffer = Some block, lb_tail = Some tail\<rparr>) (\<lambda>w.
           Inr (w, fd, False)))))))))"

end
