(* ===== verification/WrapMain.thy ===== *)
theory WrapMain
  imports Wrap
begin

text \<open>
  \<open>main\<close> of \<open>GraphWrap.c\<close>: the defaults, the command line, the inner binary, going live and the
  poll loop. \<open>getopt_long\<close> and \<open>poll\<close> are the system's: an option arrives as the value the
  \<open>switch\<close> looks at (the index of a long option or the code of a short one) with its argument,
  a poll round as the events of each descriptor and what a \<open>read\<close> of it would find.
  The terminal output and the two terminal-mode functions are not modelled.
\<close>

section \<open>Start\<close>

definition ROUTER_PORT :: string where "ROUTER_PORT = ''19000''"

definition default_config :: configuration where
  "default_config = \<lparr>network_mtu = 1500, read_timeout = 5, arg_host = ''127.0.0.1'',
     arg_port = ROUTER_PORT, arg_address = 0, gnw_local_mask = 0x00000FFF,
     arg_immediate = False, arg_verbosity = 0, arg_echo = False, arg_delimiter = 10\<rparr>"

text \<open>The globals when \<open>main\<close> has configured the local structures; \<open>mtu\<close> is that of \<open>lo\<close>.\<close>

definition wrap_init :: "int \<Rightarrow> wrap" where
  "wrap_init mtu = \<lparr>w_config = default_config\<lparr>network_mtu := mtu\<rparr>, mux_mode = MUX_NOOP,
     demux_mode = DEMUX_NOOP, binary_path = [], binary_argv = [],
     stream_fd = replicate MAX_INPUT_STREAMS \<lparr>poll_fd = IGNORE_FD, poll_events = 0, poll_revents = 0\<rparr>,
     nextLocalAddress = 0, sinkTable = kh_init, input_buffer = kh_init, router_fd = -1,
     w_net = \<lparr>link_stats = \<lparr>bytesWritten = 0, bytesRead = 0, dataPackets = 0, commandPackets = 0\<rparr>,
       sent = []\<rparr>, w_stdout = [], w_pipes = 0, w_forks = 0, w_connects = 0, w_closed = []\<rparr>"

section \<open>The command line\<close>

datatype wrap_opt = ARG_HELP | ARG_USAGE | ARG_HOST | ARG_PORT | ARG_ADDRESS | ARG_INPUT | ARG_OUTPUT
  | ARG_MUX | ARG_DEMUX | ARG_IMMEDIATE | ARG_VERSION | ARG_DELIMITER | ARG_VERBOSE | ARG_QUIET
  | ARG_UNKNOWN

text \<open>\<open>optarg[i]\<close> up to the terminating zero.\<close>

definition char_at :: "string \<Rightarrow> nat \<Rightarrow> char" where
  "char_at s i = (if i < length s then s ! i else CHR 0x00)"

definition byte_of :: "char \<Rightarrow> u8" where "byte_of c = of_nat (of_char c)"

definition delimiter_option :: "string \<Rightarrow> u8" where
  "delimiter_option optarg =
     (if char_at optarg 0 = CHR 0x5C then
        (let c = char_at optarg 1 in
         if c = CHR 0x5C then 0x5C
         else if c = CHR ''0'' then 0
         else if c = CHR ''r'' then 13
         else if c = CHR ''n'' then 10
         else if c = CHR ''t'' then 9
         else byte_of c)
      else byte_of (char_at optarg 0))"

definition mux_option :: "u32 \<Rightarrow> string \<Rightarrow> u32" where
  "mux_option current optarg =
     (if optarg \<noteq> ''noop'' then MUX_NOOP
      else if optarg \<noteq> ''merge'' then MUX_MERGE
      else current)"

definition demux_option :: "bool \<Rightarrow> u32 \<Rightarrow> string \<Rightarrow> u32" where
  "demux_option echo current optarg =
     (if echo \<and> optarg \<noteq> ''merge'' then DEMUX_MERGE
      else if optarg = ''noop'' then DEMUX_NOOP
      else if optarg = ''spawn'' then DEMUX_SPAWN
      else if optarg = ''merge'' then DEMUX_MERGE
      else current)"

abbreviation upd_config :: "wrap \<Rightarrow> (configuration \<Rightarrow> configuration) \<Rightarrow> wrap" where
  "upd_config w f \<equiv> w\<lparr>w_config := f (w_config w)\<rparr>"

text \<open>\<open>--help\<close>, \<open>--usage\<close> and \<open>--version\<close> end the program with success.\<close>

fun wrap_option :: "wrap \<Rightarrow> wrap_opt \<times> string \<Rightarrow> wrap result" where
  "wrap_option w (ARG_HELP, optarg) = Inl (Exit 0)"
| "wrap_option w (ARG_USAGE, optarg) = Inl (Exit 0)"
| "wrap_option w (ARG_HOST, optarg) = Inr (upd_config w (\<lambda>c. c\<lparr>arg_host := optarg\<rparr>))"
| "wrap_option w (ARG_PORT, optarg) = Inr (upd_config w (\<lambda>c. c\<lparr>arg_port := optarg\<rparr>))"
| "wrap_option w (ARG_ADDRESS, optarg) =
     Inr (upd_config w (\<lambda>c. c\<lparr>arg_address := ucast (strtoul optarg 16)\<rparr>))"
| "wrap_option w (ARG_INPUT, optarg) = andThen (addNewWatch w 0) (\<lambda>(w, _). Inr w)"
| "wrap_option w (ARG_OUTPUT, optarg) =
     Inr ((upd_config w (\<lambda>c. c\<lparr>arg_echo := True\<rparr>))\<lparr>demux_mode := DEMUX_MERGE\<rparr>)"
| "wrap_option w (ARG_MUX, optarg) = Inr (w\<lparr>mux_mode := mux_option (mux_mode w) optarg\<rparr>)"
| "wrap_option w (ARG_DEMUX, optarg) =
     Inr (w\<lparr>demux_mode := demux_option (arg_echo (w_config w)) (demux_mode w) optarg\<rparr>)"
| "wrap_option w (ARG_IMMEDIATE, optarg) = Inr (upd_config w (\<lambda>c. c\<lparr>arg_immediate := True\<rparr>))"
| "wrap_option w (ARG_VERSION, optarg) = Inl (Exit 0)"
| "wrap_option w (ARG_DELIMITER, optarg) =
     Inr (upd_config w (\<lambda>c. c\<lparr>arg_delimiter := delimiter_option optarg\<rparr>))"
| "wrap_option w (ARG_VERBOSE, optarg) =
     Inr (upd_config w (\<lambda>c. c\<lparr>arg_verbosity := arg_verbosity c + 1\<rparr>))"
| "wrap_option w (ARG_QUIET, optarg) = Inr w"
| "wrap_option w (ARG_UNKNOWN, optarg) = Inr w"

fun wrap_options :: "wrap \<Rightarrow> (wrap_opt \<times> string) list \<Rightarrow> wrap result" where
  "wrap_options w [] = Inr w"
| "wrap_options w (opt # opts) = andThen (wrap_option w opt) (\<lambda>w. wrap_options w opts)"

text \<open>
  The inner binary: \<open>config_binary.argv\<close> has 20 places, one of them for the final null pointer.
\<close>

definition inner_binary :: "(string \<Rightarrow> bool) \<Rightarrow> string option \<Rightarrow> wrap \<Rightarrow> string list \<Rightarrow> wrap result" where
  "inner_binary access env_path w argv =
     (case argv of [] \<Rightarrow> Inr w
      | binary # _ \<Rightarrow>
          andThen (findRealPath access env_path (replicate 2048 (CHR 0x00)) binary) (\<lambda>path.
          if 20 \<le> length argv \<or> CHR 0x00 \<notin> set path then Inl OutOfBounds
          else if c_string path = [] then Inl (Exit 0)
          else Inr (w\<lparr>binary_path := c_string path, binary_argv := argv\<rparr>)))"

section \<open>Going live\<close>

definition go_live :: "wrap_os \<Rightarrow> wrap \<Rightarrow> (wrap \<times> int) result" where
  "go_live env w =
     (let (w, rfd) = getRouterFD env w in
      andThen (assert_that False (rfd \<noteq> -1)) (\<lambda>_.
      andThen (addNewWatch w rfd) (\<lambda>(w, _).
      andThen (if arg_address (w_config w) = 0
               then andThen (gnw_sendCommand (wo_write env) (w_net w) rfd GNW_CMD_NEW_ADDRESS)
                      (\<lambda>n. Inr (w\<lparr>w_net := n\<rparr>))
               else request_address env w rfd (arg_address (w_config w))) (\<lambda>w.
      if arg_immediate (w_config w) then
        andThen (assert_that False (arg_address (w_config w) \<noteq> 0)) (\<lambda>_.
        andThen (autoSpawn env w (arg_address (w_config w))) (\<lambda>(w, _). Inr (w, rfd)))
      else Inr (w, rfd)))))"

section \<open>The poll loop\<close>

text \<open>What \<open>poll\<close> stores: nothing for a negative descriptor.\<close>

definition poll_results :: "(int \<Rightarrow> u16) \<Rightarrow> pollfd list \<Rightarrow> pollfd list" where
  "poll_results evs fds =
     map (\<lambda>p. p\<lparr>poll_revents := (if poll_fd p < 0 then 0 else evs (poll_fd p))\<rparr>) fds"

fun first_ready :: "pollfd list \<Rightarrow> nat \<Rightarrow> nat option" where
  "first_ready [] index = None"
| "first_ready (p # ps) index =
     (if poll_revents p \<noteq> 0 then Some index else first_ready ps (index + 1))"

text \<open>Storing the descriptor a handler leaves, and clearing the events.\<close>

definition settle :: "wrap \<Rightarrow> nat \<Rightarrow> int \<Rightarrow> wrap" where
  "settle w index fd =
     w\<lparr>stream_fd := (stream_fd w)[index := (stream_fd w ! index)\<lparr>poll_fd := fd, poll_revents := 0\<rparr>]\<rparr>"

text \<open>
  One round of the loop over \<open>stream_fd\<close>: only the first ready entry is looked at, and an entry
  that is not the router's is passed over as long as the node has no address.
\<close>

definition wrap_round ::
    "wrap_os \<Rightarrow> (int \<Rightarrow> u16) \<Rightarrow> (int \<Rightarrow> u8 list option) \<Rightarrow> wrap \<times> bool \<Rightarrow> (wrap \<times> bool) result" where
  "wrap_round env evs avail = (\<lambda>(w, status).
     let w = w\<lparr>stream_fd := poll_results evs (stream_fd w)\<rparr> in
     (case first_ready (stream_fd w) 0 of
        None \<Rightarrow> Inr (w, status)
      | Some index \<Rightarrow>
          (let p = stream_fd w ! index; (w, rfd) = getRouterFD env w in
           if poll_fd p = rfd then
             andThen (handleRemoteData env w (poll_fd p) (poll_revents p) (avail (poll_fd p)))
               (\<lambda>(w, fd, shutdown). Inr (settle w index fd, status \<or> shutdown))
           else if arg_address (w_config w) \<noteq> 0 then
             andThen (handleLocalData env w (poll_fd p) (poll_revents p) (avail (poll_fd p)))
               (\<lambda>(w, fd, shutdown). Inr (settle w index fd, status \<or> shutdown))
           else Inr (w, status))))"

text \<open>The loop over the rounds that \<open>poll\<close> returns from; it stops when \<open>status\<close> is set.\<close>

fun wrap_run ::
    "wrap_os \<Rightarrow> ((int \<Rightarrow> u16) \<times> (int \<Rightarrow> u8 list option)) list \<Rightarrow> wrap \<times> bool \<Rightarrow> (wrap \<times> bool) result"
where
  "wrap_run env [] s = Inr s"
| "wrap_run env ((evs, avail) # rounds) s =
     (if snd s then Inr s else andThen (wrap_round env evs avail s) (wrap_run env rounds))"

text \<open>
  Everything that is still open is closed at the end: the router's descriptor, then the streams.
  \<open>wo_valid\<close> is what \<open>fcntl\<close> finds before the first \<open>close\<close>.
\<close>

fun close_open :: "wrap_os \<Rightarrow> int list \<Rightarrow> int list \<Rightarrow> int list" where
  "close_open env [] closed = closed"
| "close_open env (fd # fds) closed =
     close_open env fds (if wo_valid env fd \<and> fd \<notin> set closed then closed @ [fd] else closed)"

lemma close_open_once:
  "distinct closed \<Longrightarrow> distinct (close_open env fds closed) \<and>
   set (close_open env fds closed) = set closed \<union> {fd \<in> set fds. wo_valid env fd}"
  by (induction env fds closed rule: close_open.induct) auto

definition wrap_close :: "wrap_os \<Rightarrow> int \<Rightarrow> wrap \<Rightarrow> wrap" where
  "wrap_close env rfd w =
     w\<lparr>w_closed := w_closed w @ close_open env (rfd # map poll_fd (stream_fd w)) []\<rparr>"

definition graph_main ::
    "wrap_os \<Rightarrow> (string \<Rightarrow> bool) \<Rightarrow> string option \<Rightarrow> int \<Rightarrow> (wrap_opt \<times> string) list \<Rightarrow> string list \<Rightarrow>
       ((int \<Rightarrow> u16) \<times> (int \<Rightarrow> u8 list option)) list \<Rightarrow> (wrap \<times> bool) result" where
  "graph_main env access env_path mtu opts argv rounds =
     andThen (wrap_options (wrap_init mtu) opts) (\<lambda>w.
     andThen (inner_binary access env_path w argv) (\<lambda>w.
     andThen (go_live env w) (\<lambda>(w, rfd).
     andThen (wrap_run env rounds (w, False)) (\<lambda>(w, status).
     Inr (wrap_close env rfd w, status)))))"

end
