(* ===== verification/WrapSpec.thy ===== *)
theory WrapSpec
  imports WrapMain RouterLoop
begin

text \<open>
  What \<open>Graph\<close> promises: the input bridge cuts a byte stream into packets in a way that does not
  depend on how the stream arrives, the output side handles every frame of the stream from the
  router once and in order, however it arrives; and lemmas on the buffer both use.
\<close>

section \<open>The buffer of a descriptor\<close>

text \<open>The node's block size is 20 times its MTU \<open>m\<close>, and \<open>malloc\<close> gives blocks of their size.\<close>

definition wrap_sizes :: "wrap_os \<Rightarrow> wrap \<Rightarrow> nat \<Rightarrow> bool" where
  "wrap_sizes env w m \<longleftrightarrow> network_mtu (w_config w) = int m \<and> 0 < m \<and> m * 20 < 2 ^ 31 \<and>
     (\<forall>n. length (wo_malloc env n) = n)"

text \<open>The descriptor's entry, if there is one, is a live buffer of that size.\<close>

definition input_ok :: "local_buffer khash \<Rightarrow> nat \<Rightarrow> int \<Rightarrow> bool" where
  "input_ok h m fd \<longleftrightarrow> kh_full h \<and> (\<forall>b. kh_abs h (fd_key fd) = Some b \<longrightarrow> buffer_ok m b)"

lemma block_size_eq: "wrap_sizes env w m \<Longrightarrow> block_size w = m * 20"
  by (simp add: wrap_sizes_def block_size_def nat_mult_distrib)

lemma free_bytes_eq: "wrap_sizes env w m \<Longrightarrow> t \<le> m * 20 \<Longrightarrow> free_bytes w t = m * 20 - t"
  by (simp add: wrap_sizes_def free_bytes_def nat_diff_distrib nat_mult_distrib)

lemma getLocalBuffer_spec:
  assumes s: "wrap_sizes env w m" and h: "input_ok (input_buffer w) m fd"
    and small: "kh_n_buckets (input_buffer w) \<le> 2 ^ 30"
  shows "\<exists>h' x block t. getLocalBuffer env w fd = Inr (w\<lparr>input_buffer := h'\<rparr>, x) \<and>
    kh_full h' \<and> kh_holds h' x (fd_key fd) \<and>
    kh_value h' x = Inr \<lparr>lb_buffer = Some block, lb_tail = Some t\<rparr> \<and>
    kh_abs h' = (kh_abs (input_buffer w))(fd_key fd \<mapsto> \<lparr>lb_buffer = Some block, lb_tail = Some t\<rparr>) \<and>
    length block = m * 20 \<and> t \<le> m * 20 \<and> take t block = pending (input_buffer w) fd \<and>
    kh_n_buckets h' \<le> max (kh_n_buckets (input_buffer w))
      (max 4 (4 * card (dom (kh_abs (input_buffer w)))))"
proof (cases "kh_abs (input_buffer w) (fd_key fd)")
  case None
  let ?b = "\<lparr>lb_buffer = Some (wo_malloc env (m * 20)), lb_tail = Some 0\<rparr>"
  have full: "kh_full (input_buffer w)" using h by (simp add: input_ok_def)
  have ml: "length (wo_malloc env (m * 20)) = m * 20" using s by (simp add: wrap_sizes_def)
  obtain h1 x st h' where p: "kh_put (input_buffer w) (fd_key fd) = Inr (h1, x, st)"
    "kh_set_value h1 x ?b = Inr h'" "kh_full h'"
    "kh_abs h' = (kh_abs (input_buffer w))(fd_key fd \<mapsto> ?b)" "kh_holds h' x (fd_key fd)"
    "kh_n_buckets h' \<le> max (kh_n_buckets (input_buffer w))
      (max 4 (4 * card (dom (kh_abs (input_buffer w)))))"
    using kh_put_set [OF full small, of "fd_key fd" ?b] by blast
  have run: "getLocalBuffer env w fd = Inr (w\<lparr>input_buffer := h'\<rparr>, x)"
    using kh_no_bucket [OF full None] p(1,2) by (simp add: getLocalBuffer_def block_size_eq [OF s])
  have "kh_abs h' (fd_key fd) = Some ?b" using p(4) by simp
  then obtain y where y: "kh_get h' (fd_key fd) = Inr y" "kh_value h' y = Inr ?b"
    using kh_bucket [OF p(3)] by blast
  have "y = x" using y(1) kh_get_holds [OF p(3,5)] by simp
  moreover have "take 0 (wo_malloc env (m * 20)) = pending (input_buffer w) fd"
    using None by (simp add: pending_def)
  ultimately show ?thesis using run p(3-6) y(2) ml by blast
next
  case (Some b)
  have full: "kh_full (input_buffer w)" using h by (simp add: input_ok_def)
  obtain block t where b: "b = \<lparr>lb_buffer = Some block, lb_tail = Some t\<rparr>"
    "length block = m * 20" "t \<le> m * 20"
    using h Some by (auto simp: input_ok_def buffer_ok_def)
  obtain x where x: "kh_get (input_buffer w) (fd_key fd) = Inr x" "kh_holds (input_buffer w) x (fd_key fd)"
    "kh_value (input_buffer w) x = Inr b" "x \<noteq> kh_end (input_buffer w)"
    using kh_bucket [OF full Some] by blast
  have "getLocalBuffer env w fd = Inr (w\<lparr>input_buffer := input_buffer w\<rparr>, x)"
    using x(1,4) by (simp add: getLocalBuffer_def)
  moreover have "take t block = pending (input_buffer w) fd"
    using Some b(1) by (simp add: pending_def buffer_bytes_def)
  moreover have "kh_abs (input_buffer w) = (kh_abs (input_buffer w))
      (fd_key fd \<mapsto> \<lparr>lb_buffer = Some block, lb_tail = Some t\<rparr>)"
    using Some b(1) by (simp add: fun_upd_idem)
  ultimately show ?thesis using full x(2,3) b by (metis max.cobounded1)
qed

text \<open>Storing the buffer back through the pointer.\<close>

lemma upd_input_spec:
  assumes full: "kh_full h" and x: "kh_holds h x (fd_key fd)"
    and b: "length block = m * 20" "t \<le> m * 20"
  shows "\<exists>h'. (\<forall>w. input_buffer w = h \<longrightarrow>
      upd_input w x \<lparr>lb_buffer = Some block, lb_tail = Some t\<rparr> = Inr (w\<lparr>input_buffer := h'\<rparr>)) \<and>
    kh_full h' \<and> kh_holds h' x (fd_key fd) \<and> input_ok h' m fd \<and> pending h' fd = take t block \<and>
    kh_value h' x = Inr \<lparr>lb_buffer = Some block, lb_tail = Some t\<rparr> \<and>
    kh_abs h' (fd_key fd) = Some \<lparr>lb_buffer = Some block, lb_tail = Some t\<rparr> \<and>
    (\<forall>k. k \<noteq> fd_key fd \<longrightarrow> kh_abs h' k = kh_abs h k) \<and>
    dom (kh_abs h') = Set.insert (fd_key fd) (dom (kh_abs h)) \<and> kh_n_buckets h' = kh_n_buckets h"
proof -
  let ?b = "\<lparr>lb_buffer = Some block, lb_tail = Some t\<rparr>"
  obtain h' where h': "kh_set_value h x ?b = Inr h'" "kh_full h'" "kh_abs h' = (kh_abs h)(fd_key fd \<mapsto> ?b)"
    "kh_n_buckets h' = kh_n_buckets h" "kh_holds h' x (fd_key fd)"
    using kh_set_full [OF full x, of ?b] by blast
  have some: "kh_abs h' (fd_key fd) = Some ?b" using h'(3) by simp
  obtain y where y: "kh_get h' (fd_key fd) = Inr y" "kh_value h' y = Inr ?b"
    using kh_bucket [OF h'(2) some] by blast
  have "y = x" using y(1) kh_get_holds [OF h'(2,5)] by simp
  then have val: "kh_value h' x = Inr ?b" using y(2) by simp
  have ok: "input_ok h' m fd" using h'(2) some b by (simp add: input_ok_def buffer_ok_def)
  have pend: "pending h' fd = take t block" using some by (simp add: pending_def buffer_bytes_def)
  have dm: "dom (kh_abs h') = Set.insert (fd_key fd) (dom (kh_abs h))" using h'(3) by auto
  show ?thesis
    using h' val ok pend dm some by (intro exI [of _ h']) (simp add: upd_input_def)
qed

section \<open>Cutting a stream at the delimiter\<close>

definition is_delim :: "u8 \<Rightarrow> u8 \<Rightarrow> bool" where
  "is_delim delim b \<longleftrightarrow> uint b = sint delim"

text \<open>The packets of a stream and what is left over; a delimiter starts a new piece.\<close>

fun cuts :: "('a \<Rightarrow> bool) \<Rightarrow> 'a list \<Rightarrow> 'a list \<Rightarrow> 'a list list \<times> 'a list" where
  "cuts P acc [] = ([], acc)"
| "cuts P acc (b # bs) =
     (if P b then (if acc = [] then cuts P [b] bs
                   else (acc # fst (cuts P [b] bs), snd (cuts P [b] bs)))
      else cuts P (acc @ [b]) bs)"

lemma cuts_append:
  "cuts P acc (xs @ ys) =
     (fst (cuts P acc xs) @ fst (cuts P (snd (cuts P acc xs)) ys),
      snd (cuts P (snd (cuts P acc xs)) ys))"
  by (induction P acc xs rule: cuts.induct) simp_all

text \<open>A piece: a delimiter only as its first byte.\<close>

definition piece :: "('a \<Rightarrow> bool) \<Rightarrow> 'a list \<Rightarrow> bool" where
  "piece P xs \<longleftrightarrow> (\<forall>b\<in>set (tl xs). \<not> P b)"

lemma cuts_plain: "\<forall>b\<in>set bs. \<not> P b \<Longrightarrow> cuts P acc bs = ([], acc @ bs)"
  by (induction P acc bs rule: cuts.induct) auto

lemma cuts_piece: "piece P xs \<Longrightarrow> cuts P [] xs = ([], xs)"
  by (cases xs) (auto simp: piece_def cuts_plain)

lemma cuts_restart: "piece P acc \<Longrightarrow> cuts P [] (acc @ bs) = cuts P acc bs"
  by (simp add: cuts_append cuts_piece)

definition cut_at :: "('a \<Rightarrow> bool) \<Rightarrow> 'a list \<Rightarrow> 'a list list \<Rightarrow> 'a list \<Rightarrow> bool" where
  "cut_at P stream ps r \<longleftrightarrow> concat ps @ r = stream \<and>
     (\<forall>p\<in>set ps. p \<noteq> [] \<and> piece P p) \<and> piece P r \<and>
     (\<forall>p\<in>set (tl (ps @ [r])). p \<noteq> [] \<and> P (hd p))"

lemma piece_snoc: "piece P acc \<Longrightarrow> \<not> P b \<Longrightarrow> piece P (acc @ [b])"
  by (cases acc) (auto simp: piece_def)

lemma cuts_cut_at:
  "piece P acc \<Longrightarrow> cut_at P (acc @ bs) (fst (cuts P acc bs)) (snd (cuts P acc bs))"
proof (induction P acc bs rule: cuts.induct)
  case (1 P acc)
  then show ?case by (simp add: cut_at_def)
next
  case (2 P acc b bs)
  show ?case
  proof (cases "P b")
    case False
    then show ?thesis using 2 by (simp add: piece_snoc)
  next
    case True
    have single: "piece P [b]" by (simp add: piece_def)
    have IH: "cut_at P (b # bs) (fst (cuts P [b] bs)) (snd (cuts P [b] bs))"
      using 2 True single by (cases "acc = []") simp_all
    have hd_eq: "hd (fst (cuts P [b] bs) @ [snd (cuts P [b] bs)]) \<noteq> [] \<and>
        hd (hd (fst (cuts P [b] bs) @ [snd (cuts P [b] bs)])) = b"
      using IH by (cases "fst (cuts P [b] bs)") (auto simp: cut_at_def neq_Nil_conv hd_append)
    show ?thesis
    proof (cases "acc = []")
      case True
      then show ?thesis using IH \<open>P b\<close> by simp
    next
      case False
      have rest: "\<forall>p\<in>set (fst (cuts P [b] bs) @ [snd (cuts P [b] bs)]). p \<noteq> [] \<and> P (hd p)"
        using IH hd_eq \<open>P b\<close>
        by (cases "fst (cuts P [b] bs)") (auto simp: cut_at_def)
      show ?thesis using IH rest False \<open>P b\<close> "2.prems" by (simp add: cut_at_def)
    qed
  qed
qed

lemma cuts_rest_piece: "piece P acc \<Longrightarrow> piece P (snd (cuts P acc bs))"
  using cuts_cut_at [of P acc bs] by (simp add: cut_at_def)

lemma cuts_rest_short: "length (snd (cuts P acc bs)) \<le> length acc + length bs"
  by (induction P acc bs rule: cuts.induct) auto

section \<open>The input bridge\<close>

text \<open>One data packet for the router, as the network counts it.\<close>

definition emit_data ::
    "(int \<Rightarrow> u8 list \<Rightarrow> int) \<Rightarrow> int \<Rightarrow> gnw_address \<Rightarrow> u8 list \<Rightarrow> net \<Rightarrow> net" where
  "emit_data wr fd source payload n =
     net_emit wr (n\<lparr>link_stats := (link_stats n)\<lparr>dataPackets := dataPackets (link_stats n) + 1\<rparr>\<rparr>)
       fd (frame_bytes GNW_DATA source payload)"

lemma gnw_emitDataPacket_spec:
  assumes "0 < len" "len \<le> length b"
  shows "gnw_emitDataPacket wr n fd source (Some b) len = Inr (emit_data wr fd source (take len b) n)"
proof -
  have "len + 11 = length (frame_bytes GNW_DATA source (take len b))" using assms(2) by simp
  then show ?thesis using assms
    by (simp add: gnw_emitDataPacket_def frame_packet_eq emit_data_def gnw_emitPacket_spec
        del: length_frame_bytes)
qed

text \<open>A cut: the bytes before the delimiter are shifted out, and the cuts go on behind it.\<close>

lemma cut_shift:
  assumes lt: "cursor < tail" and sz: "length block = sz" "tail \<le> sz" and delim: "is_delim d (block ! cursor)"
    and cuts: "cuts (is_delim d) (take cursor block) (drop cursor (take tail block)) = (ps, r)"
  obtains block2 qs where "packet_shift block 0 sz None cursor = Inr (block2, None, sz - cursor)" "length block2 = sz"
    "cuts (is_delim d) (take 1 block2) (drop 1 (take (tail - cursor) block2)) = (qs, r)"
    "ps = (if cursor = 0 then qs else take cursor block # qs)"
proof -
  let ?b = "block ! cursor"
  have cons: "drop cursor (take tail block) = ?b # drop (Suc cursor) (take tail block)"
    using lt sz by (subst Cons_nth_drop_Suc [symmetric]) simp_all
  have cp: "cuts (is_delim d) (take cursor block) (?b # drop (Suc cursor) (take tail block)) = (ps, r)"
    using cuts unfolding cons .
  define block2 where "block2 = take (sz - cursor) (drop cursor block) @ drop (sz - cursor) block"
  have sh: "packet_shift block 0 sz None cursor = Inr (block2, None, sz - cursor)"
    unfolding block2_def by (rule packet_shift_eq) (use lt sz in simp_all)
  have l2: "length block2 = sz" using lt sz by (simp add: block2_def)
  have t2: "take (tail - cursor) block2 = drop cursor (take tail block)"
    using lt sz by (simp add: block2_def drop_take min_absorb1 diff_le_mono)
  have "take 1 block2 = take 1 (take (tail - cursor) block2)" using lt by (simp add: min_absorb1)
  then have one: "take 1 block2 = [?b]" unfolding t2 cons by simp
  have rest: "drop 1 (take (tail - cursor) block2) = drop (Suc cursor) (take tail block)"
    unfolding t2 cons by simp
  show thesis
  proof (cases "take cursor block = []")
    case empty: True
    then have "cursor = 0" using lt sz by auto
    then show thesis using that [OF sh l2] cp delim one rest by simp
  next
    case False
    then have "cursor \<noteq> 0" by auto
    then show thesis
      using that [OF sh l2, of "fst (cuts (is_delim d) [?b] (drop (Suc cursor) (take tail block)))"]
        cp delim one rest False by (auto simp: prod_eq_iff)
  qed
qed

lemma delimiter_loop_eq:
  assumes "length block = sz" "tail \<le> sz" "cursor \<le> tail"
    and "cuts (is_delim d) (take cursor block) (drop cursor (take tail block)) = (ps, r)"
  shows "\<exists>block'. delimiter_loop wr n fd s d sz block tail cursor =
      Inr (fold (emit_data wr fd s) ps n, block', length r) \<and>
    length block' = sz \<and> take (length r) block' = r"
  using assms
proof (induction "tail - cursor" arbitrary: n block tail cursor ps)
  case 0
  then have "cursor = tail" by simp
  then have "ps = []" "r = take tail block" using "0.prems"(4) by simp_all
  then show ?case using 0 by (subst delimiter_loop.simps) (simp add: min_absorb2)
next
  case (Suc k)
  have lt: "cursor < tail" using Suc.hyps(2) by simp
  let ?b = "block ! cursor"
  have cons: "drop cursor (take tail block) = ?b # drop (Suc cursor) (take tail block)"
    using lt Suc.prems(1,2) by (subst Cons_nth_drop_Suc [symmetric]) simp_all
  have ld: "load block cursor = Inr ?b" using lt Suc.prems(1,2) by (simp add: load_def)
  show ?case
  proof (cases "is_delim d ?b")
    case False
    have "take (Suc cursor) block = take cursor block @ [?b]"
      using lt Suc.prems(1,2) by (intro take_Suc_conv_app_nth) simp
    then have c: "cuts (is_delim d) (take (cursor + 1) block) (drop (cursor + 1) (take tail block)) = (ps, r)"
      using Suc.prems(4) cons False by simp
    have "\<exists>block'. delimiter_loop wr n fd s d sz block tail (cursor + 1) =
        Inr (fold (emit_data wr fd s) ps n, block', length r) \<and>
      length block' = sz \<and> take (length r) block' = r"
      by (rule Suc.hyps(1) [OF _ Suc.prems(1,2) _ c]) (use Suc.hyps(2) in simp_all)
    then show ?thesis using lt ld False
      by (subst delimiter_loop.simps) (simp add: is_delim_def)
  next
    case True
    obtain block2 qs where sh: "packet_shift block 0 sz None cursor = Inr (block2, None, sz - cursor)"
      and l2: "length block2 = sz"
      and qs: "cuts (is_delim d) (take 1 block2) (drop 1 (take (tail - cursor) block2)) = (qs, r)"
        "ps = (if cursor = 0 then qs else take cursor block # qs)"
      by (rule cut_shift [OF lt Suc.prems(1,2) True Suc.prems(4)])
    have step: "\<exists>block'. delimiter_loop wr n' fd s d sz block2 (tail - cursor) 1 =
        Inr (fold (emit_data wr fd s) qs n', block', length r) \<and>
      length block' = sz \<and> take (length r) block' = r" for n'
      by (rule Suc.hyps(1) [OF _ l2 _ _ qs(1)]) (use Suc.hyps(2) Suc.prems(2) in simp_all)
    have em: "gnw_emitDataPacket wr n fd s (Some block) cursor =
        Inr (if cursor = 0 then n else emit_data wr fd s (take cursor block) n)"
      using gnw_emitDataPacket_spec [of cursor block wr n fd s] lt Suc.prems(1,2)
      by (simp add: gnw_emitDataPacket_def)
    show ?thesis
      using step [of "if cursor = 0 then n else emit_data wr fd s (take cursor block) n"] lt ld True em sh qs(2)
      by (subst delimiter_loop.simps) (auto simp: is_delim_def)
  qed
qed

text \<open>The mux policy cannot change the address it is applied to: both modes give the node's.\<close>

lemma applyMuxPolicy_own: "applyMuxPolicy w (arg_address (w_config w)) = arg_address (w_config w)"
  by (simp add: applyMuxPolicy_def)

lemma read_into_some:
  assumes "chunk \<noteq> []" "t + length chunk \<le> length block" "length chunk \<le> capacity"
  shows "read_into (Some chunk) (Some block) t capacity =
    Inr (Some (take t block @ chunk @ drop (t + length chunk) block), int (length chunk))"
  using assms by (simp add: read_into_def store_block_def)

lemma handleLocalData_spec:
  assumes s: "wrap_sizes env w m" and h: "input_ok (input_buffer w) m fd"
    and small: "kh_n_buckets (input_buffer w) \<le> 2 ^ 30"
    and chunk: "chunk \<noteq> []" and room: "length (pending (input_buffer w) fd) + length chunk \<le> 19 * m"
    and c: "cuts (is_delim (arg_delimiter (w_config w))) [] (pending (input_buffer w) fd @ chunk) = (ps, r)"
  shows "\<exists>h'. handleLocalData env w fd ev (Some chunk) =
      Inr (w\<lparr>input_buffer := h',
             w_net := fold (emit_data (wo_write env) (router_fd w) (arg_address (w_config w))) ps (w_net w)\<rparr>,
           fd, False) \<and>
    input_ok h' m fd \<and> pending h' fd = r \<and>
    dom (kh_abs h') = Set.insert (fd_key fd) (dom (kh_abs (input_buffer w))) \<and>
    (\<forall>k. k \<noteq> fd_key fd \<longrightarrow> kh_abs h' k = kh_abs (input_buffer w) k) \<and>
    kh_n_buckets h' \<le> max (kh_n_buckets (input_buffer w))
      (max 4 (4 * card (dom (kh_abs (input_buffer w)))))"
proof -
  obtain h1 x block t where g: "getLocalBuffer env w fd = Inr (w\<lparr>input_buffer := h1\<rparr>, x)"
    "kh_full h1" "kh_holds h1 x (fd_key fd)"
    "kh_value h1 x = Inr \<lparr>lb_buffer = Some block, lb_tail = Some t\<rparr>"
    "kh_abs h1 = (kh_abs (input_buffer w))(fd_key fd \<mapsto> \<lparr>lb_buffer = Some block, lb_tail = Some t\<rparr>)"
    "length block = m * 20" "t \<le> m * 20" "take t block = pending (input_buffer w) fd"
    "kh_n_buckets h1 \<le> max (kh_n_buckets (input_buffer w))
      (max 4 (4 * card (dom (kh_abs (input_buffer w)))))"
    using getLocalBuffer_spec [OF s h small] by blast
  have lt: "length (pending (input_buffer w) fd) = t" using g(6-8) by (metis length_take min_absorb2)
  let ?w1 = "w\<lparr>input_buffer := h1\<rparr>" and ?n = "length chunk"
  have s1: "wrap_sizes env ?w1 m" using s by (simp add: wrap_sizes_def)
  have fit: "t + ?n \<le> 19 * m" using room lt by simp
  have mpos: "0 < m" using s by (simp add: wrap_sizes_def)
  define block2 where "block2 = take t block @ chunk @ drop (t + ?n) block"
  have l2: "length block2 = m * 20" using fit g(6) by (simp add: block2_def)
  have rd: "read_into (Some chunk) (Some block) t (free_bytes ?w1 t) = Inr (Some block2, int ?n)"
    unfolding block2_def
    by (rule read_into_some) (use chunk fit g(6) in \<open>simp_all add: free_bytes_eq [OF s1 g(7)]\<close>)
  have "t + ?n \<le> m * 20" using fit by simp
  then have "free_bytes ?w1 (t + ?n) = m * 20 - (t + ?n)" by (rule free_bytes_eq [OF s1])
  then have enough: "\<not> free_bytes ?w1 (t + ?n) < m" using fit by simp
  have msz: "nat (int m mod 2 ^ 64) = m" using s by (simp add: wrap_sizes_def)
  have tk: "take (t + ?n) block2 = pending (input_buffer w) fd @ chunk"
    using take_store [of t chunk block] fit g(6,8) by (simp add: block2_def)
  have le: "t + ?n \<le> m * 20" using fit by simp
  have c': "cuts (is_delim (arg_delimiter (w_config w))) (take 0 block2) (drop 0 (take (t + ?n) block2)) = (ps, r)"
    using c tk by simp
  obtain block3 where d: "delimiter_loop (wo_write env) (w_net w) (router_fd w) (arg_address (w_config w))
      (arg_delimiter (w_config w)) (m * 20) block2 (t + ?n) 0 =
      Inr (fold (emit_data (wo_write env) (router_fd w) (arg_address (w_config w))) ps (w_net w),
        block3, length r)" "length block3 = m * 20" "take (length r) block3 = r"
    using delimiter_loop_eq [OF l2 le le0 c'] by blast
  have lr: "length r \<le> m * 20" using d(2,3) by (metis length_take min.cobounded1)
  obtain h2 where u: "\<forall>w. input_buffer w = h1 \<longrightarrow>
      upd_input w x \<lparr>lb_buffer = Some block3, lb_tail = Some (length r)\<rparr> = Inr (w\<lparr>input_buffer := h2\<rparr>)"
    "input_ok h2 m fd" "pending h2 fd = take (length r) block3"
    "\<forall>k. k \<noteq> fd_key fd \<longrightarrow> kh_abs h2 k = kh_abs h1 k"
    "dom (kh_abs h2) = Set.insert (fd_key fd) (dom (kh_abs h1))" "kh_n_buckets h2 = kh_n_buckets h1"
    using upd_input_spec [OF g(2,3) d(2) lr] by blast
  have run: "handleLocalData env w fd ev (Some chunk) =
      Inr (w\<lparr>input_buffer := h2,
             w_net := fold (emit_data (wo_write env) (router_fd w) (arg_address (w_config w))) ps (w_net w)\<rparr>,
           fd, False)"
    using g(1,4) rd chunk enough msz d(1) u(1) s
    by (simp add: handleLocalData_def used_bytes_def Let_def applyMuxPolicy_def deref_def
        block_size_eq [OF s1] wrap_sizes_def)
  have dm: "dom (kh_abs h2) = Set.insert (fd_key fd) (dom (kh_abs (input_buffer w)))" using u(5) g(5) by auto
  have other: "\<forall>k. k \<noteq> fd_key fd \<longrightarrow> kh_abs h2 k = kh_abs (input_buffer w) k" using u(4) g(5) by simp
  show ?thesis using run u(2,3,6) d(3) dm other g(9) by (intro exI [of _ h2]) simp
qed

end
