(* ===== verification/WrapBridge.thy ===== *)
theory WrapBridge
  imports WrapSpec RouterEvents
begin

text \<open>
  Streams through \<open>Graph\<close>: successive reads of one descriptor, on the side that sends to the router
  and on the side that receives from it.
\<close>

section \<open>Successive local reads\<close>

fun local_run :: "wrap_os \<Rightarrow> int \<Rightarrow> u8 list list \<Rightarrow> wrap \<Rightarrow> wrap result" where
  "local_run env fd [] w = Inr w"
| "local_run env fd (c # cs) w =
     andThen (handleLocalData env w fd POLLIN (Some c)) (\<lambda>(w, _, _). local_run env fd cs w)"

text \<open>Every read leaves an MTU of the buffer free, given what is left over of the reads before.\<close>

fun lines_fit :: "(u8 \<Rightarrow> bool) \<Rightarrow> nat \<Rightarrow> u8 list \<Rightarrow> u8 list list \<Rightarrow> bool" where
  "lines_fit P m pend [] = True"
| "lines_fit P m pend (c # cs) =
     (c \<noteq> [] \<and> length pend + length c \<le> 19 * m \<and> lines_fit P m (snd (cuts P [] (pend @ c))) cs)"

lemma local_run_spec:
  assumes "wrap_sizes env w m" "input_ok (input_buffer w) m fd" "room_ok (input_buffer w) fd"
    and "pending (input_buffer w) fd = pend" "piece (is_delim (arg_delimiter (w_config w))) pend"
    and "lines_fit (is_delim (arg_delimiter (w_config w))) m pend cs"
    and "cuts (is_delim (arg_delimiter (w_config w))) pend (concat cs) = (ps, r)"
  shows "\<exists>h'. local_run env fd cs w = Inr (w\<lparr>input_buffer := h',
      w_net := fold (emit_data (wo_write env) (router_fd w) (arg_address (w_config w))) ps (w_net w)\<rparr>) \<and>
    input_ok h' m fd \<and> room_ok h' fd \<and> pending h' fd = r"
  using assms
proof (induction cs arbitrary: w pend ps)
  case Nil
  then show ?case by (intro exI [of _ "input_buffer w"]) simp
next
  case (Cons c cs)
  let ?P = "is_delim (arg_delimiter (w_config w))"
  let ?emit = "emit_data (wo_write env) (router_fd w) (arg_address (w_config w))"
  obtain ps1 r1 where c1: "cuts ?P [] (pend @ c) = (ps1, r1)" by fastforce
  then have c1': "cuts ?P pend c = (ps1, r1)" using cuts_restart [OF Cons.prems(5)] by simp
  have small: "kh_n_buckets (input_buffer w) \<le> 2 ^ 30" using Cons.prems(3) by (simp add: room_ok_def)
  have ne: "c \<noteq> []" and room: "length (pending (input_buffer w) fd) + length c \<le> 19 * m"
    using Cons.prems(4,6) by simp_all
  have cc: "cuts ?P [] (pending (input_buffer w) fd @ c) = (ps1, r1)" using c1 Cons.prems(4) by simp
  obtain h1 where e: "handleLocalData env w fd POLLIN (Some c) =
      Inr (w\<lparr>input_buffer := h1, w_net := fold ?emit ps1 (w_net w)\<rparr>, fd, False)"
    "input_ok h1 m fd" "pending h1 fd = r1"
    "\<forall>k. k \<noteq> fd_key fd \<longrightarrow> kh_abs h1 k = kh_abs (input_buffer w) k"
    "kh_n_buckets h1 \<le> max (kh_n_buckets (input_buffer w))
      (max 4 (4 * card (dom (kh_abs (input_buffer w)))))"
    using handleLocalData_spec [OF Cons.prems(1,2) small ne room cc, of POLLIN] by blast
  have room1: "room_ok h1 fd" by (rule room_ok_next [OF Cons.prems(3) e(4,5)])
  let ?w1 = "w\<lparr>input_buffer := h1, w_net := fold ?emit ps1 (w_net w)\<rparr>"
  have "piece ?P r1" using cuts_rest_piece [OF Cons.prems(5), of c] c1' by simp
  moreover have "lines_fit ?P m r1 cs" using Cons.prems(6) c1 by simp
  moreover obtain ps2 where c2: "cuts ?P r1 (concat cs) = (ps2, r)" "ps = ps1 @ ps2"
    using Cons.prems(7) c1' by (auto simp: cuts_append prod_eq_iff)
  moreover have "wrap_sizes env ?w1 m" using Cons.prems(1) by (simp add: wrap_sizes_def)
  ultimately have "\<exists>h'. local_run env fd cs ?w1 = Inr (?w1\<lparr>input_buffer := h',
      w_net := fold (emit_data (wo_write env) (router_fd ?w1) (arg_address (w_config ?w1))) ps2 (w_net ?w1)\<rparr>) \<and>
    input_ok h' m fd \<and> room_ok h' fd \<and> pending h' fd = r"
    using Cons.IH [of ?w1 r1 ps2] e(2,3) room1 by simp
  then show ?case using e(1) c2(2) by simp
qed

lemma room_ok_init: "room_ok kh_init fd"
  by (simp add: room_ok_def kh_full_init)

lemma input_ok_init: "input_ok kh_init m fd" "pending kh_init fd = []"
  by (simp_all add: input_ok_def kh_full_init pending_def)

lemma emergency_spec:
  assumes s: "wrap_sizes env w m" and h: "input_ok (input_buffer w) m fd"
    and small: "kh_n_buckets (input_buffer w) \<le> 2 ^ 30"
    and chunk: "chunk \<noteq> []" and live: "length (pending (input_buffer w) fd) < m * 20"
    and full: "19 * m < length (pending (input_buffer w) fd) + length chunk"
    and address: "m * 20 \<le> wo_address env fd"
  shows "handleLocalData env w fd ev (Some chunk) = Inl OutOfBounds"
proof -
  obtain h1 x block t where g: "getLocalBuffer env w fd = Inr (w\<lparr>input_buffer := h1\<rparr>, x)"
    "kh_value h1 x = Inr \<lparr>lb_buffer = Some block, lb_tail = Some t\<rparr>"
    "length block = m * 20" "t \<le> m * 20" "take t block = pending (input_buffer w) fd"
    using getLocalBuffer_spec [OF s h small] by blast
  have lt: "length (pending (input_buffer w) fd) = t" using g(3-5) by (metis length_take min_absorb2)
  let ?w1 = "w\<lparr>input_buffer := h1\<rparr>"
  define got where "got = take (m * 20 - t) chunk"
  have s1: "wrap_sizes env ?w1 m" using s by (simp add: wrap_sizes_def)
  have mpos: "0 < m" using s by (simp add: wrap_sizes_def)
  have fr: "free_bytes ?w1 t = m * 20 - t" by (rule free_bytes_eq [OF s1 g(4)])
  have got: "got \<noteq> []" "t + length got \<le> m * 20" "19 * m < t + length got"
    using chunk live full lt mpos by (auto simp: got_def)
  define block2 where "block2 = take t block @ got @ drop (t + length got) block"
  have l2: "length block2 = m * 20" using got(2) g(3) by (simp add: block2_def)
  have rd: "read_into (Some chunk) (Some block) t (free_bytes ?w1 t) = Inr (Some block2, int (length got))"
    using got(1,2) g(3) unfolding fr by (simp add: read_into_def got_def [symmetric] Let_def store_block_def block2_def)
  have "m * 20 - (t + length got) < m" using got(3) mpos by linarith
  then have few: "free_bytes ?w1 (t + length got) < m"
    using free_bytes_eq [OF s1 got(2)] by (simp only:)
  have msz: "nat (int m mod 2 ^ 64) = m" using s by (simp add: wrap_sizes_def)
  have over: "length block2 < wo_address env fd + (t + length got)"
    using address l2 got(3) by simp
  have em: "gnw_emitDataPacket (wo_write env) (w_net w) (router_fd w) (arg_address (w_config w))
      (Some block2) (wo_address env fd + (t + length got)) = Inl OutOfBounds"
  proof -
    have "wo_address env fd + (t + length got) \<noteq> 0" using got(3) by linarith
    then show ?thesis using frame_packet_overread [OF over]
      by (simp only: gnw_emitDataPacket_def Let_def if_False andThen.simps)
  qed
  have cfg: "network_mtu (w_config w) = int m" using s by (simp add: wrap_sizes_def)
  have pos: "\<not> int (length got) < 1" using got(1) by (cases got) simp_all
  show ?thesis
    unfolding handleLocalData_def g(1) andThen.simps prod.case
    using g(2) rd pos few msz em cfg
    by (simp add: used_bytes_def Let_def applyMuxPolicy_def)
qed

section \<open>Frames from the router\<close>

text \<open>A frame: type, source and payload.\<close>

type_synonym frame = "u8 \<times> gnw_address \<times> u8 list"

definition wire1 :: "frame \<Rightarrow> u8 list" where
  "wire1 f = (case f of (t, s, pl) \<Rightarrow> frame_bytes t s pl)"

abbreviation wire :: "frame list \<Rightarrow> u8 list" where "wire fs \<equiv> concat (map wire1 fs)"

text \<open>What \<open>handlePacket\<close> is given for a frame: the payload at the start of a larger array.\<close>

definition handle_frame :: "wrap_os \<Rightarrow> wrap \<Rightarrow> frame \<Rightarrow> wrap result" where
  "handle_frame env w f =
     (case f of (t, s, pl) \<Rightarrow>
        handlePacket env w \<lparr>hdr_magic = GNW_MAGIC, hdr_version = GNW_VERSION, hdr_type = t,
            hdr_source = s, hdr_length = of_nat (length pl)\<rparr>
          (pl @ drop (length pl) (wo_malloc env (11 + length pl))))"

fun handle_frames :: "wrap_os \<Rightarrow> wrap \<Rightarrow> frame list \<Rightarrow> wrap result" where
  "handle_frames env w [] = Inr w"
| "handle_frames env w (f # fs) = andThen (handle_frame env w f) (\<lambda>w. handle_frames env w fs)"

text \<open>The packet handlers neither look at the input buffers nor change them, nor the MTU.\<close>

abbreviation with_input :: "local_buffer khash \<Rightarrow> wrap \<Rightarrow> wrap" where
  "with_input h w \<equiv> w\<lparr>input_buffer := h\<rparr>"

lemma getRouterFD_input:
  "getRouterFD env (with_input h w) = (case getRouterFD env w of (w, fd) \<Rightarrow> (with_input h w, fd))"
  by (simp add: getRouterFD_def Let_def)

lemma request_address_input:
  "request_address env (with_input h w) fd a =
     andThen (request_address env w fd a) (\<lambda>w. Inr (with_input h w))"
  by (cases w) (simp add: request_address_def andThen_assoc split_def)

lemma getNextLocalAddress_input:
  "getNextLocalAddress env (with_input h w) =
     andThen (getNextLocalAddress env w) (\<lambda>(w, a). Inr (with_input h w, a))"
  by (cases w) (simp add: getNextLocalAddress_def Let_def getRouterFD_def request_address_def andThen_assoc split_def)

lemma addNewWatch_input:
  "addNewWatch (with_input h w) fd = andThen (addNewWatch w fd) (\<lambda>(w, i). Inr (with_input h w, i))"
  by (cases w) (simp add: addNewWatch_def andThen_assoc)

lemma autoSpawn_input:
  "autoSpawn env (with_input h w) a = andThen (autoSpawn env w a) (\<lambda>(w, x). Inr (with_input h w, x))"
proof (cases "kh_put (sinkTable w) a")
  case (Inr p)
  then show ?thesis
    by (cases p; cases "wo_pipe env (w_pipes w)"; cases "wo_pipe env (w_pipes w + 1)"; cases w)
      (simp_all add: autoSpawn_def addNewWatch_def andThen_assoc Let_def)
qed (simp add: autoSpawn_def)

lemma applyDeMuxPolicy_input:
  "applyDeMuxPolicy env (with_input h w) a =
     andThen (applyDeMuxPolicy env w a) (\<lambda>(w, x). Inr (with_input h w, x))"
proof (cases "kh_get (sinkTable w) (if demux_mode w = DEMUX_MERGE then arg_address (w_config w) else a)")
  case (Inr hint)
  then show ?thesis
    by (cases "demux_mode w = DEMUX_MERGE"; cases "demux_mode w = DEMUX_SPAWN"; cases "hint = kh_end (sinkTable w)")
      (simp_all add: applyDeMuxPolicy_def Let_def andThen_assoc getNextLocalAddress_input autoSpawn_input split_def)
qed (cases "demux_mode w = DEMUX_MERGE"; cases "demux_mode w = DEMUX_SPAWN"; simp add: applyDeMuxPolicy_def Let_def)

lemma handleDataPacket_input:
  "handleDataPacket env (with_input h w) hdr pl =
     andThen (handleDataPacket env w hdr pl) (\<lambda>w. Inr (with_input h w))"
proof (cases "arg_echo (w_config w)")
  case True
  then show ?thesis by (cases w) (simp add: handleDataPacket_def Let_def andThen_assoc)
next
  case False
  have swap: "with_input h (write_sink env (w\<lparr>sinkTable := k\<rparr>) fd bs) =
      write_sink env ((with_input h w)\<lparr>sinkTable := k\<rparr>) fd bs" for w k fd bs
    by (cases w) (simp add: write_sink_def Let_def)
  show ?thesis
  proof (cases "applyDeMuxPolicy env w (hdr_source hdr)")
    case (Inr p)
    obtain w1 s where p: "p = (w1, s)" by (cases p)
    show ?thesis using False Inr p
      by (cases "kh_get (sinkTable w1) s")
        (simp_all add: handleDataPacket_def Let_def applyDeMuxPolicy_input andThen_assoc swap)
  qed (use False in \<open>simp add: handleDataPacket_def Let_def applyDeMuxPolicy_input\<close>)
qed

lemma handleCommandPacket_input:
  "handleCommandPacket (with_input h w) hdr pl =
     andThen (handleCommandPacket w hdr pl) (\<lambda>w. Inr (with_input h w))"
proof -
  have swap: "(with_input h w)\<lparr>w_config := c\<rparr> = with_input h (w\<lparr>w_config := c\<rparr>)" for c
    by (cases w) simp
  show ?thesis
  proof (cases "packet_read_u8 pl 0")
    case (Inr p)
    obtain d nxt where p: "p = (d, nxt)" by (cases p)
    show ?thesis using Inr p
      by (cases "hdr_length hdr < 1"; cases "d = GNW_CMD_NEW_ADDRESS"; cases "packet_read_u32 pl nxt";
          cases "load pl 0"; cases "arg_address (w_config w) = 0")
        (simp_all add: handleCommandPacket_def swap split_def)
  qed (simp add: handleCommandPacket_def)
qed

lemma handlePacket_input:
  "handlePacket env (with_input h w) hdr pl =
     andThen (handlePacket env w hdr pl) (\<lambda>w. Inr (with_input h w))"
  by (simp add: handlePacket_def handleDataPacket_input handleCommandPacket_input)

text \<open>The MTU stays.\<close>

lemma autoSpawn_config:
  assumes "autoSpawn env w a = Inr (w', x)"
  shows "w_config w' = w_config w"
proof -
  obtain h hint st where "kh_put (sinkTable w) a = Inr (h, hint, st)"
    using assms by (cases "kh_put (sinkTable w) a") (auto simp: autoSpawn_def)
  then show ?thesis using assms
    by (cases "wo_pipe env (w_pipes w)"; cases "wo_pipe env (w_pipes w + 1)"; cases "wo_fork env (w_forks w) = 0")
      (auto simp: autoSpawn_def addNewWatch_def andThen_eq_Inr Let_def)
qed

lemma applyDeMuxPolicy_config:
  assumes "applyDeMuxPolicy env w a = Inr (w', x)"
  shows "w_config w' = w_config w"
proof -
  have next_address: "w_config w1 = w_config w" if "getNextLocalAddress env w = Inr (w1, b)" for w1 b
    using that by (auto simp: getNextLocalAddress_def getRouterFD_def request_address_def Let_def andThen_eq_Inr)
  show ?thesis using assms
    by (auto simp: applyDeMuxPolicy_def Let_def andThen_eq_Inr split: if_splits
        dest!: autoSpawn_config next_address)
qed

lemma handleDataPacket_config:
  assumes "handleDataPacket env w hdr pl = Inr w'"
  shows "w_config w' = w_config w"
proof -
  let ?cfg = "\<lambda>w. Inr (w_config w) :: configuration result" and ?len = "unat (hdr_length hdr)"
  have "andThen (handleDataPacket env w hdr pl) ?cfg = andThen (handleDataPacket env w hdr pl) (\<lambda>_. ?cfg w)"
  proof (cases "arg_echo (w_config w)")
    case True
    then show ?thesis by (cases "load_block pl 0 ?len") (simp_all add: handleDataPacket_def Let_def)
  next
    case False
    show ?thesis
    proof (cases "applyDeMuxPolicy env w (hdr_source hdr)")
      case (Inr p)
      obtain w1 s where p: "p = (w1, s)" by (cases p)
      have cfg: "w_config w1 = w_config w" using applyDeMuxPolicy_config Inr p by simp
      have sink: "w_config (write_sink env (w1\<lparr>sinkTable := h\<rparr>) fd bs) = w_config w1" for h fd bs
        by (simp add: write_sink_def Let_def)
      show ?thesis using False Inr p
        by (simp add: handleDataPacket_def Let_def andThen_assoc andThen_if sink cfg cong: if_cong)
    qed (use False in \<open>simp add: handleDataPacket_def Let_def\<close>)
  qed
  then show ?thesis by (simp add: assms)
qed

lemma handleCommandPacket_mtu:
  assumes "handleCommandPacket w hdr pl = Inr w'"
  shows "network_mtu (w_config w') = network_mtu (w_config w)"
proof -
  let ?mtu = "\<lambda>w. Inr (network_mtu (w_config w)) :: int result"
  obtain d nxt where "packet_read_u8 pl 0 = Inr (d, nxt)"
    using assms by (cases "packet_read_u8 pl 0") (auto simp: handleCommandPacket_def)
  then have "andThen (handleCommandPacket w hdr pl) ?mtu =
      andThen (handleCommandPacket w hdr pl) (\<lambda>_. ?mtu w)"
    by (cases "hdr_length hdr < 1"; cases "d = GNW_CMD_NEW_ADDRESS"; cases "packet_read_u32 pl nxt";
        cases "load pl 0"; cases "arg_address (w_config w) = 0")
      (simp_all add: handleCommandPacket_def split_def)
  then show ?thesis by (simp add: assms)
qed

lemma handlePacket_mtu:
  assumes "handlePacket env w hdr pl = Inr w'"
  shows "network_mtu (w_config w') = network_mtu (w_config w)"
proof (cases "hdr_type hdr = GNW_DATA")
  case True
  then show ?thesis using assms handleDataPacket_config by (simp add: handlePacket_def)
next
  case False
  show ?thesis
  proof (cases "hdr_type hdr = GNW_COMMAND \<or> hdr_type hdr = GNW_REPLY")
    case True
    then show ?thesis using assms False handleCommandPacket_mtu by (auto simp: handlePacket_def)
  next
    case other: False
    then show ?thesis using assms False by (simp add: handlePacket_def)
  qed
qed

section \<open>The loop over the packets of a buffer\<close>

text \<open>Bucket \<open>x\<close> is the entry of \<open>fd\<close>, a live buffer that holds the bytes \<open>v\<close>.\<close>

definition buffered :: "local_buffer khash \<Rightarrow> nat \<Rightarrow> int \<Rightarrow> nat \<Rightarrow> u8 list \<Rightarrow> bool" where
  "buffered h x fd m v \<longleftrightarrow> kh_full h \<and> kh_holds h x (fd_key fd) \<and> length v \<le> m * 20 \<and>
     (\<exists>block. kh_value h x = Inr \<lparr>lb_buffer = Some block, lb_tail = Some (length v)\<rparr> \<and>
        kh_abs h (fd_key fd) = Some \<lparr>lb_buffer = Some block, lb_tail = Some (length v)\<rparr> \<and>
        length block = m * 20 \<and> take (length v) block = v)"

lemma buffered_pending: "buffered h x fd m v \<Longrightarrow> pending h fd = v \<and> input_ok h m fd"
  by (auto simp: buffered_def pending_def buffer_bytes_def input_ok_def buffer_ok_def)

definition only_differ :: "int \<Rightarrow> local_buffer khash \<Rightarrow> local_buffer khash \<Rightarrow> bool" where
  "only_differ fd h h' \<longleftrightarrow> (\<forall>k. k \<noteq> fd_key fd \<longrightarrow> kh_abs h' k = kh_abs h k) \<and> kh_n_buckets h' = kh_n_buckets h"

lemma only_differ_refl: "only_differ fd h h"
  by (simp add: only_differ_def)

lemma only_differ_trans: "only_differ fd h h1 \<Longrightarrow> only_differ fd h1 h2 \<Longrightarrow> only_differ fd h h2"
  by (simp add: only_differ_def)

lemma room_ok_differ: "room_ok h fd \<Longrightarrow> only_differ fd h h' \<Longrightarrow> room_ok h' fd"
  by (rule room_ok_next [of h fd h']) (simp_all add: only_differ_def)

lemma buffered_upd:
  assumes "buffered h x fd m v" "length block = m * 20" "length v' \<le> m * 20" "take (length v') block = v'"
  shows "\<exists>h'. (\<forall>w. input_buffer w = h \<longrightarrow>
      upd_input w x \<lparr>lb_buffer = Some block, lb_tail = Some (length v')\<rparr> = Inr (with_input h' w)) \<and>
    buffered h' x fd m v' \<and> only_differ fd h h'"
proof -
  have h: "kh_full h" "kh_holds h x (fd_key fd)" using assms(1) by (simp_all add: buffered_def)
  show ?thesis using upd_input_spec [OF h assms(2,3)] assms(2-4)
    unfolding buffered_def only_differ_def by blast
qed

lemma wrap_sizes_input: "wrap_sizes env (with_input h w) m = wrap_sizes env w m"
  by (simp add: wrap_sizes_def)

lemma shift_front:
  assumes "length block = n" "take k block = a @ rest" "k \<le> n" "length (a @ rest) = k"
  shows "\<exists>block'. packet_shift block 0 n None (length a) = Inr (block', None, n - length a) \<and>
    length block' = n \<and> take (length rest) block' = rest"
proof -
  have le: "length a \<le> n" using assms(3,4) by simp
  have "take (length rest) (drop (length a) block) = rest"
  proof -
    have "drop (length a) (take k block) = rest" using assms(2) by simp
    then show ?thesis using assms(4) by (auto simp: drop_take)
  qed
  moreover have "length rest \<le> n - length a" using assms(3,4) by simp
  ultimately show ?thesis
    using packet_shift_eq [of "length a" n block] le assms(1) by (auto simp: min_absorb1)
qed

text \<open>One whole frame at the start of the buffer.\<close>

lemma remote_frame:
  assumes b: "buffered h x fd m (wire1 f @ rest)" and m: "m * 20 < 2 ^ 31"
  shows "\<exists>h'. (\<forall>w. input_buffer w = h \<and> wrap_sizes env w m \<longrightarrow>
      remote_loop (Suc fuel) env w x =
        andThen (handle_frame env (with_input h' w) f) (\<lambda>w. remote_loop fuel env w x)) \<and>
    buffered h' x fd m rest \<and> only_differ fd h h'"
proof -
  obtain t s pl where f: "f = (t, s, pl)" by (cases f)
  let ?v = "wire1 f @ rest" and ?k = "11 + length pl"
  have lw: "length (wire1 f) = ?k" by (simp add: f wire1_def)
  have lv: "length ?v = ?k + length rest" using lw by simp
  obtain block where bl: "kh_value h x = Inr \<lparr>lb_buffer = Some block, lb_tail = Some (length ?v)\<rparr>"
    "length block = m * 20" "take (length ?v) block = ?v" "length ?v \<le> m * 20"
    using b unfolding buffered_def by blast
  have small: "?k < 2 ^ 32" using bl(4) lv m by simp
  have bs: "block = frame_bytes t s pl @ (rest @ drop (length ?v) block)"
    using bl(3) append_take_drop_id [of "length ?v" block] by (simp add: f wire1_def)
  have nx: "gnw_nextPacket block (length ?v) = Inr (11 + int (length pl))"
    by (subst bs, rule gnw_nextPacket_frame) (use small lv in simp_all)
  have hd: "gnw_parse_header False block = Inr (\<lparr>hdr_magic = GNW_MAGIC, hdr_version = GNW_VERSION,
      hdr_type = t, hdr_source = s, hdr_length = of_nat (length pl)\<rparr>, 11)"
    by (subst bs, rule gnw_parse_header_frame)
  have un: "unat (of_nat (length pl) :: u32) = length pl" "unat (11 + of_nat (length pl) :: u32) = ?k"
    using small unat_11_plus by (simp_all add: unat_of_nat)
  have ld: "load_block block 11 (length pl) = Inr pl"
    by (subst bs) (simp add: load_block_def)
  have lk: "length ?v = length ?v" ..
  obtain block2 where sh: "packet_shift block 0 (m * 20) None ?k = Inr (block2, None, m * 20 - ?k)"
    "length block2 = m * 20" "take (length rest) block2 = rest"
    using shift_front [OF bl(2,3,4) refl] lw by auto
  have lr: "length rest \<le> m * 20" using bl(4) lv by simp
  obtain h' where h': "\<forall>w. input_buffer w = h \<longrightarrow>
      upd_input w x \<lparr>lb_buffer = Some block2, lb_tail = Some (length rest)\<rparr> = Inr (with_input h' w)"
    "buffered h' x fd m rest" "only_differ fd h h'"
    using buffered_upd [OF b sh(2) lr sh(3)] by blast
  have "remote_loop (Suc fuel) env w x =
      andThen (handle_frame env (with_input h' w) f) (\<lambda>w. remote_loop fuel env w x)"
    if w: "input_buffer w = h" "wrap_sizes env w m" for w
  proof -
    have ml: "length (wo_malloc env ?k) = ?k" using w(2) by (simp add: wrap_sizes_def)
    have st: "store_block (wo_malloc env ?k) 0 pl = Inr (pl @ drop (length pl) (wo_malloc env ?k))"
      using ml by (simp add: store_block_def)
    have left: "length ?v - ?k = length rest" using lv by simp
    show ?thesis
      using bl(1) w(1) nx hd un ld st sh(1) h'(1) left
      by (simp add: deref_def Let_def block_size_eq [OF w(2)] handle_frame_def f)
  qed
  then show ?thesis using h'(2,3) by blast
qed

lemma handle_frame_input:
  "handle_frame env (with_input h w) f = andThen (handle_frame env w f) (\<lambda>w. Inr (with_input h w))"
  by (simp add: handle_frame_def handlePacket_input split: prod.split)

lemma handle_frames_input:
  "handle_frames env (with_input h w) fs = andThen (handle_frames env w fs) (\<lambda>w. Inr (with_input h w))"
  by (induction fs arbitrary: w) (simp_all add: handle_frame_input andThen_assoc)

lemma handle_frame_sizes: "handle_frame env w f = Inr w' \<Longrightarrow> wrap_sizes env w' m = wrap_sizes env w m"
  by (auto simp: handle_frame_def wrap_sizes_def dest!: handlePacket_mtu split: prod.splits)

lemma handle_frames_sizes: "handle_frames env w fs = Inr w' \<Longrightarrow> wrap_sizes env w' m = wrap_sizes env w m"
proof (induction fs arbitrary: w)
  case (Cons f fs)
  then obtain w1 where w1: "handle_frame env w f = Inr w1" "handle_frames env w1 fs = Inr w'"
    by (auto simp: andThen_eq_Inr)
  show ?case using Cons.IH [OF w1(2)] handle_frame_sizes [OF w1(1)] by simp
qed simp

text \<open>The start of a frame, not the whole of it.\<close>

definition incomplete :: "u8 list \<Rightarrow> bool" where
  "incomplete part \<longleftrightarrow> part = [] \<or> (\<exists>t s pl missing. missing \<noteq> [] \<and>
     frame_bytes t s pl = part @ missing \<and> 11 + length pl < 2 ^ 32)"

lemma incomplete_waits:
  assumes "incomplete part" "length part \<le> length block" "take (length part) block = part"
  shows "gnw_nextPacket block (length part) = Inr 0"
proof (cases "part = []")
  case True
  then show ?thesis by (simp add: gnw_nextPacket_def)
next
  case False
  then obtain t s pl missing where f: "missing \<noteq> []" "frame_bytes t s pl = part @ missing"
    "11 + length pl < 2 ^ 32"
    using assms(1) by (auto simp: incomplete_def)
  have "length part < 11 + length pl" using f(1,2) by (metis length_append length_frame_bytes
      length_greater_0_conv less_add_same_cancel1)
  then show ?thesis
    by (rule gnw_nextPacket_partial [OF f(3), of _ _ t s]) (use assms(2,3) f(2) in simp_all)
qed

lemma remote_frames:
  assumes m: "m * 20 < 2 ^ 31" and part: "incomplete part"
  shows "buffered h x fd m (wire fs @ part) \<Longrightarrow> length (wire fs @ part) < fuel \<Longrightarrow>
    \<exists>h'. (\<forall>w. input_buffer w = h \<and> wrap_sizes env w m \<longrightarrow>
      remote_loop fuel env w x = andThen (handle_frames env w fs) (\<lambda>w. Inr (with_input h' w))) \<and>
    buffered h' x fd m part \<and> only_differ fd h h'"
proof (induction fs arbitrary: h fuel)
  case Nil
  then obtain block where b: "kh_value h x = Inr \<lparr>lb_buffer = Some block, lb_tail = Some (length part)\<rparr>"
    "take (length part) block = part" "length block = m * 20" "length part \<le> m * 20"
    by (auto simp: buffered_def)
  have nx: "gnw_nextPacket block (length part) = Inr 0"
    by (rule incomplete_waits [OF part]) (use b in simp_all)
  obtain k where "fuel = Suc k" using Nil.prems(2) by (cases fuel) simp_all
  then have "remote_loop fuel env w x = Inr (with_input h w)" if "input_buffer w = h" for w
    using b(1) nx that by (simp add: deref_def)
  then show ?case using Nil.prems(1) only_differ_refl by auto
next
  case (Cons f fs)
  obtain k where k: "fuel = Suc k" using Cons.prems(2) by (cases fuel) simp_all
  have b: "buffered h x fd m (wire1 f @ (wire fs @ part))" using Cons.prems(1) by simp
  obtain h1 where h1: "\<forall>w. input_buffer w = h \<and> wrap_sizes env w m \<longrightarrow>
      remote_loop (Suc k) env w x =
        andThen (handle_frame env (with_input h1 w) f) (\<lambda>w. remote_loop k env w x)"
    "buffered h1 x fd m (wire fs @ part)" "only_differ fd h h1"
    using remote_frame [OF b m, where env = env and fuel = k] by blast
  have "0 < length (wire1 f)" by (simp add: wire1_def frame_bytes_def split: prod.split)
  moreover have "length (wire (f # fs) @ part) = length (wire1 f) + length (wire fs @ part)" by simp
  ultimately have "length (wire fs @ part) < k" using Cons.prems(2) k by linarith
  then obtain h2 where h2: "\<forall>w. input_buffer w = h1 \<and> wrap_sizes env w m \<longrightarrow>
      remote_loop k env w x = andThen (handle_frames env w fs) (\<lambda>w. Inr (with_input h2 w))"
    "buffered h2 x fd m part" "only_differ fd h1 h2"
    using Cons.IH [OF h1(2)] by blast
  have "remote_loop fuel env w x = andThen (handle_frames env w (f # fs)) (\<lambda>w. Inr (with_input h2 w))"
    if w: "input_buffer w = h" "wrap_sizes env w m" for w
  proof (cases "handle_frame env w f")
    case (Inl e)
    then show ?thesis using h1(1) w k by (simp add: handle_frame_input)
  next
    case (Inr w')
    have "wrap_sizes env (with_input h1 w') m"
      using handle_frame_sizes [OF Inr] w(2) by (simp add: wrap_sizes_input)
    then have "remote_loop k env (with_input h1 w') x =
        andThen (handle_frames env (with_input h1 w') fs) (\<lambda>w. Inr (with_input h2 w))"
      using h2(1) by simp
    then show ?thesis using h1(1) w k Inr
      by (simp add: handle_frame_input handle_frames_input andThen_assoc)
  qed
  then show ?case using h2(2) only_differ_trans [OF h1(3) h2(3)] by blast
qed

section \<open>Successive reads from the router\<close>

lemma getLocalBuffer_same:
  assumes "getLocalBuffer env w0 fd = Inr (with_input h1 w0, x)"
    and "input_buffer w = input_buffer w0" "block_size w = block_size w0"
  shows "getLocalBuffer env w fd = Inr (with_input h1 w, x)"
proof -
  have inj: "with_input a v = with_input b v \<Longrightarrow> a = b" for a b v
    by (metis wrap.select_convs(9) wrap.surjective wrap.update_convs(9))
  have same: "with_input (input_buffer v) v = v" for v :: wrap by simp
  show ?thesis
  proof (cases "kh_get (input_buffer w0) (fd_key fd) = Inr (kh_end (input_buffer w0))")
    case True
    then show ?thesis using assms
      by (auto simp: getLocalBuffer_def andThen_eq_Inr split_def dest!: inj)
  next
    case False
    then have "with_input h1 w0 = w0" using assms(1)
      by (auto simp: getLocalBuffer_def andThen_eq_Inr split: if_splits)
    then have "h1 = input_buffer w0" using inj [of h1 w0 "input_buffer w0"] same by simp
    then show ?thesis using False assms
      by (auto simp: getLocalBuffer_def andThen_eq_Inr split: if_splits)
  qed
qed

text \<open>One read, for every node with the same buffers and sizes, up to its packets.\<close>

lemma remote_read:
  assumes s: "wrap_sizes env w0 m" and h: "input_ok (input_buffer w0) m fd"
    and small: "kh_n_buckets (input_buffer w0) \<le> 2 ^ 30" and chunk: "chunk \<noteq> []"
    and v: "v = pending (input_buffer w0) fd @ chunk" and room: "length v \<le> m * 20"
  obtains h2 x where "\<forall>w. input_buffer w = input_buffer w0 \<and> wrap_sizes env w m \<longrightarrow>
      handleRemoteData env w fd ev (Some chunk) =
        andThen (remote_loop (length v + 1) env (with_input h2 w) x) (\<lambda>w. Inr (w, fd, False))"
    "buffered h2 x fd m v" "\<forall>k. k \<noteq> fd_key fd \<longrightarrow> kh_abs h2 k = kh_abs (input_buffer w0) k"
    "kh_n_buckets h2 \<le> max (kh_n_buckets (input_buffer w0)) (max 4 (4 * card (dom (kh_abs (input_buffer w0)))))"
proof -
  let ?p = "pending (input_buffer w0) fd" and ?n = "length chunk"
  obtain h1 x block t where g: "getLocalBuffer env w0 fd = Inr (with_input h1 w0, x)"
    "kh_full h1" "kh_holds h1 x (fd_key fd)"
    "kh_value h1 x = Inr \<lparr>lb_buffer = Some block, lb_tail = Some t\<rparr>"
    "kh_abs h1 = (kh_abs (input_buffer w0))(fd_key fd \<mapsto> \<lparr>lb_buffer = Some block, lb_tail = Some t\<rparr>)"
    "length block = m * 20" "t \<le> m * 20" "take t block = ?p"
    "kh_n_buckets h1 \<le> max (kh_n_buckets (input_buffer w0))
      (max 4 (4 * card (dom (kh_abs (input_buffer w0)))))"
    using getLocalBuffer_spec [OF s h small] by blast
  have lt: "length ?p = t" using g(6-8) by (metis length_take min_absorb2)
  have b1: "buffered h1 x fd m ?p" using g lt by (simp add: buffered_def)
  have lv: "length v = t + ?n" using v lt by simp
  have fit: "t + ?n \<le> m * 20" using room lv by simp
  define block2 where "block2 = take t block @ chunk @ drop (t + ?n) block"
  have l2: "length block2 = m * 20" using fit g(6) by (simp add: block2_def)
  have tk: "take (length v) block2 = v"
    using take_store [of t chunk block] fit g(6,8) lv v by (simp add: block2_def)
  obtain h2 where h2: "\<forall>w. input_buffer w = h1 \<longrightarrow>
      upd_input w x \<lparr>lb_buffer = Some block2, lb_tail = Some (length v)\<rparr> = Inr (with_input h2 w)"
    "buffered h2 x fd m v" "only_differ fd h1 h2"
    using buffered_upd [OF b1 l2 room tk] by blast
  have run: "handleRemoteData env w fd ev (Some chunk) =
      andThen (remote_loop (length v + 1) env (with_input h2 w) x) (\<lambda>w. Inr (w, fd, False))"
    if w: "input_buffer w = input_buffer w0" "wrap_sizes env w m" for w
  proof -
    have gw: "getLocalBuffer env w fd = Inr (with_input h1 w, x)"
      by (rule getLocalBuffer_same [OF g(1) w(1)]) (simp add: block_size_eq [OF w(2)] block_size_eq [OF s])
    have fr: "free_bytes (with_input h1 w) t = m * 20 - t"
      by (rule free_bytes_eq [OF _ g(7)]) (use w(2) in \<open>simp add: wrap_sizes_input\<close>)
    have rd: "read_into (Some chunk) (Some block) t (m * 20 - t) = Inr (Some block2, int ?n)"
      unfolding block2_def by (rule read_into_some) (use chunk fit g(6) in simp_all)
    have pos: "\<not> int ?n < 1" using chunk by (cases chunk) simp_all
    have u: "upd_input (with_input h1 w) x \<lparr>lb_buffer = Some block2, lb_tail = Some (t + ?n)\<rparr> =
        Inr (with_input h2 w)"
      using h2(1) by (simp flip: lv)
    show ?thesis
      unfolding handleRemoteData_def gw andThen.simps prod.case lv
      using g(4) fr rd pos u by (simp add: used_bytes_def Let_def del: remote_loop.simps)
  qed
  have "\<forall>k. k \<noteq> fd_key fd \<longrightarrow> kh_abs h2 k = kh_abs (input_buffer w0) k" "kh_n_buckets h2 = kh_n_buckets h1"
    using h2(3) g(5) by (simp_all add: only_differ_def)
  then show thesis using that [of h2 x] run h2(2) g(9) by simp
qed

lemma handleRemoteData_spec:
  assumes s: "wrap_sizes env w0 m" and h: "input_ok (input_buffer w0) m fd"
    and small: "kh_n_buckets (input_buffer w0) \<le> 2 ^ 30"
    and chunk: "chunk \<noteq> []" and room: "length (pending (input_buffer w0) fd @ chunk) \<le> m * 20"
    and v: "pending (input_buffer w0) fd @ chunk = wire fs @ part" and part: "incomplete part"
  shows "\<exists>h'. (\<forall>w. input_buffer w = input_buffer w0 \<and> wrap_sizes env w m \<longrightarrow>
      handleRemoteData env w fd ev (Some chunk) =
        andThen (handle_frames env w fs) (\<lambda>w. Inr (with_input h' w, fd, False))) \<and>
    input_ok h' m fd \<and> pending h' fd = part \<and>
    (\<forall>k. k \<noteq> fd_key fd \<longrightarrow> kh_abs h' k = kh_abs (input_buffer w0) k) \<and>
    kh_n_buckets h' \<le> max (kh_n_buckets (input_buffer w0))
      (max 4 (4 * card (dom (kh_abs (input_buffer w0)))))"
proof -
  let ?v = "wire fs @ part"
  have m: "m * 20 < 2 ^ 31" using s by (simp add: wrap_sizes_def)
  have room': "length ?v \<le> m * 20" using room v by simp
  obtain h2 x where h2: "\<forall>w. input_buffer w = input_buffer w0 \<and> wrap_sizes env w m \<longrightarrow>
      handleRemoteData env w fd ev (Some chunk) =
        andThen (remote_loop (length ?v + 1) env (with_input h2 w) x) (\<lambda>w. Inr (w, fd, False))"
    "buffered h2 x fd m ?v" "\<forall>k. k \<noteq> fd_key fd \<longrightarrow> kh_abs h2 k = kh_abs (input_buffer w0) k"
    "kh_n_buckets h2 \<le> max (kh_n_buckets (input_buffer w0)) (max 4 (4 * card (dom (kh_abs (input_buffer w0)))))"
    by (rule remote_read [OF s h small chunk v [symmetric] room'])
  obtain h3 where h3: "\<forall>w. input_buffer w = h2 \<and> wrap_sizes env w m \<longrightarrow>
      remote_loop (length ?v + 1) env w x = andThen (handle_frames env w fs) (\<lambda>w. Inr (with_input h3 w))"
    "buffered h3 x fd m part" "only_differ fd h2 h3"
    using remote_frames [OF m part h2(2), of "length ?v + 1" env] by auto
  have run: "handleRemoteData env w fd ev (Some chunk) =
      andThen (handle_frames env w fs) (\<lambda>w. Inr (with_input h3 w, fd, False))"
    if w: "input_buffer w = input_buffer w0" "wrap_sizes env w m" for w
  proof -
    have "remote_loop (length ?v + 1) env (with_input h2 w) x =
        andThen (handle_frames env (with_input h2 w) fs) (\<lambda>w. Inr (with_input h3 w))"
      using h3(1) w(2) by (simp add: wrap_sizes_input del: remote_loop.simps)
    then show ?thesis
      using h2(1) w by (simp add: handle_frames_input andThen_assoc del: remote_loop.simps)
  qed
  have "\<forall>k. k \<noteq> fd_key fd \<longrightarrow> kh_abs h3 k = kh_abs (input_buffer w0) k" "kh_n_buckets h3 = kh_n_buckets h2"
    using h2(3) h3(3) by (simp_all add: only_differ_def)
  then show ?thesis
    using run buffered_pending [OF h3(2)] h2(4) by (intro exI [of _ h3]) simp
qed

fun remote_run :: "wrap_os \<Rightarrow> int \<Rightarrow> u8 list list \<Rightarrow> wrap \<Rightarrow> wrap result" where
  "remote_run env fd [] w = Inr w"
| "remote_run env fd (c # cs) w =
     andThen (handleRemoteData env w fd POLLIN (Some c)) (\<lambda>(w, _, _). remote_run env fd cs w)"

text \<open>The first part of a stream of frames ends in the middle of a frame, or between two.\<close>

definition head_part :: "frame list \<Rightarrow> u8 list \<Rightarrow> bool" where
  "head_part fs part \<longleftrightarrow> part = [] \<or> (\<exists>f fs' missing. fs = f # fs' \<and> missing \<noteq> [] \<and> wire1 f = part @ missing)"

lemma split_wire:
  "v @ rest = wire fs \<Longrightarrow>
     \<exists>fs1 fs2 part. fs = fs1 @ fs2 \<and> v = wire fs1 @ part \<and> head_part fs2 part \<and> part @ rest = wire fs2"
proof (induction fs arbitrary: v)
  case Nil
  then show ?case by (auto simp: head_part_def)
next
  case (Cons f fs)
  show ?case
  proof (cases "length v < length (wire1 f)")
    case True
    have "v = take (length v) (wire1 f @ wire fs)" using Cons.prems by (metis append_eq_conv_conj concat.simps(2) list.simps(9))
    then have "wire1 f = v @ drop (length v) (wire1 f)"
      using True by (metis append_take_drop_id less_imp_le take_append take_all_iff diff_is_0_eq take_0 append_Nil2)
    moreover have "drop (length v) (wire1 f) \<noteq> []" using True by simp
    ultimately obtain missing where "missing \<noteq> []" "wire1 f = v @ missing" by blast
    then show ?thesis using Cons.prems
      by (intro exI [of _ "[]"] exI [of _ "f # fs"] exI [of _ v]) (auto simp: head_part_def)
  next
    case False
    then have tk: "take (length (wire1 f)) v = wire1 f"
      using arg_cong [OF Cons.prems, of "take (length (wire1 f))"] by simp
    define v' where "v' = drop (length (wire1 f)) v"
    have "v = wire1 f @ v'" unfolding v'_def using tk by (metis append_take_drop_id)
    moreover from this have "v' @ rest = wire fs" using Cons.prems by simp
    ultimately have v: "v = wire1 f @ v'" "v' @ rest = wire fs" by simp_all
    obtain fs1 fs2 part where "fs = fs1 @ fs2" "v' = wire fs1 @ part" "head_part fs2 part"
      "part @ rest = wire fs2"
      using Cons.IH [OF v(2)] by blast
    then show ?thesis using v(1)
      by (intro exI [of _ "f # fs1"] exI [of _ fs2] exI [of _ part]) simp
  qed
qed

definition frames_fit :: "nat \<Rightarrow> frame list \<Rightarrow> bool" where
  "frames_fit m fs \<longleftrightarrow> (\<forall>f\<in>set fs. length (wire1 f) \<le> 10 * m)"

lemma head_part_incomplete:
  assumes "head_part fs part" "frames_fit m fs" "m * 20 < 2 ^ 31"
  shows "incomplete part" and "0 < m \<Longrightarrow> length part < 10 * m"
proof -
  show "incomplete part"
  proof (cases "part = []")
    case False
    then obtain t s pl missing where "missing \<noteq> []" "frame_bytes t s pl = part @ missing"
      "length (frame_bytes t s pl) \<le> 10 * m"
      using assms(1,2) by (force simp: head_part_def frames_fit_def wire1_def)
    moreover from this(3) have "11 + length pl < 2 ^ 32" using assms(3) by simp
    ultimately show ?thesis unfolding incomplete_def by blast
  qed (simp add: incomplete_def)
  show "length part < 10 * m" if "0 < m"
  proof (cases "part = []")
    case False
    then obtain f missing where f: "missing \<noteq> []" "wire1 f = part @ missing" "length (wire1 f) \<le> 10 * m"
      using assms(1,2) by (auto simp: head_part_def frames_fit_def)
    then have "length part + length missing \<le> 10 * m" by (metis length_append)
    then show ?thesis using f(1) by (cases missing) simp_all
  qed (use that in simp)
qed

lemma handle_frames_append:
  "handle_frames env w (fs @ fs') = andThen (handle_frames env w fs) (\<lambda>w. handle_frames env w fs')"
  by (induction fs arbitrary: w) (simp_all add: andThen_assoc)

lemma remote_run_spec:
  assumes "\<forall>c\<in>set cs. c \<noteq> [] \<and> length c \<le> 10 * m"
  shows "wrap_sizes env w0 m \<Longrightarrow> input_ok (input_buffer w0) m fd \<Longrightarrow> room_ok (input_buffer w0) fd \<Longrightarrow>
    frames_fit m fs \<Longrightarrow> head_part fs (pending (input_buffer w0) fd) \<Longrightarrow>
    pending (input_buffer w0) fd @ concat cs = wire fs \<Longrightarrow>
    \<exists>h'. (\<forall>w. input_buffer w = input_buffer w0 \<and> wrap_sizes env w m \<longrightarrow>
        remote_run env fd cs w = andThen (handle_frames env w fs) (\<lambda>w. Inr (with_input h' w))) \<and>
      input_ok h' m fd \<and> pending h' fd = []"
  using assms
proof (induction cs arbitrary: w0 fs)
  case Nil
  then have "fs = []"
    by (cases fs) (auto simp: head_part_def wire1_def frame_bytes_def split: prod.splits)
  then show ?case using Nil
    by (intro exI [of _ "input_buffer w0"]) (auto simp: head_part_def)
next
  case (Cons c cs)
  let ?p = "pending (input_buffer w0) fd"
  have m: "m * 20 < 2 ^ 31" "0 < m" using Cons.prems(1) by (simp_all add: wrap_sizes_def)
  have "(?p @ c) @ concat cs = wire fs" using Cons.prems(6) by simp
  then obtain fs1 fs2 part where sp: "fs = fs1 @ fs2" "?p @ c = wire fs1 @ part" "head_part fs2 part"
    "part @ concat cs = wire fs2"
    using split_wire by blast
  have fit2: "frames_fit m fs2" using Cons.prems(4) sp(1) by (simp add: frames_fit_def)
  have small: "kh_n_buckets (input_buffer w0) \<le> 2 ^ 30" using Cons.prems(3) by (simp add: room_ok_def)
  have c: "c \<noteq> []" "length c \<le> 10 * m" using Cons.prems(7) by simp_all
  have room: "length (?p @ c) \<le> m * 20"
    using head_part_incomplete(2) [OF Cons.prems(5,4) m] c(2) by simp
  have inc: "incomplete part" by (rule head_part_incomplete(1) [OF sp(3) fit2 m(1)])
  obtain h1 where h1: "\<forall>w. input_buffer w = input_buffer w0 \<and> wrap_sizes env w m \<longrightarrow>
      handleRemoteData env w fd POLLIN (Some c) =
        andThen (handle_frames env w fs1) (\<lambda>w. Inr (with_input h1 w, fd, False))"
    "input_ok h1 m fd" "pending h1 fd = part"
    "\<forall>k. k \<noteq> fd_key fd \<longrightarrow> kh_abs h1 k = kh_abs (input_buffer w0) k"
    "kh_n_buckets h1 \<le> max (kh_n_buckets (input_buffer w0))
      (max 4 (4 * card (dom (kh_abs (input_buffer w0)))))"
    using handleRemoteData_spec [OF Cons.prems(1,2) small c(1) room sp(2) inc, of POLLIN] by blast
  have room1: "room_ok h1 fd" by (rule room_ok_next [OF Cons.prems(3) h1(4,5)])
  let ?w1 = "with_input h1 w0"
  have "wrap_sizes env ?w1 m" using Cons.prems(1) by (simp add: wrap_sizes_input)
  moreover have "\<forall>c\<in>set cs. c \<noteq> [] \<and> length c \<le> 10 * m" using Cons.prems(7) by simp
  ultimately obtain h2 where h2: "\<forall>w. input_buffer w = h1 \<and> wrap_sizes env w m \<longrightarrow>
        remote_run env fd cs w = andThen (handle_frames env w fs2) (\<lambda>w. Inr (with_input h2 w))"
    "input_ok h2 m fd" "pending h2 fd = []"
    using Cons.IH [of ?w1 fs2] h1(2,3) room1 fit2 sp(3,4) by auto
  have "remote_run env fd (c # cs) w = andThen (handle_frames env w fs) (\<lambda>w. Inr (with_input h2 w))"
    if w: "input_buffer w = input_buffer w0" "wrap_sizes env w m" for w
  proof (cases "handle_frames env w fs1")
    case (Inl e)
    then show ?thesis using h1(1) w by (simp add: sp(1) handle_frames_append)
  next
    case (Inr w')
    have "wrap_sizes env (with_input h1 w') m"
      using handle_frames_sizes [OF Inr] w(2) by (simp add: wrap_sizes_input)
    then show ?thesis using h1(1) h2(1) w Inr
      by (simp add: sp(1) handle_frames_append handle_frames_input andThen_assoc)
  qed
  then show ?case using h2(2,3) by blast
qed

end
