(* ===== verification/WrapProps.thy ===== *)
theory WrapProps
  imports WrapBridge
begin

text \<open>
  Properties of \<open>Graph\<close>: the streams of the input bridge and of the output side, the bridge from
  end to end, the addresses it hands out, and what happens at its edges (a full buffer, one process
  per packet, a node without an address, a descriptor used again).
\<close>

section \<open>A system in which every call succeeds\<close>

definition plain_wrap_os :: wrap_os where
  "plain_wrap_os = \<lparr>wo_write = (\<lambda>fd bs. int (length bs)), wo_pipe = (\<lambda>k. Some (10 + 2 * int k, 11 + 2 * int k)),
     wo_fork = (\<lambda>k. 100 + int k), wo_connect = (\<lambda>k. 3), wo_valid = (\<lambda>fd. True),
     wo_malloc = (\<lambda>n. replicate n 0), wo_address = (\<lambda>fd. 2 ^ 40)\<rparr>"

lemma plain_wrap_sizes: "wrap_sizes plain_wrap_os (wrap_init 1500) 1500"
  by (simp add: wrap_sizes_def wrap_init_def plain_wrap_os_def)

lemma wrap_init_input: "input_buffer (wrap_init mtu) = kh_init" "sinkTable (wrap_init mtu) = kh_init"
  by (simp_all add: wrap_init_def)

section \<open>The input bridge\<close>

text \<open>
  How a stream is cut into packets does not depend on how it arrives. When nothing is pending
  and every read leaves one MTU of the buffer free, the packets sent after any number of reads are
  the pieces of the whole stream, each sent whole as one data packet from the node's own address,
  and the last piece stays pending: nothing is lost or sent twice, every piece but the first
  starts with the delimiter, and no delimiter stands anywhere else (it is not stripped, it leads
  the next packet).
\<close>

theorem input_bridge_cuts:
  assumes "wrap_sizes env w m" "input_ok (input_buffer w) m fd" "room_ok (input_buffer w) fd"
    and "pending (input_buffer w) fd = []"
    and "P = is_delim (arg_delimiter (w_config w))" and "lines_fit P m [] reads"
  shows "\<exists>w' ps. local_run env fd reads w = Inr w' \<and>
    w_net w' = fold (emit_data (wo_write env) (router_fd w) (arg_address (w_config w))) ps (w_net w) \<and>
    cut_at P (concat reads) ps (pending (input_buffer w') fd) \<and>
    (ps, pending (input_buffer w') fd) = cuts P [] (concat reads) \<and> w_stdout w' = w_stdout w"
proof -
  have start: "piece P []" by (simp add: piece_def)
  obtain ps r where c: "cuts P [] (concat reads) = (ps, r)" by fastforce
  then have "cut_at P (concat reads) ps r" using cuts_cut_at [OF start, of "concat reads"] by simp
  then show ?thesis
    using local_run_spec [OF assms(1-4), of reads ps r] start assms(5,6) c by auto
qed

theorem input_bridge_cuts_witness:
  "\<exists>w'. local_run plain_wrap_os 0 [[65, 10, 66], [67, 10, 10, 68]] (wrap_init 1500) = Inr w' \<and>
     w_net w' = fold (emit_data (wo_write plain_wrap_os) (-1) 0) [[65], [10, 66, 67], [10]] (w_net (wrap_init 1500)) \<and>
     pending (input_buffer w') 0 = [10, 68]"
proof -
  let ?P = "is_delim (arg_delimiter (w_config (wrap_init 1500)))"
  have P: "?P b \<longleftrightarrow> b = 10" for b
  proof -
    have "sint (10 :: u8) = 10" by simp
    then have "?P b \<longleftrightarrow> uint b = uint (10 :: u8)"
      by (simp add: is_delim_def wrap_init_def default_config_def)
    then show ?thesis by (simp only: word_uint_eq_iff)
  qed
  have fit: "lines_fit ?P 1500 [] [[65, 10, 66], [67, 10, 10, 68]]" by (simp add: P)
  have cut: "cuts ?P [] (concat [[65, 10, 66], [67, 10, 10, 68]]) = ([[65], [10, 66, 67], [10]], [10, 68])"
    by (simp add: P)
  have init: "router_fd (wrap_init 1500) = -1" "arg_address (w_config (wrap_init 1500)) = 0"
    by (simp_all add: wrap_init_def default_config_def)
  show ?thesis
    using input_bridge_cuts [OF plain_wrap_sizes _ _ _ refl fit, of 0] cut
    by (auto simp: wrap_init_input input_ok_init room_ok_init init)
qed

text \<open>
  C23: A line that does not end ends the program. When a read brings the buffer of a stream to
  within one MTU of its end, the "emergency send" passes the pointer \<open>buffer->tail\<close> where the
  length of the packet belongs: with any address a block of this size can have, the packet is
  copied from far behind the end of the buffer.
\<close>

theorem emergency_send_faults:
  assumes "wrap_sizes env w m" "input_ok (input_buffer w) m fd" "kh_n_buckets (input_buffer w) \<le> 2 ^ 30"
    and "chunk \<noteq> []" "length (pending (input_buffer w) fd) < m * 20"
    and "19 * m < length (pending (input_buffer w) fd) + length chunk"
    and "m * 20 \<le> wo_address env fd"
  shows "handleLocalData env w fd ev (Some chunk) = Inl OutOfBounds"
  by (rule emergency_spec [OF assms])

theorem emergency_send_faults_witness:
  "handleLocalData plain_wrap_os (wrap_init 1500) 0 POLLIN (Some (replicate 28501 65)) = Inl OutOfBounds"
  by (rule emergency_send_faults [OF plain_wrap_sizes])
    (simp_all add: wrap_init_input input_ok_init kh_full_init plain_wrap_os_def)

section \<open>The output side\<close>

text \<open>
  C19: Frames from the router are handled once each, in order, however TCP cuts them. For any
  sequence of frames of at most half the buffer, delivered by any number of non-empty reads of at
  most half the buffer, cut anywhere and with any number of frames in one read, the reads together
  do exactly what handling the frames one after the other does, and leave nothing pending.
\<close>

theorem remote_frames_handled:
  assumes "wrap_sizes env w m" "input_ok (input_buffer w) m fd" "room_ok (input_buffer w) fd"
    and "pending (input_buffer w) fd = []" "frames_fit m frames"
    and "\<forall>c\<in>set reads. c \<noteq> [] \<and> length c \<le> 10 * m" and "concat reads = wire frames"
  shows "\<exists>h'. remote_run env fd reads w =
      andThen (handle_frames env w frames) (\<lambda>w'. Inr (w'\<lparr>input_buffer := h'\<rparr>)) \<and>
    pending h' fd = []"
  using remote_run_spec [OF assms(6,1-3,5)] assms(1,4,7) by (auto simp: head_part_def)

theorem remote_frames_handled_witness:
  "\<exists>h'. remote_run plain_wrap_os 3 [take 5 (wire [(GNW_DATA, 7, [1]), (GNW_DATA, 7, [2])]),
        drop 5 (wire [(GNW_DATA, 7, [1]), (GNW_DATA, 7, [2])])] (wrap_init 1500) =
      andThen (handle_frames plain_wrap_os (wrap_init 1500) [(GNW_DATA, 7, [1]), (GNW_DATA, 7, [2])])
        (\<lambda>w'. Inr (w'\<lparr>input_buffer := h'\<rparr>)) \<and> pending h' 3 = []"
  by (rule remote_frames_handled [OF plain_wrap_sizes])
    (simp_all add: wrap_init_input input_ok_init room_ok_init frames_fit_def wire1_def frame_bytes_def)

lemma plain_node:
  "is_delim (arg_delimiter (w_config (wrap_init mtu))) b \<longleftrightarrow> b = 10"
  "arg_address (w_config (wrap_init mtu)) = 0" "sent (w_net (wrap_init mtu)) = []" "w_stdout (wrap_init mtu) = []"
proof -
  have "sint (10 :: u8) = uint (10 :: u8)" by simp
  then show "is_delim (arg_delimiter (w_config (wrap_init mtu))) b \<longleftrightarrow> b = 10"
    by (simp only: is_delim_def wrap_init_def default_config_def configuration.simps wrap.simps word_uint_eq_iff)
qed (simp_all add: wrap_init_def default_config_def)

section \<open>The bridge from end to end\<close>

lemma handle_frames_echo:
  assumes "\<forall>f\<in>set fs. fst f = GNW_DATA \<and> length (snd (snd f)) < 2 ^ 32" "\<forall>n. length (wo_malloc env n) = n"
  shows "arg_echo (w_config w) \<Longrightarrow>
    handle_frames env w fs = Inr (w\<lparr>w_stdout := w_stdout w @ concat (map (snd \<circ> snd) fs)\<rparr>)"
  using assms(1)
proof (induction fs arbitrary: w)
  case (Cons f fs)
  obtain s pl where f: "f = (GNW_DATA, s, pl)" "length pl < 2 ^ 32"
    using Cons.prems(2) by (cases f) auto
  have un: "unat (of_nat (length pl) :: u32) = length pl" using f(2) by (simp add: unat_of_nat)
  have "handle_frame env w f = Inr (w\<lparr>w_stdout := w_stdout w @ pl\<rparr>)"
    using Cons.prems(1) un
    by (simp add: handle_frame_def f(1) handlePacket_def handleDataPacket_def Let_def load_block_def
        assms(2))
  then show ?case using Cons.IH [of "w\<lparr>w_stdout := w_stdout w @ pl\<rparr>"] Cons.prems by (simp add: f(1))
qed simp

lemma sent_fold_emit:
  assumes "\<forall>fd bs. wr fd bs = int (length bs)"
  shows "sent (fold (emit_data wr fd s) ps n) =
    sent n @ map (\<lambda>p. (fd, frame_bytes GNW_DATA s p)) ps"
  using assms
  by (induction ps arbitrary: n) (simp_all add: emit_data_def net_emit_def)

text \<open>The frames a node with \<open>--input\<close> sends, and what a node with \<open>--output\<close> prints of them.\<close>

lemma sender_frames:
  assumes "wrap_sizes env w m" "input_buffer w = kh_init" "\<forall>fd bs. wo_write env fd bs = int (length bs)"
    and "lines_fit (is_delim (arg_delimiter (w_config w))) m [] reads"
    and c: "cuts (is_delim (arg_delimiter (w_config w))) [] (concat reads) = (ps, r)"
  shows "\<exists>w'. local_run env fd reads w = Inr w' \<and> pending (input_buffer w') fd = r \<and> concat ps @ r = concat reads \<and>
    sent (w_net w') = sent (w_net w) @ map (\<lambda>p. (router_fd w, frame_bytes GNW_DATA (arg_address (w_config w)) p)) ps"
proof -
  have piece: "piece (is_delim (arg_delimiter (w_config w))) []" by (simp add: piece_def)
  have cat: "concat ps @ r = concat reads"
    using cuts_cut_at [OF piece, of "concat reads"] c by (simp add: cut_at_def)
  obtain h where "local_run env fd reads w = Inr (w\<lparr>input_buffer := h,
      w_net := fold (emit_data (wo_write env) (router_fd w) (arg_address (w_config w))) ps (w_net w)\<rparr>)" "pending h fd = r"
    using local_run_spec [OF assms(1), of fd "[]" reads ps r] piece assms(2,4) c
    by (auto simp: input_ok_init room_ok_init)
  then show ?thesis using cat by (simp add: sent_fold_emit assms(3))
qed

lemma receiver_prints:
  assumes "wrap_sizes env v m" "input_buffer v = kh_init" "arg_echo (w_config v)"
    and "\<forall>c\<in>set cs. c \<noteq> [] \<and> length c \<le> 10 * m"
    and "concat cs = concat (map (frame_bytes GNW_DATA s) ps)" "\<forall>p\<in>set ps. 11 + length p \<le> 10 * m"
  shows "\<exists>v'. remote_run env fd cs v = Inr v' \<and> w_stdout v' = w_stdout v @ concat ps"
proof -
  let ?fs = "map (\<lambda>p. (GNW_DATA, s, p)) ps"
  have "wire1 \<circ> (\<lambda>p. (GNW_DATA, s, p)) = frame_bytes GNW_DATA s" by (rule ext) (simp add: wire1_def)
  then have stream: "concat cs = wire ?fs" using assms(5) by simp
  have fit: "frames_fit m ?fs" using assms(6) by (simp add: frames_fit_def wire1_def)
  have m: "m * 20 < 2 ^ 31" using assms(1) by (simp add: wrap_sizes_def)
  have start: "input_ok (input_buffer v) m fd" "room_ok (input_buffer v) fd" "pending (input_buffer v) fd = []"
    using assms(2) by (simp_all add: input_ok_init room_ok_init)
  have "\<exists>h. remote_run env fd cs v = andThen (handle_frames env v ?fs) (\<lambda>v. Inr (v\<lparr>input_buffer := h\<rparr>))"
    using remote_run_spec [OF assms(4,1) start(1,2) fit] start(3) stream assms(1) by (auto simp: head_part_def)
  then obtain h where run: "remote_run env fd cs v = andThen (handle_frames env v ?fs) (\<lambda>v. Inr (v\<lparr>input_buffer := h\<rparr>))"
    by blast
  have short: "\<forall>f\<in>set ?fs. fst f = GNW_DATA \<and> length (snd (snd f)) < 2 ^ 32"
    using assms(6) m by fastforce
  have "handle_frames env v ?fs = Inr (v\<lparr>w_stdout := w_stdout v @ concat ps\<rparr>)"
    using handle_frames_echo [OF short _ assms(3), of env] assms(1) by (simp add: wrap_sizes_def comp_def)
  then show ?thesis using run by simp
qed

text \<open>
  The bridge is transparent. Whatever a node with \<open>--input\<close> reads and however the reads come,
  when the frames it sent reach a node with \<open>--output\<close> in order, cut into reads in any way, that
  node writes to its standard output exactly the bytes read, in order, without the last piece,
  which is still pending at the sender.
\<close>

theorem bridge_identity:
  assumes "wrap_sizes env w m" "input_buffer w = kh_init" "\<forall>fd bs. wo_write env fd bs = int (length bs)"
    and "P = is_delim (arg_delimiter (w_config w))" "lines_fit P m [] reads"
    and "\<forall>p\<in>set (fst (cuts P [] (concat reads))). 11 + length p \<le> 10 * m"
    and "wrap_sizes env' v m" "input_buffer v = kh_init" "arg_echo (w_config v)"
    and "\<forall>c\<in>set cs. c \<noteq> [] \<and> length c \<le> 10 * m"
    and "\<forall>w'. local_run env fd reads w = Inr w' \<longrightarrow>
      concat (map snd (sent (w_net w'))) = concat (map snd (sent (w_net w))) @ concat cs"
  shows "\<exists>w' v'. local_run env fd reads w = Inr w' \<and> remote_run env' fd' cs v = Inr v' \<and>
    w_stdout v' @ pending (input_buffer w') fd = w_stdout v @ concat reads"
proof -
  obtain ps r where c: "cuts P [] (concat reads) = (ps, r)" by fastforce
  let ?s = "arg_address (w_config w)"
  obtain w' where w': "local_run env fd reads w = Inr w'" "pending (input_buffer w') fd = r"
    "concat ps @ r = concat reads"
    "sent (w_net w') = sent (w_net w) @ map (\<lambda>p. (router_fd w, frame_bytes GNW_DATA ?s p)) ps"
    using sender_frames [OF assms(1-3), of reads ps r fd] assms(4,5) c by auto
  have "concat cs = concat (map (frame_bytes GNW_DATA ?s) ps)" using assms(11) w'(1,4) by (simp add: comp_def)
  then show ?thesis using receiver_prints [OF assms(7-10), of ?s ps fd'] assms(6) c w' by auto
qed

theorem bridge_identity_witness:
  "\<exists>w' v'. local_run plain_wrap_os 0 [[65, 10], [66, 10, 67]] (wrap_init 1500) = Inr w' \<and>
     remote_run plain_wrap_os 3 [frame_bytes GNW_DATA 0 [65], frame_bytes GNW_DATA 0 [10, 66]]
       (wrap_init 1500\<lparr>w_config := (w_config (wrap_init 1500))\<lparr>arg_echo := True\<rparr>\<rparr>) = Inr v' \<and>
     w_stdout v' @ pending (input_buffer w') 0 = [65, 10, 66, 10, 67]"
proof -
  let ?w = "wrap_init 1500" and ?reads = "[[65, 10], [66, 10, 67]] :: u8 list list"
  let ?v = "?w\<lparr>w_config := (w_config ?w)\<lparr>arg_echo := True\<rparr>\<rparr>"
  let ?P = "is_delim (arg_delimiter (w_config ?w))"
  have fit: "lines_fit ?P 1500 [] ?reads" by (simp add: plain_node)
  have cut: "cuts ?P [] (concat ?reads) = ([[65], [10, 66]], [10, 67])" by (simp add: plain_node)
  have piece: "piece ?P []" by (simp add: piece_def)
  have sizes: "wrap_sizes plain_wrap_os ?v 1500" using plain_wrap_sizes by (simp add: wrap_sizes_def)
  have wr: "\<forall>fd bs. wo_write plain_wrap_os fd bs = int (length bs)" by (simp add: plain_wrap_os_def)
  let ?emit = "fold (emit_data (wo_write plain_wrap_os) (router_fd ?w) 0) [[65], [10, 66]] (w_net ?w)"
  obtain h where run: "local_run plain_wrap_os 0 ?reads ?w = Inr (?w\<lparr>input_buffer := h, w_net := ?emit\<rparr>)"
    using local_run_spec [OF plain_wrap_sizes, of 0 "[]" ?reads "[[65], [10, 66]]" "[10, 67]"] piece fit cut
    by (auto simp: wrap_init_input input_ok_init room_ok_init plain_node simp del: local_run.simps fold.simps fold_Cons
        fold_Nil)
  have sent: "\<forall>w'. local_run plain_wrap_os 0 ?reads ?w = Inr w' \<longrightarrow>
      concat (map snd (sent (w_net w'))) = concat (map snd (sent (w_net ?w))) @
        concat [frame_bytes GNW_DATA 0 [65], frame_bytes GNW_DATA 0 [10, 66]]"
    using sent_fold_emit [OF wr, of "router_fd ?w" 0 "[[65], [10, 66]]" "w_net ?w"]
    by (auto simp add: run plain_node simp del: local_run.simps fold.simps fold_Cons fold_Nil)
  show ?thesis
    using bridge_identity [OF plain_wrap_sizes wrap_init_input(1) wr refl fit _ sizes _ _ _ sent]
    by (auto simp: cut wrap_init_input plain_node frame_bytes_def)
qed

section \<open>Addresses\<close>

fun claim_run :: "wrap_os \<Rightarrow> nat \<Rightarrow> wrap \<Rightarrow> (wrap \<times> gnw_address list) result" where
  "claim_run env 0 w = Inr (w, [])"
| "claim_run env (Suc n) w =
     andThen (getNextLocalAddress env w) (\<lambda>(w, a).
     andThen (claim_run env n w) (\<lambda>(w, as). Inr (w, a # as)))"

definition local_address :: "u32 \<Rightarrow> u32 \<Rightarrow> u32 \<Rightarrow> u32" where
  "local_address m base n = (n AND m) OR (base AND NOT m)"

lemma local_address_parts:
  "local_address m base n AND m = n AND m" "local_address m base n AND NOT m = base AND NOT m"
  unfolding local_address_def by (auto intro!: bit_eqI simp: bit_simps)

lemma request_address_eq:
  "request_address env w fd a = Inr (w\<lparr>w_net := net_command (wo_write env) (w_net w) fd GNW_COMMAND
     (GNW_CMD_NEW_ADDRESS # bytes32 a)\<rparr>)"
proof -
  have five: "length (GNW_CMD_NEW_ADDRESS # bytes32 a) = 5" by simp
  have "gnw_emitCommandPacket wr n fd GNW_COMMAND (Some (GNW_CMD_NEW_ADDRESS # bytes32 a)) 5 =
      Inr (net_command wr n fd GNW_COMMAND (GNW_CMD_NEW_ADDRESS # bytes32 a))" for wr n
    using gnw_emitCommandPacket_spec [of wr n fd GNW_COMMAND "GNW_CMD_NEW_ADDRESS # bytes32 a"]
    by (simp only: five)
  then show ?thesis by (simp add: request_address_def reply_bytes(1) reply_bytes(2) [unfolded One_nat_def])
qed

lemma getNextLocalAddress_eq:
  assumes "router_fd w \<noteq> -1"
  shows "getNextLocalAddress env w =
    (let m = gnw_local_mask (w_config w); n = nextLocalAddress w + 1;
         a = local_address m (arg_address (w_config w)) n
     in Inr (w\<lparr>nextLocalAddress := n AND m,
       w_net := net_command (wo_write env) (w_net w) (router_fd w) GNW_COMMAND
         (GNW_CMD_NEW_ADDRESS # bytes32 a)\<rparr>, a))"
proof -
  have "(x AND m) AND m = x AND m" for x m :: u32 by (simp add: and.assoc)
  then show ?thesis using assms
    by (simp add: getNextLocalAddress_def getRouterFD_def request_address_eq Let_def local_address_def)
qed

lemma unat_masked_sum:
  fixes a b :: u32
  assumes "k \<le> 32"
  shows "unat ((a + b) AND mask k) = (unat a + unat b) mod 2 ^ k"
proof -
  have d: "(2 :: nat) ^ k dvd 2 ^ 32" by (rule le_imp_power_dvd [OF assms])
  have "unat ((a + b) AND mask k) = take_bit k (unat (a + b))"
    by (simp add: unsigned_take_bit_eq flip: take_bit_eq_mask)
  also have "\<dots> = ((unat a + unat b) mod 2 ^ 32) mod 2 ^ k"
    by (simp add: unat_word_ariths take_bit_eq_mod)
  also have "\<dots> = (unat a + unat b) mod 2 ^ k" by (rule mod_mod_cancel [OF d])
  finally show ?thesis .
qed

lemma local_address_wrap:
  assumes "k \<le> 32"
  shows "local_address (mask k) base ((n AND mask k) + i) = local_address (mask k) base (n + i)"
proof -
  have "unat (n AND mask k) = unat n mod 2 ^ k" using unat_masked_sum [OF assms, of n 0] by simp
  then have "unat (((n AND mask k) + i) AND mask k) = unat ((n + i) AND mask k)"
    by (simp add: unat_masked_sum [OF assms] mod_simps)
  then show ?thesis by (simp only: local_address_def word_unat_eq_iff [symmetric])
qed

lemma local_address_inj:
  assumes "local_address (mask k) base (n + of_nat i) = local_address (mask k) base (n + of_nat j)"
    and "i < 2 ^ k" "j < 2 ^ k" "k \<le> 32"
  shows "i = j"
proof -
  have small: "unat (of_nat a :: u32) = a" if "a < 2 ^ k" for a
  proof -
    have "a < 2 ^ 32" using that assms(4) power_increasing [of k 32 "2 :: nat"] by simp
    then show ?thesis by (simp add: unat_of_nat)
  qed
  have "(n + of_nat i) AND mask k = (n + of_nat j) AND mask k"
    using arg_cong [OF assms(1), of "\<lambda>a. a AND mask k"] by (simp only: local_address_parts)
  then have "(unat n + i) mod 2 ^ k = (unat n + j) mod 2 ^ k"
    using unat_masked_sum [OF assms(4), of n "of_nat i"] unat_masked_sum [OF assms(4), of n "of_nat j"]
    by (simp only: small [OF assms(2)] small [OF assms(3)])
  then have "int ((unat n + i) mod 2 ^ k) = int ((unat n + j) mod 2 ^ k)" by (simp only:)
  then have "(int (unat n) + int i) mod 2 ^ k = (int (unat n) + int j) mod 2 ^ k"
    by (simp only: of_nat_mod of_nat_add of_nat_power of_nat_numeral)
  then have d: "(2 :: int) ^ k dvd int i - int j" by (simp add: mod_eq_dvd_iff)
  have "int i < int (2 ^ k)" "int j < int (2 ^ k)" using assms(2,3) by (simp_all only: of_nat_less_iff)
  then have "int i < 2 ^ k" "int j < 2 ^ k" by (simp_all only: of_nat_power of_nat_numeral)
  then have "\<bar>int i - int j\<bar> < 2 ^ k" by linarith
  then have "\<bar>int i - int j\<bar> < \<bar>2 ^ k\<bar>" by (simp only: power_abs abs_numeral)
  then have "int i - int j = 0" using dvd_imp_le_int [OF _ d] by linarith
  then show ?thesis by simp
qed

lemma claim_run_eq:
  assumes "router_fd w \<noteq> -1" "gnw_local_mask (w_config w) = mask k" and k: "k \<le> 32"
  shows "\<exists>w'. claim_run env n w = Inr (w',
      map (\<lambda>i. local_address (mask k) (arg_address (w_config w)) (nextLocalAddress w + of_nat (Suc i))) [0..<n]) \<and>
    w_net w' = fold (\<lambda>a n. net_command (wo_write env) n (router_fd w) GNW_COMMAND (GNW_CMD_NEW_ADDRESS # bytes32 a))
      (map (\<lambda>i. local_address (mask k) (arg_address (w_config w)) (nextLocalAddress w + of_nat (Suc i))) [0..<n])
      (w_net w)"
  using assms(1,2)
proof (induction n arbitrary: w)
  case (Suc n)
  let ?a = "local_address (mask k) (arg_address (w_config w)) (nextLocalAddress w + 1)"
  define w1 where "w1 = w\<lparr>nextLocalAddress := (nextLocalAddress w + 1) AND mask k,
    w_net := net_command (wo_write env) (w_net w) (router_fd w) GNW_COMMAND (GNW_CMD_NEW_ADDRESS # bytes32 ?a)\<rparr>"
  have one: "getNextLocalAddress env w = Inr (w1, ?a)"
    using getNextLocalAddress_eq [OF Suc.prems(1), of env] Suc.prems(2) by (simp add: Let_def w1_def)
  have same: "router_fd w1 = router_fd w" "w_config w1 = w_config w"
    "nextLocalAddress w1 = (nextLocalAddress w + 1) AND mask k"
    "w_net w1 = net_command (wo_write env) (w_net w) (router_fd w) GNW_COMMAND (GNW_CMD_NEW_ADDRESS # bytes32 ?a)"
    by (simp_all add: w1_def)
  let ?as = "\<lambda>w. map (\<lambda>i. local_address (mask k) (arg_address (w_config w)) (nextLocalAddress w + of_nat (Suc i)))"
  have step: "?as w [0..<Suc n] = ?a # ?as w1 [0..<n]"
    unfolding upt_conv_Cons [OF zero_less_Suc] map_Suc_upt [symmetric]
    by (simp add: same local_address_wrap [OF k] add.assoc del: upt_Suc)
  obtain w' where "claim_run env n w1 = Inr (w', ?as w1 [0..<n])"
    "w_net w' = fold (\<lambda>a n. net_command (wo_write env) n (router_fd w1) GNW_COMMAND
      (GNW_CMD_NEW_ADDRESS # bytes32 a)) (?as w1 [0..<n]) (w_net w1)"
    using Suc.IH [of w1] Suc.prems same(1,2) by auto
  then show ?case unfolding step using one same by simp
qed simp

text \<open>
  C20: The addresses a node gives its processes. With a contiguous local mask of \<open>k\<close> bits, up to
  \<open>2 ^ k\<close> successive calls of \<open>getNextLocalAddress\<close> return pairwise different addresses, all of
  them equal to the node's address outside the mask, and each is requested from the router, in
  that order, before it is used.
\<close>

theorem local_addresses_distinct:
  assumes "router_fd w \<noteq> -1" "gnw_local_mask (w_config w) = mask k" "k \<le> 32" "n \<le> 2 ^ k"
  shows "\<exists>w' addresses. claim_run env n w = Inr (w', addresses) \<and> length addresses = n \<and>
    distinct addresses \<and>
    (\<forall>a\<in>set addresses. a AND NOT (mask k) = arg_address (w_config w) AND NOT (mask k)) \<and>
    w_net w' = fold (\<lambda>a net. net_command (wo_write env) net (router_fd w) GNW_COMMAND
      (GNW_CMD_NEW_ADDRESS # bytes32 a)) addresses (w_net w)"
proof -
  let ?f = "\<lambda>i. local_address (mask k) (arg_address (w_config w)) (nextLocalAddress w + of_nat (Suc i))"
  have "inj_on ?f {0..<n}"
  proof (rule inj_onI)
    fix i j assume ij: "i \<in> {0..<n}" "j \<in> {0..<n}" "?f i = ?f j"
    then have "local_address (mask k) (arg_address (w_config w)) ((nextLocalAddress w + 1) + of_nat i) =
        local_address (mask k) (arg_address (w_config w)) ((nextLocalAddress w + 1) + of_nat j)"
      by (simp add: add.assoc)
    then show "i = j" by (rule local_address_inj) (use ij assms(3,4) in auto)
  qed
  then have d: "distinct (map ?f [0..<n])" by (simp add: distinct_map)
  have parts: "\<forall>a\<in>set (map ?f [0..<n]). a AND NOT (mask k) = arg_address (w_config w) AND NOT (mask k)"
    by (auto simp only: set_map local_address_parts)
  show ?thesis using claim_run_eq [OF assms(1-3), of env n] d parts
    by (metis (no_types, lifting) length_map length_upt minus_nat.diff_0)
qed

theorem local_addresses_distinct_witness:
  "\<exists>w' addresses. claim_run plain_wrap_os 4096
      ((wrap_init 1500)\<lparr>router_fd := 3\<rparr>) = Inr (w', addresses) \<and> length addresses = 4096 \<and> distinct addresses"
proof -
  have "gnw_local_mask (w_config ((wrap_init 1500)\<lparr>router_fd := 3\<rparr>)) = mask 12"
    by (simp add: wrap_init_def default_config_def mask_eq_exp_minus_1)
  then show ?thesis
    using local_addresses_distinct [of "(wrap_init 1500)\<lparr>router_fd := 3\<rparr>" 12 4096 plain_wrap_os] by auto
qed

section \<open>Processes\<close>

text \<open>Pipes and forks that succeed, with \<open>n\<close> of them still to come, and places to watch them.\<close>

definition spawns_ok :: "wrap_os \<Rightarrow> bool" where
  "spawns_ok env \<longleftrightarrow> (\<forall>k. wo_fork env k \<noteq> 0 \<and> (\<exists>a b. wo_pipe env k = Some (a, b) \<and> a \<noteq> IGNORE_FD))"

definition free_slots :: "pollfd list \<Rightarrow> nat" where
  "free_slots ps = length (filter (\<lambda>p. poll_fd p = IGNORE_FD) ps)"

lemma watch_slot_free:
  "0 < free_slots ps \<Longrightarrow> \<exists>i. watch_slot ps k = Inr (k + i) \<and> i < length ps \<and> poll_fd (ps ! i) = IGNORE_FD"
proof (induction ps arbitrary: k)
  case (Cons p ps)
  show ?case
  proof (cases "poll_fd p = IGNORE_FD")
    case False
    then obtain i where "watch_slot ps (k + 1) = Inr (k + 1 + i)" "i < length ps" "poll_fd (ps ! i) = IGNORE_FD"
      using Cons.IH [of "k + 1"] Cons.prems by (auto simp: free_slots_def)
    then show ?thesis using False by (intro exI [of _ "Suc i"]) simp
  qed (intro exI [of _ 0], simp)
qed (simp add: free_slots_def)

lemma free_slots_update:
  "i < length ps \<Longrightarrow> poll_fd (ps ! i) = IGNORE_FD \<Longrightarrow> poll_fd q \<noteq> IGNORE_FD \<Longrightarrow>
     free_slots (ps[i := q]) + 1 = free_slots ps"
  by (induction ps arbitrary: i) (auto simp: free_slots_def split: nat.splits)

lemma autoSpawn_spec:
  assumes "kh_full (sinkTable w)" "kh_n_buckets (sinkTable w) \<le> 2 ^ 30" "spawns_ok env"
    and "0 < free_slots (stream_fd w)"
  shows "\<exists>w' x c. autoSpawn env w a = Inr (w', x) \<and> kh_full (sinkTable w') \<and>
    kh_abs (sinkTable w') = (kh_abs (sinkTable w))(a \<mapsto> c) \<and>
    kh_n_buckets (sinkTable w') \<le> max (kh_n_buckets (sinkTable w))
      (max 4 (4 * card (dom (kh_abs (sinkTable w))))) \<and>
    free_slots (stream_fd w') + 1 = free_slots (stream_fd w) \<and>
    w_forks w' = w_forks w + 1 \<and> w_config w' = w_config w \<and> demux_mode w' = demux_mode w \<and>
    router_fd w' = router_fd w"
proof -
  obtain pin pout where p: "wo_pipe env (w_pipes w) = Some pin" "wo_pipe env (w_pipes w + 1) = Some pout"
    "PIPE_READ pout \<noteq> IGNORE_FD"
    using assms(3) unfolding spawns_ok_def PIPE_READ_def by (metis fst_conv)
  have pid: "wo_fork env (w_forks w) \<noteq> 0" using assms(3) by (simp add: spawns_ok_def)
  let ?c = "\<lparr>sc_pid = wo_fork env (w_forks w), wrap_stdin = pin, wrap_stdout = pout, sc_packets_in = 0,
    sc_packets_out = 0, sc_bytes_in = 0, sc_bytes_out = 0\<rparr>"
  obtain h1 x r h' where put: "kh_put (sinkTable w) a = Inr (h1, x, r)" "kh_set_value h1 x ?c = Inr h'"
    "kh_full h'" "kh_abs h' = (kh_abs (sinkTable w))(a \<mapsto> ?c)"
    "kh_n_buckets h' \<le> max (kh_n_buckets (sinkTable w)) (max 4 (4 * card (dom (kh_abs (sinkTable w)))))"
    using kh_put_set [OF assms(1,2), of a ?c] by blast
  obtain i where i: "watch_slot (stream_fd w) 0 = Inr i" "i < length (stream_fd w)"
    "poll_fd (stream_fd w ! i) = IGNORE_FD"
    using watch_slot_free [OF assms(4), of 0] by auto
  let ?q = "(stream_fd w ! i)\<lparr>poll_fd := PIPE_READ pout, poll_events := POLLIN\<rparr>"
  have "free_slots ((stream_fd w)[i := ?q]) + 1 = free_slots (stream_fd w)"
    by (rule free_slots_update [OF i(2,3)]) (use p(3) in simp)
  then show ?thesis using put p pid i(1)
    by (auto simp: autoSpawn_def addNewWatch_def Let_def)
qed

definition spawn_ready :: "wrap \<Rightarrow> gnw_address \<Rightarrow> nat \<Rightarrow> bool" where
  "spawn_ready w source n \<longleftrightarrow> demux_mode w = DEMUX_SPAWN \<and> \<not> arg_echo (w_config w) \<and>
     router_fd w \<noteq> -1 \<and> kh_full (sinkTable w) \<and> kh_n_buckets (sinkTable w) \<le> 2 ^ 30 \<and>
     finite (dom (kh_abs (sinkTable w))) \<and> card (dom (kh_abs (sinkTable w))) + n \<le> 2 ^ 28 \<and>
     n \<le> free_slots (stream_fd w) \<and> kh_abs (sinkTable w) source = None \<and>
     source AND NOT (gnw_local_mask (w_config w)) \<noteq>
       arg_address (w_config w) AND NOT (gnw_local_mask (w_config w))"

text \<open>A data packet for a stream that has a context: it is counted there and written to its pipe.\<close>

lemma data_to_sink:
  assumes w: "\<not> arg_echo (w_config w)" "applyDeMuxPolicy env w source = Inr (w1, a)"
    and sink: "kh_full (sinkTable w1)" "kh_abs (sinkTable w1) a = Some c"
    and len: "length payload < 2 ^ 32" and malloc: "\<forall>n. length (wo_malloc env n) = n"
  shows "\<exists>h c'. handle_frame env w (GNW_DATA, source, payload) =
      Inr (write_sink env (w1\<lparr>sinkTable := h\<rparr>) (PIPE_WRITE (wrap_stdin c)) payload) \<and>
    kh_full h \<and> kh_abs h = (kh_abs (sinkTable w1))(a \<mapsto> c') \<and> kh_n_buckets h = kh_n_buckets (sinkTable w1)"
proof -
  obtain y where y: "kh_get (sinkTable w1) a = Inr y" "kh_holds (sinkTable w1) y a"
    "kh_value (sinkTable w1) y = Inr c" "y \<noteq> kh_end (sinkTable w1)"
    using kh_bucket [OF sink] by blast
  let ?c = "c\<lparr>sc_packets_in := sc_packets_in c + 1,
    sc_bytes_in := sc_bytes_in c + ucast (of_nat (length payload) :: u32)\<rparr>"
  obtain h where h: "kh_set_value (sinkTable w1) y ?c = Inr h" "kh_full h"
    "kh_abs h = (kh_abs (sinkTable w1))(a \<mapsto> ?c)" "kh_n_buckets h = kh_n_buckets (sinkTable w1)"
    using kh_set_full [OF sink(1) y(2), of ?c] by blast
  have "unat (of_nat (length payload) :: u32) = length payload" using len by (simp add: unat_of_nat)
  then have "handle_frame env w (GNW_DATA, source, payload) =
      Inr (write_sink env (w1\<lparr>sinkTable := h\<rparr>) (PIPE_WRITE (wrap_stdin c)) payload)"
    using w y(1,3,4) h(1) malloc
    by (simp add: handle_frame_def handlePacket_def handleDataPacket_def Let_def load_block_def)
  then show ?thesis using h(2-4) by blast
qed

lemma spawn_step:
  assumes r: "spawn_ready w source (Suc n)" and env: "spawns_ok env"
    and len: "length payload < 2 ^ 32" and malloc: "\<forall>n. length (wo_malloc env n) = n"
  shows "\<exists>w'. handle_frame env w (GNW_DATA, source, payload) = Inr w' \<and>
    spawn_ready w' source n \<and> w_forks w' = w_forks w + 1"
proof -
  let ?m = "gnw_local_mask (w_config w)" and ?base = "arg_address (w_config w)"
  define a where "a = local_address ?m ?base (nextLocalAddress w + 1)"
  define w1 where "w1 = w\<lparr>nextLocalAddress := (nextLocalAddress w + 1) AND ?m,
    w_net := net_command (wo_write env) (w_net w) (router_fd w) GNW_COMMAND (GNW_CMD_NEW_ADDRESS # bytes32 a)\<rparr>"
  have w: "demux_mode w = DEMUX_SPAWN" "\<not> arg_echo (w_config w)" "router_fd w \<noteq> -1"
    "kh_full (sinkTable w)" "kh_n_buckets (sinkTable w) \<le> 2 ^ 30" "kh_abs (sinkTable w) source = None"
    "finite (dom (kh_abs (sinkTable w)))" "card (dom (kh_abs (sinkTable w))) + Suc n \<le> 2 ^ 28"
    "Suc n \<le> free_slots (stream_fd w)" "source AND NOT ?m \<noteq> ?base AND NOT ?m"
    using r by (simp_all add: spawn_ready_def)
  have nl: "getNextLocalAddress env w = Inr (w1, a)"
    using getNextLocalAddress_eq [OF w(3), of env] by (simp add: Let_def w1_def a_def)
  have "a AND NOT ?m = ?base AND NOT ?m" unfolding a_def by (rule local_address_parts)
  then have ne: "a \<noteq> source" using w(10) by auto
  have same: "sinkTable w1 = sinkTable w" "stream_fd w1 = stream_fd w" "w_forks w1 = w_forks w"
    "w_config w1 = w_config w" "demux_mode w1 = demux_mode w" "router_fd w1 = router_fd w"
    by (simp_all add: w1_def)
  obtain w2 x c where sp: "autoSpawn env w1 a = Inr (w2, x)" "kh_full (sinkTable w2)"
    "kh_abs (sinkTable w2) = (kh_abs (sinkTable w))(a \<mapsto> c)"
    "kh_n_buckets (sinkTable w2) \<le> max (kh_n_buckets (sinkTable w))
      (max 4 (4 * card (dom (kh_abs (sinkTable w)))))"
    "free_slots (stream_fd w2) + 1 = free_slots (stream_fd w)" "w_forks w2 = w_forks w + 1"
    "w_config w2 = w_config w" "demux_mode w2 = demux_mode w" "router_fd w2 = router_fd w"
    using autoSpawn_spec [of w1 env a] w(4,5,9) env same by auto
  have dm: "applyDeMuxPolicy env w source = Inr (w2, a)"
    using w(1) kh_no_bucket [OF w(4,6)] nl sp(1)
    by (simp add: applyDeMuxPolicy_def DEMUX_SPAWN_def DEMUX_MERGE_def)
  have some: "kh_abs (sinkTable w2) a = Some c" using sp(3) by simp
  obtain h3 c' where h3: "handle_frame env w (GNW_DATA, source, payload) =
      Inr (write_sink env (w2\<lparr>sinkTable := h3\<rparr>) (PIPE_WRITE (wrap_stdin c)) payload)" "kh_full h3"
    "kh_abs h3 = (kh_abs (sinkTable w2))(a \<mapsto> c')" "kh_n_buckets h3 = kh_n_buckets (sinkTable w2)"
    using data_to_sink [OF w(2) dm sp(2) some len malloc] by blast
  define w3 where "w3 = write_sink env (w2\<lparr>sinkTable := h3\<rparr>) (PIPE_WRITE (wrap_stdin c)) payload"
  have w3: "sinkTable w3 = h3" "stream_fd w3 = stream_fd w2" "w_forks w3 = w_forks w2"
    "w_config w3 = w_config w2" "demux_mode w3 = demux_mode w2" "router_fd w3 = router_fd w2"
    by (simp_all add: w3_def write_sink_def Let_def)
  have dom3: "dom (kh_abs h3) = Set.insert a (dom (kh_abs (sinkTable w)))" using h3(3) sp(3) by auto
  have card3: "card (dom (kh_abs h3)) \<le> Suc (card (dom (kh_abs (sinkTable w))))"
    unfolding dom3 by (simp add: card_insert_le_m1 w(7) card_insert_if)
  have "max (kh_n_buckets (sinkTable w)) (max 4 (4 * card (dom (kh_abs (sinkTable w))))) \<le> 2 ^ 30"
    using w(5,8) by simp
  then have nb: "kh_n_buckets h3 \<le> 2 ^ 30" unfolding h3(4) by (rule order_trans [OF sp(4)])
  have "kh_abs h3 source = None" using h3(3) sp(3) ne w(6) by simp
  then have "spawn_ready w3 source n"
    unfolding spawn_ready_def w3 using sp w h3(2) nb dom3 card3 by simp
  then show ?thesis using h3(1) sp(6) w3(3) by (simp add: w3_def)
qed

text \<open>
  C21: In spawn mode every packet starts a process. The option's message says that new streams
  spawn new processes, but the table is asked for the source address and filled under the new
  local address: \<open>n\<close> packets from one source outside the node's local block make \<open>n\<close> processes,
  as long as there are pipes and places to watch them.
\<close>

theorem spawn_per_packet:
  assumes "spawn_ready w source (length payloads)" "spawns_ok env"
    and "\<forall>p\<in>set payloads. length p < 2 ^ 32" "\<forall>n. length (wo_malloc env n) = n"
  shows "\<exists>w'. handle_frames env w (map (\<lambda>p. (GNW_DATA, source, p)) payloads) = Inr w' \<and>
    w_forks w' = w_forks w + length payloads"
  using assms(1,3)
proof (induction payloads arbitrary: w)
  case (Cons p ps)
  obtain w1 where w1: "handle_frame env w (GNW_DATA, source, p) = Inr w1" "spawn_ready w1 source (length ps)"
    "w_forks w1 = w_forks w + 1"
    using spawn_step [OF _ assms(2) _ assms(4), of w source "length ps" p] Cons.prems by auto
  then show ?case using Cons.IH [OF w1(2)] Cons.prems(2) by auto
qed simp

lemma free_slots_init: "free_slots (stream_fd (wrap_init mtu)) = 256"
  by (simp add: free_slots_def wrap_init_def MAX_INPUT_STREAMS_def IGNORE_FD_def)

theorem spawn_per_packet_witness:
  "\<exists>w'. handle_frames plain_wrap_os ((wrap_init 1500)\<lparr>demux_mode := DEMUX_SPAWN, router_fd := 3\<rparr>)
      [(GNW_DATA, 0x7000, [1]), (GNW_DATA, 0x7000, [2])] = Inr w' \<and> w_forks w' = 2"
proof -
  let ?w = "(wrap_init 1500)\<lparr>demux_mode := DEMUX_SPAWN, router_fd := 3\<rparr>"
  have init: "stream_fd ?w = stream_fd (wrap_init 1500)" "sinkTable ?w = kh_init" "w_forks ?w = 0"
    "demux_mode ?w = DEMUX_SPAWN" "router_fd ?w = 3" "w_config ?w = default_config"
    by (simp_all add: wrap_init_def default_config_def)
  have "spawn_ready ?w 0x7000 (length [[1], [2 :: u8]])"
    unfolding spawn_ready_def init free_slots_init kh_full_init by (simp add: kh_full_init default_config_def)
  moreover have "spawns_ok plain_wrap_os"
    by (auto simp: spawns_ok_def plain_wrap_os_def IGNORE_FD_def)
  moreover have "\<forall>n. length (wo_malloc plain_wrap_os n) = n" by (simp add: plain_wrap_os_def)
  ultimately have "\<exists>w'. handle_frames plain_wrap_os ?w
      (map (\<lambda>p. (GNW_DATA, 0x7000, p)) [[1], [2]]) = Inr w' \<and> w_forks w' = w_forks ?w + length [[1], [2 :: u8]]"
    by (intro spawn_per_packet) simp_all
  then show ?thesis unfolding init(3) by (simp add: numeral_2_eq_2)
qed

section \<open>The edges of the poll loop\<close>

lemma first_ready_0: "ps \<noteq> [] \<Longrightarrow> poll_revents (hd ps) \<noteq> 0 \<Longrightarrow> first_ready ps k = Some k"
  by (cases ps) auto

lemma starved_round:
  assumes "stream_fd w \<noteq> []" "poll_fd (hd (stream_fd w)) = fd" "0 \<le> fd" "evs fd \<noteq> 0"
    and "router_fd w \<noteq> -1" "router_fd w \<noteq> fd" "arg_address (w_config w) = 0"
  shows "wrap_round env evs avail (w, status) = Inr (w\<lparr>stream_fd := poll_results evs (stream_fd w)\<rparr>, status)"
proof -
  obtain p ps where s: "stream_fd w = p # ps" using assms(1) by (cases "stream_fd w") auto
  then have "first_ready (poll_results evs (stream_fd w)) 0 = Some 0"
    using assms(2-4) by (simp add: poll_results_def)
  moreover have "poll_fd (poll_results evs (stream_fd w) ! 0) = fd"
    using s assms(2) by (simp add: poll_results_def)
  ultimately show ?thesis using assms(5-7)
    by (simp add: wrap_round_def Let_def getRouterFD_def)
qed

lemma starved_run:
  assumes "0 \<le> fd" "\<forall>r\<in>set rounds. fst r fd \<noteq> 0"
    and "router_fd w \<noteq> -1" "router_fd w \<noteq> fd" "arg_address (w_config w) = 0"
  shows "stream_fd w \<noteq> [] \<Longrightarrow> poll_fd (hd (stream_fd w)) = fd \<Longrightarrow>
    \<exists>fds. wrap_run env rounds (w, False) = Inr (w\<lparr>stream_fd := fds\<rparr>, False)"
  using assms(2-5)
proof (induction rounds arbitrary: w)
  case Nil
  then show ?case by (intro exI [of _ "stream_fd w"]) simp
next
  case (Cons r rounds)
  obtain evs avail where r: "r = (evs, avail)" by (cases r)
  let ?w = "w\<lparr>stream_fd := poll_results evs (stream_fd w)\<rparr>"
  have step: "wrap_round env evs avail (w, False) = Inr (?w, False)"
    by (rule starved_round [OF Cons.prems(1,2) assms(1)]) (use Cons.prems r in simp_all)
  have "stream_fd ?w \<noteq> []" "poll_fd (hd (stream_fd ?w)) = fd"
    using Cons.prems(1,2) by (simp_all add: poll_results_def hd_map)
  then obtain fds where "wrap_run env rounds (?w, False) = Inr (?w\<lparr>stream_fd := fds\<rparr>, False)"
    using Cons.IH [of ?w] Cons.prems by auto
  then show ?case using step r by auto
qed

text \<open>
  C22: An input bridge without an address waits for one for ever. Started with \<open>--input\<close> and no
  \<open>--address\<close>, the node asks the router for an address; but as long as standard input is ready
  in every poll round, as a pipe with data or at its end always is, the loop looks at nothing else,
  because standard input was watched first and is passed over while there is no address: whatever
  the router answers, nothing is read, sent or handled.
\<close>

theorem input_without_address_starves:
  assumes "0 < wo_connect env 0" and "\<forall>r\<in>set rounds. fst r 0 \<noteq> 0"
  shows "\<exists>w. graph_main env access env_path mtu [(ARG_INPUT, [])] [] rounds = Inr (w, False) \<and>
    arg_address (w_config w) = 0 \<and> w_stdout w = [] \<and> input_buffer w = kh_init \<and>
    w_net w = net_command (wo_write env) (w_net (wrap_init mtu)) (wo_connect env 0) GNW_COMMAND
      [GNW_CMD_NEW_ADDRESS]"
proof -
  let ?i = "wrap_init mtu" and ?fd = "wo_connect env 0"
  let ?p = "\<lparr>poll_fd = IGNORE_FD, poll_events = 0, poll_revents = 0\<rparr>"
  have fds: "stream_fd ?i = ?p # ?p # replicate 254 ?p"
    by (simp add: wrap_init_def MAX_INPUT_STREAMS_def eval_nat_numeral)
  define w1 where "w1 = ?i\<lparr>stream_fd := ?p\<lparr>poll_fd := 0, poll_events := POLLIN\<rparr> # ?p # replicate 254 ?p\<rparr>"
  have opt: "wrap_options ?i [(ARG_INPUT, [])] = Inr w1"
    by (simp add: addNewWatch_def fds w1_def IGNORE_FD_def)
  define w2 where "w2 = w1\<lparr>router_fd := ?fd, w_connects := 1,
    stream_fd := ?p\<lparr>poll_fd := 0, poll_events := POLLIN\<rparr> # ?p\<lparr>poll_fd := ?fd, poll_events := POLLIN\<rparr> #
      replicate 254 ?p, w_net := net_command (wo_write env) (w_net ?i) ?fd GNW_COMMAND [GNW_CMD_NEW_ADDRESS]\<rparr>"
  have cmd: "gnw_sendCommand (wo_write env) (w_net ?i) ?fd GNW_CMD_NEW_ADDRESS =
      Inr (net_command (wo_write env) (w_net ?i) ?fd GNW_COMMAND [GNW_CMD_NEW_ADDRESS])"
    using gnw_emitCommandPacket_spec [of "wo_write env" "w_net ?i" ?fd GNW_COMMAND "[GNW_CMD_NEW_ADDRESS]"]
    by (simp add: gnw_sendCommand_def)
  have i: "router_fd ?i = -1" "w_connects ?i = 0" "arg_address (w_config ?i) = 0"
    "arg_immediate (w_config ?i) = False" "w_stdout ?i = []"
    by (simp_all add: wrap_init_def default_config_def)
  have live: "go_live env w1 = Inr (w2, ?fd)"
    using cmd assms(1)
    by (simp add: go_live_def getRouterFD_def Let_def w1_def w2_def i addNewWatch_def IGNORE_FD_def)
  have w2: "router_fd w2 = ?fd" "arg_address (w_config w2) = 0" "stream_fd w2 \<noteq> []"
    "poll_fd (hd (stream_fd w2)) = 0" "w_stdout w2 = []" "input_buffer w2 = kh_init"
    "w_net w2 = net_command (wo_write env) (w_net ?i) ?fd GNW_COMMAND [GNW_CMD_NEW_ADDRESS]"
    by (simp_all add: w2_def w1_def i wrap_init_input)
  have ne: "router_fd w2 \<noteq> -1" "router_fd w2 \<noteq> 0" using assms(1) w2(1) by simp_all
  obtain fds where "wrap_run env rounds (w2, False) = Inr (w2\<lparr>stream_fd := fds\<rparr>, False)"
    using starved_run [OF _ assms(2) ne w2(2-4)] by blast
  then show ?thesis using opt live w2
    by (simp add: graph_main_def inner_binary_def wrap_close_def)
qed

theorem input_without_address_starves_witness:
  "\<exists>w. graph_main plain_wrap_os (\<lambda>p. True) None 1500 [(ARG_INPUT, [])] []
      [((\<lambda>fd. 1), (\<lambda>fd. Some [65, 10])), ((\<lambda>fd. 1), (\<lambda>fd. Some [65, 10]))] = Inr (w, False) \<and>
     w_stdout w = [] \<and> arg_address (w_config w) = 0"
  using input_without_address_starves [of plain_wrap_os
      "[((\<lambda>fd. 1), (\<lambda>fd. Some [65, 10])), ((\<lambda>fd. 1), (\<lambda>fd. Some [65, 10]))]" "\<lambda>p. True" None 1500]
  by (auto simp: plain_wrap_os_def)

text \<open>
  A descriptor number that is used again is never read again. Once the buffer of a stream has
  been destroyed, a later stream with the same descriptor finds the dead entry in the table, and
  with data waiting and the descriptor open every call of the handler reads nothing, changes
  nothing and keeps the descriptor.
\<close>

theorem reused_descriptor_dead:
  assumes "kh_full (input_buffer w)" "kh_abs (input_buffer w) (fd_key fd) = Some b"
    and "destroyLocalBuffer w fd = Inr w1" "data \<noteq> []"
    and "events AND POLLNVAL \<noteq> POLLNVAL" "events AND POLLHUP \<noteq> POLLHUP" "wo_valid env fd"
    and "0 < network_mtu (w_config w)" "network_mtu (w_config w) < 2 ^ 26"
  shows "handleLocalData env w1 fd events (Some data) = Inr (w1, fd, False)"
proof -
  let ?dead = "\<lparr>lb_buffer = None, lb_tail = None\<rparr>"
  obtain x where x: "kh_get (input_buffer w) (fd_key fd) = Inr x" "kh_holds (input_buffer w) x (fd_key fd)"
    "kh_value (input_buffer w) x = Inr b" "x \<noteq> kh_end (input_buffer w)"
    using kh_bucket [OF assms(1,2)] by blast
  obtain h where h: "kh_set_value (input_buffer w) x ?dead = Inr h" "kh_full h"
    "kh_abs h = (kh_abs (input_buffer w))(fd_key fd \<mapsto> ?dead)" "kh_holds h x (fd_key fd)"
    using kh_set_full [OF assms(1) x(2), of ?dead] by blast
  have w1: "w1 = w\<lparr>input_buffer := h\<rparr>" using assms(3) x h(1) by (simp add: destroyLocalBuffer_def)
  have some: "kh_abs h (fd_key fd) = Some ?dead" using h(3) by simp
  obtain y where y: "kh_get h (fd_key fd) = Inr y" "kh_value h y = Inr ?dead" "y \<noteq> kh_end h"
    using kh_bucket [OF h(2) some] by blast
  have cap: "free_bytes w1 0 \<noteq> 0"
    using assms(8,9) by (simp add: free_bytes_def w1)
  have "take (free_bytes w1 0) data \<noteq> []" using cap assms(4) by simp
  then show ?thesis using y assms(5-7)
    by (simp add: handleLocalData_def getLocalBuffer_def w1 used_bytes_def read_into_def Let_def)
qed

theorem reused_descriptor_dead_witness:
  "\<exists>w w1. handleLocalData plain_wrap_os (wrap_init 1500) 7 POLLIN (Some [65]) = Inr (w, 7, False) \<and>
     destroyLocalBuffer w 7 = Inr w1 \<and>
     handleLocalData plain_wrap_os w1 7 POLLIN (Some [66, 10]) = Inr (w1, 7, False)"
proof -
  let ?i = "wrap_init 1500"
  have P: "\<not> is_delim (arg_delimiter (w_config ?i)) 65"
    by (simp add: is_delim_def wrap_init_def default_config_def)
  have cut: "cuts (is_delim (arg_delimiter (w_config ?i))) [] (pending (input_buffer ?i) 7 @ [65]) = ([], [65])"
    using P by (simp add: wrap_init_input input_ok_init)
  obtain h where h: "handleLocalData plain_wrap_os ?i 7 POLLIN (Some [65]) = Inr (?i\<lparr>input_buffer := h\<rparr>, 7, False)"
    "input_ok h 1500 7" "dom (kh_abs h) = Set.insert (fd_key 7) (dom (kh_abs (input_buffer ?i)))"
    using handleLocalData_spec [OF plain_wrap_sizes _ _ _ _ cut, of POLLIN]
    by (auto simp: wrap_init_input input_ok_init kh_full_init)
  have full: "kh_full h" using h(2) by (simp add: input_ok_def)
  have "fd_key 7 \<in> dom (kh_abs h)" using h(3) by simp
  then obtain b where b: "kh_abs h (fd_key 7) = Some b" by blast
  obtain x where x: "kh_get h (fd_key 7) = Inr x" "kh_holds h x (fd_key 7)" "kh_value h x = Inr b" "x \<noteq> kh_end h"
    using kh_bucket [OF full b] by blast
  obtain h' where "kh_set_value h x \<lparr>lb_buffer = None, lb_tail = None\<rparr> = Inr h'"
    using kh_set_full [OF full x(2)] by blast
  then have d: "destroyLocalBuffer (?i\<lparr>input_buffer := h\<rparr>) 7 = Inr (?i\<lparr>input_buffer := h'\<rparr>)"
    using x by (simp add: destroyLocalBuffer_def)
  have mtu: "network_mtu (w_config ?i) = 1500" by (simp add: wrap_init_def)
  have "handleLocalData plain_wrap_os (?i\<lparr>input_buffer := h'\<rparr>) 7 POLLIN (Some [66, 10]) =
      Inr (?i\<lparr>input_buffer := h'\<rparr>, 7, False)"
    by (rule reused_descriptor_dead [OF _ _ d])
      (simp_all add: full b mtu plain_wrap_os_def POLLIN_def POLLHUP_def POLLNVAL_def)
  then show ?thesis using h(1) d by blast
qed

end
