(* ===== verification/EndToEnd.thy ===== *)
theory EndToEnd
  imports Wire WrapProps
begin

text \<open>
  The program as a whole: the router on all its connections at once, and a stream from the input of
  one node through the router to the output of another.
\<close>

section \<open>The router on interleaved connections\<close>

text \<open>
  From start-up, up to \<open>2 ^ 28\<close> reads of any number of connections, interleaved in any order and
  cutting the messages of each connection anywhere, are handled without a fault, and the router's
  tables, counters, pending bytes and the bytes it sent are those of the abstract machine: each
  message has the effect of \<open>message_spec\<close> when the read that completes it is handled. A read that
  completes a message and brings bytes of the next leaves those pending.
\<close>

theorem interleaved_reads_refine:
  assumes "wire_steps env mtu wire_init es (pend, k, tab, n)" "length es \<le> 2 ^ 28"
    and "good_malloc env" "mtu * 20 < 2 ^ 32"
  shows "\<exists>r. serve env mtu es router_init = Inr r \<and> table_ok (address_table r) \<and>
    table_abs (address_table r) = tab \<and> rt_net r = n \<and> (\<forall>fd. pending (local_buffers r) fd = pend (fd_key fd))"
  using serve_simulates [OF assms(3,4,1) wire_init_start(1) wire_init_start(2) [OF assms(2)]]
  by (auto simp: stands_for_def)

text \<open>All reads of one message on one connection.\<close>

lemma message_steps:
  "pend (fd_key fd) @ concat cs = message_bytes msg \<Longrightarrow> cs \<noteq> [] \<Longrightarrow> \<forall>c\<in>set cs. c \<noteq> [] \<Longrightarrow>
   acceptable (fst s) msg \<Longrightarrow> length (message_bytes msg) < mtu * 20 \<Longrightarrow>
   wire_steps env mtu (pend, k, s) (map (Pair fd) cs)
     (pend(fd_key fd := []), k + rands_of (fst s) msg, message_spec env k fd msg s)"
proof (induction cs arbitrary: pend)
  case (Cons c cs)
  show ?case
  proof (cases "cs = []")
    case True
    have "wire_step env mtu (pend, k, s) (fd, c)
        (pend(fd_key fd := []), k + rands_of (fst s) msg, message_spec env k fd msg s)"
      by (rule wire_step.complete) (use Cons.prems True in simp_all)
    from wire_more [OF this steps.stop] show ?thesis by (simp only: True list.map)
  next
    case False
    let ?pend = "pend(fd_key fd := pend (fd_key fd) @ c)"
    have "concat cs \<noteq> []" using False Cons.prems(3) by (cases cs) auto
    then have one: "wire_step env mtu (pend, k, s) (fd, c) (?pend, k, s)"
      using Cons.prems by (intro wire_step.incomplete [of c "concat cs" msg]) simp_all
    have "wire_steps env mtu (?pend, k, s) (map (Pair fd) cs)
        (?pend(fd_key fd := []), k + rands_of (fst s) msg, message_spec env k fd msg s)"
      by (rule Cons.IH) (use Cons.prems False in simp_all)
    from wire_more [OF one this] show ?thesis by (simp only: list.map fun_upd_upd)
  qed
qed simp

definition sample_reads :: "(int \<times> u8 list) list" where
  "sample_reads = [(5, take 3 (message_bytes (Claim 7))), (6, message_bytes (Claim 8)),
     (5, drop 3 (message_bytes (Claim 7)))]"

theorem interleaved_reads_refine_witness:
  "\<exists>r. serve plain_os 1500 sample_reads router_init = Inr r \<and>
     map_option a_fd (table_abs (address_table r) 7) = Some 5 \<and> map_option a_fd (table_abs (address_table r) 8) = Some 6"
proof -
  let ?m = "message_bytes (Claim 7)" and ?n = "rt_net router_init"
  have keys: "fd_key 5 = 5" "fd_key 6 = 6" by (simp_all add: fd_key_def)
  have len: "length (message_bytes (Claim a)) = 16" for a by simp
  have ne: "take 3 ?m \<noteq> []" "drop 3 ?m \<noteq> []" using len [of 7]
    by (simp_all only: take_eq_Nil drop_eq_Nil) (auto simp del: message_bytes.simps)
  have ne': "message_bytes (Claim a) \<noteq> []" for a using len [of a] by (auto simp del: message_bytes.simps)
  define s1 where "s1 = message_spec plain_os 0 6 (Claim 8) (Map.empty, ?n)"
  define s2 where "s2 = message_spec plain_os 1 5 (Claim 7) s1"
  have "wire_step plain_os 1500 wire_init (5, take 3 ?m) ((\<lambda>_. [])(5 := take 3 ?m), 0, Map.empty, ?n)"
    using wire_step.incomplete [of "take 3 ?m" "drop 3 ?m" "Claim 7" "\<lambda>_. []" 5 1500 plain_os 0 "(Map.empty, ?n)"]
      ne len [of 7] by (simp add: wire_init_def keys del: message_bytes.simps)
  moreover have "wire_step plain_os 1500 ((\<lambda>_. [])(5 := take 3 ?m), 0, Map.empty, ?n) (6, message_bytes (Claim 8))
      ((\<lambda>_. [])(5 := take 3 ?m, 6 := []), 1, s1)"
    using wire_step.complete [of "message_bytes (Claim 8)" "Claim 8" "[]" "(\<lambda>_. [])(5 := take 3 ?m)" 6
        "(Map.empty, ?n)" 1500 plain_os 0] len [of 8] ne'
    by (simp add: keys s1_def del: message_bytes.simps message_spec.simps)
  moreover have "wire_step plain_os 1500 ((\<lambda>_. [])(5 := take 3 ?m, 6 := []), 1, s1) (5, drop 3 ?m)
      ((\<lambda>_. [])(5 := take 3 ?m, 6 := [], 5 := []), 2, s2)"
    using wire_step.complete [of "drop 3 ?m" "Claim 7" "[]" "(\<lambda>_. [])(5 := take 3 ?m, 6 := [])" 5 s1 1500 plain_os 1]
      ne len [of 7] by (simp add: keys s2_def numeral_2_eq_2 del: message_bytes.simps message_spec.simps)
  ultimately have steps: "wire_steps plain_os 1500 wire_init sample_reads
      ((\<lambda>_. [])(5 := take 3 ?m, 6 := [], 5 := []), 2, fst s2, snd s2)"
    unfolding sample_reads_def by (auto intro!: steps.intros simp del: message_bytes.simps fun_upd_apply)
  have "length sample_reads \<le> 2 ^ 28" "(1500 :: nat) * 20 < 2 ^ 32" by (simp_all add: sample_reads_def)
  then obtain r where "serve plain_os 1500 sample_reads router_init = Inr r" "table_abs (address_table r) = fst s2"
    using interleaved_reads_refine [OF steps _ plain_os_malloc] by blast
  then show ?thesis by (simp add: s1_def s2_def)
qed

section \<open>From the input of one node to the output of another\<close>

text \<open>Packets of \<open>a\<close> are broadcast to the only target \<open>t\<close>, which is bound to the connection \<open>fd\<close>.\<close>

definition pipe_route :: "atable \<Rightarrow> gnw_address \<Rightarrow> gnw_address \<Rightarrow> int \<Rightarrow> bool" where
  "pipe_route m a t fd \<longleftrightarrow>
     map_option (\<lambda>c. (a_forward c, a_policy c)) (m a) = Some ([t], policy_int GNW_POLICY_BROADCAST) \<and>
     map_option a_fd (m t) = Some fd"

lemma pipe_route_same:
  assumes "pipe_route m a t fd" "same_routes m m'"
  shows "pipe_route m' a t fd"
proof -
  obtain c ct where c: "m a = Some c" "a_forward c = [t]" "a_policy c = policy_int GNW_POLICY_BROADCAST"
    "m t = Some ct" "a_fd ct = fd"
    using assms(1) by (auto simp: pipe_route_def)
  obtain c' where "m' a = Some c'" "a_forward c' = a_forward c" "a_policy c' = a_policy c"
    by (rule same_routes_some [OF assms(2) c(1)])
  moreover obtain ct' where "m' t = Some ct'" "a_fd ct' = a_fd ct"
    by (rule same_routes_some [OF assms(2) c(4)])
  ultimately show ?thesis using c by (simp add: pipe_route_def)
qed

lemma pipe_routable: "pipe_route m a t fd \<Longrightarrow> acceptable m (Data a pl)"
  using policy_int_distinct by (auto simp: pipe_route_def routable_def)

lemma data_spec_pipe:
  assumes "pipe_route m a t fd" "\<forall>fd bs. os_write env fd bs = int (length bs)" "packet \<noteq> []"
  shows "pipe_route (fst (data_spec env k a packet (m, n))) a t fd \<and>
    sent (snd (data_spec env k a packet (m, n))) = sent n @ [(fd, packet)]"
proof -
  obtain c where c: "m a = Some c" "a_forward c = [t]" "a_policy c = policy_int GNW_POLICY_BROADCAST"
    using assms(1) by (auto simp: pipe_route_def)
  let ?m = "m(a \<mapsto> count_in (length packet) c)"
  have spec: "data_spec env k a packet (m, n) = forward_spec (os_write env) packet t (?m, n)"
    using c by (simp add: data_spec_def route_def count_in_def)
  have r0: "same_routes m ?m" using c(1) by (simp add: same_routes_def count_in_def)
  have r1: "pipe_route ?m a t fd" by (rule pipe_route_same [OF assms(1) r0])
  then have "sent (snd (forward_spec (os_write env) packet t (?m, n))) = sent n @ [(fd, packet)]"
    using assms(2,3) by (auto simp: pipe_route_def forward_spec_def net_emit_def)
  then show ?thesis using pipe_route_same [OF r1 forward_spec_routes(1)] spec by simp
qed

lemma pipe_steps:
  assumes "\<forall>fd bs. os_write env fd bs = int (length bs)"
  shows "pipe_route tab a t fdB \<Longrightarrow> pend (fd_key fdA) = [] \<Longrightarrow>
    map concat css = map (frame_bytes GNW_DATA a) ps \<Longrightarrow> \<forall>cs\<in>set css. [] \<notin> set cs \<Longrightarrow>
    \<forall>p\<in>set ps. 11 + length p < mtu * 20 \<Longrightarrow>
    \<exists>pend' k' tab' n'. wire_steps env mtu (pend, k, tab, n) (map (Pair fdA) (concat css)) (pend', k', tab', n') \<and>
      sent n' = sent n @ map (\<lambda>p. (fdB, frame_bytes GNW_DATA a p)) ps"
proof (induction ps arbitrary: css pend k tab n)
  case Nil
  then show ?case by auto
next
  case (Cons p ps)
  obtain cs css' where css: "css = cs # css'" "concat cs = frame_bytes GNW_DATA a p"
    "map concat css' = map (frame_bytes GNW_DATA a) ps"
    using Cons.prems(3) by auto
  let ?s = "message_spec env k fdA (Data a p) (tab, n)"
  have whole: "message_bytes (Data a p) = concat cs" using css(2) by simp
  have "cs \<noteq> []" using css(2) by (auto simp: frame_bytes_def)
  moreover have "\<forall>c\<in>set cs. c \<noteq> []" using Cons.prems(4) css(1) by auto
  ultimately have one: "wire_steps env mtu (pend, k, tab, n) (map (Pair fdA) cs)
      (pend(fd_key fdA := []), k + rands_of tab (Data a p), ?s)"
    using message_steps [of pend fdA cs "Data a p" "(tab, n)" mtu env k] whole Cons.prems(1,2,5)
      pipe_routable [OF Cons.prems(1), of p] by simp
  have step: "pipe_route (fst ?s) a t fdB" "sent (snd ?s) = sent n @ [(fdB, frame_bytes GNW_DATA a p)]"
    using data_spec_pipe [OF Cons.prems(1) assms, of "frame_bytes GNW_DATA a p" k n]
    by (simp_all add: frame_bytes_def)
  have empty: "(pend(fd_key fdA := [])) (fd_key fdA) = []" by simp
  have small: "\<forall>cs\<in>set css'. [] \<notin> set cs" "\<forall>p\<in>set ps. 11 + length p < mtu * 20"
    using Cons.prems(4,5) css(1) by simp_all
  obtain pend' k' tab' n' where rest: "wire_steps env mtu (pend(fd_key fdA := []), k + rands_of tab (Data a p), fst ?s, snd ?s)
      (map (Pair fdA) (concat css')) (pend', k', tab', n')"
    "sent n' = sent (snd ?s) @ map (\<lambda>p. (fdB, frame_bytes GNW_DATA a p)) ps"
    using Cons.IH [where pend = "pend(fd_key fdA := [])" and k = "k + rands_of tab (Data a p)" and n = "snd ?s",
        OF step(1) empty css(3) small] by (elim exE conjE) (rule that)
  have "wire_steps env mtu (pend, k, tab, n) (map (Pair fdA) (concat css)) (pend', k', tab', n')"
    using steps_append [OF one, of "map (Pair fdA) (concat css')"] rest(1) css(1) by simp
  then show ?case using rest(2) step(2) by auto
qed

text \<open>
  The pipeline delivers. Node A reads a stream and sends it in packets; the router, set up from
  its start by any reads \<open>es0\<close> so that packets of A go to B, reads A's packets in any portions that end
  with each packet; node B reads what the router sent to it in any portions. Then A, the router and B
  all get through without a fault, the router sends exactly A's packets on, in order and to B, and B
  prints what A read but for the piece still pending in A.
\<close>

theorem pipeline_delivers:
  assumes "wrap_sizes envA w m" "input_buffer w = kh_init" "\<forall>fd bs. wo_write envA fd bs = int (length bs)"
    and "P = is_delim (arg_delimiter (w_config w))" "lines_fit P m [] reads"
    and "\<forall>p\<in>set (fst (cuts P [] (concat reads))). 11 + length p \<le> 10 * m"
    and "good_malloc env" "\<forall>fd bs. os_write env fd bs = int (length bs)"
    and "wire_steps env m wire_init es0 (pend, k, tab, n)" "pend (fd_key fdA) = []"
    and "pipe_route tab (arg_address (w_config w)) t fdB"
    and "wrap_sizes envB v m" "input_buffer v = kh_init" "arg_echo (w_config v)"
  shows "\<exists>w' frames. local_run envA fd reads w = Inr w' \<and>
    map snd (sent (w_net w')) = map snd (sent (w_net w)) @ frames \<and>
    (\<forall>css. map concat css = frames \<and> (\<forall>cs\<in>set css. [] \<notin> set cs) \<and>
        length es0 + length (concat css) \<le> 2 ^ 28 \<longrightarrow>
      (\<exists>rt. serve env m (es0 @ map (Pair fdA) (concat css)) router_init = Inr rt \<and>
        sent (rt_net rt) = sent n @ map (Pair fdB) frames)) \<and>
    (\<forall>cs. concat cs = concat frames \<and> (\<forall>c\<in>set cs. c \<noteq> [] \<and> length c \<le> 10 * m) \<longrightarrow>
      (\<exists>v'. remote_run envB fd' cs v = Inr v' \<and>
        w_stdout v' @ pending (input_buffer w') fd = w_stdout v @ concat reads))"
proof -
  obtain ps r where c: "cuts P [] (concat reads) = (ps, r)" by fastforce
  let ?a = "arg_address (w_config w)"
  let ?frames = "map (frame_bytes GNW_DATA ?a) ps"
  obtain w' where w': "local_run envA fd reads w = Inr w'" "pending (input_buffer w') fd = r"
    "concat ps @ r = concat reads"
    "sent (w_net w') = sent (w_net w) @ map (\<lambda>p. (router_fd w, frame_bytes GNW_DATA ?a p)) ps"
    using sender_frames [OF assms(1-3), of reads ps r fd] assms(4,5) c by auto
  have fit: "\<forall>p\<in>set ps. 11 + length p \<le> 10 * m" using assms(6) c by simp
  then have fit': "\<forall>p\<in>set ps. 11 + length p < m * 20" by fastforce
  have m: "m * 20 < 2 ^ 32" using assms(1) by (simp add: wrap_sizes_def)
  have routed: "\<exists>rt. serve env m (es0 @ map (Pair fdA) (concat css)) router_init = Inr rt \<and>
      sent (rt_net rt) = sent n @ map (Pair fdB) ?frames"
    if css: "map concat css = ?frames \<and> (\<forall>cs\<in>set css. [] \<notin> set cs) \<and>
      length es0 + length (concat css) \<le> 2 ^ 28" for css
  proof -
    obtain pend' k' tab' n' where s: "wire_steps env m (pend, k, tab, n) (map (Pair fdA) (concat css)) (pend', k', tab', n')"
      "sent n' = sent n @ map (\<lambda>p. (fdB, frame_bytes GNW_DATA ?a p)) ps"
      using pipe_steps [where k = k and n = n and pend = pend and fdA = fdA and tab = tab,
          OF assms(8,11,10) css [THEN conjunct1] css [THEN conjunct2, THEN conjunct1] fit'] by blast
    show ?thesis
      using serve_simulates [OF assms(7) m steps_append [OF assms(9) s(1)] wire_init_start(1)
          wire_init_start(2)] css s(2) by (auto simp: stands_for_def comp_def)
  qed
  have printed: "\<exists>v'. remote_run envB fd' cs v = Inr v' \<and>
      w_stdout v' @ pending (input_buffer w') fd = w_stdout v @ concat reads"
    if "concat cs = concat ?frames \<and> (\<forall>c\<in>set cs. c \<noteq> [] \<and> length c \<le> 10 * m)" for cs
    using receiver_prints [OF assms(12-14) that [THEN conjunct2] that [THEN conjunct1] fit, of fd']
      w'(2,3) by (metis append.assoc)
  have "map snd (sent (w_net w')) = map snd (sent (w_net w)) @ ?frames" using w'(4) by simp
  then show ?thesis using w'(1) routed printed by blast
qed

definition pipe_setup :: "(int \<times> u8 list) list" where
  "pipe_setup = [(6, message_bytes (Claim 7)), (5, message_bytes (Connect 0 7))]"

lemma pipe_setup_steps:
  "\<exists>pend k tab n. wire_steps plain_os 1500 wire_init pipe_setup (pend, k, tab, n) \<and> pend (fd_key 5) = [] \<and>
     pipe_route tab 0 7 6"
proof -
  define s1 where "s1 = message_spec plain_os 0 6 (Claim 7) (Map.empty, rt_net router_init)"
  define s2 where "s2 = message_spec plain_os (0 + rands_of Map.empty (Claim 7)) 5 (Connect 0 7) s1"
  have c: "wire_steps plain_os 1500 wire_init (map (Pair 6) [message_bytes (Claim 7)])
      ((\<lambda>_. [])(fd_key 6 := []), 0 + rands_of Map.empty (Claim 7), s1)"
    unfolding s1_def wire_init_def
    using message_steps [of "\<lambda>_. []" 6 "[message_bytes (Claim 7)]" "Claim 7" "(Map.empty, rt_net router_init)" 1500 plain_os 0]
    by (simp del: message_spec.simps) (simp add: frame_bytes_def)
  have d: "wire_steps plain_os 1500 ((\<lambda>_. [])(fd_key 6 := []), 0 + rands_of Map.empty (Claim 7), s1)
      (map (Pair 5) [message_bytes (Connect 0 7)])
      ((\<lambda>_. [])(fd_key 6 := [], fd_key 5 := []), 0 + rands_of Map.empty (Claim 7) + rands_of (fst s1) (Connect 0 7), s2)"
    unfolding s2_def
    by (rule message_steps)
      (simp_all add: frame_bytes_def s1_def fresh_ctx_def abs_ctx_def setup_context_def ctx_at_def fd_key_def)
  have r: "pipe_route (fst s2) 0 7 6"
    by (simp add: s1_def s2_def pipe_route_def ctx_at_def fresh_ctx_def abs_ctx_def setup_context_def)
  have "wire_steps plain_os 1500 wire_init pipe_setup
      ((\<lambda>_. [])(fd_key 6 := [], fd_key 5 := []), 0 + rands_of Map.empty (Claim 7) + rands_of (fst s1) (Connect 0 7), fst s2, snd s2)"
    using steps_append [OF c d] by (simp add: pipe_setup_def del: message_bytes.simps rands_of.simps)
  then show ?thesis using r by (intro exI conjI) (assumption, simp_all)
qed

theorem pipeline_delivers_witness:
  "\<exists>w' rt v'. local_run plain_wrap_os 0 [[65, 10], [66, 10, 67]] (wrap_init 1500) = Inr w' \<and>
     serve plain_os 1500 (pipe_setup @ map (Pair 5) [frame_bytes GNW_DATA 0 [65],
       take 4 (frame_bytes GNW_DATA 0 [10, 66]), drop 4 (frame_bytes GNW_DATA 0 [10, 66])]) router_init = Inr rt \<and>
     remote_run plain_wrap_os 3 [frame_bytes GNW_DATA 0 [65], frame_bytes GNW_DATA 0 [10, 66]]
       (wrap_init 1500\<lparr>w_config := (w_config (wrap_init 1500))\<lparr>arg_echo := True\<rparr>\<rparr>) = Inr v' \<and>
     w_stdout v' @ pending (input_buffer w') 0 = [65, 10, 66, 10, 67]"
proof -
  let ?w = "wrap_init 1500" and ?reads = "[[65, 10], [66, 10, 67]] :: u8 list list"
  let ?v = "?w\<lparr>w_config := (w_config ?w)\<lparr>arg_echo := True\<rparr>\<rparr>"
  let ?P = "is_delim (arg_delimiter (w_config ?w))"
  let ?f1 = "frame_bytes GNW_DATA 0 [65]" and ?f2 = "frame_bytes GNW_DATA 0 [10, 66]"
  have fit: "lines_fit ?P 1500 [] ?reads" by (simp add: plain_node)
  have cut: "cuts ?P [] (concat ?reads) = ([[65], [10, 66]], [10, 67])" by (simp add: plain_node)
  have sizes: "wrap_sizes plain_wrap_os ?v 1500" using plain_wrap_sizes by (simp add: wrap_sizes_def)
  have wr: "\<forall>fd bs. wo_write plain_wrap_os fd bs = int (length bs)" "\<forall>fd bs. os_write plain_os fd bs = int (length bs)"
    by (simp_all add: plain_wrap_os_def plain_os_def)
  obtain pend k tab n where ready: "wire_steps plain_os 1500 wire_init pipe_setup (pend, k, tab, n)"
    "pend (fd_key 5) = []" "pipe_route tab (arg_address (w_config ?w)) 7 6"
    using pipe_setup_steps plain_node(2) by auto
  have small: "\<forall>p\<in>set (fst (cuts ?P [] (concat ?reads))). 11 + length p \<le> 10 * 1500"
    unfolding cut by simp
  have v: "input_buffer ?v = kh_init" "arg_echo (w_config ?v)" by (simp_all add: wrap_init_input)
  obtain w' frames where w': "local_run plain_wrap_os 0 ?reads ?w = Inr w'"
    "map snd (sent (w_net w')) = map snd (sent (w_net ?w)) @ frames"
    and routed: "\<forall>css. map concat css = frames \<and> (\<forall>cs\<in>set css. [] \<notin> set cs) \<and>
        length pipe_setup + length (concat css) \<le> 2 ^ 28 \<longrightarrow>
      (\<exists>rt. serve plain_os 1500 (pipe_setup @ map (Pair 5) (concat css)) router_init = Inr rt \<and>
        sent (rt_net rt) = sent n @ map (Pair 6) frames)"
    and printed: "\<forall>cs. concat cs = concat frames \<and> (\<forall>c\<in>set cs. c \<noteq> [] \<and> length c \<le> 10 * 1500) \<longrightarrow>
      (\<exists>v'. remote_run plain_wrap_os 3 cs ?v = Inr v' \<and>
        w_stdout v' @ pending (input_buffer w') 0 = w_stdout ?v @ concat ?reads)"
    using pipeline_delivers [OF plain_wrap_sizes wrap_init_input(1) wr(1) refl fit small plain_os_malloc wr(2)
        ready sizes v, of 0 3] by (elim exE conjE) (rule that)
  have frames: "frames = [?f1, ?f2]"
    using sender_frames [OF plain_wrap_sizes wrap_init_input(1) wr(1) fit cut, of 0] w' by (auto simp: plain_node)
  have len: "length ?f1 = 12" "length ?f2 = 13" by simp_all
  then have ne: "?f1 \<noteq> []" "?f2 \<noteq> []" "take 4 ?f2 \<noteq> []" "drop 4 ?f2 \<noteq> []"
    by (simp_all only: take_eq_Nil drop_eq_Nil) (auto simp del: length_frame_bytes)
  have "\<exists>rt. serve plain_os 1500 (pipe_setup @ map (Pair 5) [?f1, take 4 ?f2, drop 4 ?f2]) router_init = Inr rt"
    using routed [rule_format, of "[[?f1], [take 4 ?f2, drop 4 ?f2]]"] ne
    by (auto simp: frames pipe_setup_def simp del: exec.simps message_bytes.simps)
  moreover have "\<exists>v'. remote_run plain_wrap_os 3 [?f1, ?f2] ?v = Inr v' \<and>
      w_stdout v' @ pending (input_buffer w') 0 = [65, 10, 66, 10, 67]"
    using printed [rule_format, of "[?f1, ?f2]"] ne len
    by (auto simp: frames plain_node simp del: remote_run.simps)
  ultimately show ?thesis using w'(1) by blast
qed

end
