(* ===== verification/Avl.thy ===== *)
theory Avl
  imports Prelude
begin

text \<open>
  \<open>lib/avl.c\<close>, the AVL trees of libavl that the index tables are built on: creation, search,
  insertion, deletion, traversal and destruction.

  A tree of nodes is the datatype \<open>avl\<close>; the links of a node are its subtrees, the item is the
  pointer \<open>avl_data\<close>, and pointers to items are equal when the items are. A stack of nodes with the
  directions taken is a list of frames, the innermost first: the direction (\<open>True\<close> for
  \<open>avl_link[1]\<close>), the item, the balance and the other subtree of each node passed; \<open>plug\<close> puts the
  tree together again. The C library's \<open>assert\<close> ends the process with \<open>abort\<close>, status 134.
  Whether \<open>malloc\<close> succeeds is an argument of creation and insertion; \<open>free\<close> is not modelled beyond the
  node's disappearance from the tree. \<open>avl_copy\<close> and its error recovery are in theory \<open>AvlCopy\<close>.
\<close>

section \<open>Tables\<close>

datatype 'a avl = Tip | Nd "'a avl" 'a int "'a avl"

record 'a avl_table =
  avl_root :: "'a avl"
  avl_count :: nat
  avl_generation :: u64

type_synonym 'a compare = "'a \<Rightarrow> 'a \<Rightarrow> int"

type_synonym 'a frame = "bool \<times> 'a \<times> int \<times> 'a avl"

definition AVL_MAX_HEIGHT :: nat where "AVL_MAX_HEIGHT = 32"

definition SIGABRT_STATUS :: nat where "SIGABRT_STATUS = 134"

abbreviation abort :: "'a result" where "abort \<equiv> Inl (Exit SIGABRT_STATUS)"

fun plug1 :: "'a frame \<Rightarrow> 'a avl \<Rightarrow> 'a avl" where
  "plug1 (dir, d, b, other) t = (if dir then Nd other d b t else Nd t d b other)"

fun plug :: "'a frame list \<Rightarrow> 'a avl \<Rightarrow> 'a avl" where
  "plug [] t = t"
| "plug (f # fs) t = plug fs (plug1 f t)"

definition avl_empty :: "'a avl_table" where
  "avl_empty = \<lparr>avl_root = Tip, avl_count = 0, avl_generation = 0\<rparr>"

definition avl_create :: "bool \<Rightarrow> 'a avl_table option" where
  "avl_create malloc_ok = (if malloc_ok then Some avl_empty else None)"

fun find_loop :: "'a compare \<Rightarrow> 'a \<Rightarrow> 'a avl \<Rightarrow> 'a option" where
  "find_loop cmp item Tip = None"
| "find_loop cmp item (Nd l d b r) =
     (let c = cmp item d in
      if c < 0 then find_loop cmp item l
      else if 0 < c then find_loop cmp item r
      else Some d)"

definition avl_find :: "'a compare \<Rightarrow> 'a avl_table \<Rightarrow> 'a \<Rightarrow> 'a option" where
  "avl_find cmp tree item = find_loop cmp item (avl_root tree)"

section \<open>Insertion\<close>

text \<open>
  The descent of \<open>avl_probe\<close>: a hit with the node found, or the place of the new leaf and \<open>k\<close>, the
  number of directions cached in \<open>da\<close> since the last node with a balance other than 0. That node,
  or the root, is the \<open>y\<close> of the code: the last of the \<open>k\<close> innermost frames.
\<close>

datatype 'a landing = Hit "'a frame list" "'a avl" 'a int "'a avl" | Miss "'a frame list" nat

fun descend :: "'a compare \<Rightarrow> 'a \<Rightarrow> 'a avl \<Rightarrow> 'a frame list \<Rightarrow> nat \<Rightarrow> 'a landing result" where
  "descend cmp item Tip fs k = Inr (Miss fs k)"
| "descend cmp item (Nd l d b r) fs k =
     (let c = cmp item d in
      if c = 0 then Inr (Hit fs l d b r)
      else
        (let k = (if b \<noteq> 0 then 0 else k) in
         if AVL_MAX_HEIGHT \<le> k then Inl OutOfBounds
         else if 0 < c then descend cmp item r ((True, d, b, l) # fs) (k + 1)
         else descend cmp item l ((False, d, b, r) # fs) (k + 1)))"

fun adjust :: "'a frame \<Rightarrow> 'a frame" where
  "adjust (dir, d, b, other) = (dir, d, (if dir then b + 1 else b - 1), other)"

text \<open>Rebalancing at \<open>y\<close>: the new top node and whether there was a rotation.\<close>

fun rebalance :: "'a avl \<Rightarrow> ('a avl \<times> bool) result" where
  "rebalance Tip = Inl NullDeref"
| "rebalance (Nd l y b r) =
     (if b = -2 then
        (case l of
           Tip \<Rightarrow> Inl NullDeref
         | Nd ll x bx lr \<Rightarrow>
             if bx = -1 then Inr (Nd ll x 0 (Nd lr y 0 r), True)
             else if bx \<noteq> 1 then abort
             else (case lr of
                 Tip \<Rightarrow> Inl NullDeref
               | Nd wl w bw wr \<Rightarrow>
                   Inr (Nd (Nd ll x (if bw = -1 then 0 else if bw = 0 then 0 else -1) wl) w 0
                           (Nd wr y (if bw = -1 then 1 else 0) r), True)))
      else if b = 2 then
        (case r of
           Tip \<Rightarrow> Inl NullDeref
         | Nd rl x bx rr \<Rightarrow>
             if bx = 1 then Inr (Nd (Nd l y 0 rl) x 0 rr, True)
             else if bx \<noteq> -1 then abort
             else (case rl of
                 Tip \<Rightarrow> Inl NullDeref
               | Nd wl w bw wr \<Rightarrow>
                   Inr (Nd (Nd l y (if bw = 1 then -1 else 0) wl) w 0
                           (Nd wr x (if bw = 1 then 0 else if bw = 0 then 0 else 1) rr), True)))
      else Inr (Nd l y b r, False))"

text \<open>The pointer \<open>avl_probe\<close> returns: to the item of a new node, or of one that was there.\<close>

datatype 'a slot = Fresh 'a | Existing "'a frame list" "'a avl" 'a int "'a avl"

fun slot_item :: "'a slot \<Rightarrow> 'a" where
  "slot_item (Fresh item) = item"
| "slot_item (Existing fs l d b r) = d"

definition avl_probe ::
    "'a compare \<Rightarrow> bool \<Rightarrow> 'a avl_table \<Rightarrow> 'a \<Rightarrow> ('a avl_table \<times> 'a slot option) result" where
  "avl_probe cmp malloc_ok tree item =
     andThen (descend cmp item (avl_root tree) [] 0) (\<lambda>landing.
     case landing of
       Hit fs l d b r \<Rightarrow> Inr (tree, Some (Existing fs l d b r))
     | Miss fs k \<Rightarrow>
         if \<not> malloc_ok then Inr (tree, None)
         else
           andThen (rebalance (plug (map adjust (take k fs)) (Nd Tip item 0 Tip))) (\<lambda>(w, rotated).
           Inr (\<lparr>avl_root = plug (drop k fs) w, avl_count = avl_count tree + 1,
                  avl_generation = avl_generation tree + (if rotated then 1 else 0)\<rparr>,
                Some (Fresh item))))"

definition avl_insert ::
    "'a compare \<Rightarrow> bool \<Rightarrow> 'a avl_table \<Rightarrow> 'a \<Rightarrow> ('a avl_table \<times> 'a option) result" where
  "avl_insert cmp malloc_ok tree item =
     andThen (avl_probe cmp malloc_ok tree item) (\<lambda>(tree, p).
     Inr (tree, case p of None \<Rightarrow> None
            | Some s \<Rightarrow> if slot_item s = item then None else Some (slot_item s)))"

definition avl_replace ::
    "'a compare \<Rightarrow> bool \<Rightarrow> 'a avl_table \<Rightarrow> 'a \<Rightarrow> ('a avl_table \<times> 'a option) result" where
  "avl_replace cmp malloc_ok tree item =
     andThen (avl_probe cmp malloc_ok tree item) (\<lambda>(tree, p).
     case p of
       None \<Rightarrow> Inr (tree, None)
     | Some (Fresh d) \<Rightarrow> Inr (tree, None)
     | Some (Existing fs l d b r) \<Rightarrow>
         if d = item then Inr (tree, None)
         else Inr (tree\<lparr>avl_root := plug fs (Nd l item b r)\<rparr>, Some d))"

section \<open>Deletion\<close>

text \<open>
  The descent of \<open>avl_delete\<close>: the stack entry for a node is written before the link is followed,
  the first for the root pointer itself.
\<close>

fun find_path ::
    "'a compare \<Rightarrow> 'a \<Rightarrow> 'a avl \<Rightarrow> 'a frame list \<Rightarrow> ('a frame list \<times> 'a avl \<times> 'a \<times> int \<times> 'a avl) option result"
where
  "find_path cmp item Tip fs = (if AVL_MAX_HEIGHT \<le> length fs then Inl OutOfBounds else Inr None)"
| "find_path cmp item (Nd l d b r) fs =
     (if AVL_MAX_HEIGHT \<le> length fs then Inl OutOfBounds
      else
        (let c = cmp item d in
         if c = 0 then Inr (Some (fs, l, d, b, r))
         else if 0 < c then find_path cmp item r ((True, d, b, l) # fs)
         else find_path cmp item l ((False, d, b, r) # fs)))"

text \<open>The leftmost node of a subtree: the nodes passed, its item and its right subtree.\<close>

fun leftmost :: "'a avl \<Rightarrow> 'a frame list \<Rightarrow> ('a frame list \<times> 'a \<times> 'a avl) result" where
  "leftmost Tip fs = Inl NullDeref"
| "leftmost (Nd l d b r) fs =
     (case l of Tip \<Rightarrow> Inr (fs, d, r) | _ \<Rightarrow> leftmost l ((False, d, b, r) # fs))"

text \<open>One step of the loop up the stack: the subtree, and whether the loop is left with \<open>break\<close>.\<close>

definition left_shrunk :: "'a avl \<Rightarrow> 'a \<Rightarrow> int \<Rightarrow> 'a avl \<Rightarrow> ('a avl \<times> bool) result" where
  "left_shrunk l y b0 r =
     (let b = b0 + 1 in
      if b = 1 then Inr (Nd l y b r, True)
      else if b = 2 then
        (case r of
           Tip \<Rightarrow> Inl NullDeref
         | Nd rl x bx rr \<Rightarrow>
             if bx = -1 then
               (case rl of
                  Tip \<Rightarrow> Inl NullDeref
                | Nd wl w bw wr \<Rightarrow>
                    Inr (Nd (Nd l y (if bw = 1 then -1 else 0) wl) w 0
                            (Nd wr x (if bw = 1 then 0 else if bw = 0 then 0 else 1) rr), False))
             else if bx = 0 then Inr (Nd (Nd l y 1 rl) x (-1) rr, True)
             else Inr (Nd (Nd l y 0 rl) x 0 rr, False))
      else Inr (Nd l y b r, False))"

definition right_shrunk :: "'a avl \<Rightarrow> 'a \<Rightarrow> int \<Rightarrow> 'a avl \<Rightarrow> ('a avl \<times> bool) result" where
  "right_shrunk l y b0 r =
     (let b = b0 - 1 in
      if b = -1 then Inr (Nd l y b r, True)
      else if b = -2 then
        (case l of
           Tip \<Rightarrow> Inl NullDeref
         | Nd ll x bx lr \<Rightarrow>
             if bx = 1 then
               (case lr of
                  Tip \<Rightarrow> Inl NullDeref
                | Nd wl w bw wr \<Rightarrow>
                    Inr (Nd (Nd ll x (if bw = -1 then 0 else if bw = 0 then 0 else -1) wl) w 0
                            (Nd wr y (if bw = -1 then 1 else 0) r), False))
             else if bx = 0 then Inr (Nd ll x 1 (Nd lr y (-1) r), True)
             else Inr (Nd ll x 0 (Nd lr y 0 r), False))
      else Inr (Nd l y b r, False))"

fun fix_up :: "'a frame list \<Rightarrow> 'a avl \<Rightarrow> 'a avl result" where
  "fix_up [] t = Inr t"
| "fix_up ((dir, d, b, other) # fs) t =
     andThen (if dir then right_shrunk other d b t else left_shrunk t d b other) (\<lambda>(t, stop).
     if stop then Inr (plug fs t) else fix_up fs t)"

text \<open>
  Unlinking the node: without a right subtree its left one takes its place; otherwise the leftmost
  node of the right subtree does, which is the right child itself when that has no left subtree.
\<close>

definition unlink :: "'a frame list \<Rightarrow> 'a avl \<Rightarrow> int \<Rightarrow> 'a avl \<Rightarrow> 'a avl result" where
  "unlink fs l b r =
     (case r of
        Tip \<Rightarrow> fix_up fs l
      | _ \<Rightarrow>
          andThen (leftmost r []) (\<lambda>(spine, s, sr).
          if AVL_MAX_HEIGHT \<le> length spine + 1 + length fs then Inl OutOfBounds
          else fix_up (spine @ (True, s, b, l) # fs) sr))"

definition avl_delete :: "'a compare \<Rightarrow> 'a avl_table \<Rightarrow> 'a \<Rightarrow> ('a avl_table \<times> 'a option) result" where
  "avl_delete cmp tree item =
     andThen (find_path cmp item (avl_root tree) []) (\<lambda>found.
     case found of
       None \<Rightarrow> Inr (tree, None)
     | Some (fs, l, d, b, r) \<Rightarrow>
         andThen (unlink fs l b r) (\<lambda>t.
         Inr (\<lparr>avl_root = t, avl_count = avl_count tree - 1,
                avl_generation = avl_generation tree + 1\<rparr>, Some d)))"

definition avl_assert_insert :: "'a compare \<Rightarrow> bool \<Rightarrow> 'a avl_table \<Rightarrow> 'a \<Rightarrow> 'a avl_table result" where
  "avl_assert_insert cmp malloc_ok tree item =
     andThen (avl_probe cmp malloc_ok tree item) (\<lambda>(tree, p).
     case p of None \<Rightarrow> abort | Some s \<Rightarrow> if slot_item s = item then Inr tree else abort)"

definition avl_assert_delete :: "'a compare \<Rightarrow> 'a avl_table \<Rightarrow> 'a \<Rightarrow> ('a avl_table \<times> 'a) result" where
  "avl_assert_delete cmp tree item =
     andThen (avl_delete cmp tree item) (\<lambda>(tree, p).
     case p of None \<Rightarrow> abort | Some d \<Rightarrow> Inr (tree, d))"

section \<open>Traversal\<close>

text \<open>
  A traverser: the current node, given by its item and the directions from the root to it, the last
  one first (they stand for the stack of the nodes above it), and the generation. Directions that
  belong to an older generation are not used: \<open>trav_refresh\<close> looks the node up again. A traverser
  does not notice that \<open>avl_replace\<close> wrote another item into its node.
\<close>

record 'a avl_traverser =
  trav_node :: "('a \<times> bool list) option"
  trav_generation :: u64

fun at_path :: "'a avl \<Rightarrow> bool list \<Rightarrow> 'a avl" where
  "at_path t [] = t"
| "at_path Tip (x # p) = Tip"
| "at_path (Nd l d b r) (x # p) = at_path (if x then r else l) p"

text \<open>Down the links of one side to the end; \<open>p\<close> leads to \<open>t\<close>.\<close>

fun go_down :: "bool \<Rightarrow> 'a avl \<Rightarrow> bool list \<Rightarrow> ('a \<times> bool list) result" where
  "go_down side Tip p = Inl NullDeref"
| "go_down side (Nd l d b r) p =
     (if (if side then r else l) = Tip then Inr (d, p)
      else if AVL_MAX_HEIGHT \<le> length p then abort
      else if side then go_down side r (True # p) else go_down side l (False # p))"

definition avl_t_init :: "'a avl_table \<Rightarrow> 'a avl_traverser" where
  "avl_t_init tree = \<lparr>trav_node = None, trav_generation = avl_generation tree\<rparr>"

definition avl_t_end :: "bool \<Rightarrow> 'a avl_table \<Rightarrow> ('a avl_traverser \<times> 'a option) result" where
  "avl_t_end side tree =
     (if avl_root tree = Tip then Inr (avl_t_init tree, None)
      else andThen (go_down side (avl_root tree) []) (\<lambda>n.
        Inr (\<lparr>trav_node = Some n, trav_generation = avl_generation tree\<rparr>, Some (fst n))))"

definition avl_t_first :: "'a avl_table \<Rightarrow> ('a avl_traverser \<times> 'a option) result" where
  "avl_t_first tree = avl_t_end False tree"

definition avl_t_last :: "'a avl_table \<Rightarrow> ('a avl_traverser \<times> 'a option) result" where
  "avl_t_last tree = avl_t_end True tree"

fun t_find_loop :: "'a compare \<Rightarrow> 'a \<Rightarrow> 'a avl \<Rightarrow> bool list \<Rightarrow> ('a \<times> bool list) option result" where
  "t_find_loop cmp item Tip p = Inr None"
| "t_find_loop cmp item (Nd l d b r) p =
     (let c = cmp item d in
      if c = 0 then Inr (Some (d, p))
      else if AVL_MAX_HEIGHT \<le> length p then abort
      else if c < 0 then t_find_loop cmp item l (False # p)
      else t_find_loop cmp item r (True # p))"

definition avl_t_find :: "'a compare \<Rightarrow> 'a avl_table \<Rightarrow> 'a \<Rightarrow> ('a avl_traverser \<times> 'a option) result" where
  "avl_t_find cmp tree item =
     andThen (t_find_loop cmp item (avl_root tree) []) (\<lambda>n.
     Inr (\<lparr>trav_node = n, trav_generation = avl_generation tree\<rparr>, map_option fst n))"

definition avl_t_insert ::
    "'a compare \<Rightarrow> bool \<Rightarrow> 'a avl_table \<Rightarrow> 'a \<Rightarrow> ('a avl_table \<times> 'a avl_traverser \<times> 'a option) result" where
  "avl_t_insert cmp malloc_ok tree item =
     andThen (avl_probe cmp malloc_ok tree item) (\<lambda>(tree, p).
     Inr (case p of
        Some s \<Rightarrow> (tree, \<lparr>trav_node = Some (slot_item s, []), trav_generation = avl_generation tree - 1\<rparr>,
                   Some (slot_item s))
      | None \<Rightarrow> (tree, avl_t_init tree, None)))"

definition avl_t_cur :: "'a avl_traverser \<Rightarrow> 'a option" where
  "avl_t_cur trav = map_option fst (trav_node trav)"

definition avl_t_copy :: "'a avl_traverser \<Rightarrow> 'a avl_traverser \<times> 'a option" where
  "avl_t_copy src = (src, avl_t_cur src)"

text \<open>The walk of \<open>trav_refresh\<close> from the root to the node of the item \<open>d\<close>.\<close>

fun refresh_loop :: "'a compare \<Rightarrow> 'a \<Rightarrow> 'a avl \<Rightarrow> bool list \<Rightarrow> bool list result" where
  "refresh_loop cmp d Tip p = abort"
| "refresh_loop cmp d (Nd l x b r) p =
     (if x = d then Inr p
      else if AVL_MAX_HEIGHT \<le> length p then abort
      else if 0 < cmp d x then refresh_loop cmp d r (True # p)
      else refresh_loop cmp d l (False # p))"

definition trav_refresh :: "'a compare \<Rightarrow> 'a avl_table \<Rightarrow> 'a avl_traverser \<Rightarrow> 'a avl_traverser result" where
  "trav_refresh cmp tree trav =
     (case trav_node trav of
        None \<Rightarrow> Inr \<lparr>trav_node = None, trav_generation = avl_generation tree\<rparr>
      | Some (d, _) \<Rightarrow>
          andThen (refresh_loop cmp d (avl_root tree) []) (\<lambda>p.
          Inr \<lparr>trav_node = Some (d, p), trav_generation = avl_generation tree\<rparr>))"

fun climb :: "bool \<Rightarrow> bool list \<Rightarrow> bool list option" where
  "climb side [] = None"
| "climb side (dir # p) = (if dir = side then climb side p else Some p)"

text \<open>\<open>avl_t_next\<close> and \<open>avl_t_prev\<close> differ in the side they go to first.\<close>

definition trav_step ::
    "bool \<Rightarrow> 'a compare \<Rightarrow> 'a avl_table \<Rightarrow> 'a avl_traverser \<Rightarrow> ('a avl_traverser \<times> 'a option) result" where
  "trav_step side cmp tree trav =
     andThen (if trav_generation trav \<noteq> avl_generation tree then trav_refresh cmp tree trav
              else Inr trav) (\<lambda>trav.
     case trav_node trav of
       None \<Rightarrow> avl_t_end (\<not> side) tree
     | Some (_, p) \<Rightarrow>
         (case at_path (avl_root tree) (rev p) of
            Tip \<Rightarrow> Inl UseAfterFree
          | Nd l d b r \<Rightarrow>
              if (if side then r else l) \<noteq> Tip then
                if AVL_MAX_HEIGHT \<le> length p then abort
                else andThen (go_down (\<not> side) (if side then r else l) (side # p)) (\<lambda>n.
                  Inr (trav\<lparr>trav_node := Some n\<rparr>, Some (fst n)))
              else
                (case climb side p of
                   None \<Rightarrow> Inr (trav\<lparr>trav_node := None\<rparr>, None)
                 | Some q \<Rightarrow>
                     (case at_path (avl_root tree) (rev q) of
                        Tip \<Rightarrow> Inl UseAfterFree
                      | Nd l d b r \<Rightarrow> Inr (trav\<lparr>trav_node := Some (d, q)\<rparr>, Some d)))))"

definition avl_t_next ::
    "'a compare \<Rightarrow> 'a avl_table \<Rightarrow> 'a avl_traverser \<Rightarrow> ('a avl_traverser \<times> 'a option) result" where
  "avl_t_next = trav_step True"

definition avl_t_prev ::
    "'a compare \<Rightarrow> 'a avl_table \<Rightarrow> 'a avl_traverser \<Rightarrow> ('a avl_traverser \<times> 'a option) result" where
  "avl_t_prev = trav_step False"

text \<open>Writing the item of the current node; the node is the one that holds the old item.\<close>

definition avl_t_replace ::
    "'a avl_table \<Rightarrow> 'a avl_traverser \<Rightarrow> 'a \<Rightarrow> ('a avl_table \<times> 'a avl_traverser \<times> 'a) result" where
  "avl_t_replace tree trav new =
     (case trav_node trav of
        None \<Rightarrow> abort
      | Some (old, p) \<Rightarrow>
          Inr (tree\<lparr>avl_root := map_avl (\<lambda>d. if d = old then new else d) (avl_root tree)\<rparr>,
               trav\<lparr>trav_node := Some (new, p)\<rparr>, old))"

section \<open>Destruction\<close>

text \<open>
  The loop of \<open>avl_destroy\<close>: right rotations until the top node has no left subtree, which is then
  freed. The items passed to \<open>destroy\<close>, in order.
\<close>

fun left_size :: "'a avl \<Rightarrow> nat" where
  "left_size Tip = 0"
| "left_size (Nd l d b r) = size l"

function destroy_loop :: "'a avl \<Rightarrow> 'a list" where
  "destroy_loop Tip = []"
| "destroy_loop (Nd Tip d b r) = d # destroy_loop r"
| "destroy_loop (Nd (Nd ll x bx lr) y b r) = destroy_loop (Nd ll x bx (Nd lr y b r))"
  by pat_completeness auto
termination
  by (relation "measures [size, left_size]") auto

definition avl_destroy :: "'a avl_table \<Rightarrow> 'a list" where
  "avl_destroy tree = destroy_loop (avl_root tree)"

end
