(* ===== verification/AvlTree.thy ===== *)
theory AvlTree
  imports Avl
begin

text \<open>
  The trees of \<open>lib/avl.c\<close> are balanced search trees: the balance factors are the differences of
  the heights and stay between -1 and 1, insertion and deletion keep that and change the items in
  order by exactly one, and the stacks of 32 entries suffice for every tree with fewer than
  \<open>min_size 32\<close> (more than five million) items.
\<close>

section \<open>Height, balance and the items in order\<close>

fun height :: "'a avl \<Rightarrow> nat" where
  "height Tip = 0"
| "height (Nd l d b r) = Suc (max (height l) (height r))"

fun balanced :: "'a avl \<Rightarrow> bool" where
  "balanced Tip = True"
| "balanced (Nd l d b r) \<longleftrightarrow> balanced l \<and> balanced r \<and> b = int (height r) - int (height l) \<and> \<bar>b\<bar> \<le> 1"

fun inorder :: "'a avl \<Rightarrow> 'a list" where
  "inorder Tip = []"
| "inorder (Nd l d b r) = inorder l @ d # inorder r"

fun frame_balance :: "'a frame \<Rightarrow> int" where
  "frame_balance (dir, d, b, other) = b"

fun left_of :: "'a frame list \<Rightarrow> 'a list" where
  "left_of [] = []"
| "left_of ((dir, d, b, other) # fs) = left_of fs @ (if dir then inorder other @ [d] else [])"

fun right_of :: "'a frame list \<Rightarrow> 'a list" where
  "right_of [] = []"
| "right_of ((dir, d, b, other) # fs) = (if dir then [] else d # inorder other) @ right_of fs"

lemma inorder_plug: "inorder (plug fs t) = left_of fs @ inorder t @ right_of fs"
  by (induction fs t rule: plug.induct) (auto split: prod.splits)

lemma plug_append: "plug (fs @ gs) t = plug gs (plug fs t)"
  by (induction fs arbitrary: t) simp_all

lemma sides_append:
  "left_of (fs @ gs) = left_of gs @ left_of fs" "right_of (fs @ gs) = right_of fs @ right_of gs"
  by (induction fs) auto

lemma sides_adjust: "left_of (map adjust fs) = left_of fs" "right_of (map adjust fs) = right_of fs"
  by (induction fs) auto

lemma balanced_hole: "balanced (plug fs t) \<Longrightarrow> balanced t"
  by (induction fs t rule: plug.induct) (auto split: if_splits)

lemma height_hole: "length fs + height t \<le> height (plug fs t)"
proof (induction fs t rule: plug.induct)
  case (2 f fs t)
  have "Suc (height t) \<le> height (plug1 f t)" by (cases f) simp
  then show ?case using 2 by simp
qed simp

lemma balanced_same_height:
  "balanced (plug fs t) \<Longrightarrow> balanced u \<Longrightarrow> height u = height t \<Longrightarrow>
     balanced (plug fs u) \<and> height (plug fs u) = height (plug fs t)"
proof (induction fs arbitrary: t u)
  case (Cons f fs)
  have b: "balanced (plug1 f t)" using balanced_hole Cons.prems(1) by simp
  have "balanced (plug1 f u)" "height (plug1 f u) = height (plug1 f t)"
    using b Cons.prems(2,3) by (cases f; simp split: if_splits)+
  then show ?case using Cons.IH [of "plug1 f t" "plug1 f u"] Cons.prems(1) by simp
qed simp

section \<open>Insertion\<close>

text \<open>A path of nodes with balance 0 whose lowest subtree grew by one.\<close>

lemma grow_path:
  "\<forall>f\<in>set fs. frame_balance f = 0 \<Longrightarrow> balanced (plug fs t) \<Longrightarrow> balanced u \<Longrightarrow> height u = Suc (height t) \<Longrightarrow>
     balanced (plug (map adjust fs) u) \<and> height (plug (map adjust fs) u) = Suc (height (plug fs t))"
proof (induction fs arbitrary: t u)
  case (Cons f fs)
  have b: "balanced (plug1 f t)" using balanced_hole Cons.prems(2) by simp
  have "balanced (plug1 (adjust f) u)" "height (plug1 (adjust f) u) = Suc (height (plug1 f t))"
    using b Cons.prems(1,3,4) by (cases f; auto split: if_splits)+
  then show ?case using Cons.IH [of "plug1 f t" "plug1 (adjust f) u"] Cons.prems(1,2) by simp
qed simp

lemma grown_top:
  "\<forall>f\<in>set fs. frame_balance f = 0 \<Longrightarrow> fs \<noteq> [] \<Longrightarrow>
     \<exists>l d b r. plug (map adjust fs) u = Nd l d b r \<and> \<bar>b\<bar> = 1"
proof (induction fs arbitrary: u)
  case (Cons f fs)
  obtain dir d other where f: "f = (dir, d, 0, other)" using Cons.prems(1) by (cases f) auto
  show ?case
  proof (cases "fs = []")
    case True
    then show ?thesis by (simp add: f)
  next
    case False
    then show ?thesis using Cons.IH [of "plug1 (adjust f) u"] Cons.prems(1) by simp
  qed
qed simp

definition top_skewed :: "'a avl \<Rightarrow> bool" where
  "top_skewed t \<longleftrightarrow> (\<exists>l d b r. t = Nd l d b r \<and> \<bar>b\<bar> = 1)"

lemma rebalance_left:
  assumes "balanced (Nd c y b r)" "balanced u" "height u = Suc (height c)" "c \<noteq> Tip \<longrightarrow> top_skewed u"
  shows "\<exists>w rot. rebalance (Nd u y (b - 1) r) = Inr (w, rot) \<and> balanced w \<and>
    inorder w = inorder u @ y # inorder r \<and> (b \<noteq> 0 \<longrightarrow> height w = height (Nd c y b r))"
proof (cases "b = -1")
  case False
  then show ?thesis using assms by auto
next
  case True
  then have "c \<noteq> Tip" using assms(1) by (cases c) auto
  then obtain ul x bx ur where u: "u = Nd ul x bx ur" "\<bar>bx\<bar> = 1" using assms(4) by (auto simp: top_skewed_def)
  show ?thesis
  proof (cases "bx = -1")
    case left: True
    then have "height ul = Suc (height r)" "height ur = height r" using assms(1-3) True u by auto
    then show ?thesis using assms(1-3) True u left by (simp, blast)
  next
    case False
    then have bx: "bx = 1" using u(2) by auto
    then have "ur \<noteq> Tip" using assms(2) u by (cases ur) auto
    then obtain wl z bw wr where ur: "ur = Nd wl z bw wr" by (cases ur) auto
    have bw: "bw = -1 \<or> bw = 0 \<or> bw = 1" using assms(2) u ur by auto
    have "height ur = Suc (height r)" "height ul = height r" using assms(1-3) True u bx by auto
    then have "max (height wl) (height wr) = height r" using ur by simp
    moreover have "int (height wr) = int (height wl) + bw" using assms(2) u ur by auto
    ultimately have "bw = -1 \<and> height wl = height r \<and> height r = Suc (height wr) \<or>
        bw = 0 \<and> height wl = height r \<and> height wr = height r \<or>
        bw = 1 \<and> height wr = height r \<and> height r = Suc (height wl)"
      using bw by arith
    then show ?thesis using assms(1-3) True u bx ur \<open>height ul = height r\<close>
      by (elim disjE) (simp_all, blast+)
  qed
qed

lemma rebalance_right:
  assumes "balanced (Nd l y b c)" "balanced u" "height u = Suc (height c)" "c \<noteq> Tip \<longrightarrow> top_skewed u"
  shows "\<exists>w rot. rebalance (Nd l y (b + 1) u) = Inr (w, rot) \<and> balanced w \<and>
    inorder w = inorder l @ y # inorder u \<and> (b \<noteq> 0 \<longrightarrow> height w = height (Nd l y b c))"
proof (cases "b = 1")
  case False
  then show ?thesis using assms by auto
next
  case True
  then have "c \<noteq> Tip" using assms(1) by (cases c) auto
  then obtain ul x bx ur where u: "u = Nd ul x bx ur" "\<bar>bx\<bar> = 1" using assms(4) by (auto simp: top_skewed_def)
  show ?thesis
  proof (cases "bx = 1")
    case right: True
    then have "height ur = Suc (height l)" "height ul = height l" using assms(1-3) True u by auto
    then show ?thesis using assms(1-3) True u right by (simp, blast)
  next
    case False
    then have bx: "bx = -1" using u(2) by auto
    then have "ul \<noteq> Tip" using assms(2) u by (cases ul) auto
    then obtain wl z bw wr where ul: "ul = Nd wl z bw wr" by (cases ul) auto
    have bw: "bw = -1 \<or> bw = 0 \<or> bw = 1" using assms(2) u ul by auto
    have "height ul = Suc (height l)" "height ur = height l" using assms(1-3) True u bx by auto
    then have "max (height wl) (height wr) = height l" using ul by simp
    moreover have "int (height wr) = int (height wl) + bw" using assms(2) u ul by auto
    ultimately have "bw = -1 \<and> height wl = height l \<and> height l = Suc (height wr) \<or>
        bw = 0 \<and> height wl = height l \<and> height wr = height l \<or>
        bw = 1 \<and> height wr = height l \<and> height l = Suc (height wl)"
      using bw by arith
    then show ?thesis using assms(1-3) True u bx ul \<open>height ur = height l\<close>
      by (elim disjE) (simp_all, blast+)
  qed
qed

text \<open>What the descent knows of its stack: \<open>k\<close> frames since the last balance other than 0.\<close>

definition cached :: "'a frame list \<Rightarrow> nat \<Rightarrow> bool" where
  "cached fs k \<longleftrightarrow> k \<le> length fs \<and> (\<forall>f\<in>set (take (k - 1) fs). frame_balance f = 0) \<and>
     (k = 0 \<longrightarrow> fs = []) \<and> (k < length fs \<longrightarrow> frame_balance (fs ! (k - 1)) \<noteq> 0)"

lemma cached_push:
  "cached fs k \<Longrightarrow> cached ((dir, d, b, other) # fs) (if b \<noteq> 0 then 1 else k + 1)"
  by (cases k) (auto simp: cached_def nth_Cons split: nat.splits)

lemma descend_ends:
  "height t + k \<le> AVL_MAX_HEIGHT \<Longrightarrow> cached fs k \<Longrightarrow>
   (\<exists>fs' l d b r. descend cmp item t fs k = Inr (Hit fs' l d b r) \<and> plug fs' (Nd l d b r) = plug fs t \<and>
      cmp item d = 0) \<or>
   (\<exists>fs' k'. descend cmp item t fs k = Inr (Miss fs' k') \<and> plug fs' Tip = plug fs t \<and> cached fs' k')"
proof (induction cmp item t fs k rule: descend.induct)
  case (1 cmp item fs k)
  then show ?case by simp
next
  case (2 cmp item l d b r fs k)
  show ?case
  proof (cases "cmp item d = 0")
    case True
    then show ?thesis by simp
  next
    case False
    define k1 where "k1 = (if b \<noteq> 0 then 0 else k)"
    have lim: "\<not> AVL_MAX_HEIGHT \<le> k1" "height l + (k1 + 1) \<le> AVL_MAX_HEIGHT" "height r + (k1 + 1) \<le> AVL_MAX_HEIGHT"
      using "2.prems"(1) by (auto simp: k1_def)
    have c: "cached ((dir, d, b, other) # fs) (k1 + 1)" for dir other
      using cached_push [OF "2.prems"(2), of dir d b other] by (cases "b = 0") (simp_all add: k1_def)
    show ?thesis
    proof (cases "0 < cmp item d")
      case True
      have "descend cmp item (Nd l d b r) fs k = descend cmp item r ((True, d, b, l) # fs) (k1 + 1)"
        using False True lim(1) by (simp add: k1_def)
      then show ?thesis
        using "2.IH"(1) [OF refl False k1_def lim(1) True lim(3) c] by simp
    next
      case neg: False
      have "descend cmp item (Nd l d b r) fs k = descend cmp item l ((False, d, b, r) # fs) (k1 + 1)"
        using False neg lim(1) by (simp add: k1_def)
      then show ?thesis
        using "2.IH"(2) [OF refl False k1_def lim(1) neg lim(2) c] by simp
    qed
  qed
qed

lemma probe_miss:
  assumes "balanced (plug fs Tip)" "cached fs k"
  shows "\<exists>w rot. rebalance (plug (map adjust (take k fs)) (Nd Tip item 0 Tip)) = Inr (w, rot) \<and>
    balanced (plug (drop k fs) w) \<and> inorder (plug (drop k fs) w) = left_of fs @ item # right_of fs"
proof (cases "k = 0")
  case True
  then have "fs = []" using assms(2) by (simp add: cached_def)
  then show ?thesis by (intro exI [of _ "Nd Tip item 0 Tip"] exI [of _ False]) simp
next
  case False
  let ?fs0 = "take (k - 1) fs" and ?leaf = "Nd Tip item 0 Tip"
  have kl: "k \<le> length fs" using assms(2) by (simp add: cached_def)
  obtain dir y b other where fy: "fs ! (k - 1) = (dir, y, b, other)" by (cases "fs ! (k - 1)")
  have tk: "take k fs = ?fs0 @ [(dir, y, b, other)]"
    using False kl fy by (metis Suc_diff_1 Suc_le_lessD bot_nat_0.not_eq_extremum take_Suc_conv_app_nth)
  have split: "fs = take k fs @ drop k fs" by simp
  have zero: "\<forall>f\<in>set ?fs0. frame_balance f = 0" using assms(2) by (simp add: cached_def)
  define c where "c = plug ?fs0 Tip"
  define u where "u = plug (map adjust ?fs0) ?leaf"
  have by': "balanced (plug (drop k fs) (plug1 (dir, y, b, other) c))"
    using assms(1) by (subst (asm) split) (simp only: plug_append tk plug.simps c_def)
  then have ynode: "balanced (plug1 (dir, y, b, other) c)" by (rule balanced_hole)
  have cb: "balanced c" using ynode by (auto split: if_splits)
  have u: "balanced u" "height u = Suc (height c)"
    using grow_path [OF zero, of Tip ?leaf] cb by (simp_all add: c_def u_def)
  have skew: "c \<noteq> Tip \<longrightarrow> top_skewed u"
    using grown_top [OF zero, of ?leaf] by (cases "?fs0 = []") (auto simp: c_def u_def top_skewed_def)
  have sub: "plug (map adjust (take k fs)) ?leaf = plug1 (adjust (dir, y, b, other)) u"
    by (simp only: tk map_append plug_append u_def list.map plug.simps)
  obtain w rot where w: "rebalance (plug1 (adjust (dir, y, b, other)) u) = Inr (w, rot)" "balanced w"
    "inorder w = inorder (plug1 (dir, y, b, other) u)"
    "b \<noteq> 0 \<longrightarrow> height w = height (plug1 (dir, y, b, other) c)"
  proof (cases dir)
    case True
    then show thesis using that rebalance_right [of other y b c u] ynode u skew by auto
  next
    case False
    then show thesis using that rebalance_left [of c y b other u] ynode u skew by auto
  qed
  have bal: "balanced (plug (drop k fs) w)"
  proof (cases "k < length fs")
    case True
    then have "b \<noteq> 0" using assms(2) fy by (simp add: cached_def)
    then show ?thesis using balanced_same_height [OF by' w(2)] w(4) by simp
  qed (use w(2) in simp)
  have "inorder (plug (drop k fs) w) = inorder (plug (take k fs @ drop k fs) ?leaf)"
  proof -
    have "inorder w = inorder (plug (take k fs) ?leaf)"
      using w(3) by (simp only: tk plug_append u_def plug.simps inorder_plug sides_adjust
          inorder.simps plug1.simps split: if_splits) (auto simp: inorder_plug sides_adjust)
    then show ?thesis by (simp only: plug_append inorder_plug)
  qed
  then have "inorder (plug (drop k fs) w) = left_of fs @ item # right_of fs"
    by (simp add: inorder_plug)
  then show ?thesis using w(1) bal by (simp only: sub) blast
qed

section \<open>Deletion\<close>

lemma left_shrunk_ok:
  assumes "balanced (Nd c y b r)" "balanced t" "height c = Suc (height t)"
  shows "\<exists>u stop. left_shrunk t y b r = Inr (u, stop) \<and> balanced u \<and> inorder u = inorder t @ y # inorder r \<and>
    height (Nd c y b r) = (if stop then height u else Suc (height u))"
proof (cases "b = 1")
  case False
  then have "b = 0 \<or> b = -1" using assms(1) by auto
  then show ?thesis using assms by (elim disjE) (simp add: left_shrunk_def, fastforce?)+
next
  case True
  then have "r \<noteq> Tip" using assms(1) by (cases r) auto
  then obtain rl x bx rr where r: "r = Nd rl x bx rr" by (cases r) auto
  have bx: "bx = -1 \<or> bx = 0 \<or> bx = 1" using assms(1) r by auto
  show ?thesis
  proof (cases "bx = -1")
    case inner: True
    then have "rl \<noteq> Tip" using assms(1) r by (cases rl) auto
    then obtain wl z bw wr where rl: "rl = Nd wl z bw wr" by (cases rl) auto
    have bw: "bw = -1 \<or> bw = 0 \<or> bw = 1" using assms(1) r rl by auto
    have "height rl = Suc (height t)" "height rr = height t" using assms True r inner by auto
    then have "max (height wl) (height wr) = height t" using rl by simp
    moreover have "int (height wr) = int (height wl) + bw" using assms(1) r rl by auto
    ultimately have "bw = -1 \<and> height wl = height t \<and> height t = Suc (height wr) \<or>
        bw = 0 \<and> height wl = height t \<and> height wr = height t \<or>
        bw = 1 \<and> height wr = height t \<and> height t = Suc (height wl)"
      using bw by arith
    then show ?thesis using assms True r inner rl \<open>height rr = height t\<close>
      by (elim disjE) (simp_all add: left_shrunk_def, blast+)
  next
    case False
    then consider "bx = 0" | "bx = 1" using bx by blast
    then show ?thesis
    proof cases
      case 1
      then have "height rl = Suc (height t)" "height rr = Suc (height t)" using assms True r by auto
      then show ?thesis using assms True r 1 by (simp add: left_shrunk_def) blast?
    next
      case 2
      then have "height rr = Suc (height t)" "height rl = height t" using assms True r by auto
      then show ?thesis using assms True r 2 by (simp add: left_shrunk_def) blast?
    qed
  qed
qed

lemma right_shrunk_ok:
  assumes "balanced (Nd l y b c)" "balanced t" "height c = Suc (height t)"
  shows "\<exists>u stop. right_shrunk l y b t = Inr (u, stop) \<and> balanced u \<and> inorder u = inorder l @ y # inorder t \<and>
    height (Nd l y b c) = (if stop then height u else Suc (height u))"
proof (cases "b = -1")
  case False
  then have "b = 0 \<or> b = 1" using assms(1) by auto
  then show ?thesis using assms by (elim disjE) (simp add: right_shrunk_def, fastforce?)+
next
  case True
  then have "l \<noteq> Tip" using assms(1) by (cases l) auto
  then obtain ll x bx lr where l: "l = Nd ll x bx lr" by (cases l) auto
  have bx: "bx = -1 \<or> bx = 0 \<or> bx = 1" using assms(1) l by auto
  show ?thesis
  proof (cases "bx = 1")
    case inner: True
    then have "lr \<noteq> Tip" using assms(1) l by (cases lr) auto
    then obtain wl z bw wr where lr: "lr = Nd wl z bw wr" by (cases lr) auto
    have bw: "bw = -1 \<or> bw = 0 \<or> bw = 1" using assms(1) l lr by auto
    have "height lr = Suc (height t)" "height ll = height t" using assms True l inner by auto
    then have "max (height wl) (height wr) = height t" using lr by simp
    moreover have "int (height wr) = int (height wl) + bw" using assms(1) l lr by auto
    ultimately have "bw = -1 \<and> height wl = height t \<and> height t = Suc (height wr) \<or>
        bw = 0 \<and> height wl = height t \<and> height wr = height t \<or>
        bw = 1 \<and> height wr = height t \<and> height t = Suc (height wl)"
      using bw by arith
    then show ?thesis using assms True l inner lr \<open>height ll = height t\<close>
      by (elim disjE) (simp_all add: right_shrunk_def, blast+)
  next
    case False
    then consider "bx = 0" | "bx = -1" using bx by blast
    then show ?thesis
    proof cases
      case 1
      then have "height lr = Suc (height t)" "height ll = Suc (height t)" using assms True l by auto
      then show ?thesis using assms True l 1 by (simp add: right_shrunk_def) blast?
    next
      case 2
      then have "height ll = Suc (height t)" "height lr = height t" using assms True l by auto
      then show ?thesis using assms True l 2 by (simp add: right_shrunk_def) blast?
    qed
  qed
qed

lemma fix_up_ok:
  "balanced (plug fs c) \<Longrightarrow> balanced t \<Longrightarrow> height c = Suc (height t) \<Longrightarrow>
     \<exists>u. fix_up fs t = Inr u \<and> balanced u \<and> inorder u = left_of fs @ inorder t @ right_of fs"
proof (induction fs arbitrary: c t)
  case (Cons f fs)
  obtain dir y b other where f: "f = (dir, y, b, other)" by (cases f)
  have node: "balanced (plug1 f c)" using balanced_hole Cons.prems(1) by simp
  obtain u stop where u: "(if dir then right_shrunk other y b t else left_shrunk t y b other) = Inr (u, stop)"
    "balanced u" "inorder u = inorder (plug1 f t)"
    "height (plug1 f c) = (if stop then height u else Suc (height u))"
  proof (cases dir)
    case True
    then show thesis using that right_shrunk_ok [of other y b c t] node Cons.prems(2,3) f by auto
  next
    case False
    then show thesis using that left_shrunk_ok [of c y b other t] node Cons.prems(2,3) f by auto
  qed
  have io: "left_of fs @ inorder u @ right_of fs = left_of (f # fs) @ inorder t @ right_of (f # fs)"
    using inorder_plug [of "f # fs" t] inorder_plug [of fs "plug1 f t"] u(3) by simp
  show ?case
  proof (cases stop)
    case True
    then have "balanced (plug fs u)"
      using balanced_same_height [of fs "plug1 f c" u] Cons.prems(1) u(2,4) by simp
    then show ?thesis using u(1) True io by (simp add: f inorder_plug)
  next
    case False
    then show ?thesis using Cons.IH [of "plug1 f c" u] Cons.prems(1) u io by (simp add: f)
  qed
qed simp

lemma leftmost_ok:
  "t \<noteq> Tip \<Longrightarrow> \<exists>spine s b sr. leftmost t fs = Inr (spine @ fs, s, sr) \<and> plug spine (Nd Tip s b sr) = t \<and>
     left_of spine = []"
proof (induction t arbitrary: fs)
  case (Nd l d b r)
  show ?case
  proof (cases "l = Tip")
    case True
    then show ?thesis by (intro exI [of _ "[]"]) auto
  next
    case False
    then obtain spine s b' sr where l: "leftmost l ((False, d, b, r) # fs) = Inr (spine @ (False, d, b, r) # fs, s, sr)"
      "plug spine (Nd Tip s b' sr) = l" "left_of spine = []"
      using Nd.IH(1) by blast
    have "leftmost (Nd l d b r) fs = Inr ((spine @ [(False, d, b, r)]) @ fs, s, sr)"
      using l(1) False by (cases l) simp_all
    moreover have "plug (spine @ [(False, d, b, r)]) (Nd Tip s b' sr) = Nd l d b r"
      using l(2) by (simp add: plug_append)
    moreover have "left_of (spine @ [(False, d, b, r)]) = []" using l(3) by (simp add: sides_append)
    ultimately show ?thesis by blast
  qed
qed simp

lemma unlink_ok:
  assumes "balanced (plug fs (Nd l d b r))" "height (plug fs (Nd l d b r)) \<le> AVL_MAX_HEIGHT"
  shows "\<exists>u. unlink fs l b r = Inr u \<and> balanced u \<and>
    inorder u = left_of fs @ inorder l @ inorder r @ right_of fs"
proof (cases "r = Tip")
  case True
  have "balanced (Nd l d b r)" by (rule balanced_hole [OF assms(1)])
  then have "balanced l" "height (Nd l d b r) = Suc (height l)" using True by auto
  then show ?thesis using fix_up_ok [OF assms(1)] True by (auto simp: unlink_def)
next
  case False
  obtain spine s b' sr where lm: "leftmost r [] = Inr (spine, s, sr)" "plug spine (Nd Tip s b' sr) = r"
    "left_of spine = []"
    using leftmost_ok [OF False, of "[]"] by auto
  have node: "balanced (Nd l d b r)" by (rule balanced_hole [OF assms(1)])
  then have "balanced (Nd l s b r)" by auto
  then have b1: "balanced (plug fs (Nd l s b r))"
    using balanced_same_height [OF assms(1), of "Nd l s b r"] by (simp del: balanced.simps)
  have whole: "plug (spine @ (True, s, b, l) # fs) (Nd Tip s b' sr) = plug fs (Nd l s b r)"
    using lm(2) by (simp add: plug_append)
  have "balanced (Nd Tip s b' sr)" using balanced_hole lm(2) node by (metis balanced.simps(2))
  then have sr: "balanced sr" "height (Nd Tip s b' sr) = Suc (height sr)" by auto
  have "length fs + height (Nd l d b r) \<le> AVL_MAX_HEIGHT" using height_hole assms(2) le_trans by blast
  moreover have "length spine + height (Nd Tip s b' sr) \<le> height r" using height_hole [of spine] lm(2) by metis
  ultimately have room: "\<not> AVL_MAX_HEIGHT \<le> length spine + 1 + length fs" by simp
  obtain u where u: "fix_up (spine @ (True, s, b, l) # fs) sr = Inr u" "balanced u"
    "inorder u = left_of (spine @ (True, s, b, l) # fs) @ inorder sr @ right_of (spine @ (True, s, b, l) # fs)"
    using fix_up_ok [of "spine @ (True, s, b, l) # fs" "Nd Tip s b' sr" sr] whole b1 sr by auto
  have "inorder r = s # inorder sr @ right_of spine"
    using inorder_plug [of spine "Nd Tip s b' sr"] lm(2,3) by simp
  then have "inorder u = left_of fs @ inorder l @ inorder r @ right_of fs"
    using u(3) lm(3) by (simp add: sides_append)
  moreover have "unlink fs l b r = fix_up (spine @ (True, s, b, l) # fs) sr"
    using False lm(1) room by (cases r) (simp_all add: unlink_def)
  ultimately show ?thesis using u(1,2) by (intro exI [of _ u]) simp
qed

lemma find_path_ends:
  "height t + length fs < AVL_MAX_HEIGHT \<Longrightarrow>
   find_path cmp item t fs = Inr None \<or>
   (\<exists>fs' l d b r. find_path cmp item t fs = Inr (Some (fs', l, d, b, r)) \<and>
      plug fs' (Nd l d b r) = plug fs t \<and> cmp item d = 0)"
  by (induction cmp item t fs rule: find_path.induct) (auto simp: Let_def)

section \<open>How high a tree can be\<close>

fun min_size :: "nat \<Rightarrow> nat" where
  "min_size 0 = 0"
| "min_size (Suc 0) = 1"
| "min_size (Suc (Suc n)) = 1 + min_size (Suc n) + min_size n"

lemma min_size_step: "min_size n \<le> min_size (Suc n)"
  by (induction n rule: min_size.induct) simp_all

lemma min_size_mono: "m \<le> n \<Longrightarrow> min_size m \<le> min_size n"
  by (rule lift_Suc_mono_le [of min_size]) (rule min_size_step)

lemma size_inorder: "size t = length (inorder t)"
  by (induction t) simp_all

lemma min_size_height: "balanced t \<Longrightarrow> min_size (height t) \<le> length (inorder t)"
proof (induction t)
  case (Nd l d b r)
  let ?h = "max (height l) (height r)"
  have l: "min_size (height l) \<le> length (inorder l)" and r: "min_size (height r) \<le> length (inorder r)"
    using Nd by simp_all
  show ?case
  proof (cases ?h)
    case 0
    then show ?thesis by simp
  next
    case (Suc n)
    have "(height l = Suc n \<and> n \<le> height r) \<or> (height r = Suc n \<and> n \<le> height l)"
      using Nd.prems Suc by (auto simp: max_def split: if_splits)
    then have "min_size (Suc n) + min_size n \<le> length (inorder l) + length (inorder r)"
      using l r min_size_mono [of n "height l"] min_size_mono [of n "height r"] by auto
    then show ?thesis using Suc by simp
  qed
qed simp

lemma balanced_height: "balanced t \<Longrightarrow> length (inorder t) < min_size n \<Longrightarrow> height t < n"
  using min_size_height [of t] min_size_mono [of n "height t"] by (meson le_less_trans leD leI)

fun min_size_from :: "nat \<Rightarrow> nat \<Rightarrow> nat \<Rightarrow> nat" where
  "min_size_from 0 a b = a"
| "min_size_from (Suc n) a b = min_size_from n b (1 + b + a)"

lemma min_size_from: "min_size_from n (min_size m) (min_size (Suc m)) = min_size (m + n)"
proof (induction n arbitrary: m)
  case (Suc n)
  then show ?case using Suc [of "Suc m"] by simp
qed simp

lemma min_size_from_numeral:
  "min_size_from (numeral k) a b = min_size_from (pred_numeral k) b (1 + b + a)"
  "min_size_from 1 a b = b"
  by (simp_all add: numeral_eq_Suc)

lemma min_size_32: "min_size 32 = 5702886"
proof -
  have "min_size_from 32 0 1 = 5702886" by (simp add: min_size_from_numeral del: One_nat_def)
  then show ?thesis using min_size_from [of 32 0] by simp
qed

end
