(* ===== verification/AvlMap.thy ===== *)
theory AvlMap
  imports AvlTree
begin

text \<open>
  The trees of \<open>lib/avl.c\<close> as finite maps. A comparison function that agrees with a linear order of
  keys on the items used (locale \<open>comparator\<close>) makes search, insertion, replacement and deletion
  the operations of a map from keys to items: \<open>op_refines\<close> and \<open>run_refines\<close>. The tables of the
  program interpret the locale in \<open>Tables\<close>.
\<close>

section \<open>Lists of items as maps\<close>

definition items_map :: "('a \<Rightarrow> 'k) \<Rightarrow> 'a list \<Rightarrow> 'k \<Rightarrow> 'a option" where
  "items_map key xs = map_of (map (\<lambda>x. (key x, x)) xs)"

definition ascending :: "('a \<Rightarrow> 'k::linorder) \<Rightarrow> 'a list \<Rightarrow> bool" where
  "ascending key xs \<longleftrightarrow> sorted_wrt (\<lambda>a b. key a < key b) xs"

lemma items_map_Nil: "items_map key [] = Map.empty"
  by (simp add: items_map_def)

lemma ascending_append:
  "ascending key (xs @ ys) \<longleftrightarrow> ascending key xs \<and> ascending key ys \<and> (\<forall>x\<in>set xs. \<forall>y\<in>set ys. key x < key y)"
  by (auto simp: ascending_def sorted_wrt_append)

lemma ascending_Cons: "ascending key (x # xs) \<longleftrightarrow> (\<forall>y\<in>set xs. key x < key y) \<and> ascending key xs"
  by (simp add: ascending_def)

lemmas ascending_simps = ascending_append ascending_Cons

lemma items_map_eq_None: "items_map key xs k = None \<longleftrightarrow> k \<notin> key ` set xs"
  by (simp add: items_map_def map_of_eq_None_iff image_image)

lemmas items_map_None = items_map_eq_None [THEN iffD2]

lemma apart_not_key:
  fixes k :: "'k::linorder"
  shows "(\<forall>x\<in>S. key x < k) \<Longrightarrow> k \<notin> key ` S" "(\<forall>x\<in>S. k < key x) \<Longrightarrow> k \<notin> key ` S"
proof -
  show "k \<notin> key ` S" if "\<forall>x\<in>S. key x < k"
  proof
    assume "k \<in> key ` S"
    then obtain x where "x \<in> S" "k = key x" by (rule imageE)
    then show False using bspec [OF that \<open>x \<in> S\<close>] by simp
  qed
  show "k \<notin> key ` S" if "\<forall>x\<in>S. k < key x"
  proof
    assume "k \<in> key ` S"
    then obtain x where "x \<in> S" "k = key x" by (rule imageE)
    then show False using bspec [OF that \<open>x \<in> S\<close>] by simp
  qed
qed

lemma items_map_append:
  "items_map key (xs @ ys) k = (case items_map key xs k of None \<Rightarrow> items_map key ys k | Some x \<Rightarrow> Some x)"
  by (simp add: items_map_def map_add_def split: option.split)

lemma items_map_Cons: "items_map key (x # xs) = (items_map key xs)(key x \<mapsto> x)"
  by (simp add: items_map_def)

lemma middle_bounds:
  "ascending key (xs @ d # ys) \<Longrightarrow> (\<forall>x\<in>set xs. key x < key d) \<and> (\<forall>y\<in>set ys. key d < key y)"
  by (auto simp: ascending_simps)

lemma items_map_put:
  fixes key :: "'a \<Rightarrow> 'k::linorder"
  assumes "\<forall>x\<in>set xs. key x < key d"
  shows "items_map key (xs @ d # ys) = (items_map key (xs @ ys))(key d \<mapsto> d)"
proof
  have "items_map key xs (key d) = None" unfolding items_map_eq_None by (rule apart_not_key(1) [OF assms])
  then show "items_map key (xs @ d # ys) k = ((items_map key (xs @ ys))(key d \<mapsto> d)) k" for k
    by (simp add: items_map_append items_map_Cons split: option.split)
qed

lemma items_map_hit: "ascending key (xs @ d # ys) \<Longrightarrow> items_map key (xs @ d # ys) (key d) = Some d"
  using middle_bounds [of key xs d ys] by (simp add: items_map_put)

lemma items_map_swap:
  assumes "ascending key (xs @ d # ys)" "key x = key d"
  shows "items_map key (xs @ x # ys) = (items_map key (xs @ d # ys))(key x \<mapsto> x)"
    "ascending key (xs @ x # ys)"
proof -
  show "items_map key (xs @ x # ys) = (items_map key (xs @ d # ys))(key x \<mapsto> x)"
    using middle_bounds [OF assms(1)] assms(2) by (simp add: items_map_put)
  show "ascending key (xs @ x # ys)" using assms by (simp add: ascending_simps)
qed

lemma items_map_cut:
  assumes "ascending key (xs @ d # ys)"
  shows "items_map key (xs @ ys) = (items_map key (xs @ d # ys))(key d := None)" "ascending key (xs @ ys)"
proof -
  have b: "\<forall>x\<in>set xs. key x < key d" "\<forall>y\<in>set ys. key d < key y" using middle_bounds [OF assms] by auto
  have "items_map key (xs @ ys) (key d) = None"
    unfolding items_map_eq_None set_append image_Un using apart_not_key(1) [OF b(1)] apart_not_key(2) [OF b(2)] by blast
  then show "items_map key (xs @ ys) = (items_map key (xs @ d # ys))(key d := None)"
    using b(1) by (simp add: items_map_put fun_eq_iff)
  show "ascending key (xs @ ys)" using assms by (simp add: ascending_simps)
qed

lemma items_map_Some: "ascending key xs \<Longrightarrow> items_map key xs k = Some x \<longleftrightarrow> x \<in> set xs \<and> key x = k"
proof (induction xs)
  case (Cons y xs)
  have "key y \<notin> key ` set xs" using apart_not_key(2) Cons.prems by (auto simp: ascending_Cons)
  then show ?case using Cons by (auto simp: items_map_Cons ascending_Cons)
qed (simp add: items_map_Nil)

lemma ran_items_map: "ascending key xs \<Longrightarrow> ran (items_map key xs) = set xs"
proof (induction xs)
  case (Cons x xs)
  have "items_map key xs (key x) = None"
    unfolding items_map_eq_None using apart_not_key(2) Cons.prems by (auto simp: ascending_Cons)
  then show ?case using Cons by (simp add: items_map_Cons ran_map_upd ascending_Cons del: fun_upd_apply)
qed (simp add: items_map_Nil)

section \<open>Operations and what they mean\<close>

text \<open>The operations, the first component of an insertion saying whether \<open>malloc\<close> succeeds.\<close>

datatype 'a avl_op = Insert bool 'a | Replace bool 'a | Find 'a | Delete 'a

fun avl_step :: "'a compare \<Rightarrow> 'a avl_op \<Rightarrow> 'a avl_table \<Rightarrow> ('a avl_table \<times> 'a option) result" where
  "avl_step cmp (Insert malloc_ok x) T = avl_insert cmp malloc_ok T x"
| "avl_step cmp (Replace malloc_ok x) T = avl_replace cmp malloc_ok T x"
| "avl_step cmp (Find x) T = Inr (T, avl_find cmp T x)"
| "avl_step cmp (Delete x) T = avl_delete cmp T x"

fun avl_run :: "'a compare \<Rightarrow> 'a avl_op list \<Rightarrow> 'a avl_table \<Rightarrow> ('a avl_table \<times> 'a option list) result" where
  "avl_run cmp [] T = Inr (T, [])"
| "avl_run cmp (a # as) T =
     andThen (avl_step cmp a T) (\<lambda>(T, out).
     andThen (avl_run cmp as T) (\<lambda>(T, outs). Inr (T, out # outs)))"

definition other_than :: "'a \<Rightarrow> 'a option \<Rightarrow> 'a option" where
  "other_than x p = (if p = Some x then None else p)"

fun map_step :: "('a \<Rightarrow> 'k) \<Rightarrow> 'a avl_op \<Rightarrow> ('k \<Rightarrow> 'a option) \<Rightarrow> ('k \<Rightarrow> 'a option) \<times> 'a option" where
  "map_step key (Insert malloc_ok x) m =
     (if m (key x) = None \<and> malloc_ok then m(key x \<mapsto> x) else m, other_than x (m (key x)))"
| "map_step key (Replace malloc_ok x) m =
     (if m (key x) \<noteq> None \<or> malloc_ok then m(key x \<mapsto> x) else m, other_than x (m (key x)))"
| "map_step key (Find x) m = (m, m (key x))"
| "map_step key (Delete x) m = (m(key x := None), m (key x))"

fun map_run :: "('a \<Rightarrow> 'k) \<Rightarrow> 'a avl_op list \<Rightarrow> ('k \<Rightarrow> 'a option) \<Rightarrow> ('k \<Rightarrow> 'a option) \<times> 'a option list" where
  "map_run key [] m = (m, [])"
| "map_run key (a # as) m =
     (let (m, out) = map_step key a m; (m, outs) = map_run key as m in (m, out # outs))"

fun op_item :: "'a avl_op \<Rightarrow> 'a" where
  "op_item (Insert malloc_ok x) = x"
| "op_item (Replace malloc_ok x) = x"
| "op_item (Find x) = x"
| "op_item (Delete x) = x"

definition table_map :: "('a \<Rightarrow> 'k) \<Rightarrow> 'a avl_table \<Rightarrow> 'k \<Rightarrow> 'a option" where
  "table_map key T = items_map key (inorder (avl_root T))"

text \<open>The invariant: balanced, in order, the items known to the order, and counted.\<close>

definition avl_wf :: "('a \<Rightarrow> 'k::linorder) \<Rightarrow> ('a \<Rightarrow> bool) \<Rightarrow> 'a avl_table \<Rightarrow> bool" where
  "avl_wf key known T \<longleftrightarrow> balanced (avl_root T) \<and> ascending key (inorder (avl_root T)) \<and>
     (\<forall>x\<in>set (inorder (avl_root T)). known x) \<and> avl_count T = length (inorder (avl_root T))"

lemma avl_empty_wf: "avl_wf key known avl_empty" "table_map key avl_empty = Map.empty" "avl_count avl_empty = 0"
  by (simp_all add: avl_wf_def avl_empty_def table_map_def items_map_Nil ascending_def)

lemma min_size_grows: "min_size n < min_size (Suc n)"
  by (cases n) simp_all

lemma avl_wf_height:
  "avl_wf key known T \<Longrightarrow> avl_count T < min_size AVL_MAX_HEIGHT \<Longrightarrow> height (avl_root T) < AVL_MAX_HEIGHT"
  using balanced_height [of "avl_root T" AVL_MAX_HEIGHT] by (simp add: avl_wf_def)

section \<open>Comparison functions that agree with an order\<close>

locale comparator =
  fixes cmp :: "'a compare" and key :: "'a \<Rightarrow> 'k::linorder" and known :: "'a \<Rightarrow> bool"
  assumes cmp_less: "known a \<Longrightarrow> known b \<Longrightarrow> cmp a b < 0 \<longleftrightarrow> key a < key b"
    and cmp_greater: "known a \<Longrightarrow> known b \<Longrightarrow> 0 < cmp a b \<longleftrightarrow> key b < key a"
begin

lemma cmp_equal: "known a \<Longrightarrow> known b \<Longrightarrow> cmp a b = 0 \<longleftrightarrow> key a = key b"
  using cmp_less [of a b] cmp_greater [of a b] by (metis less_irrefl linorder_neqE zero_less_iff_neq_zero not_less_iff_gr_or_eq)

lemma find_loop_map:
  "ascending key (inorder t) \<Longrightarrow> \<forall>x\<in>set (inorder t). known x \<Longrightarrow> known item \<Longrightarrow>
     find_loop cmp item t = items_map key (inorder t) (key item)"
proof (induction t)
  case Tip
  then show ?case by (simp add: items_map_Nil)
next
  case (Nd l d b r)
  have asc: "ascending key (inorder l @ d # inorder r)" using Nd.prems(1) by simp
  have bd: "\<forall>x\<in>set (inorder l). key x < key d" "\<forall>x\<in>set (inorder r). key d < key x"
    using middle_bounds [OF asc] by auto
  have kn: "known d" "known item" using Nd.prems by auto
  have whole: "items_map key (inorder (Nd l d b r)) = (items_map key (inorder l @ inorder r))(key d \<mapsto> d)"
    using bd(1) by (simp add: items_map_put)
  consider "key item < key d" | "key d < key item" | "key item = key d" by fastforce
  then show ?case
  proof cases
    case 1
    then have "\<forall>x\<in>set (inorder r). key item < key x" using bd(2) less_trans by blast
    then have "items_map key (inorder r) (key item) = None" unfolding items_map_eq_None by (rule apart_not_key)
    moreover have "find_loop cmp item l = items_map key (inorder l) (key item)"
      using Nd.IH(1) Nd.prems by (simp add: ascending_simps)
    ultimately show ?thesis using 1 cmp_less [OF kn(2,1)] whole
      by (auto simp: items_map_append split: option.splits)
  next
    case 2
    then have "\<forall>x\<in>set (inorder l). key x < key item" using bd(1) less_trans by blast
    then have "items_map key (inorder l) (key item) = None" unfolding items_map_eq_None by (rule apart_not_key)
    moreover have "find_loop cmp item r = items_map key (inorder r) (key item)"
      using Nd.IH(2) Nd.prems by (simp add: ascending_simps)
    ultimately show ?thesis using 2 cmp_less [OF kn(2,1)] cmp_greater [OF kn(2,1)] whole
      by (auto simp: items_map_append split: option.splits)
  next
    case 3
    then show ?thesis using cmp_equal [OF kn(2,1)] whole by simp
  qed
qed

lemma find_map: "avl_wf key known T \<Longrightarrow> known item \<Longrightarrow> avl_find cmp T item = table_map key T (key item)"
  by (simp add: avl_wf_def avl_find_def table_map_def find_loop_map)

text \<open>A descent that misses has every item to its left below the key and every one to its right above.\<close>

lemma descend_sides:
  "descend cmp item t fs k = Inr (Miss fs' k') \<Longrightarrow> known item \<Longrightarrow>
   ascending key (inorder t) \<Longrightarrow> \<forall>x\<in>set (inorder t). known x \<Longrightarrow>
   \<forall>x\<in>set (left_of fs). key x < key item \<Longrightarrow> \<forall>x\<in>set (right_of fs). key item < key x \<Longrightarrow>
   (\<forall>x\<in>set (left_of fs'). key x < key item) \<and> (\<forall>x\<in>set (right_of fs'). key item < key x)"
proof (induction t arbitrary: fs k)
  case (Nd l d b r)
  have kn: "known item" "known d" using Nd.prems(2,4) by auto
  have asc: "ascending key (inorder l @ d # inorder r)" using Nd.prems(3) by simp
  have bd: "\<forall>x\<in>set (inorder l). key x < key d" "\<forall>x\<in>set (inorder r). key d < key x"
    using middle_bounds [OF asc] by auto
  have sub: "ascending key (inorder l)" "ascending key (inorder r)"
    "\<forall>x\<in>set (inorder l). known x" "\<forall>x\<in>set (inorder r). known x"
    using Nd.prems(3,4) by (simp_all add: ascending_simps)
  define k1 where "k1 = (if b \<noteq> 0 then 0 else k) + 1"
  have ne: "cmp item d \<noteq> 0" using Nd.prems(1) by (auto simp: Let_def)
  show ?case
  proof (cases "0 < cmp item d")
    case True
    then have down: "descend cmp item r ((True, d, b, l) # fs) k1 = Inr (Miss fs' k')"
      using Nd.prems(1) ne by (simp add: k1_def Let_def split: if_splits)
    have "key d < key item" using True cmp_greater [OF kn] by simp
    moreover have "\<forall>x\<in>set (inorder l). key x < key item" using bd(1) calculation less_trans by blast
    ultimately have lo: "\<forall>x\<in>set (left_of ((True, d, b, l) # fs)). key x < key item"
      using Nd.prems(5) by (simp add: ball_Un)
    have "\<forall>x\<in>set (right_of ((True, d, b, l) # fs)). key item < key x" using Nd.prems(6) by simp
    then show ?thesis by (rule Nd.IH(2) [OF down kn(1) sub(2,4) lo])
  next
    case False
    then have down: "descend cmp item l ((False, d, b, r) # fs) k1 = Inr (Miss fs' k')"
      using Nd.prems(1) ne by (simp add: k1_def Let_def split: if_splits)
    have "key item < key d" using False ne cmp_less [OF kn] by simp
    moreover have "\<forall>x\<in>set (inorder r). key item < key x" using bd(2) calculation less_trans by blast
    ultimately have hi: "\<forall>x\<in>set (right_of ((False, d, b, r) # fs)). key item < key x"
      using Nd.prems(6) by (simp add: ball_Un)
    have "\<forall>x\<in>set (left_of ((False, d, b, r) # fs)). key x < key item" using Nd.prems(5) by simp
    then show ?thesis by (rule Nd.IH(1) [OF down kn(1) sub(1,3) _ hi])
  qed
qed simp

lemma descend_found:
  assumes "avl_wf key known T" "known item" "avl_count T < min_size AVL_MAX_HEIGHT"
  obtains (hit) fs l d b r where "descend cmp item (avl_root T) [] 0 = Inr (Hit fs l d b r)"
      "plug fs (Nd l d b r) = avl_root T" "key item = key d" "table_map key T (key item) = Some d"
  | (miss) fs k where "descend cmp item (avl_root T) [] 0 = Inr (Miss fs k)" "plug fs Tip = avl_root T"
      "cached fs k" "\<forall>x\<in>set (left_of fs). key x < key item" "\<forall>x\<in>set (right_of fs). key item < key x"
      "table_map key T (key item) = None"
proof -
  let ?t = "avl_root T"
  have wf: "ascending key (inorder ?t)" "\<forall>x\<in>set (inorder ?t). known x" using assms(1) by (simp_all add: avl_wf_def)
  have "height ?t + 0 \<le> AVL_MAX_HEIGHT" using avl_wf_height [OF assms(1,3)] by simp
  moreover have "cached ([] :: 'a frame list) 0" by (simp add: cached_def)
  ultimately consider
      (h) fs l d b r where "descend cmp item ?t [] 0 = Inr (Hit fs l d b r)" "plug fs (Nd l d b r) = ?t" "cmp item d = 0"
    | (m) fs k where "descend cmp item ?t [] 0 = Inr (Miss fs k)" "plug fs Tip = ?t" "cached fs k"
    using descend_ends [of ?t 0 "[]" cmp item] by auto
  then show thesis
  proof cases
    case h
    have io: "inorder ?t = (left_of fs @ inorder l) @ d # (inorder r @ right_of fs)"
      using inorder_plug [of fs "Nd l d b r"] h(2) by simp
    have "known d" using wf(2) io by simp
    then have k: "key item = key d" using h(3) cmp_equal [OF assms(2)] by simp
    have "table_map key T (key item) = Some d"
      using wf(1) unfolding io k table_map_def by (rule items_map_hit)
    then show thesis using hit h(1,2) k by blast
  next
    case m
    have sides: "\<forall>x\<in>set (left_of fs). key x < key item" "\<forall>x\<in>set (right_of fs). key item < key x"
      using descend_sides [OF m(1) assms(2) wf] by simp_all
    have "inorder ?t = left_of fs @ right_of fs" using inorder_plug [of fs Tip] m(2) by simp
    then have "key item \<notin> key ` set (inorder ?t)"
      unfolding \<open>inorder ?t = left_of fs @ right_of fs\<close> set_append image_Un
      using apart_not_key(1) [OF sides(1)] apart_not_key(2) [OF sides(2)] by blast
    then have "table_map key T (key item) = None" by (simp add: table_map_def items_map_eq_None)
    then show thesis using miss m sides by blast
  qed
qed

text \<open>\<open>avl_probe\<close>: an item with the key, or a new node for this one.\<close>

lemma probe_map:
  assumes "avl_wf key known T" "known item" "avl_count T < min_size AVL_MAX_HEIGHT"
  shows "\<exists>T' p. avl_probe cmp malloc_ok T item = Inr (T', p) \<and> avl_wf key known T' \<and>
    avl_count T' \<le> avl_count T + 1 \<and>
    (case table_map key T (key item) of
       Some d \<Rightarrow> T' = T \<and> (\<exists>fs l b r. p = Some (Existing fs l d b r) \<and> plug fs (Nd l d b r) = avl_root T \<and> key item = key d)
     | None \<Rightarrow> if malloc_ok then table_map key T' = (table_map key T)(key item \<mapsto> item) \<and> p = Some (Fresh item)
               else T' = T \<and> p = None)"
proof (rule descend_found [OF assms])
  fix fs l d b r
  assume "descend cmp item (avl_root T) [] 0 = Inr (Hit fs l d b r)" "plug fs (Nd l d b r) = avl_root T"
    "key item = key d" "table_map key T (key item) = Some d"
  then show ?thesis using assms(1) by (simp add: avl_probe_def)
next
  fix fs k
  assume m: "descend cmp item (avl_root T) [] 0 = Inr (Miss fs k)" "plug fs Tip = avl_root T"
      "cached fs k" "\<forall>x\<in>set (left_of fs). key x < key item" "\<forall>x\<in>set (right_of fs). key item < key x"
      "table_map key T (key item) = None"
  have bal: "balanced (plug fs Tip)" using assms(1) m(2) by (simp add: avl_wf_def)
  obtain w rot where w: "rebalance (plug (map adjust (take k fs)) (Nd Tip item 0 Tip)) = Inr (w, rot)"
    "balanced (plug (drop k fs) w)" "inorder (plug (drop k fs) w) = left_of fs @ item # right_of fs"
    using probe_miss [OF bal m(3)] by blast
  have io: "inorder (avl_root T) = left_of fs @ right_of fs" using inorder_plug [of fs Tip] m(2) by simp
  have "ascending key (left_of fs @ item # right_of fs)"
    using assms(1) m(4,5) io by (simp add: avl_wf_def ascending_simps)
  moreover have "items_map key (left_of fs @ item # right_of fs) = (table_map key T)(key item \<mapsto> item)"
    using items_map_put [OF m(4)] io by (simp add: table_map_def)
  ultimately show ?thesis
    using m(1,6) w assms(1,2) io by (cases malloc_ok) (auto simp: avl_probe_def avl_wf_def table_map_def)
qed

lemma find_path_misses: "find_path cmp item t fs = Inr None \<Longrightarrow> find_loop cmp item t = None"
  by (induction cmp item t fs rule: find_path.induct) (auto simp: Let_def split: if_splits)

lemma delete_map:
  assumes "avl_wf key known T" "known item" "avl_count T < min_size AVL_MAX_HEIGHT"
  shows "\<exists>T'. avl_delete cmp T item = Inr (T', table_map key T (key item)) \<and> avl_wf key known T' \<and>
    avl_count T' \<le> avl_count T \<and> table_map key T' = (table_map key T)(key item := None)"
proof -
  let ?t = "avl_root T"
  have h: "height ?t < AVL_MAX_HEIGHT" by (rule avl_wf_height [OF assms(1,3)])
  consider (none) "find_path cmp item ?t [] = Inr None"
    | (found) fs l d b r where "find_path cmp item ?t [] = Inr (Some (fs, l, d, b, r))"
        "plug fs (Nd l d b r) = ?t" "cmp item d = 0"
    using find_path_ends [of ?t "[]" cmp item] h by auto
  then show ?thesis
  proof cases
    case none
    have "table_map key T (key item) = None"
      using find_map [OF assms(1,2)] find_path_misses [OF none] by (simp add: avl_find_def)
    moreover from this have "(table_map key T)(key item := None) = table_map key T" by (simp add: fun_upd_idem)
    ultimately show ?thesis using none assms(1) by (simp add: avl_delete_def)
  next
    case found
    have bal: "balanced (plug fs (Nd l d b r))" using assms(1) found(2) by (simp add: avl_wf_def)
    have io: "inorder ?t = (left_of fs @ inorder l) @ d # (inorder r @ right_of fs)"
      using inorder_plug [of fs "Nd l d b r"] found(2) by simp
    have asc: "ascending key ((left_of fs @ inorder l) @ d # (inorder r @ right_of fs))"
      using assms(1) by (simp only: avl_wf_def io)
    have "known d" using assms(1) by (simp add: avl_wf_def io)
    then have k: "key item = key d" using found(3) cmp_equal [OF assms(2)] by simp
    obtain u where u: "unlink fs l b r = Inr u" "balanced u"
      "inorder u = (left_of fs @ inorder l) @ inorder r @ right_of fs"
      using unlink_ok [OF bal] h found(2) by auto
    have hit: "table_map key T (key item) = Some d"
      unfolding table_map_def io k by (rule items_map_hit [OF asc])
    have cut: "items_map key (inorder u) = (table_map key T)(key item := None)" "ascending key (inorder u)"
      unfolding table_map_def u(3) io k by (rule items_map_cut [OF asc])+
    show ?thesis using found(1) u(1,2) hit cut assms(1)
      by (auto simp: avl_delete_def avl_wf_def io u(3) table_map_def)
  qed
qed

text \<open>Writing an item with the same key into a node.\<close>

lemma overwrite_map:
  assumes "avl_wf key known T" "known x" "plug fs (Nd l d b r) = avl_root T" "key x = key d"
  shows "avl_wf key known (T\<lparr>avl_root := plug fs (Nd l x b r)\<rparr>)"
    "table_map key (T\<lparr>avl_root := plug fs (Nd l x b r)\<rparr>) = (table_map key T)(key x \<mapsto> x)"
proof -
  let ?u = "plug fs (Nd l x b r)"
  have io: "inorder (avl_root T) = (left_of fs @ inorder l) @ d # (inorder r @ right_of fs)"
    using inorder_plug [of fs "Nd l d b r"] assms(3) by simp
  have u: "inorder ?u = (left_of fs @ inorder l) @ x # (inorder r @ right_of fs)"
    by (simp add: inorder_plug)
  have asc: "ascending key ((left_of fs @ inorder l) @ d # (inorder r @ right_of fs))"
    using assms(1) by (simp only: avl_wf_def io)
  have swap: "items_map key (inorder ?u) = (table_map key T)(key x \<mapsto> x)" "ascending key (inorder ?u)"
    unfolding table_map_def u io by (rule items_map_swap [OF asc assms(4)])+
  have "balanced (Nd l d b r)" using assms(1,3) balanced_hole by (metis avl_wf_def)
  then have "balanced (Nd l x b r)" by auto
  then have "balanced ?u" using balanced_same_height [of fs "Nd l d b r" "Nd l x b r"] assms(1,3)
    by (simp add: avl_wf_def del: balanced.simps)
  then show "avl_wf key known (T\<lparr>avl_root := ?u\<rparr>)" "table_map key (T\<lparr>avl_root := ?u\<rparr>) = (table_map key T)(key x \<mapsto> x)"
    using swap assms(1,2) by (auto simp: avl_wf_def io u table_map_def)
qed

lemma replace_map:
  assumes "avl_wf key known T" "known x" "avl_count T < min_size AVL_MAX_HEIGHT"
  shows "\<exists>T'. avl_replace cmp malloc_ok T x = Inr (T', other_than x (table_map key T (key x))) \<and> avl_wf key known T' \<and>
    avl_count T' \<le> avl_count T + 1 \<and>
    table_map key T' = (if table_map key T (key x) \<noteq> None \<or> malloc_ok then (table_map key T)(key x \<mapsto> x) else table_map key T)"
proof (cases "table_map key T (key x)")
  case None
  then show ?thesis using probe_map [OF assms, of malloc_ok]
    by (auto simp: avl_replace_def other_than_def split: if_splits)
next
  case (Some d)
  then obtain fs l b r where p: "avl_probe cmp malloc_ok T x = Inr (T, Some (Existing fs l d b r))"
    "plug fs (Nd l d b r) = avl_root T" "key x = key d"
    using probe_map [OF assms, of malloc_ok] by auto
  note new = overwrite_map [OF assms(1,2) p(2,3)]
  show ?thesis
  proof (cases "d = x")
    case True
    then have "(table_map key T)(key x \<mapsto> x) = table_map key T" using Some by (simp add: fun_upd_idem)
    then show ?thesis using assms(1) True Some p(1) by (simp add: avl_replace_def other_than_def)
  next
    case False
    then show ?thesis using new Some p(1) by (simp add: avl_replace_def other_than_def)
  qed
qed

text \<open>Every operation is that of the map, keeps the invariant and adds at most one item.\<close>

lemma op_refines:
  assumes "avl_wf key known T" "known (op_item a)" "avl_count T < min_size AVL_MAX_HEIGHT"
  shows "\<exists>T'. avl_step cmp a T = Inr (T', snd (map_step key a (table_map key T))) \<and> avl_wf key known T' \<and>
    avl_count T' \<le> avl_count T + 1 \<and> table_map key T' = fst (map_step key a (table_map key T))"
proof (cases a)
  case (Insert malloc_ok x)
  then show ?thesis using probe_map [of T x malloc_ok] assms
    by (auto simp: avl_insert_def other_than_def split: option.splits if_splits)
next
  case (Replace malloc_ok x)
  then show ?thesis using replace_map [of T x malloc_ok] assms by auto
next
  case (Find x)
  then show ?thesis using find_map assms by simp
next
  case (Delete x)
  then show ?thesis using delete_map [of T x] assms by auto
qed

lemma run_refines:
  "avl_wf key known T \<Longrightarrow> \<forall>a\<in>set as. known (op_item a) \<Longrightarrow> avl_count T + length as \<le> min_size AVL_MAX_HEIGHT \<Longrightarrow>
     \<exists>T'. avl_run cmp as T = Inr (T', snd (map_run key as (table_map key T))) \<and> avl_wf key known T' \<and>
       table_map key T' = fst (map_run key as (table_map key T))"
proof (induction as arbitrary: T)
  case (Cons a as)
  obtain T1 where T1: "avl_step cmp a T = Inr (T1, snd (map_step key a (table_map key T)))" "avl_wf key known T1"
    "avl_count T1 \<le> avl_count T + 1" "table_map key T1 = fst (map_step key a (table_map key T))"
    using op_refines [of T a] Cons.prems by auto
  then show ?case using Cons.IH [of T1] Cons.prems by (auto simp: Let_def split: prod.split)
qed simp

end

end
