(* ===== verification/AvlWalk.thy ===== *)
theory AvlWalk
  imports AvlMap
begin

text \<open>
  The traversers and the destruction of \<open>lib/avl.c\<close>: stepping with \<open>avl_t_next\<close> visits the items in
  ascending order, with \<open>avl_t_prev\<close> in descending order; a traverser that is older than the tree
  finds its node again and goes on from there; \<open>avl_destroy\<close> passes every item once.
\<close>

section \<open>Positions in a tree\<close>

definition in_direction :: "bool \<Rightarrow> 'a list \<Rightarrow> 'a list" where
  "in_direction side xs = (if side then xs else rev xs)"

fun child :: "bool \<Rightarrow> 'a avl \<Rightarrow> 'a avl" where
  "child side Tip = Tip"
| "child side (Nd l d b r) = (if side then r else l)"

text \<open>What the nodes above a position still have to contribute, and all that comes after it.\<close>

fun above :: "bool \<Rightarrow> 'a avl \<Rightarrow> bool list \<Rightarrow> 'a list" where
  "above side T [] = []"
| "above side Tip (x # q) = []"
| "above side (Nd l d b r) (x # q) = above side (if x then r else l) q @
     (if x = side then [] else d # in_direction side (inorder (if side then r else l)))"

definition after :: "bool \<Rightarrow> 'a avl \<Rightarrow> bool list \<Rightarrow> 'a list" where
  "after side T q = in_direction side (inorder (child side (at_path T q))) @ above side T q"

lemma at_path_Tip [simp]: "at_path Tip q = Tip"
  by (cases q) simp_all

lemma at_path_append: "at_path T (q @ q') = at_path (at_path T q) q'"
  by (induction T q rule: at_path.induct) simp_all

lemma above_append: "above side T (q @ q') = above side (at_path T q) q' @ above side T q"
proof (induction side T q rule: above.induct)
  case (2 side x q)
  then show ?case by (cases q') simp_all
qed simp_all

lemma at_path_height: "at_path T q \<noteq> Tip \<Longrightarrow> length q + height (at_path T q) \<le> height T"
  by (induction T q rule: at_path.induct) (auto split: if_splits)

lemma in_direction_node:
  "in_direction side (inorder (Nd l d b r)) =
     in_direction side (inorder (if side then l else r)) @ d # in_direction side (inorder (if side then r else l))"
  by (simp add: in_direction_def)

lemma go_down_first:
  "at_path T (rev p) = t \<Longrightarrow> t \<noteq> Tip \<Longrightarrow> height T \<le> AVL_MAX_HEIGHT \<Longrightarrow>
   \<exists>d p' l b r. go_down (\<not> side) t p = Inr (d, p') \<and> at_path T (rev p') = Nd l d b r \<and>
     d # after side T (rev p') = in_direction side (inorder t) @ above side T (rev p)"
proof (induction t arbitrary: p)
  case (Nd l d b r)
  let ?first = "if side then l else r"
  have room: "\<not> AVL_MAX_HEIGHT \<le> length p" using at_path_height [of T "rev p"] Nd.prems by simp
  show ?case
  proof (cases "?first = Tip")
    case True
    then have "in_direction side (inorder (Nd l d b r)) = d # in_direction side (inorder (if side then r else l))"
      by (simp only: in_direction_node) (simp add: in_direction_def)
    then show ?thesis using True Nd.prems by (cases side) (simp_all add: after_def)
  next
    case False
    have pos: "at_path T (rev ((\<not> side) # p)) = ?first" using Nd.prems by (simp add: at_path_append)
    have down: "go_down (\<not> side) (Nd l d b r) p = go_down (\<not> side) ?first ((\<not> side) # p)"
      using False room by (cases side) simp_all
    have "above side T (rev ((\<not> side) # p)) = d # in_direction side (inorder (if side then r else l)) @ above side T (rev p)"
      using Nd.prems by (simp add: above_append)
    moreover have "\<exists>d p' l b r. go_down (\<not> side) ?first ((\<not> side) # p) = Inr (d, p') \<and>
        at_path T (rev p') = Nd l d b r \<and>
        d # after side T (rev p') = in_direction side (inorder ?first) @ above side T (rev ((\<not> side) # p))"
      using Nd.IH [of "(\<not> side) # p"] pos False Nd.prems(3) by (cases side) simp_all
    ultimately show ?thesis unfolding down by (simp only: in_direction_node) simp
  qed
qed simp

lemma climb_next:
  "at_path T (rev p) \<noteq> Tip \<Longrightarrow>
   (case climb side p of
      None \<Rightarrow> above side T (rev p) = []
    | Some q \<Rightarrow> \<exists>l d b r. at_path T (rev q) = Nd l d b r \<and> above side T (rev p) = d # after side T (rev q))"
proof (induction p)
  case (Cons x p)
  have up: "at_path T (rev p) \<noteq> Tip" using Cons.prems by (auto simp: at_path_append)
  then obtain l d b r where n: "at_path T (rev p) = Nd l d b r" by (cases "at_path T (rev p)") auto
  show ?case using Cons.IH [OF up] n
    by (cases "climb side p"; cases "x = side") (simp_all add: above_append after_def)
qed simp

section \<open>Steps\<close>

definition at_item :: "'a avl \<Rightarrow> 'a \<Rightarrow> bool list \<Rightarrow> bool" where
  "at_item T d p \<longleftrightarrow> (\<exists>l b r. at_path T (rev p) = Nd l d b r)"

lemma step_after:
  assumes "at_item (avl_root T) d p" "height (avl_root T) \<le> AVL_MAX_HEIGHT"
    "trav_node tr = Some (d, p)" "trav_generation tr = avl_generation T"
  shows "case after side (avl_root T) (rev p) of
      [] \<Rightarrow> trav_step side cmp T tr = Inr (tr\<lparr>trav_node := None\<rparr>, None)
    | x # xs \<Rightarrow> \<exists>q. trav_step side cmp T tr = Inr (tr\<lparr>trav_node := Some (x, q)\<rparr>, Some x) \<and>
        at_item (avl_root T) x q \<and> after side (avl_root T) (rev q) = xs"
proof -
  let ?T = "avl_root T"
  obtain l b r where n: "at_path ?T (rev p) = Nd l d b r" using assms(1) by (auto simp: at_item_def)
  let ?second = "if side then r else l"
  have room: "\<not> AVL_MAX_HEIGHT \<le> length p" using at_path_height [of ?T "rev p"] n assms(2) by simp
  show ?thesis
  proof (cases "?second = Tip")
    case False
    have pos: "at_path ?T (rev (side # p)) = ?second" using n by (simp add: at_path_append)
    obtain x q l' b' r' where g: "go_down (\<not> side) ?second (side # p) = Inr (x, q)"
      "at_path ?T (rev q) = Nd l' x b' r'"
      "x # after side ?T (rev q) = in_direction side (inorder ?second) @ above side ?T (rev (side # p))"
      using go_down_first [OF pos False assms(2)] by blast
    have "after side ?T (rev p) = x # after side ?T (rev q)"
      using g(3) n by (simp add: after_def above_append)
    moreover have "trav_step side cmp T tr = Inr (tr\<lparr>trav_node := Some (x, q)\<rparr>, Some x)"
      using g(1) n room False assms(3,4) by (simp add: trav_step_def)
    ultimately show ?thesis using g(2) by (auto simp: at_item_def)
  next
    case True
    have "after side ?T (rev p) = above side ?T (rev p)"
      using True n by (simp add: after_def in_direction_def)
    moreover have up: "case climb side p of None \<Rightarrow> above side ?T (rev p) = []
      | Some q \<Rightarrow> \<exists>l d b r. at_path ?T (rev q) = Nd l d b r \<and> above side ?T (rev p) = d # after side ?T (rev q)"
      using climb_next [of ?T p side] n by simp
    ultimately show ?thesis
    proof (cases "climb side p")
      case None
      then show ?thesis using up True n assms(3,4) \<open>after side ?T (rev p) = above side ?T (rev p)\<close>
        by (simp add: trav_step_def)
    next
      case (Some q)
      then obtain l' x b' r' where q: "at_path ?T (rev q) = Nd l' x b' r'"
        "after side ?T (rev p) = x # after side ?T (rev q)"
        using up \<open>after side ?T (rev p) = above side ?T (rev p)\<close> by auto
      have "trav_step side cmp T tr = Inr (tr\<lparr>trav_node := Some (x, q)\<rparr>, Some x)"
        using Some q(1) n True assms(3,4) by (simp add: trav_step_def)
      then show ?thesis using q by (auto simp: at_item_def)
    qed
  qed
qed

lemma end_first:
  assumes "height (avl_root T) \<le> AVL_MAX_HEIGHT"
  shows "case in_direction side (inorder (avl_root T)) of
      [] \<Rightarrow> avl_t_end (\<not> side) T = Inr (avl_t_init T, None)
    | x # xs \<Rightarrow> \<exists>p. avl_t_end (\<not> side) T =
          Inr (\<lparr>trav_node = Some (x, p), trav_generation = avl_generation T\<rparr>, Some x) \<and>
        at_item (avl_root T) x p \<and> after side (avl_root T) (rev p) = xs"
proof (cases "avl_root T = Tip")
  case True
  then show ?thesis by (simp add: avl_t_end_def in_direction_def)
next
  case False
  then obtain d p l b r where "go_down (\<not> side) (avl_root T) [] = Inr (d, p)" "at_path (avl_root T) (rev p) = Nd l d b r"
    "d # after side (avl_root T) (rev p) = in_direction side (inorder (avl_root T))"
    using go_down_first [of "avl_root T" "[]" "avl_root T" side] assms by auto
  then show ?thesis using False by (auto simp: avl_t_end_def at_item_def split: list.splits)
qed

text \<open>The results of a number of steps in one direction.\<close>

fun trav_steps :: "bool \<Rightarrow> 'a compare \<Rightarrow> 'a avl_table \<Rightarrow> 'a avl_traverser \<Rightarrow> nat \<Rightarrow> 'a option list result" where
  "trav_steps side cmp T tr 0 = Inr []"
| "trav_steps side cmp T tr (Suc n) =
     andThen (trav_step side cmp T tr) (\<lambda>(tr, x).
     andThen (trav_steps side cmp T tr n) (\<lambda>xs. Inr (x # xs)))"

definition traverse :: "bool \<Rightarrow> 'a compare \<Rightarrow> 'a avl_table \<Rightarrow> 'a option list result" where
  "traverse side cmp T =
     andThen (if side then avl_t_first T else avl_t_last T) (\<lambda>(tr, x).
     andThen (trav_steps side cmp T tr (avl_count T)) (\<lambda>xs. Inr (x # xs)))"

lemma steps_after:
  "at_item (avl_root T) d p \<Longrightarrow> height (avl_root T) \<le> AVL_MAX_HEIGHT \<Longrightarrow>
   trav_node tr = Some (d, p) \<Longrightarrow> trav_generation tr = avl_generation T \<Longrightarrow>
   trav_steps side cmp T tr (Suc (length (after side (avl_root T) (rev p)))) =
     Inr (map Some (after side (avl_root T) (rev p)) @ [None])"
proof (induction "after side (avl_root T) (rev p)" arbitrary: d p tr)
  case Nil
  then show ?case using step_after [OF Nil.prems, of side cmp] by (simp flip: Nil.hyps)
next
  case (Cons x xs)
  obtain q where q: "trav_step side cmp T tr = Inr (tr\<lparr>trav_node := Some (x, q)\<rparr>, Some x)"
    "at_item (avl_root T) x q" "after side (avl_root T) (rev q) = xs"
    using step_after [OF Cons.prems, of side cmp] by (auto simp flip: Cons.hyps(2))
  have "trav_steps side cmp T (tr\<lparr>trav_node := Some (x, q)\<rparr>) (Suc (length xs)) = Inr (map Some xs @ [None])"
    using Cons.hyps(1) [of q x "tr\<lparr>trav_node := Some (x, q)\<rparr>"] q(2,3) Cons.prems(2,4) by simp
  then show ?case using q(1) by (simp flip: Cons.hyps(2) del: trav_steps.simps(2)) (simp add: trav_steps.simps(2) [of _ _ _ _ "Suc _"])
qed

lemma traverse_inorder:
  assumes "height (avl_root T) \<le> AVL_MAX_HEIGHT" "avl_count T = length (inorder (avl_root T))"
  shows "traverse side cmp T = Inr (map Some (in_direction side (inorder (avl_root T))) @ [None])"
proof (cases "in_direction side (inorder (avl_root T))")
  case Nil
  then have "avl_count T = 0" using assms(2) by (simp add: in_direction_def split: if_splits)
  then show ?thesis using end_first [OF assms(1), of side] Nil
    by (cases side) (simp_all add: traverse_def avl_t_first_def avl_t_last_def)
next
  case (Cons x xs)
  obtain p where p: "avl_t_end (\<not> side) T = Inr (\<lparr>trav_node = Some (x, p), trav_generation = avl_generation T\<rparr>, Some x)"
    "at_item (avl_root T) x p" "after side (avl_root T) (rev p) = xs"
    using end_first [OF assms(1), of side] Cons by auto
  have "length (in_direction side (inorder (avl_root T))) = avl_count T"
    using assms(2) by (simp add: in_direction_def)
  then have "avl_count T = Suc (length xs)" using Cons by simp
  then show ?thesis
    using steps_after [OF p(2) assms(1), of "\<lparr>trav_node = Some (x, p), trav_generation = avl_generation T\<rparr>" side cmp]
      p(1,3) Cons by (cases side) (simp_all add: traverse_def avl_t_first_def avl_t_last_def del: trav_steps.simps)
qed

text \<open>
  A traverser of an older tree: its item is found again, and the step goes on from there. The items
  before and after a position make up the tree.
\<close>

lemma around: "at_path T q = Nd l d b r \<Longrightarrow>
   inorder T = rev (after False T q) @ d # after True T q"
proof (induction T q rule: at_path.induct)
  case (3 l d b r x p)
  then show ?case by (cases x) (simp_all add: after_def in_direction_def)
qed (simp_all add: after_def in_direction_def)

context comparator
begin

lemma refresh_finds:
  "d \<in> set (inorder t) \<Longrightarrow> ascending key (inorder t) \<Longrightarrow> \<forall>x\<in>set (inorder t). known x \<Longrightarrow>
   at_path T (rev p) = t \<Longrightarrow> height T \<le> AVL_MAX_HEIGHT \<Longrightarrow>
   \<exists>q. refresh_loop cmp d t p = Inr q \<and> at_item T d q"
proof (induction t arbitrary: p)
  case (Nd l x b r)
  have asc: "ascending key (inorder l @ x # inorder r)" using Nd.prems(2) by simp
  have bd: "\<forall>y\<in>set (inorder l). key y < key x" "\<forall>y\<in>set (inorder r). key x < key y"
    using middle_bounds [OF asc] by auto
  have kn: "known d" "known x" using Nd.prems(1,3) by auto
  have sub: "ascending key (inorder l)" "ascending key (inorder r)"
    "\<forall>y\<in>set (inorder l). known y" "\<forall>y\<in>set (inorder r). known y"
    using Nd.prems(2,3) by (simp_all add: ascending_simps)
  have room: "\<not> AVL_MAX_HEIGHT \<le> length p" using at_path_height [of T "rev p"] Nd.prems(4,5) by simp
  consider "x = d" | "x \<noteq> d" "d \<in> set (inorder l)" | "x \<noteq> d" "d \<in> set (inorder r)" using Nd.prems(1) by auto
  then show ?case
  proof cases
    case 1
    then show ?thesis using Nd.prems(4) by (auto simp: at_item_def)
  next
    case 2
    have pos: "at_path T (rev (False # p)) = l" using Nd.prems(4) by (simp add: at_path_append)
    have "key d < key x" by (rule bspec [OF bd(1) 2(2)])
    then have "\<not> 0 < cmp d x" using cmp_greater [OF kn] by simp
    then show ?thesis using 2 room Nd.IH(1) [OF 2(2) sub(1,3) pos Nd.prems(5)] by simp
  next
    case 3
    have pos: "at_path T (rev (True # p)) = r" using Nd.prems(4) by (simp add: at_path_append)
    have "key x < key d" by (rule bspec [OF bd(2) 3(2)])
    then have "0 < cmp d x" using cmp_greater [OF kn] by simp
    then show ?thesis using 3 room Nd.IH(2) [OF 3(2) sub(2,4) pos Nd.prems(5)] by simp
  qed
qed simp

lemma stale_step:
  assumes "avl_wf key known T" "avl_count T < min_size AVL_MAX_HEIGHT" "inorder (avl_root T) = xs @ d # ys"
    "trav_node tr = Some (d, p)" "trav_generation tr \<noteq> avl_generation T"
  shows "\<exists>tr'. trav_step side cmp T tr = Inr (tr', case (if side then ys else rev xs) of [] \<Rightarrow> None | x # _ \<Rightarrow> Some x) \<and>
    trav_generation tr' = avl_generation T"
proof -
  let ?T = "avl_root T"
  have wf: "ascending key (inorder ?T)" "\<forall>x\<in>set (inorder ?T). known x" using assms(1) by (simp_all add: avl_wf_def)
  have h: "height ?T \<le> AVL_MAX_HEIGHT" using avl_wf_height [OF assms(1,2)] by simp
  obtain q where q: "refresh_loop cmp d ?T [] = Inr q" "at_item ?T d q"
    using refresh_finds [OF _ wf, of d ?T "[]"] assms(3) h by auto
  define tr1 where "tr1 = \<lparr>trav_node = Some (d, q), trav_generation = avl_generation T\<rparr>"
  obtain l b r where n: "at_path ?T (rev q) = Nd l d b r" using q(2) by (auto simp: at_item_def)
  have "\<forall>x\<in>set xs. key x < key d" "\<forall>y\<in>set ys. key d < key y"
    using middle_bounds [OF wf(1) [unfolded assms(3)]] by blast+
  then have "d \<notin> set xs" "d \<notin> set ys" by auto
  moreover have "xs @ d # ys = rev (after False ?T (rev q)) @ d # after True ?T (rev q)"
    using around [OF n] assms(3) by simp
  ultimately have split: "xs = rev (after False ?T (rev q)) \<and> ys = after True ?T (rev q)"
    by (simp add: append_Cons_eq_iff)
  have "trav_step side cmp T tr = trav_step side cmp T tr1"
    using assms(4,5) q(1) by (simp add: trav_step_def trav_refresh_def tr1_def)
  then show ?thesis
    using step_after [OF q(2) h, of tr1 side cmp] split by (cases side) (auto simp: tr1_def split: list.splits)
qed

end

section \<open>Destruction\<close>

lemma destroy_loop_inorder: "destroy_loop t = inorder t"
  by (induction t rule: destroy_loop.induct) simp_all

end
