(* ===== verification/Tables.thy ===== *)
theory Tables
  imports AvlWalk "HOL-Library.Multiset"
begin

text \<open>
  \<open>IndexTable.h\<close> and \<open>IndexTable.c\<close>: tables from 32-bit addresses to data pointers, kept in an AVL
  tree of entries that are ordered by \<open>compareAddress32\<close>.

  A data pointer is an option, \<open>None\<close> the null pointer. An entry carries the address \<open>malloc\<close> gave
  it, so that two entries are the same object exactly when they are equal; the query built on the
  stack has the address 0. Whether the two \<open>malloc\<close> calls of \<open>table_put\<close> succeed are arguments.
\<close>

section \<open>Entries and their order\<close>

record 'd entry =
  entry_ptr :: nat
  address :: u32
  data :: "'d option"

definition compareAddress32 :: "'d entry option \<Rightarrow> 'd entry option \<Rightarrow> int" where
  "compareAddress32 a b =
     (case (a, b) of (Some x, Some y) \<Rightarrow> sint (address x - address y) | _ \<Rightarrow> 0)"

abbreviation by_address :: "'d entry compare" where
  "by_address \<equiv> \<lambda>a b. compareAddress32 (Some a) (Some b)"

type_synonym 'd table = "'d entry avl_table"

section \<open>Operations\<close>

definition table_create :: "bool \<Rightarrow> 'd table option" where
  "table_create malloc_ok = avl_create malloc_ok"

definition table_put ::
    "nat option \<Rightarrow> bool \<Rightarrow> 'd table \<Rightarrow> u32 \<Rightarrow> 'd option \<Rightarrow> ('d table \<times> 'd option) result" where
  "table_put newEntry malloc_ok table a d =
     (case newEntry of
        None \<Rightarrow> Inl NullDeref
      | Some p \<Rightarrow>
          andThen (avl_insert by_address malloc_ok table \<lparr>entry_ptr = p, address = a, data = d\<rparr>) (\<lambda>(table, _).
          Inr (table, d)))"

definition query :: "u32 \<Rightarrow> 'd entry" where
  "query a = \<lparr>entry_ptr = 0, address = a, data = None\<rparr>"

definition table_find :: "'d table \<Rightarrow> u32 \<Rightarrow> 'd option" where
  "table_find table a =
     (case avl_find by_address table (query a) of Some e \<Rightarrow> data e | None \<Rightarrow> None)"

definition table_remove :: "'d table \<Rightarrow> u32 \<Rightarrow> ('d table \<times> 'd option) result" where
  "table_remove table a =
     andThen (avl_delete by_address table (query a)) (\<lambda>(table, p).
     Inr (table, case p of Some e \<Rightarrow> data e | None \<Rightarrow> None))"

text \<open>The handler is a function of the state it works on.\<close>

fun table_walk_r :: "'d entry avl \<Rightarrow> (u32 \<Rightarrow> 'd option \<Rightarrow> 's \<Rightarrow> 's) \<Rightarrow> 's \<Rightarrow> 's" where
  "table_walk_r Tip handler s = s"
| "table_walk_r (Nd l e b r) handler s =
     table_walk_r r handler (table_walk_r l handler (handler (address e) (data e) s))"

definition table_walk :: "'d table \<Rightarrow> (u32 \<Rightarrow> 'd option \<Rightarrow> 's \<Rightarrow> 's) \<Rightarrow> 's \<Rightarrow> 's" where
  "table_walk table handler s = table_walk_r (avl_root table) handler s"

section \<open>The order of the addresses\<close>

text \<open>
  The difference of two unsigned addresses is read as a signed one, so the comparison is an order only
  on addresses that lie within \<open>2 ^ 31\<close> of each other: in a window that starts at some \<open>base\<close>.
\<close>

definition window :: "u32 \<Rightarrow> u32 \<Rightarrow> bool" where
  "window base a \<longleftrightarrow> unat (a - base) < 2 ^ 31"

abbreviation offset :: "u32 \<Rightarrow> 'd entry \<Rightarrow> nat" where
  "offset base e \<equiv> unat (address e - base)"

abbreviation within :: "u32 \<Rightarrow> 'd entry \<Rightarrow> bool" where
  "within base e \<equiv> window base (address e)"

lemma sint_difference:
  fixes x y :: u32
  assumes "unat x < 2 ^ 31" "unat y < 2 ^ 31"
  shows "sint (x - y) = int (unat x) - int (unat y)"
proof -
  have "uint (x - y) = take_bit 32 (uint x - uint y)" by (simp add: uint_word_ariths take_bit_eq_mod)
  then have "sint (x - y) = signed_take_bit 31 (uint x - uint y)"
    by (simp add: signed_take_bit_take_bit sint_uint)
  also have "\<dots> = uint x - uint y"
  proof (rule signed_take_bit_int_eq_self)
    have "int (unat x) < int (2 ^ 31)" "int (unat y) < int (2 ^ 31)"
      using assms by (simp_all only: of_nat_less_iff)
    then have "uint x < 2 ^ 31" "uint y < 2 ^ 31" "0 \<le> uint x" "0 \<le> uint y" by simp_all
    then show "- (2 ^ 31) \<le> uint x - uint y" "uint x - uint y < 2 ^ 31" by linarith+
  qed
  finally show ?thesis by simp
qed

lemma compare_in_window:
  assumes "within base a" "within base b"
  shows "by_address a b = int (offset base a) - int (offset base b)"
proof -
  have "address a - address b = (address a - base) - (address b - base)" by simp
  then show ?thesis
    using sint_difference [of "address a - base" "address b - base"] assms
    by (simp only: compareAddress32_def window_def) simp
qed

interpretation addresses: comparator by_address "offset base" "within base" for base
  by unfold_locales (simp_all only: compare_in_window, linarith+)

lemma offset_inj: "unat (a - base) = unat (a' - base) \<longleftrightarrow> a = (a' :: u32)"
  by (metis diff_add_cancel unsigned_word_eqI word_unat_eq_iff)

section \<open>Tables as maps from addresses\<close>

definition contents :: "'d table \<Rightarrow> u32 \<Rightarrow> 'd option option" where
  "contents table a = map_option data (items_map address (inorder (avl_root table)) a)"

definition table_wf :: "u32 \<Rightarrow> 'd table \<Rightarrow> bool" where
  "table_wf base table \<longleftrightarrow> avl_wf (offset base) (within base) table"

lemma items_by_offset: "items_map (offset base) xs (unat (a - base)) = items_map address xs a"
  by (induction xs) (simp_all add: items_map_Nil items_map_Cons offset_inj)

lemma contents_offset: "contents table a = map_option data (table_map (offset base) table (unat (a - base)))"
  by (simp add: contents_def table_map_def items_by_offset)

lemma contents_put:
  "table_map (offset base) T' = (table_map (offset base) T)(offset base e \<mapsto> e) \<Longrightarrow>
     contents T' = (contents T)(address e \<mapsto> data e)"
  by (rule ext) (simp add: contents_offset [of _ _ base] offset_inj)

lemma contents_drop:
  "table_map (offset base) T' = (table_map (offset base) T)(unat (a - base) := None) \<Longrightarrow>
     contents T' = (contents T)(a := None)"
  by (rule ext) (simp add: contents_offset [of _ _ base] offset_inj)

lemma contents_same: "table_map (offset base) T' = table_map (offset base) T \<Longrightarrow> contents T' = contents T"
  by (rule ext) (simp add: contents_offset [of _ _ base])

datatype 'd table_op = Put nat bool u32 "'d option" | Lookup u32 | Remove u32

fun table_step :: "'d table_op \<Rightarrow> 'd table \<Rightarrow> ('d table \<times> 'd option) result" where
  "table_step (Put p malloc_ok a d) table = table_put (Some p) malloc_ok table a d"
| "table_step (Lookup a) table = Inr (table, table_find table a)"
| "table_step (Remove a) table = table_remove table a"

fun table_run :: "'d table_op list \<Rightarrow> 'd table \<Rightarrow> ('d table \<times> 'd option list) result" where
  "table_run [] table = Inr (table, [])"
| "table_run (x # xs) table =
     andThen (table_step x table) (\<lambda>(table, out).
     andThen (table_run xs table) (\<lambda>(table, outs). Inr (table, out # outs)))"

definition pointer_or_null :: "'d option option \<Rightarrow> 'd option" where
  "pointer_or_null v = (case v of Some d \<Rightarrow> d | None \<Rightarrow> None)"

text \<open>The map a table stands for: the first data put for an address stays until it is removed.\<close>

fun index_step :: "'d table_op \<Rightarrow> (u32 \<Rightarrow> 'd option option) \<Rightarrow> (u32 \<Rightarrow> 'd option option) \<times> 'd option" where
  "index_step (Put p malloc_ok a d) m = (if m a = None \<and> malloc_ok then m(a \<mapsto> d) else m, d)"
| "index_step (Lookup a) m = (m, pointer_or_null (m a))"
| "index_step (Remove a) m = (m(a := None), pointer_or_null (m a))"

fun index_run :: "'d table_op list \<Rightarrow> (u32 \<Rightarrow> 'd option option) \<Rightarrow> (u32 \<Rightarrow> 'd option option) \<times> 'd option list" where
  "index_run [] m = (m, [])"
| "index_run (x # xs) m =
     (let (m, out) = index_step x m; (m, outs) = index_run xs m in (m, out # outs))"

fun op_address :: "'d table_op \<Rightarrow> u32" where
  "op_address (Put p malloc_ok a d) = a"
| "op_address (Lookup a) = a"
| "op_address (Remove a) = a"

lemma table_find_contents:
  assumes "table_wf base T" "window base a"
  shows "table_find T a = pointer_or_null (contents T a)"
  using addresses.find_map [of base T "query a"] assms
  by (simp add: table_wf_def table_find_def query_def contents_offset [of T a base] pointer_or_null_def split: option.split)

lemma table_put_contents:
  assumes "table_wf base T" "window base a" "avl_count T < min_size AVL_MAX_HEIGHT"
  shows "\<exists>T'. table_put (Some p) malloc_ok T a d = Inr (T', d) \<and> table_wf base T' \<and>
    avl_count T' \<le> avl_count T + 1 \<and>
    contents T' = (if contents T a = None \<and> malloc_ok then (contents T)(a \<mapsto> d) else contents T)"
proof -
  let ?e = "\<lparr>entry_ptr = p, address = a, data = d\<rparr>" and ?m = "table_map (offset base) T"
  obtain T' where T': "avl_insert by_address malloc_ok T ?e = Inr (T', snd (map_step (offset base) (Insert malloc_ok ?e) ?m))"
    "avl_wf (offset base) (within base) T'" "avl_count T' \<le> avl_count T + 1"
    "table_map (offset base) T' = (if ?m (offset base ?e) = None \<and> malloc_ok then ?m(offset base ?e \<mapsto> ?e) else ?m)"
    using addresses.op_refines [of base T "Insert malloc_ok ?e"] assms by (auto simp: table_wf_def)
  have none: "contents T a = None \<longleftrightarrow> ?m (offset base ?e) = None" by (simp add: contents_offset [of T a base])
  have "contents T' = (if contents T a = None \<and> malloc_ok then (contents T)(a \<mapsto> d) else contents T)"
    using T'(4) contents_put [of base T' T ?e] contents_same [of base T' T] none by (simp split: if_splits)
  then show ?thesis using T'(1-3) by (simp add: table_put_def table_wf_def)
qed

lemma table_remove_contents:
  assumes "table_wf base T" "window base a" "avl_count T < min_size AVL_MAX_HEIGHT"
  shows "\<exists>T'. table_remove T a = Inr (T', pointer_or_null (contents T a)) \<and> table_wf base T' \<and>
    avl_count T' \<le> avl_count T \<and> contents T' = (contents T)(a := None)"
proof -
  let ?m = "table_map (offset base) T"
  obtain T' where T': "avl_delete by_address T (query a) = Inr (T', ?m (unat (a - base)))"
    "avl_wf (offset base) (within base) T'" "avl_count T' \<le> avl_count T"
    "table_map (offset base) T' = ?m(unat (a - base) := None)"
    using addresses.delete_map [of base T "query a"] assms by (auto simp: table_wf_def query_def)
  have "pointer_or_null (contents T a) = (case ?m (unat (a - base)) of Some e \<Rightarrow> data e | None \<Rightarrow> None)"
    by (simp add: contents_offset [of T a base] pointer_or_null_def split: option.split)
  then show ?thesis using T' contents_drop [OF T'(4)] by (simp add: table_remove_def table_wf_def)
qed

lemma table_step_refines:
  assumes "table_wf base T" "window base (op_address x)" "avl_count T < min_size AVL_MAX_HEIGHT"
  shows "\<exists>T'. table_step x T = Inr (T', snd (index_step x (contents T))) \<and> table_wf base T' \<and>
    avl_count T' \<le> avl_count T + 1 \<and> contents T' = fst (index_step x (contents T))"
proof (cases x)
  case (Put p malloc_ok a d)
  then show ?thesis using table_put_contents [of base T a p malloc_ok d] assms by auto
next
  case (Lookup a)
  then show ?thesis using table_find_contents assms by auto
next
  case (Remove a)
  then show ?thesis using table_remove_contents [of base T a] assms by auto
qed

lemma table_run_refines:
  "table_wf base T \<Longrightarrow> \<forall>x\<in>set xs. window base (op_address x) \<Longrightarrow>
   avl_count T + length xs \<le> min_size AVL_MAX_HEIGHT \<Longrightarrow>
   \<exists>T'. table_run xs T = Inr (T', snd (index_run xs (contents T))) \<and> table_wf base T' \<and>
     contents T' = fst (index_run xs (contents T))"
proof (induction xs arbitrary: T)
  case (Cons x xs)
  obtain T1 where T1: "table_step x T = Inr (T1, snd (index_step x (contents T)))" "table_wf base T1"
    "avl_count T1 \<le> avl_count T + 1" "contents T1 = fst (index_step x (contents T))"
    using table_step_refines [of base T x] Cons.prems by auto
  then show ?case using Cons.IH [of T1] Cons.prems by (auto simp: Let_def split: prod.split)
qed simp

lemma table_empty: "table_wf base avl_empty" "contents avl_empty = Map.empty" "avl_count (avl_empty :: 'd table) = 0"
  by (simp_all add: table_wf_def avl_empty_wf) (simp_all add: contents_def avl_empty_def items_map_Nil fun_eq_iff)

section \<open>Walking\<close>

fun walk_order :: "'d entry avl \<Rightarrow> (u32 \<times> 'd option) list" where
  "walk_order Tip = []"
| "walk_order (Nd l e b r) = (address e, data e) # walk_order l @ walk_order r"

lemma table_walk_fold: "table_walk T handler s = fold (\<lambda>(a, d). handler a d) (walk_order (avl_root T)) s"
proof -
  have "table_walk_r t handler s = fold (\<lambda>(a, d). handler a d) (walk_order t) s" for t
    by (induction t arbitrary: s) simp_all
  then show ?thesis by (simp add: table_walk_def)
qed

lemma walk_order_mset: "mset (walk_order t) = mset (map (\<lambda>e. (address e, data e)) (inorder t))"
  by (induction t) simp_all

lemma walk_order_set: "set (walk_order t) = (\<lambda>e. (address e, data e)) ` set (inorder t)"
  by (induction t) auto

lemma ascending_distinct: "ascending key xs \<Longrightarrow> distinct (map key xs)"
proof (induction xs)
  case (Cons x xs)
  then show ?case using apart_not_key(2) [of "set xs" "key x" key] by (simp add: ascending_Cons)
qed simp

lemma walk_order_distinct:
  assumes "table_wf base T"
  shows "distinct (map fst (walk_order (avl_root T)))"
proof -
  let ?es = "inorder (avl_root T)"
  have "distinct (map (offset base) ?es)" using assms ascending_distinct by (auto simp: table_wf_def avl_wf_def)
  then have "distinct (map address ?es)" by (simp add: distinct_map inj_on_def offset_inj)
  moreover have "mset (map fst (walk_order (avl_root T))) = mset (map address ?es)"
    using arg_cong [OF walk_order_mset, of "image_mset fst" "avl_root T"]
    by (simp add: multiset.map_comp comp_def)
  ultimately show ?thesis by (metis mset_eq_imp_distinct_iff)
qed

lemma walk_order_contents:
  assumes "table_wf base T"
  shows "(a, d) \<in> set (walk_order (avl_root T)) \<longleftrightarrow> contents T a = Some d"
proof -
  have asc: "ascending (offset base) (inorder (avl_root T))" using assms by (simp add: table_wf_def avl_wf_def)
  have "contents T a = Some d \<longleftrightarrow> (\<exists>e. items_map address (inorder (avl_root T)) a = Some e \<and> data e = d)"
    by (auto simp: contents_def)
  also have "\<dots> \<longleftrightarrow> (\<exists>e\<in>set (inorder (avl_root T)). address e = a \<and> data e = d)"
    unfolding items_by_offset [of base, symmetric] items_map_Some [OF asc] by (auto simp: offset_inj)
  finally show ?thesis by (auto simp: walk_order_set)
qed

end
