(* ===== verification/Log.thy ===== *)
theory Log
  imports GraphNetwork
begin

text \<open>
  \<open>Log.h\<close> and \<open>Log.c\<close>: the minimum level and the lines written to \<open>stderr\<close>. A message is passed
  with its arguments already formatted, as \<open>vfprintf\<close> prints it; the level is an \<open>unsigned int\<close>.
\<close>

record log_state =
  minLogLevel :: u32
  log_stream :: string

definition DEBUG :: u32 where "DEBUG = 0"
definition INFO :: u32 where "INFO = 10"
definition WARNING :: u32 where "WARNING = 20"
definition ERROR :: u32 where "ERROR = 30"

lemmas log_levels = DEBUG_def INFO_def WARNING_def ERROR_def

definition ANSI_COLOR_RED :: string where "ANSI_COLOR_RED = CHR 0x1B # ''[31m''"
definition ANSI_COLOR_YELLOW :: string where "ANSI_COLOR_YELLOW = CHR 0x1B # ''[33m''"
definition ANSI_COLOR_RESET :: string where "ANSI_COLOR_RESET = CHR 0x1B # ''[0m''"

definition log_init :: log_state where
  "log_init = \<lparr>minLogLevel = WARNING, log_stream = []\<rparr>"

definition log_setLevel :: "u32 \<Rightarrow> log_state \<Rightarrow> log_state" where
  "log_setLevel level s = s\<lparr>minLogLevel := level\<rparr>"

text \<open>\<open>%05u\<close>.\<close>

definition zero_padded :: "nat \<Rightarrow> string \<Rightarrow> string" where
  "zero_padded n s = replicate (n - length s) (CHR 0x30) @ s"

definition log_line :: "u32 \<Rightarrow> string \<Rightarrow> string" where
  "log_line level msg =
     (if ERROR \<le> level then ANSI_COLOR_RED @ ''[ERROR]'' @ [CHR 0x09]
      else if WARNING \<le> level then ANSI_COLOR_YELLOW @ ''[WARN ]'' @ [CHR 0x09]
      else if INFO \<le> level then ANSI_COLOR_RESET @ ''[INFO ]'' @ [CHR 0x09]
      else ANSI_COLOR_RESET @ ''['' @ zero_padded 5 (decimal (uint level)) @ '']'' @ [CHR 0x09])
     @ msg @ [CHR 0x0A] @ ANSI_COLOR_RESET"

definition log_vwrite :: "u32 \<Rightarrow> string \<Rightarrow> log_state \<Rightarrow> log_state" where
  "log_vwrite level msg s =
     (if level < minLogLevel s then s else s\<lparr>log_stream := log_stream s @ log_line level msg\<rparr>)"

definition log_write :: "u32 \<Rightarrow> string \<Rightarrow> log_state \<Rightarrow> log_state" where
  "log_write level msg s = log_vwrite level msg s"

definition log_debug :: "string \<Rightarrow> log_state \<Rightarrow> log_state" where
  "log_debug msg s = log_vwrite DEBUG msg s"

definition log_info :: "string \<Rightarrow> log_state \<Rightarrow> log_state" where
  "log_info msg s = log_vwrite INFO msg s"

definition log_warn :: "string \<Rightarrow> log_state \<Rightarrow> log_state" where
  "log_warn msg s = log_vwrite WARNING msg s"

definition log_error :: "string \<Rightarrow> log_state \<Rightarrow> log_state" where
  "log_error msg s = log_vwrite ERROR msg s"

lemmas log_defs = log_write_def log_debug_def log_info_def log_warn_def log_error_def

lemma log_vwrite_level [simp]: "minLogLevel (log_vwrite level msg s) = minLogLevel s"
  by (simp add: log_vwrite_def)

lemma log_vwrite_appends: "\<exists>line. log_stream (log_vwrite level msg s) = log_stream s @ line"
  by (simp add: log_vwrite_def)

end
