(* ===== verification/NodeTable.thy ===== *)
theory NodeTable
  imports Tables Log
begin

text \<open>
  \<open>NodeTable.h\<close> and \<open>NodeTable.c\<close>: the table of node contexts behind a mutex. A mutex is a bool,
  \<open>True\<close> while it is held; taking one that the same thread holds is \<open>Deadlock\<close>. The operations are
  those of one thread.
\<close>

section \<open>Locks and addresses in messages\<close>

definition pthread_mutex_lock :: "bool \<Rightarrow> bool result" where
  "pthread_mutex_lock held = (if held then Inl Deadlock else Inr True)"

text \<open>\<open>%08x\<close>.\<close>

definition hex08 :: "u32 \<Rightarrow> string" where
  "hex08 a = hex02 (ucast (drop_bit 24 a)) @ hex02 (ucast (drop_bit 16 a)) @ hex02 (ucast (drop_bit 8 a)) @ hex02 (ucast a)"

section \<open>The table\<close>

record 'd node_state =
  node_table :: "'d table option"
  node_table_mutex :: bool
  node_log :: log_state

definition node_table_init :: "bool \<Rightarrow> 'd node_state \<Rightarrow> 'd node_state" where
  "node_table_init malloc_ok s = s\<lparr>node_table := table_create malloc_ok, node_table_mutex := False\<rparr>"

text \<open>The functions of the AVL tree assert that the table is not null.\<close>

definition the_table :: "'d node_state \<Rightarrow> 'd table result" where
  "the_table s = (case node_table s of None \<Rightarrow> abort | Some T \<Rightarrow> Inr T)"

definition node_table_find :: "'d node_state \<Rightarrow> u32 \<Rightarrow> 'd option result" where
  "node_table_find s a = andThen (the_table s) (\<lambda>T. Inr (table_find T a))"

definition overwrite_warning :: "u32 \<Rightarrow> string" where
  "overwrite_warning a = ''New address '' @ hex08 a @ '' overwrites a previous context - remove old nodes first, ''
     @ ''otherwise linkage might break internally!''"

definition node_table_add ::
    "nat option \<Rightarrow> bool \<Rightarrow> 'd node_state \<Rightarrow> u32 \<Rightarrow> 'd option \<Rightarrow> 'd node_state result" where
  "node_table_add newEntry malloc_ok s a context =
     andThen (pthread_mutex_lock (node_table_mutex s)) (\<lambda>held.
     let s = s\<lparr>node_table_mutex := held\<rparr> in
     andThen (node_table_find s a) (\<lambda>oldContext.
     let s = (if oldContext \<noteq> None then s\<lparr>node_log := log_warn (overwrite_warning a) (node_log s)\<rparr> else s) in
     andThen (the_table s) (\<lambda>T.
     andThen (table_put newEntry malloc_ok T a context) (\<lambda>(T, _).
     Inr (s\<lparr>node_table := Some T, node_table_mutex := False\<rparr>)))))"

definition node_table_remove :: "'d node_state \<Rightarrow> u32 \<Rightarrow> ('d node_state \<times> 'd option) result" where
  "node_table_remove s a =
     andThen (pthread_mutex_lock (node_table_mutex s)) (\<lambda>held.
     andThen (the_table s) (\<lambda>T.
     andThen (table_remove T a) (\<lambda>(T, context).
     Inr (s\<lparr>node_table := Some T, node_table_mutex := False\<rparr>, context))))"

definition node_table_walk :: "'d node_state \<Rightarrow> (u32 \<Rightarrow> 'd option \<Rightarrow> 's \<Rightarrow> 's) \<Rightarrow> 's \<Rightarrow> 's result" where
  "node_table_walk s handler x =
     (case node_table s of None \<Rightarrow> Inl NullDeref | Some T \<Rightarrow> Inr (table_walk T handler x))"

section \<open>What adding, removing and finding do\<close>

definition node_wf :: "u32 \<Rightarrow> 'd node_state \<Rightarrow> bool" where
  "node_wf base s \<longleftrightarrow> \<not> node_table_mutex s \<and> (\<exists>T. node_table s = Some T \<and> table_wf base T)"

definition node_contents :: "'d node_state \<Rightarrow> u32 \<Rightarrow> 'd option option" where
  "node_contents s = (case node_table s of None \<Rightarrow> Map.empty | Some T \<Rightarrow> contents T)"

definition node_count :: "'d node_state \<Rightarrow> nat" where
  "node_count s = (case node_table s of None \<Rightarrow> 0 | Some T \<Rightarrow> avl_count T)"

lemma node_init_wf:
  "node_wf base (node_table_init True s)" "node_contents (node_table_init True s) = Map.empty"
  "node_count (node_table_init True s) = 0"
  by (simp_all add: node_wf_def node_contents_def node_count_def node_table_init_def table_create_def
      avl_create_def table_empty)

lemma node_find_contents:
  "node_wf base s \<Longrightarrow> window base a \<Longrightarrow> node_table_find s a = Inr (pointer_or_null (node_contents s a))"
  by (auto simp: node_wf_def node_table_find_def the_table_def node_contents_def table_find_contents)

lemma node_add_contents:
  assumes "node_wf base s" "window base a" "node_count s < min_size AVL_MAX_HEIGHT"
  shows "\<exists>s'. node_table_add (Some p) malloc_ok s a c = Inr s' \<and> node_wf base s' \<and>
    node_count s' \<le> node_count s + 1 \<and>
    node_contents s' = (if node_contents s a = None \<and> malloc_ok then (node_contents s)(a \<mapsto> c) else node_contents s) \<and>
    node_log s' = (if pointer_or_null (node_contents s a) \<noteq> None then log_warn (overwrite_warning a) (node_log s)
                   else node_log s)"
proof -
  obtain T where T: "node_table s = Some T" "table_wf base T" "\<not> node_table_mutex s"
    using assms(1) by (auto simp: node_wf_def)
  obtain T' where T': "table_put (Some p) malloc_ok T a c = Inr (T', c)" "table_wf base T'"
    "avl_count T' \<le> avl_count T + 1"
    "contents T' = (if contents T a = None \<and> malloc_ok then (contents T)(a \<mapsto> c) else contents T)"
    using table_put_contents [OF T(2) assms(2), of p malloc_ok c] assms(3) T(1) by (auto simp: node_count_def)
  have find: "table_find T a = pointer_or_null (contents T a)" by (rule table_find_contents [OF T(2) assms(2)])
  show ?thesis
    using T T'(1-3) find
    by (simp add: node_table_add_def pthread_mutex_lock_def node_table_find_def the_table_def Let_def
        node_wf_def node_contents_def node_count_def T'(4))
qed

lemma node_remove_contents:
  assumes "node_wf base s" "window base a" "node_count s < min_size AVL_MAX_HEIGHT"
  shows "\<exists>s'. node_table_remove s a = Inr (s', pointer_or_null (node_contents s a)) \<and> node_wf base s' \<and>
    node_count s' \<le> node_count s \<and> node_contents s' = (node_contents s)(a := None) \<and> node_log s' = node_log s"
proof -
  obtain T where T: "node_table s = Some T" "table_wf base T" "\<not> node_table_mutex s"
    using assms(1) by (auto simp: node_wf_def)
  obtain T' where T': "table_remove T a = Inr (T', pointer_or_null (contents T a))" "table_wf base T'"
    "avl_count T' \<le> avl_count T" "contents T' = (contents T)(a := None)"
    using table_remove_contents [OF T(2) assms(2)] assms(3) T(1) by (auto simp: node_count_def)
  show ?thesis
    using T T' by (simp add: node_table_remove_def pthread_mutex_lock_def the_table_def node_wf_def
        node_contents_def node_count_def)
qed

end
