(* ===== verification/Forward.thy ===== *)
theory Forward
  imports NodeTable
begin

text \<open>
  \<open>ForwardTable.h\<close> and \<open>ForwardTable.c\<close>: the edges from each source address, in a table behind a
  mutex, each entry with a policy, a list of edges and a mutex of its own.

  The entries (\<open>forward_t\<close>) are objects of a heap, so that an access to a freed entry is
  \<open>UseAfterFree\<close>; the index table holds their addresses. The chain of edges of an entry is a list,
  each edge with the address \<open>malloc\<close> gave it; removed edges are never freed by the code and just
  leave the list. \<open>malloc\<close> hands out increasing addresses and fails when its argument says so. The
  operations are those of one thread: a mutex that is taken twice is \<open>Deadlock\<close>.
\<close>

section \<open>State\<close>

record edge =
  edge_ptr :: nat
  target :: u32
  edge_context :: "nat option"

record forward =
  forward_policy :: int
  edgeList :: "edge list"
  listLock :: bool
  round_robin_ref :: "nat option"

record forward_state =
  forward_table :: "nat table option"
  forward_table_lock :: bool
  forwards :: "nat \<Rightarrow> forward option"
  next_ptr :: nat
  forward_stdout :: string
  forward_log :: log_state

definition the_forwards :: "forward_state \<Rightarrow> nat table result" where
  "the_forwards s = (case forward_table s of None \<Rightarrow> abort | Some T \<Rightarrow> Inr T)"

definition entry_at :: "nat \<Rightarrow> forward_state \<Rightarrow> forward result" where
  "entry_at p s = (case forwards s p of None \<Rightarrow> Inl UseAfterFree | Some f \<Rightarrow> Inr f)"

definition set_entry :: "nat \<Rightarrow> forward \<Rightarrow> forward_state \<Rightarrow> forward_state" where
  "set_entry p f s = s\<lparr>forwards := (forwards s)(p \<mapsto> f)\<rparr>"

definition malloc_forward :: "bool \<Rightarrow> forward_state \<Rightarrow> (nat \<times> forward_state) result" where
  "malloc_forward ok s = (if ok then Inr (next_ptr s, s\<lparr>next_ptr := next_ptr s + 1\<rparr>) else Inl NullDeref)"

definition free_forward :: "nat \<Rightarrow> forward_state \<Rightarrow> forward_state" where
  "free_forward p s = s\<lparr>forwards := (forwards s)(p := None)\<rparr>"

definition say :: "string \<Rightarrow> forward_state \<Rightarrow> forward_state" where
  "say msg s = s\<lparr>forward_stdout := forward_stdout s @ msg\<rparr>"

definition warn :: "string \<Rightarrow> forward_state \<Rightarrow> forward_state" where
  "warn msg s = s\<lparr>forward_log := log_warn msg (forward_log s)\<rparr>"

definition err :: "string \<Rightarrow> forward_state \<Rightarrow> forward_state" where
  "err msg s = s\<lparr>forward_log := log_error msg (forward_log s)\<rparr>"

section \<open>Edges of an entry\<close>

fun find_edge_to :: "edge list \<Rightarrow> u32 \<Rightarrow> edge option" where
  "find_edge_to [] t = None"
| "find_edge_to (e # es) t = (if target e = t then Some e else find_edge_to es t)"

definition prepend_edge :: "nat \<Rightarrow> edge \<Rightarrow> forward_state \<Rightarrow> forward_state result" where
  "prepend_edge p e s =
     andThen (entry_at p s) (\<lambda>f.
     andThen (pthread_mutex_lock (listLock f)) (\<lambda>_.
     let s = say (''Adding edge to entry...'' @ [CHR 0x0A]) s in
     Inr (set_entry p (f\<lparr>edgeList := e # edgeList f, listLock := False\<rparr>) s)))"

text \<open>The chain without the edge: it is unlinked from the node before it.\<close>

fun unlink_edge :: "nat \<Rightarrow> edge list \<Rightarrow> edge list option" where
  "unlink_edge p [] = None"
| "unlink_edge p [e] = None"
| "unlink_edge p (e # e' # es) =
     (if edge_ptr e' = p then Some (e # es) else map_option ((#) e) (unlink_edge p (e' # es)))"

definition remove_edge :: "nat \<Rightarrow> edge \<Rightarrow> forward_state \<Rightarrow> (forward_state \<times> bool) result" where
  "remove_edge p e s =
     andThen (entry_at p s) (\<lambda>f.
     andThen (pthread_mutex_lock (listLock f)) (\<lambda>_.
     let f = (if round_robin_ref f = Some (edge_ptr e) then f\<lparr>round_robin_ref := None\<rparr> else f) in
     case edgeList f of
       h # es \<Rightarrow>
         if edge_ptr h = edge_ptr e then Inr (set_entry p (f\<lparr>edgeList := es, listLock := False\<rparr>) s, True)
         else
           (case unlink_edge (edge_ptr e) (edgeList f) of
              Some es \<Rightarrow> Inr (set_entry p (f\<lparr>edgeList := es, listLock := False\<rparr>) s, True)
            | None \<Rightarrow>
                Inr (warn (''Unable to find an edge to ['' @ hex08 (target e) @ '']'')
                      (set_entry p (f\<lparr>listLock := False\<rparr>) s), False))
     | [] \<Rightarrow>
         Inr (warn (''Unable to find an edge to ['' @ hex08 (target e) @ '']'')
               (set_entry p (f\<lparr>listLock := False\<rparr>) s), False)))"

section \<open>The table\<close>

definition forward_table_init :: "bool \<Rightarrow> forward_state \<Rightarrow> forward_state" where
  "forward_table_init malloc_ok s = s\<lparr>forward_table := table_create malloc_ok, forward_table_lock := False\<rparr>"

definition forward_table_get_iterator ::
    "u32 \<Rightarrow> forward_state \<Rightarrow> (forward_state \<times> edge list) result" where
  "forward_table_get_iterator source s =
     andThen (the_forwards s) (\<lambda>T.
     case table_find T source of
       None \<Rightarrow> Inr (err (''Refusing to grant an iterator lock on a non-existent entry! ['' @ hex08 source @ '']'') s, [])
     | Some p \<Rightarrow>
         andThen (entry_at p s) (\<lambda>f.
         andThen (pthread_mutex_lock (listLock f)) (\<lambda>held.
         Inr (set_entry p (f\<lparr>listLock := held\<rparr>) s, edgeList f))))"

definition forward_table_release_iterator :: "u32 \<Rightarrow> forward_state \<Rightarrow> forward_state result" where
  "forward_table_release_iterator source s =
     andThen (the_forwards s) (\<lambda>T.
     case table_find T source of
       None \<Rightarrow> Inr (err (''Attempted to release an interator for an unknown forward_table entry? [''
                 @ hex08 source @ '']'') s)
     | Some p \<Rightarrow> andThen (entry_at p s) (\<lambda>f. Inr (set_entry p (f\<lparr>listLock := False\<rparr>) s)))"

text \<open>The flags say which of the four \<open>malloc\<close> calls succeed: entry, index entry, tree node, edge.\<close>

definition forward_table_add_edge ::
    "bool \<times> bool \<times> bool \<times> bool \<Rightarrow> u32 \<Rightarrow> u32 \<Rightarrow> forward_state \<Rightarrow> forward_state result" where
  "forward_table_add_edge oks source tgt s =
     (case oks of (entry_ok, index_ok, node_ok, edge_ok) \<Rightarrow>
     andThen (pthread_mutex_lock (forward_table_lock s)) (\<lambda>held.
     let s = s\<lparr>forward_table_lock := held\<rparr> in
     andThen (the_forwards s) (\<lambda>T.
     andThen
       (case table_find T source of
          Some p \<Rightarrow> Inr (p, s)
        | None \<Rightarrow>
            let s = say (''No entry, making a new one'' @ [CHR 0x0A]) s in
            andThen (malloc_forward entry_ok s) (\<lambda>(p, s).
            let s = set_entry p \<lparr>forward_policy = uint GNW_POLICY_BROADCAST, edgeList = [], listLock = False,
                      round_robin_ref = None\<rparr> s in
            andThen (malloc_forward index_ok s) (\<lambda>(q, s).
            andThen (table_put (Some q) node_ok T source (Some p)) (\<lambda>(T, _).
            Inr (p, s\<lparr>forward_table := Some T\<rparr>))))) (\<lambda>(p, s).
     let s = say (''Making a new edge ['' @ hex08 source @ ''] -> ['' @ hex08 tgt @ '']'' @ [CHR 0x0A]) s in
     andThen (malloc_forward edge_ok s) (\<lambda>(q, s).
     andThen (prepend_edge p \<lparr>edge_ptr = q, target = tgt, edge_context = None\<rparr> s) (\<lambda>s.
     Inr (s\<lparr>forward_table_lock := False\<rparr>)))))))"

definition nonexistent_edge :: "u32 \<Rightarrow> u32 \<Rightarrow> string" where
  "nonexistent_edge source tgt =
     ''Tried to remove a nonexistent edge ['' @ hex08 source @ ''] -> ['' @ hex08 tgt @ ''], did nothing.''"

definition forward_table_remove_edge :: "u32 \<Rightarrow> u32 \<Rightarrow> forward_state \<Rightarrow> forward_state result" where
  "forward_table_remove_edge source tgt s =
     andThen (pthread_mutex_lock (forward_table_lock s)) (\<lambda>held.
     let s = s\<lparr>forward_table_lock := held\<rparr> in
     andThen (the_forwards s) (\<lambda>T.
     case table_find T source of
       None \<Rightarrow> Inr ((warn (nonexistent_edge source tgt) s)\<lparr>forward_table_lock := False\<rparr>)
     | Some p \<Rightarrow>
         andThen (entry_at p s) (\<lambda>f.
         case find_edge_to (edgeList f) tgt of
           None \<Rightarrow> Inr ((warn (nonexistent_edge source tgt) s)\<lparr>forward_table_lock := False\<rparr>)
         | Some e \<Rightarrow>
             andThen (remove_edge p e s) (\<lambda>(s, _).
             andThen (entry_at p s) (\<lambda>f.
             andThen (pthread_mutex_lock (listLock f)) (\<lambda>held.
             let s = set_entry p (f\<lparr>listLock := held\<rparr>) s in
             if edgeList f = [] then
               andThen (table_remove T source) (\<lambda>(T, _).
               Inr ((free_forward p (s\<lparr>forward_table := Some T\<rparr>))\<lparr>forward_table_lock := False\<rparr>))
             else Inr (s\<lparr>forward_table_lock := False\<rparr>)))))))"

definition forward_table_find :: "u32 \<Rightarrow> forward_state \<Rightarrow> nat option result" where
  "forward_table_find source s = andThen (the_forwards s) (\<lambda>T. Inr (table_find T source))"

text \<open>
  The loop of \<open>forward_table_remove\<close>, which takes one edge off at each turn; \<open>remove_edge\<close> takes the
  lock of the entry again.
\<close>

fun remove_all :: "nat \<Rightarrow> nat \<Rightarrow> forward_state \<Rightarrow> forward_state result" where
  "remove_all 0 p s = Inl Diverges"
| "remove_all (Suc n) p s =
     andThen (entry_at p s) (\<lambda>f.
     case edgeList f of
       [] \<Rightarrow> Inr s
     | e # _ \<Rightarrow> andThen (remove_edge p e s) (\<lambda>(s, _). remove_all n p s))"

definition forward_table_remove :: "u32 \<Rightarrow> forward_state \<Rightarrow> forward_state result" where
  "forward_table_remove source s =
     andThen (pthread_mutex_lock (forward_table_lock s)) (\<lambda>held.
     let s = s\<lparr>forward_table_lock := held\<rparr> in
     andThen (the_forwards s) (\<lambda>T.
     case table_find T source of
       None \<Rightarrow> Inl NullDeref
     | Some p \<Rightarrow>
         andThen (entry_at p s) (\<lambda>f.
         andThen (pthread_mutex_lock (listLock f)) (\<lambda>held.
         andThen (remove_all (Suc (length (edgeList f))) p (set_entry p (f\<lparr>listLock := held\<rparr>) s)) (\<lambda>s.
         andThen (table_remove T source) (\<lambda>(T, _).
         Inr ((free_forward p (s\<lparr>forward_table := Some T\<rparr>))\<lparr>forward_table_lock := False\<rparr>)))))))"

end
