(* ===== verification/ForwardSpec.thy ===== *)
theory ForwardSpec
  imports Forward Machine
begin

text \<open>
  The forward table as a graph: for each source the targets of its edges and whether the mutex of the
  entry is held. \<open>forward_run_graph\<close>: any run of the operations does to the table what
  \<open>graph_step\<close> does to the graph, the deadlocks included.
\<close>

section \<open>The graph\<close>

type_synonym graph = "u32 \<Rightarrow> (u32 list \<times> bool) option"

datatype graph_op = AddEdge u32 u32 | RemoveEdge u32 u32 | GetIterator u32 | ReleaseIterator u32 | RemoveSource u32

text \<open>
  Removing an edge takes the mutex of the entry and, when other edges remain, keeps it. Removing a
  source never succeeds.
\<close>

fun graph_step :: "graph_op \<Rightarrow> graph \<Rightarrow> graph result" where
  "graph_step (AddEdge a t) g =
     (case g a of
        None \<Rightarrow> Inr (g(a \<mapsto> ([t], False)))
      | Some (ts, held) \<Rightarrow> if held then Inl Deadlock else Inr (g(a \<mapsto> (t # ts, False))))"
| "graph_step (RemoveEdge a t) g =
     (case g a of
        None \<Rightarrow> Inr g
      | Some (ts, held) \<Rightarrow>
          if t \<notin> set ts then Inr g
          else if held then Inl Deadlock
          else if remove1 t ts = [] then Inr (g(a := None))
          else Inr (g(a \<mapsto> (remove1 t ts, True))))"
| "graph_step (GetIterator a) g =
     (case g a of
        None \<Rightarrow> Inr g
      | Some (ts, held) \<Rightarrow> if held then Inl Deadlock else Inr (g(a \<mapsto> (ts, True))))"
| "graph_step (ReleaseIterator a) g =
     (case g a of None \<Rightarrow> Inr g | Some (ts, held) \<Rightarrow> Inr (g(a \<mapsto> (ts, False))))"
| "graph_step (RemoveSource a) g = (case g a of None \<Rightarrow> Inl NullDeref | Some _ \<Rightarrow> Inl Deadlock)"

abbreviation graph_run :: "graph_op list \<Rightarrow> graph \<Rightarrow> graph result" where
  "graph_run \<equiv> exec graph_step"

fun forward_step :: "graph_op \<Rightarrow> forward_state \<Rightarrow> forward_state result" where
  "forward_step (AddEdge a t) s = forward_table_add_edge (True, True, True, True) a t s"
| "forward_step (RemoveEdge a t) s = forward_table_remove_edge a t s"
| "forward_step (GetIterator a) s = andThen (forward_table_get_iterator a s) (\<lambda>(s, _). Inr s)"
| "forward_step (ReleaseIterator a) s = forward_table_release_iterator a s"
| "forward_step (RemoveSource a) s = forward_table_remove a s"

abbreviation forward_run :: "graph_op list \<Rightarrow> forward_state \<Rightarrow> forward_state result" where
  "forward_run \<equiv> exec forward_step"

fun op_source :: "graph_op \<Rightarrow> u32" where
  "op_source (AddEdge a t) = a"
| "op_source (RemoveEdge a t) = a"
| "op_source (GetIterator a) = a"
| "op_source (ReleaseIterator a) = a"
| "op_source (RemoveSource a) = a"

section \<open>The invariant\<close>

definition entry_ok :: "nat \<Rightarrow> forward \<Rightarrow> bool" where
  "entry_ok n f \<longleftrightarrow> edgeList f \<noteq> [] \<and> distinct (map edge_ptr (edgeList f)) \<and> (\<forall>e\<in>set (edgeList f). edge_ptr e < n)"

definition linked :: "(u32 \<Rightarrow> nat option option) \<Rightarrow> forward_state \<Rightarrow> bool" where
  "linked m s \<longleftrightarrow> (\<forall>a v. m a = Some v \<longrightarrow> (\<exists>p f. v = Some p \<and> p < next_ptr s \<and> forwards s p = Some f \<and> entry_ok (next_ptr s) f)) \<and>
     (\<forall>a b v. m a = Some v \<longrightarrow> m b = Some v \<longrightarrow> a = b)"

definition forward_wf :: "u32 \<Rightarrow> forward_state \<Rightarrow> bool" where
  "forward_wf base s \<longleftrightarrow> \<not> forward_table_lock s \<and>
     (\<exists>T. forward_table s = Some T \<and> table_wf base T \<and> linked (contents T) s)"

definition edges_of :: "forward_state \<Rightarrow> nat option option \<Rightarrow> (u32 list \<times> bool) option" where
  "edges_of s v = (case v of Some (Some p) \<Rightarrow> map_option (\<lambda>f. (map target (edgeList f), listLock f)) (forwards s p) | _ \<Rightarrow> None)"

definition graph_of :: "forward_state \<Rightarrow> graph" where
  "graph_of s = (\<lambda>a. case forward_table s of None \<Rightarrow> None | Some T \<Rightarrow> edges_of s (contents T a))"

definition source_count :: "forward_state \<Rightarrow> nat" where
  "source_count s = (case forward_table s of None \<Rightarrow> 0 | Some T \<Rightarrow> avl_count T)"

text \<open>Messages change neither.\<close>

lemma say_frame [simp]:
  "forward_table (say m s) = forward_table s" "forward_table_lock (say m s) = forward_table_lock s"
  "forwards (say m s) = forwards s" "next_ptr (say m s) = next_ptr s"
  by (simp_all add: say_def)

lemma warn_frame [simp]:
  "forward_table (warn m s) = forward_table s" "forward_table_lock (warn m s) = forward_table_lock s"
  "forwards (warn m s) = forwards s" "next_ptr (warn m s) = next_ptr s"
  by (simp_all add: warn_def)

lemma err_frame [simp]:
  "forward_table (err m s) = forward_table s" "forward_table_lock (err m s) = forward_table_lock s"
  "forwards (err m s) = forwards s" "next_ptr (err m s) = next_ptr s"
  by (simp_all add: err_def)

lemma set_entry_frame [simp]:
  "forward_table (set_entry p f s) = forward_table s" "forward_table_lock (set_entry p f s) = forward_table_lock s"
  "forwards (set_entry p f s) = (forwards s)(p \<mapsto> f)" "next_ptr (set_entry p f s) = next_ptr s"
  by (simp_all add: set_entry_def)

section \<open>Edges\<close>

lemma find_edge_to_None: "find_edge_to es t = None \<longleftrightarrow> t \<notin> target ` set es"
  by (induction es) auto

lemma find_edge_to_Some: "find_edge_to es t = Some e \<Longrightarrow> e \<in> set es \<and> target e = t"
  by (induction es) (auto split: if_splits)

definition take_out :: "nat \<Rightarrow> edge list \<Rightarrow> edge list option" where
  "take_out p es = (case es of [] \<Rightarrow> None | h # es' \<Rightarrow> if edge_ptr h = p then Some es' else unlink_edge p es)"

lemma unlink_take_out: "unlink_edge p (e # es) = map_option ((#) e) (take_out p es)"
  by (cases es) (simp_all add: take_out_def)

lemma take_out_first:
  "find_edge_to es t = Some e \<Longrightarrow> distinct (map edge_ptr es) \<Longrightarrow>
   \<exists>es'. take_out (edge_ptr e) es = Some es' \<and> map target es' = remove1 t (map target es) \<and>
     set es' \<subseteq> set es \<and> distinct (map edge_ptr es')"
proof (induction es)
  case (Cons h es)
  show ?case
  proof (cases "target h = t")
    case True
    then show ?thesis using Cons.prems by (auto simp: take_out_def)
  next
    case False
    then have found: "find_edge_to es t = Some e" using Cons.prems(1) by simp
    then have "edge_ptr h \<noteq> edge_ptr e" using Cons.prems(2) find_edge_to_Some [OF found] by auto
    moreover obtain es' where "take_out (edge_ptr e) es = Some es'" "map target es' = remove1 t (map target es)"
      "set es' \<subseteq> set es" "distinct (map edge_ptr es')"
      using Cons.IH [OF found] Cons.prems(2) by auto
    ultimately show ?thesis using False Cons.prems(2)
      by (auto simp: take_out_def unlink_take_out)
  qed
qed simp

lemma remove_edge_found:
  assumes "forwards s p = Some f" "\<not> listLock f" "find_edge_to (edgeList f) t = Some e"
    "distinct (map edge_ptr (edgeList f))"
  shows "\<exists>f'. remove_edge p e s = Inr (set_entry p f' s, True) \<and> \<not> listLock f' \<and>
    map target (edgeList f') = remove1 t (map target (edgeList f)) \<and> set (edgeList f') \<subseteq> set (edgeList f) \<and>
    distinct (map edge_ptr (edgeList f'))"
proof -
  obtain es' where es': "take_out (edge_ptr e) (edgeList f) = Some es'"
    "map target es' = remove1 t (map target (edgeList f))" "set es' \<subseteq> set (edgeList f)" "distinct (map edge_ptr es')"
    using take_out_first [OF assms(3,4)] by blast
  let ?f = "if round_robin_ref f = Some (edge_ptr e) then f\<lparr>round_robin_ref := None\<rparr> else f"
  have el: "edgeList ?f = edgeList f" by simp
  have "remove_edge p e s = Inr (set_entry p (?f\<lparr>edgeList := es', listLock := False\<rparr>) s, True)"
  proof (cases "edgeList f")
    case Nil
    then show ?thesis using assms(3) by simp
  next
    case (Cons h es)
    then show ?thesis
      using es'(1) assms(1,2) el
      by (cases "edge_ptr h = edge_ptr e")
        (simp_all add: remove_edge_def entry_at_def pthread_mutex_lock_def Let_def take_out_def)
  qed
  then show ?thesis using es'(2-4) by (intro exI [of _ "?f\<lparr>edgeList := es', listLock := False\<rparr>"]) simp
qed

section \<open>Changing one entry\<close>

lemma linkedD: "linked m s \<Longrightarrow> m a = Some v \<Longrightarrow>
   \<exists>p f. v = Some p \<and> p < next_ptr s \<and> forwards s p = Some f \<and> entry_ok (next_ptr s) f"
  by (simp add: linked_def)

lemma linked_inj: "linked m s \<Longrightarrow> m a = Some v \<Longrightarrow> m b = Some v \<Longrightarrow> a = b"
  unfolding linked_def by blast

lemma entry_ok_mono: "entry_ok n f \<Longrightarrow> n \<le> n' \<Longrightarrow> entry_ok n' f"
  by (auto simp: entry_ok_def)

lemma linked_frame:
  "linked m s \<Longrightarrow> forwards s' = forwards s \<Longrightarrow> next_ptr s' = next_ptr s \<Longrightarrow> linked m s'"
  by (simp add: linked_def)

lemma linked_touch:
  assumes "linked m s" "m a = Some (Some p)" "forwards s' = (forwards s)(p \<mapsto> f)" "next_ptr s \<le> next_ptr s'"
    "entry_ok (next_ptr s') f"
  shows "linked m s'"
  unfolding linked_def
proof (intro conjI allI impI)
  fix b v
  assume b: "m b = Some v"
  obtain q h where q: "v = Some q" "q < next_ptr s" "forwards s q = Some h" "entry_ok (next_ptr s) h"
    using linkedD [OF assms(1) b] by blast
  then show "\<exists>p f. v = Some p \<and> p < next_ptr s' \<and> forwards s' p = Some f \<and> entry_ok (next_ptr s') f"
    using assms(3-5) entry_ok_mono [OF q(4) assms(4)] by (cases "q = p") auto
qed (use linked_inj [OF assms(1)] in blast)

lemma graph_frame: "forward_table s' = forward_table s \<Longrightarrow> forwards s' = forwards s \<Longrightarrow> graph_of s' = graph_of s"
  by (simp add: graph_of_def edges_of_def fun_eq_iff split: option.split)

lemma graph_touch:
  assumes "linked (contents T) s" "contents T a = Some (Some p)" "forward_table s = Some T"
    "forward_table s' = Some T" "forwards s' = (forwards s)(p \<mapsto> f)"
  shows "graph_of s' = (graph_of s)(a \<mapsto> (map target (edgeList f), listLock f))"
proof
  fix b
  have "b = a \<or> contents T b \<noteq> Some (Some p)" using linked_inj [OF assms(1,2)] by blast
  then show "graph_of s' b = ((graph_of s)(a \<mapsto> (map target (edgeList f), listLock f))) b"
    using assms(2-5) by (auto simp: graph_of_def edges_of_def split: option.split)
qed

lemma linked_grow:
  assumes "linked (contents T) s" "contents T' = (contents T)(a \<mapsto> Some (next_ptr s))"
    "forwards s' = (forwards s)(next_ptr s \<mapsto> f)" "next_ptr s < next_ptr s'" "entry_ok (next_ptr s') f"
  shows "linked (contents T') s'"
  unfolding linked_def
proof (intro conjI allI impI)
  fix b v
  assume b: "contents T' b = Some v"
  show "\<exists>p f. v = Some p \<and> p < next_ptr s' \<and> forwards s' p = Some f \<and> entry_ok (next_ptr s') f"
  proof (cases "b = a")
    case True
    then show ?thesis using b assms by (intro exI [of _ "next_ptr s"] exI [of _ f]) simp
  next
    case False
    then obtain q h where "v = Some q" "q < next_ptr s" "forwards s q = Some h" "entry_ok (next_ptr s) h"
      using b assms(2) linkedD [OF assms(1)] by fastforce
    then show ?thesis using assms(3,4) entry_ok_mono [of "next_ptr s" h "next_ptr s'"] by simp
  qed
next
  have new: "contents T b \<noteq> Some (Some (next_ptr s))" for b
    using linkedD [OF assms(1), of b "Some (next_ptr s)"] by auto
  fix b c v
  assume "contents T' b = Some v" "contents T' c = Some v"
  then show "b = c" using assms(2) new linked_inj [OF assms(1), of b v c] by (auto split: if_splits)
qed

lemma graph_grow:
  assumes "linked (contents T) s" "contents T' = (contents T)(a \<mapsto> Some (next_ptr s))"
    "forward_table s = Some T" "forward_table s' = Some T'" "forwards s' = (forwards s)(next_ptr s \<mapsto> f)"
  shows "graph_of s' = (graph_of s)(a \<mapsto> (map target (edgeList f), listLock f))"
proof
  fix b
  have "contents T b \<noteq> Some (Some (next_ptr s))"
    using linkedD [OF assms(1), of b "Some (next_ptr s)"] by auto
  then show "graph_of s' b = ((graph_of s)(a \<mapsto> (map target (edgeList f), listLock f))) b"
    using assms(2-5) by (auto simp: graph_of_def edges_of_def split: option.split)
qed

lemma linked_shrink:
  assumes "linked (contents T) s" "contents T a = Some (Some p)" "contents T' = (contents T)(a := None)"
    "forwards s' = (forwards s)(p := None)" "next_ptr s' = next_ptr s"
  shows "linked (contents T') s'"
  unfolding linked_def
proof (intro conjI allI impI)
  fix b v
  assume b: "contents T' b = Some v"
  then have ob: "contents T b = Some v" "b \<noteq> a" using assms(3) by (auto split: if_splits)
  obtain q h where q: "v = Some q" "q < next_ptr s" "forwards s q = Some h" "entry_ok (next_ptr s) h"
    using linkedD [OF assms(1) ob(1)] by blast
  have "q \<noteq> p" using linked_inj [OF assms(1,2)] ob q(1) by blast
  then show "\<exists>p f. v = Some p \<and> p < next_ptr s' \<and> forwards s' p = Some f \<and> entry_ok (next_ptr s') f"
    using q assms(4,5) by simp
next
  fix b c v
  assume "contents T' b = Some v" "contents T' c = Some v"
  then show "b = c" using assms(3) linked_inj [OF assms(1), of b v c] by (auto split: if_splits)
qed

lemma graph_shrink:
  assumes "linked (contents T) s" "contents T a = Some (Some p)" "contents T' = (contents T)(a := None)"
    "forward_table s = Some T" "forward_table s' = Some T'" "forwards s' = (forwards s)(p := None)"
  shows "graph_of s' = (graph_of s)(a := None)"
proof
  fix b
  have "b = a \<or> contents T b \<noteq> Some (Some p)" using linked_inj [OF assms(1,2)] by blast
  then show "graph_of s' b = ((graph_of s)(a := None)) b"
    using assms(3-6) by (auto simp: graph_of_def edges_of_def split: option.split)
qed

section \<open>One operation\<close>

text \<open>The entry of a source, if any.\<close>

lemma source_entry:
  assumes "forward_wf base s" "window base a"
  obtains (none) T where "forward_table s = Some T" "table_wf base T" "linked (contents T) s" "\<not> forward_table_lock s"
      "table_find T a = None" "contents T a = None" "graph_of s a = None"
  | (entry) T p f where "forward_table s = Some T" "table_wf base T" "linked (contents T) s" "\<not> forward_table_lock s"
      "table_find T a = Some p" "contents T a = Some (Some p)" "p < next_ptr s" "forwards s p = Some f"
      "entry_ok (next_ptr s) f" "graph_of s a = Some (map target (edgeList f), listLock f)"
proof -
  obtain T where T: "forward_table s = Some T" "table_wf base T" "linked (contents T) s" "\<not> forward_table_lock s"
    using assms(1) by (auto simp: forward_wf_def)
  have find: "table_find T a = pointer_or_null (contents T a)" by (rule table_find_contents [OF T(2) assms(2)])
  show thesis
  proof (cases "contents T a")
    case None
    then show thesis using none [OF T] find T(1) by (simp add: pointer_or_null_def graph_of_def edges_of_def)
  next
    case (Some v)
    then obtain p f where p: "v = Some p" "p < next_ptr s" "forwards s p = Some f" "entry_ok (next_ptr s) f"
      using linkedD [OF T(3)] by blast
    then show thesis using entry [OF T, of p f] find Some T(1)
      by (simp add: pointer_or_null_def graph_of_def edges_of_def)
  qed
qed

text \<open>An operation that leaves the table as it is, or changes one entry of it.\<close>

definition agrees :: "u32 \<Rightarrow> forward_state \<Rightarrow> graph \<Rightarrow> forward_state \<Rightarrow> bool" where
  "agrees base s g s' \<longleftrightarrow> forward_wf base s' \<and> graph_of s' = g \<and> source_count s' \<le> source_count s + 1"

lemma agrees_frame:
  assumes "forward_wf base s" "forward_table s' = forward_table s" "forwards s' = forwards s"
    "next_ptr s' = next_ptr s" "\<not> forward_table_lock s'"
  shows "agrees base s (graph_of s) s'"
proof -
  obtain T where "forward_table s = Some T" "table_wf base T" "linked (contents T) s"
    using assms(1) by (auto simp: forward_wf_def)
  then show ?thesis using assms(2-5) linked_frame [of "contents T" s s'] graph_frame [of s' s]
    by (simp add: agrees_def forward_wf_def source_count_def)
qed

lemma agrees_touch:
  assumes "forward_wf base s" "forward_table s = Some T" "contents T a = Some (Some p)" "forward_table s' = Some T"
    "forwards s' = (forwards s)(p \<mapsto> f)" "next_ptr s \<le> next_ptr s'" "entry_ok (next_ptr s') f" "\<not> forward_table_lock s'"
  shows "agrees base s ((graph_of s)(a \<mapsto> (map target (edgeList f), listLock f))) s'"
proof -
  have T: "table_wf base T" "linked (contents T) s" using assms(1,2) by (auto simp: forward_wf_def)
  show ?thesis using T(1) assms(2,4,8) linked_touch [OF T(2) assms(3,5-7)] graph_touch [OF T(2) assms(3,2,4,5)]
    by (simp add: agrees_def forward_wf_def source_count_def)
qed

lemma release_refines:
  assumes "forward_wf base s" "window base a"
  shows "\<exists>s' g. graph_step (ReleaseIterator a) (graph_of s) = Inr g \<and> forward_table_release_iterator a s = Inr s' \<and>
    agrees base s g s'"
proof (cases rule: source_entry [OF assms, case_names none entry])
  case (none T)
  then show ?thesis
    by (auto simp: forward_table_release_iterator_def the_forwards_def intro!: agrees_frame [OF assms(1)])
next
  case (entry T p f)
  let ?s = "set_entry p (f\<lparr>listLock := False\<rparr>) s"
  have "agrees base s ((graph_of s)(a \<mapsto> (map target (edgeList f), False))) ?s"
    using agrees_touch [OF assms(1) entry(1,6), of ?s "f\<lparr>listLock := False\<rparr>"] entry by (simp add: entry_ok_def)
  then show ?thesis using entry by (simp add: forward_table_release_iterator_def the_forwards_def entry_at_def)
qed

text \<open>How the result of an operation compares with the graph's: the same fault, or states that agree.\<close>

abbreviation refines :: "u32 \<Rightarrow> forward_state \<Rightarrow> graph result \<Rightarrow> forward_state result \<Rightarrow> bool" where
  "refines base s \<equiv> predicts (\<lambda>s' g. agrees base s g s')"

lemma get_refines:
  assumes "forward_wf base s" "window base a"
  shows "refines base s (graph_step (GetIterator a) (graph_of s)) (forward_step (GetIterator a) s)"
proof (cases rule: source_entry [OF assms, case_names none entry])
  case (none T)
  then show ?thesis
    by (auto simp: predicts_def forward_table_get_iterator_def the_forwards_def intro!: agrees_frame [OF assms(1)])
next
  case (entry T p f)
  let ?s = "set_entry p (f\<lparr>listLock := True\<rparr>) s"
  have "agrees base s ((graph_of s)(a \<mapsto> (map target (edgeList f), True))) ?s"
    using agrees_touch [OF assms(1) entry(1,6), of ?s "f\<lparr>listLock := True\<rparr>"] entry by (simp add: entry_ok_def)
  then show ?thesis using entry
    by (simp add: predicts_def forward_table_get_iterator_def the_forwards_def entry_at_def pthread_mutex_lock_def)
qed

lemma add_refines:
  assumes "forward_wf base s" "window base a" "source_count s < min_size AVL_MAX_HEIGHT"
  shows "refines base s (graph_step (AddEdge a t) (graph_of s)) (forward_step (AddEdge a t) s)"
proof (cases rule: source_entry [OF assms(1,2), case_names none entry])
  case (none T)
  let ?p = "next_ptr s"
  obtain T' where T': "table_put (Some (?p + 1)) True T a (Some ?p) = Inr (T', Some ?p)" "table_wf base T'"
    "avl_count T' \<le> avl_count T + 1" "contents T' = (contents T)(a \<mapsto> Some ?p)"
    using table_put_contents [OF none(2) assms(2), of "?p + 1" True "Some ?p"] assms(3) none(1,6)
    by (auto simp: source_count_def)
  define e where "e = \<lparr>edge_ptr = ?p + 2, target = t, edge_context = None\<rparr>"
  define f where "f = \<lparr>forward_policy = uint GNW_POLICY_BROADCAST, edgeList = [e], listLock = False, round_robin_ref = None\<rparr>"
  obtain s' where s': "forward_step (AddEdge a t) s = Inr s'" "forward_table s' = Some T'"
    "forwards s' = (forwards s)(?p \<mapsto> f)" "next_ptr s' = ?p + 3" "\<not> forward_table_lock s'"
    using none(1,4,5) T'(1)
    by (auto simp: forward_table_add_edge_def pthread_mutex_lock_def the_forwards_def malloc_forward_def
        prepend_edge_def entry_at_def Let_def e_def f_def)
  have "entry_ok (next_ptr s') f" by (simp add: entry_ok_def f_def e_def s'(4))
  then have "linked (contents T') s'" "graph_of s' = (graph_of s)(a \<mapsto> ([t], False))"
    using linked_grow [OF none(3) T'(4) s'(3)] graph_grow [OF none(3) T'(4) none(1) s'(2,3)] s'(4)
    by (simp_all add: f_def e_def)
  then show ?thesis using none s' T' by (simp add: predicts_def agrees_def forward_wf_def source_count_def)
next
  case (entry T p f)
  show ?thesis
  proof (cases "listLock f")
    case True
    then show ?thesis using entry
      by (simp add: predicts_def forward_table_add_edge_def pthread_mutex_lock_def the_forwards_def malloc_forward_def
          prepend_edge_def entry_at_def Let_def)
  next
    case False
    define e where "e = \<lparr>edge_ptr = next_ptr s, target = t, edge_context = None\<rparr>"
    define f' where "f' = f\<lparr>edgeList := e # edgeList f, listLock := False\<rparr>"
    obtain s' where s': "forward_step (AddEdge a t) s = Inr s'" "forward_table s' = Some T"
      "forwards s' = (forwards s)(p \<mapsto> f')" "next_ptr s' = next_ptr s + 1" "\<not> forward_table_lock s'"
      using entry False
      by (auto simp: forward_table_add_edge_def pthread_mutex_lock_def the_forwards_def malloc_forward_def
          prepend_edge_def entry_at_def Let_def e_def f'_def)
    have "entry_ok (next_ptr s') f'" using entry(9) by (auto simp: entry_ok_def f'_def e_def s'(4))
    then show ?thesis using agrees_touch [OF assms(1) entry(1,6) s'(2,3)] s' entry(10) False
      by (simp add: predicts_def f'_def e_def)
  qed
qed

text \<open>An edge of an entry whose mutex is free is taken out: the last one with the entry, others with the mutex kept.\<close>

lemma remove_last_edge:
  assumes "forward_wf base s" "window base a" "source_count s < min_size AVL_MAX_HEIGHT"
    and entry: "forward_table s = Some T" "contents T a = Some (Some p)" "table_find T a = Some p" "forwards s p = Some f"
    and edge: "find_edge_to (edgeList f) t = Some e" "edgeList f' = []"
      "remove_edge p e (s\<lparr>forward_table_lock := True\<rparr>) = Inr (set_entry p f' (s\<lparr>forward_table_lock := True\<rparr>), True)"
      "\<not> listLock f'"
  shows "\<exists>s'. forward_table_remove_edge a t s = Inr s' \<and> agrees base s ((graph_of s)(a := None)) s'"
proof -
  have T: "table_wf base T" "linked (contents T) s" "\<not> forward_table_lock s"
    using assms(1) entry(1) by (auto simp: forward_wf_def)
  obtain T' where T': "table_remove T a = Inr (T', Some p)" "table_wf base T'" "avl_count T' \<le> avl_count T"
    "contents T' = (contents T)(a := None)"
    using table_remove_contents [OF T(1) assms(2)] assms(3) entry(1,2)
    by (auto simp: source_count_def pointer_or_null_def)
  obtain s' where s': "forward_table_remove_edge a t s = Inr s'" "forward_table s' = Some T'"
    "forwards s' = (forwards s)(p := None)" "next_ptr s' = next_ptr s" "\<not> forward_table_lock s'"
    using entry edge T(3) T'(1)
    by (auto simp: forward_table_remove_edge_def pthread_mutex_lock_def the_forwards_def entry_at_def
        Let_def free_forward_def)
  then show ?thesis
    using linked_shrink [OF T(2) entry(2) T'(4) s'(3,4)] graph_shrink [OF T(2) entry(2) T'(4) entry(1) s'(2,3)]
      entry(1) T'(2,3) by (simp add: agrees_def forward_wf_def source_count_def)
qed

lemma remove_other_edge:
  assumes "forward_wf base s"
    and entry: "forward_table s = Some T" "contents T a = Some (Some p)" "table_find T a = Some p" "forwards s p = Some f"
    and edge: "find_edge_to (edgeList f) t = Some e" "edgeList f' \<noteq> []"
      "remove_edge p e (s\<lparr>forward_table_lock := True\<rparr>) = Inr (set_entry p f' (s\<lparr>forward_table_lock := True\<rparr>), True)"
      "\<not> listLock f'" "entry_ok (next_ptr s) f'"
  shows "\<exists>s'. forward_table_remove_edge a t s = Inr s' \<and>
    agrees base s ((graph_of s)(a \<mapsto> (map target (edgeList f'), True))) s'"
proof -
  define h where "h = f'\<lparr>listLock := True\<rparr>"
  have free: "\<not> forward_table_lock s" using assms(1) by (simp add: forward_wf_def)
  obtain s' where s': "forward_table_remove_edge a t s = Inr s'" "forward_table s' = Some T"
    "forwards s' = (forwards s)(p \<mapsto> h)" "next_ptr s' = next_ptr s" "\<not> forward_table_lock s'"
    using entry edge free
    by (auto simp: forward_table_remove_edge_def pthread_mutex_lock_def the_forwards_def entry_at_def
        Let_def h_def)
  have "entry_ok (next_ptr s') h" using edge(5) by (simp add: entry_ok_def h_def s'(4))
  then show ?thesis using agrees_touch [OF assms(1) entry(1,2) s'(2,3)] s' by (simp add: h_def)
qed

lemma remove_edge_refines:
  assumes "forward_wf base s" "window base a" "source_count s < min_size AVL_MAX_HEIGHT"
  shows "refines base s (graph_step (RemoveEdge a t) (graph_of s)) (forward_step (RemoveEdge a t) s)"
proof (cases rule: source_entry [OF assms(1,2), case_names none entry])
  case (none T)
  then show ?thesis
    by (auto simp: predicts_def forward_table_remove_edge_def pthread_mutex_lock_def the_forwards_def
        intro!: agrees_frame [OF assms(1)])
next
  case (entry T p f)
  note here = entry(1,6,5,8)
  consider "find_edge_to (edgeList f) t = None" | e where "find_edge_to (edgeList f) t = Some e" "listLock f"
    | e where "find_edge_to (edgeList f) t = Some e" "\<not> listLock f" by fastforce
  then show ?thesis
  proof cases
    case 1
    then have "t \<notin> set (map target (edgeList f))" by (simp add: find_edge_to_None)
    then show ?thesis using entry 1
      by (auto simp: predicts_def forward_table_remove_edge_def pthread_mutex_lock_def the_forwards_def entry_at_def
          intro!: agrees_frame [OF assms(1)])
  next
    case 2
    then have "t \<in> set (map target (edgeList f))" using find_edge_to_None [of "edgeList f" t] by simp
    then show ?thesis using entry 2
      by (simp add: predicts_def forward_table_remove_edge_def pthread_mutex_lock_def the_forwards_def entry_at_def
          remove_edge_def)
  next
    case 3
    then have mem: "t \<in> set (map target (edgeList f))" using find_edge_to_None [of "edgeList f" t] by simp
    let ?s = "s\<lparr>forward_table_lock := True\<rparr>"
    obtain f' where f': "remove_edge p e ?s = Inr (set_entry p f' ?s, True)" "\<not> listLock f'"
      "map target (edgeList f') = remove1 t (map target (edgeList f))" "set (edgeList f') \<subseteq> set (edgeList f)"
      "distinct (map edge_ptr (edgeList f'))"
      using remove_edge_found [of ?s p f t e] entry(8,9) 3 by (auto simp: entry_ok_def)
    show ?thesis
    proof (cases "edgeList f' = []")
      case True
      then have "remove1 t (map target (edgeList f)) = []" using f'(3) by simp
      then show ?thesis using remove_last_edge [OF assms here 3(1) True f'(1,2)] entry(10) 3(2) mem
        by (auto simp: predicts_def)
    next
      case False
      then have "remove1 t (map target (edgeList f)) \<noteq> []" using f'(3) by (metis Nil_is_map_conv)
      moreover have "entry_ok (next_ptr s) f'" using entry(9) f'(4,5) False by (auto simp: entry_ok_def)
      ultimately show ?thesis using remove_other_edge [OF assms(1) here 3(1) False f'(1,2)] entry(10) 3(2) mem f'(3)
        by (auto simp: predicts_def)
    qed
  qed
qed

text \<open>Removing a source takes a null entry, or takes its mutex twice.\<close>

lemma remove_source_refines:
  assumes "forward_wf base s" "window base a"
  shows "refines base s (graph_step (RemoveSource a) (graph_of s)) (forward_step (RemoveSource a) s)"
proof (cases rule: source_entry [OF assms, case_names none entry])
  case (none T)
  then show ?thesis by (simp add: predicts_def forward_table_remove_def pthread_mutex_lock_def the_forwards_def)
next
  case (entry T p f)
  then obtain e es where "edgeList f = e # es" by (cases "edgeList f") (auto simp: entry_ok_def)
  then show ?thesis using entry
    by (simp add: predicts_def forward_table_remove_def pthread_mutex_lock_def the_forwards_def entry_at_def
        remove_edge_def)
qed

lemma forward_step_refines:
  assumes "forward_wf base s" "window base (op_source x)" "source_count s < min_size AVL_MAX_HEIGHT"
  shows "refines base s (graph_step x (graph_of s)) (forward_step x s)"
proof (cases x)
  case (AddEdge a t)
  then show ?thesis using add_refines assms by simp
next
  case (RemoveEdge a t)
  then show ?thesis using remove_edge_refines assms by simp
next
  case (GetIterator a)
  then show ?thesis using get_refines [of base s a] assms by simp
next
  case (ReleaseIterator a)
  then show ?thesis using release_refines [of base s a] assms by (auto simp: predicts_def)
next
  case (RemoveSource a)
  then show ?thesis using remove_source_refines [of base s a] assms by simp
qed

text \<open>What the table stands for, with room for the sources of \<open>j\<close> more operations.\<close>

definition keeps_graph :: "u32 \<Rightarrow> nat \<Rightarrow> forward_state \<Rightarrow> graph \<Rightarrow> bool" where
  "keeps_graph base j s g \<longleftrightarrow> forward_wf base s \<and> graph_of s = g \<and> source_count s + j \<le> min_size AVL_MAX_HEIGHT"

interpretation forwarding: implementation graph_step forward_step "keeps_graph base" "\<lambda>x. window base (op_source x)" for base
proof
  fix x j s g
  assume x: "window base (op_source x)" and s: "keeps_graph base (Suc j) s g"
  have "refines base s (graph_step x (graph_of s)) (forward_step x s)"
    by (rule forward_step_refines) (use x s in \<open>simp_all add: keeps_graph_def\<close>)
  then show "predicts (keeps_graph base j) (graph_step x g) (forward_step x s)"
    using s by (cases "graph_step x g") (auto simp: keeps_graph_def agrees_def)
qed

lemma forward_run_graph:
  assumes "forward_wf base s" "\<forall>x\<in>set xs. window base (op_source x)"
    and "source_count s + length xs \<le> min_size AVL_MAX_HEIGHT"
  shows "predicts (\<lambda>s' g. forward_wf base s' \<and> graph_of s' = g) (graph_run xs (graph_of s)) (forward_run xs s)"
proof -
  have "keeps_graph base (length xs + 0) s (graph_of s)" using assms by (simp add: keeps_graph_def)
  from forwarding.run_implements [OF assms(2) this] show ?thesis
    by (cases "graph_run xs (graph_of s)") (auto simp: keeps_graph_def)
qed

lemma forward_init_wf:
  "forward_wf base (forward_table_init True s)" "graph_of (forward_table_init True s) = Map.empty"
  "source_count (forward_table_init True s) = 0"
  by (simp_all add: forward_wf_def forward_table_init_def table_create_def avl_create_def table_empty linked_def
      graph_of_def edges_of_def source_count_def)

end
