(* ===== verification/LinkedList.thy ===== *)
theory LinkedList
  imports Machine "HOL-Library.Monad_Syntax"
begin

text \<open>
  \<open>lib/LinkedList.h\<close> and \<open>lib/LinkedList.c\<close>. The elements live in a heap, a map from the addresses
  \<open>malloc\<close> hands out to cells; a list has a head and a tail. The loop of \<open>ll_length\<close> follows the
  pointers and may not end: not returning is the value \<open>None\<close> of a \<open>partial_function\<close>.

  The lemmas relate the heap to a list of data and a flag: whether the last element points to itself.
\<close>

section \<open>Operations\<close>

record 'd list_element =
  element_data :: 'd
  element_next :: "nat option"

record 'd ll_heap =
  cells :: "nat \<Rightarrow> 'd list_element option"
  fresh :: nat
  messages :: string

record linked_list =
  list_head :: "nat option"
  list_tail :: "nat option"

definition ll_create :: "bool \<Rightarrow> linked_list result" where
  "ll_create malloc_ok = (if malloc_ok then Inr \<lparr>list_head = None, list_tail = None\<rparr> else Inl NullDeref)"

definition unimplemented :: "'d ll_heap \<Rightarrow> 'd ll_heap" where
  "unimplemented h = h\<lparr>messages := messages h @ ''Unimplemented function!'' @ [CHR 0x0A]\<rparr>"

definition ll_destroy :: "linked_list \<Rightarrow> 'd ll_heap \<Rightarrow> 'd ll_heap" where
  "ll_destroy l h = unimplemented h"

definition new_element :: "bool \<Rightarrow> 'd \<Rightarrow> 'd ll_heap \<Rightarrow> (nat \<times> 'd ll_heap) result" where
  "new_element malloc_ok d h =
     (if malloc_ok
      then Inr (fresh h, h\<lparr>cells := (cells h)(fresh h \<mapsto> \<lparr>element_data = d, element_next = None\<rparr>), fresh := fresh h + 1\<rparr>)
      else Inl NullDeref)"

definition set_next :: "nat \<Rightarrow> nat option \<Rightarrow> 'd ll_heap \<Rightarrow> 'd ll_heap result" where
  "set_next p q h =
     (case cells h p of
        None \<Rightarrow> Inl UseAfterFree
      | Some c \<Rightarrow> Inr (h\<lparr>cells := (cells h)(p \<mapsto> c\<lparr>element_next := q\<rparr>)\<rparr>))"

definition ll_append :: "bool \<Rightarrow> 'd \<Rightarrow> linked_list \<times> 'd ll_heap \<Rightarrow> (linked_list \<times> 'd ll_heap) result" where
  "ll_append malloc_ok d = (\<lambda>(l, h).
     andThen (new_element malloc_ok d h) (\<lambda>(e, h).
     if list_head l = None then Inr (\<lparr>list_head = Some e, list_tail = Some e\<rparr>, h)
     else
       (case list_tail l of
          None \<Rightarrow> Inl NullDeref
        | Some t \<Rightarrow> andThen (set_next t (Some e) h) (\<lambda>h. Inr (l\<lparr>list_tail := Some e\<rparr>, h)))))"

text \<open>On an empty list the new element becomes head and tail, and then its own successor.\<close>

definition ll_prepend :: "bool \<Rightarrow> 'd \<Rightarrow> linked_list \<times> 'd ll_heap \<Rightarrow> (linked_list \<times> 'd ll_heap) result" where
  "ll_prepend malloc_ok d = (\<lambda>(l, h).
     andThen (new_element malloc_ok d h) (\<lambda>(e, h).
     let l = (if list_head l = None then \<lparr>list_head = Some e, list_tail = Some e\<rparr> else l) in
     andThen (set_next e (list_head l) h) (\<lambda>h.
     Inr (l\<lparr>list_head := Some e\<rparr>, h))))"

definition ll_remove_first :: "linked_list \<Rightarrow> 'd ll_heap \<Rightarrow> 'd ll_heap \<times> 'd option" where
  "ll_remove_first l h = (unimplemented h, None)"

definition ll_remove_last :: "linked_list \<Rightarrow> 'd ll_heap \<Rightarrow> 'd ll_heap \<times> 'd option" where
  "ll_remove_last l h = (unimplemented h, None)"

text \<open>\<open>while( (iter = iter->next) != NULL ) elements++\<close>.\<close>

partial_function (option) length_loop :: "(nat \<Rightarrow> 'd list_element option) \<Rightarrow> nat option \<Rightarrow> u64 \<Rightarrow> u64 result option" where
  "length_loop m iter n =
     (case iter of
        None \<Rightarrow> Some (Inl NullDeref)
      | Some p \<Rightarrow>
          (case m p of
             None \<Rightarrow> Some (Inl UseAfterFree)
           | Some c \<Rightarrow> if element_next c = None then Some (Inr n) else length_loop m (element_next c) (n + 1)))"

definition ll_length :: "linked_list \<times> 'd ll_heap \<Rightarrow> u64 result option" where
  "ll_length = (\<lambda>(l, h). length_loop (cells h) (list_head l) 0)"

section \<open>Chains of elements\<close>

text \<open>The elements at \<open>ps\<close> hold \<open>ds\<close>, each pointing to the next and the last one to \<open>q\<close>.\<close>

fun first_or :: "nat list \<Rightarrow> nat option \<Rightarrow> nat option" where
  "first_or [] q = q"
| "first_or (p # ps) q = Some p"

fun chain :: "(nat \<Rightarrow> 'd list_element option) \<Rightarrow> nat list \<Rightarrow> 'd list \<Rightarrow> nat option \<Rightarrow> bool" where
  "chain m [] ds q \<longleftrightarrow> ds = []"
| "chain m (p # ps) ds q \<longleftrightarrow>
     (\<exists>d ds'. ds = d # ds' \<and> m p = Some \<lparr>element_data = d, element_next = first_or ps q\<rparr> \<and>
        chain m ps ds' q)"

abbreviation first_of :: "nat list \<Rightarrow> nat option" where
  "first_of ps \<equiv> first_or ps None"

definition last_of :: "nat list \<Rightarrow> nat option" where
  "last_of ps = (if ps = [] then None else Some (last ps))"

definition represents :: "linked_list \<times> 'd ll_heap \<Rightarrow> 'd list \<Rightarrow> bool \<Rightarrow> bool" where
  "represents = (\<lambda>(l, h) ds looped. \<exists>ps. list_head l = first_of ps \<and> list_tail l = last_of ps \<and> distinct ps \<and>
     (\<forall>p\<in>set ps. p < fresh h) \<and> (looped \<longrightarrow> ps \<noteq> []) \<and>
     chain (cells h) ps ds (if looped then last_of ps else None))"

lemma first_or_snoc [simp]: "first_or (ps @ [e]) q = first_or ps (Some e)"
  by (cases ps) simp_all

lemma first_or_Some: "ps \<noteq> [] \<Longrightarrow> first_or ps (Some q) = first_of ps"
  by (cases ps) simp_all

lemma first_of_None [simp]: "first_of ps = None \<longleftrightarrow> ps = []"
  by (cases ps) simp_all

lemma last_of_simps [simp]: "last_of [] = None" "last_of (ps @ [p]) = Some p"
  "last_of (p # ps) = (if ps = [] then Some p else last_of ps)"
  by (simp_all add: last_of_def)

lemma representsI:
  assumes "list_head l = first_of ps" "list_tail l = last_of ps" "distinct ps" "\<forall>p\<in>set ps. p < fresh h"
    "looped \<longrightarrow> ps \<noteq> []" "chain (cells h) ps ds (if looped then last_of ps else None)"
  shows "represents (l, h) ds looped"
  unfolding represents_def prod.case by (rule exI [of _ ps]) (intro conjI assms)

lemma chain_length: "chain m ps ds q \<Longrightarrow> length ps = length ds"
  by (induction ps arbitrary: ds) auto

lemma chain_other: "chain m ps ds q \<Longrightarrow> p \<notin> set ps \<Longrightarrow> chain (m(p \<mapsto> c)) ps ds q"
  by (induction ps arbitrary: ds) auto

lemma chain_last_next:
  "chain m ps ds q \<Longrightarrow> ps \<noteq> [] \<Longrightarrow> distinct ps \<Longrightarrow>
   \<exists>c. m (last ps) = Some c \<and> chain (m(last ps \<mapsto> c\<lparr>element_next := q'\<rparr>)) ps ds q'"
proof (induction ps arbitrary: ds)
  case (Cons p ps)
  show ?case
  proof (cases "ps = []")
    case True
    then show ?thesis using Cons.prems(1) by auto
  next
    case False
    then obtain p' ps' where ps: "ps = p' # ps'" by (cases ps) auto
    obtain d ds' where ds: "ds = d # ds'" "m p = Some \<lparr>element_data = d, element_next = Some p'\<rparr>" "chain m ps ds' q"
      using Cons.prems(1) ps by auto
    obtain c where c: "m (last ps) = Some c" "chain (m(last ps \<mapsto> c\<lparr>element_next := q'\<rparr>)) ps ds' q'"
      using Cons.IH [OF ds(3) False] Cons.prems(3) by (auto simp del: fun_upd_apply)
    have "p \<noteq> last ps" using Cons.prems(3) False by auto
    then have "chain (m(last ps \<mapsto> c\<lparr>element_next := q'\<rparr>)) (p # ps) ds q'" using ds(1,2) c(2) ps by simp
    then show ?thesis using c(1) False by (auto simp del: fun_upd_apply chain.simps)
  qed
qed simp

lemma chain_snoc:
  "chain m ps ds (Some e) \<Longrightarrow> m e = Some \<lparr>element_data = d, element_next = q\<rparr> \<Longrightarrow> chain m (ps @ [e]) (ds @ [d]) q"
proof (induction ps arbitrary: ds)
  case (Cons p ps)
  then show ?case by auto
qed simp

section \<open>The operations on lists of data\<close>

lemma append_represents:
  assumes "represents s ds looped"
  shows "\<exists>s'. ll_append True d s = Inr s' \<and> represents s' (ds @ [d]) False"
proof -
  obtain l h where s: "s = (l, h)" by (cases s)
  obtain ps where ps: "list_head l = first_of ps" "list_tail l = last_of ps" "distinct ps"
    "\<forall>p\<in>set ps. p < fresh h" "looped \<longrightarrow> ps \<noteq> []" "chain (cells h) ps ds (if looped then last_of ps else None)"
    using assms s by (auto simp: represents_def)
  let ?e = "fresh h" and ?c = "\<lparr>element_data = d, element_next = None\<rparr>"
  have new: "?e \<notin> set ps" using ps(4) by auto
  show ?thesis
  proof (cases "ps = []")
    case True
    then show ?thesis using ps s
      by (auto simp: ll_append_def new_element_def last_of_def represents_def intro!: exI [of _ "[?e]"])
  next
    case False
    let ?m = "(cells h)(?e \<mapsto> ?c)"
    have ch: "chain ?m ps ds (if looped then last_of ps else None)" by (rule chain_other [OF ps(6) new])
    obtain c where c: "?m (last ps) = Some c" "chain (?m(last ps \<mapsto> c\<lparr>element_next := Some ?e\<rparr>)) ps ds (Some ?e)"
      using chain_last_next [OF ch False ps(3)] by blast
    let ?m' = "?m(last ps \<mapsto> c\<lparr>element_next := Some ?e\<rparr>)"
    have "last ps \<noteq> ?e" using last_in_set [OF False] new by metis
    then have "chain ?m' (ps @ [?e]) (ds @ [d]) None" by (intro chain_snoc [OF c(2)]) simp
    moreover have "first_of (ps @ [?e]) = first_of ps" "last_of (ps @ [?e]) = Some ?e"
      using first_or_Some [OF False] by simp_all
    moreover have "ll_append True d s = Inr (l\<lparr>list_tail := Some ?e\<rparr>, h\<lparr>cells := ?m', fresh := ?e + 1\<rparr>)"
      using ps(1,2) False c(1) by (auto simp: s ll_append_def new_element_def set_next_def last_of_def split: list.splits)
    ultimately show ?thesis using ps(1,3,4) new False
      by (auto simp: represents_def less_Suc_eq intro!: exI [of _ "ps @ [?e]"])
  qed
qed

lemma prepend_represents:
  assumes "represents s ds looped"
  shows "\<exists>s'. ll_prepend True d s = Inr s' \<and> represents s' (d # ds) (looped \<or> ds = [])"
proof -
  obtain l h where s: "s = (l, h)" by (cases s)
  obtain ps where ps: "list_head l = first_of ps" "list_tail l = last_of ps" "distinct ps"
    "\<forall>p\<in>set ps. p < fresh h" "looped \<longrightarrow> ps \<noteq> []" "chain (cells h) ps ds (if looped then last_of ps else None)"
    using assms s by (auto simp: represents_def)
  let ?e = "fresh h"
  have new: "?e \<notin> set ps" using ps(4) by auto
  have len: "ds = [] \<longleftrightarrow> ps = []" using chain_length [OF ps(6)] by auto
  show ?thesis
  proof (cases "ps = []")
    case True
    then show ?thesis using ps s len
      by (auto simp: ll_prepend_def new_element_def set_next_def last_of_def represents_def
          intro!: exI [of _ "[?e]"])
  next
    case False
    have "chain ((cells h)(?e \<mapsto> \<lparr>element_data = d, element_next = first_of ps\<rparr>)) ps ds
        (if looped then last_of ps else None)"
      by (rule chain_other [OF ps(6) new])
    then have "chain ((cells h)(?e \<mapsto> \<lparr>element_data = d, element_next = first_of ps\<rparr>)) (?e # ps) (d # ds)
        (if looped then last_of (?e # ps) else None)"
      using False first_or_Some [OF False] by (auto simp: last_of_def)
    moreover have "ll_prepend True d s = Inr (l\<lparr>list_head := Some ?e\<rparr>,
        h\<lparr>cells := (cells h)(?e \<mapsto> \<lparr>element_data = d, element_next = first_of ps\<rparr>), fresh := ?e + 1\<rparr>)"
      using ps(1) False by (auto simp: s ll_prepend_def new_element_def set_next_def split: list.splits)
    moreover have "last_of (?e # ps) = last_of ps" "first_of (?e # ps) = Some ?e"
      using False by (simp_all add: last_of_def)
    moreover have "list_tail l = last_of (?e # ps)" "distinct (?e # ps)" "\<forall>p\<in>set (?e # ps). p < ?e + 1"
      using ps(2-4) new False by auto
    moreover have "(looped \<or> ds = []) = looped" using len False by simp
    ultimately show ?thesis
      using representsI [of "l\<lparr>list_head := Some ?e\<rparr>" "?e # ps"
          "h\<lparr>cells := (cells h)(?e \<mapsto> \<lparr>element_data = d, element_next = first_of ps\<rparr>), fresh := ?e + 1\<rparr>"
          looped "d # ds"] by (simp del: chain.simps fun_upd_apply)
  qed
qed

section \<open>Counting\<close>

lemma length_loop_counts:
  "chain m ps ds None \<Longrightarrow> ps \<noteq> [] \<Longrightarrow> length_loop m (first_of ps) n = Some (Inr (n + of_nat (length ds - 1)))"
proof (induction ps arbitrary: ds n)
  case (Cons p ps)
  then obtain d ds' where ds: "ds = d # ds'" "chain m ps ds' None"
    "m p = Some \<lparr>element_data = d, element_next = first_of ps\<rparr>"
    by auto
  show ?case
  proof (cases ps)
    case Nil
    then show ?thesis using ds by (subst length_loop.simps) simp
  next
    case (Cons p' ps')
    then obtain d' ds'' where "ds' = d' # ds''" using ds(2) by auto
    moreover have "length_loop m (first_of ps) (n + 1) = Some (Inr (n + 1 + of_nat (length ds' - 1)))"
      using Cons.IH [OF ds(2)] Cons by simp
    ultimately show ?thesis using ds Cons by (subst length_loop.simps) simp
  qed
qed simp

text \<open>A chain whose last element points to itself is followed for ever.\<close>

lemma length_loop_diverges:
  assumes "length_loop m iter n = Some r"
  shows "chain m ps ds (last_of ps) \<Longrightarrow> ps \<noteq> [] \<Longrightarrow> iter = first_of ps \<Longrightarrow> False"
proof (induction arbitrary: ps ds rule: length_loop.raw_induct [OF _ assms])
  case step: (1 f m iter n r)
  obtain p ps' where ps: "ps = p # ps'" using step(4) by (cases ps) auto
  obtain d ds' where ds: "ds = d # ds'" "chain m ps' ds' (last_of ps)"
    "m p = Some \<lparr>element_data = d, element_next = first_or ps' (last_of ps)\<rparr>"
    using step(3) ps by auto
  show ?case
  proof (cases ps')
    case Nil
    then have nxt: "m p = Some \<lparr>element_data = d, element_next = Some p\<rparr>" using ds(3) ps by simp
    then have again: "f m (Some p) (n + 1) = Some r" using step(2,5) ps by simp
    have "Some p = first_of ps" by (simp add: ps)
    then show ?thesis by (rule step(1) [OF again step(3,4)])
  next
    case (Cons p' ps'')
    then have nxt: "m p = Some \<lparr>element_data = d, element_next = Some p'\<rparr>" using ds(3) by simp
    then have again: "f m (Some p') (n + 1) = Some r" using step(2,5) ps by simp
    have "last_of ps = last_of ps'" "ps' \<noteq> []" "Some p' = first_of ps'" using ps Cons by simp_all
    then show ?thesis using step(1) [OF again] ds(2) by metis
  qed
qed

lemma ll_length_represents:
  assumes "represents s ds looped"
  shows "ll_length s = (if ds = [] then Some (Inl NullDeref) else if looped then None
      else Some (Inr (of_nat (length ds - 1))))"
proof -
  obtain l h where s: "s = (l, h)" by (cases s)
  obtain ps where ps: "list_head l = first_of ps" "looped \<longrightarrow> ps \<noteq> []"
    "chain (cells h) ps ds (if looped then last_of ps else None)"
    using assms s by (auto simp: represents_def)
  have len: "ds = [] \<longleftrightarrow> ps = []" using chain_length [OF ps(3)] by auto
  consider "ds = []" | "ds \<noteq> []" "looped" | "ds \<noteq> []" "\<not> looped" by blast
  then show ?thesis
  proof cases
    case 1
    then show ?thesis using len ps(1) by (simp add: s ll_length_def length_loop.simps)
  next
    case 2
    have "length_loop (cells h) (first_of ps) 0 = None"
    proof (rule ccontr)
      assume "length_loop (cells h) (first_of ps) 0 \<noteq> None"
      then obtain r where "length_loop (cells h) (first_of ps) 0 = Some r" by blast
      then show False using length_loop_diverges [of "cells h" "first_of ps" 0 r ps ds] ps(3) 2 len by simp
    qed
    then show ?thesis using 2 ps(1) by (simp add: s ll_length_def)
  next
    case 3
    then show ?thesis using length_loop_counts [of "cells h" ps ds 0] ps(1,3) len by (simp add: s ll_length_def)
  qed
qed

section \<open>Runs\<close>

datatype 'd ll_op = Append 'd | Prepend 'd

fun ll_step :: "'d ll_op \<Rightarrow> linked_list \<times> 'd ll_heap \<Rightarrow> (linked_list \<times> 'd ll_heap) result" where
  "ll_step (Append d) s = ll_append True d s"
| "ll_step (Prepend d) s = ll_prepend True d s"

abbreviation ll_run :: "'d ll_op list \<Rightarrow> linked_list \<times> 'd ll_heap \<Rightarrow> (linked_list \<times> 'd ll_heap) result" where
  "ll_run \<equiv> exec ll_step"

fun data_step :: "'d ll_op \<Rightarrow> 'd list \<times> bool \<Rightarrow> 'd list \<times> bool" where
  "data_step (Append d) (ds, looped) = (ds @ [d], False)"
| "data_step (Prepend d) (ds, looped) = (d # ds, looped \<or> ds = [])"

interpretation lists: simulation "\<lambda>x e y. y = data_step e x" ll_step "\<lambda>j s (ds, looped). represents s ds looped" "\<lambda>_. 0"
proof
  fix x and e :: "'d ll_op" and y j c
  assume y: "y = data_step e x" and "case x of (ds, looped) \<Rightarrow> represents c ds looped"
  then obtain ds looped where x: "x = (ds, looped)" "represents c ds looped" by (cases x) simp
  show "\<exists>s1. ll_step e c = Inr s1 \<and> (case y of (ds, looped) \<Rightarrow> represents s1 ds looped)"
  proof (cases e)
    case (Append d)
    then show ?thesis using append_represents [OF x(2), of d] x(1) y by auto
  next
    case (Prepend d)
    then show ?thesis using prepend_represents [OF x(2), of d] x(1) y by auto
  qed
qed

lemma ll_run_represents:
  assumes "represents s ds looped"
  shows "\<exists>s'. ll_run xs s = Inr s' \<and> (case fold data_step xs (ds, looped) of (ds', looped') \<Rightarrow> represents s' ds' looped')"
proof -
  have "steps (\<lambda>x e y. y = data_step e x) (ds, looped) xs (fold data_step xs (ds, looped))" by (simp add: steps_function)
  from lists.run_simulates [OF this] show ?thesis using assms by simp
qed

end
