(* ===== verification/TableProps.thy ===== *)
theory TableProps
  imports ForwardSpec LinkedList
begin

text \<open>
  The properties of the AVL tree, of the tables built on it and of the linked list, each with a
  concrete instance.
\<close>

section \<open>The AVL tree\<close>

text \<open>
  C26: Every operation on a well-formed tree of entries in a window of \<open>2 ^ 31\<close> addresses (balanced,
  in ascending order, counted) with fewer than \<open>min_size 32\<close> = 5702886 entries succeeds: no stack of
  32 entries overflows, no null link is followed, no assertion fails. The new tree is well formed
  again, and at most 32 nodes high.
\<close>

theorem avl_operations_well_formed:
  assumes "avl_wf (offset base) (within base) T" "within base (op_item x)" "avl_count T < min_size AVL_MAX_HEIGHT"
  shows "\<exists>T' out. avl_step by_address x T = Inr (T', out) \<and> avl_wf (offset base) (within base) T' \<and>
    avl_count T' \<le> avl_count T + 1 \<and> height (avl_root T') \<le> AVL_MAX_HEIGHT"
proof -
  obtain T' where T': "avl_step by_address x T = Inr (T', snd (map_step (offset base) x (table_map (offset base) T)))"
    "avl_wf (offset base) (within base) T'" "avl_count T' \<le> avl_count T + 1"
    using addresses.op_refines [OF assms] by blast
  have "height (avl_root T') < Suc AVL_MAX_HEIGHT"
    using balanced_height [of "avl_root T'" "Suc AVL_MAX_HEIGHT"] min_size_grows [of AVL_MAX_HEIGHT] T'(2,3) assms(3)
    by (simp add: avl_wf_def)
  then show ?thesis using T' by auto
qed

definition sample_entry :: "nat \<Rightarrow> u32 \<Rightarrow> nat \<Rightarrow> nat entry" where
  "sample_entry p a d = \<lparr>entry_ptr = p, address = a, data = Some d\<rparr>"

theorem avl_operations_well_formed_witness:
  "\<exists>T' out. avl_step by_address (Insert True (sample_entry 1 7 3)) avl_empty = Inr (T', out) \<and>
    avl_wf (offset 0) (within 0) T' \<and> avl_count T' \<le> avl_count (avl_empty :: nat table) + 1 \<and>
    height (avl_root T') \<le> AVL_MAX_HEIGHT"
  by (rule avl_operations_well_formed)
    (simp_all add: avl_empty_wf sample_entry_def window_def min_size_32 AVL_MAX_HEIGHT_def)

text \<open>
  C25: For entries whose addresses all lie in one window of \<open>2 ^ 31\<close>, where \<open>compareAddress32\<close> is an
  order, a run of at most \<open>min_size 32\<close> = 5702886 insertions, replacements, searches and deletions, with
  node allocations that succeed or fail, answers what the same run answers on a finite map from addresses
  to entries, and the final tree holds that map. \<open>avl_insert\<close> leaves an entry that is there and returns it,
  \<open>avl_replace\<close> puts the new one in its place and returns the old.
\<close>

theorem avl_run_is_map:
  assumes "\<forall>x\<in>set xs. within base (op_item x)" "length xs \<le> min_size AVL_MAX_HEIGHT"
  shows "\<exists>T. avl_run by_address xs avl_empty = Inr (T, snd (map_run (offset base) xs Map.empty)) \<and>
    avl_wf (offset base) (within base) T \<and> table_map (offset base) T = fst (map_run (offset base) xs Map.empty)"
  using addresses.run_refines [of base avl_empty xs] assms by (simp add: avl_empty_wf)

definition sample_run :: "nat entry avl_op list" where
  "sample_run = [Insert True (sample_entry 1 5 50), Insert True (sample_entry 2 5 51), Insert True (sample_entry 3 9 90),
     Replace True (sample_entry 4 5 52), Insert False (sample_entry 5 7 70), Delete (sample_entry 0 9 0),
     Find (sample_entry 0 5 0)]"

theorem avl_run_is_map_witness:
  "(\<exists>T. avl_run by_address sample_run avl_empty = Inr (T, snd (map_run (offset 0) sample_run Map.empty)) \<and>
      avl_wf (offset 0) (within 0) T \<and> table_map (offset 0) T = fst (map_run (offset 0) sample_run Map.empty)) \<and>
    snd (map_run (offset 0) sample_run Map.empty) =
      [None, Some (sample_entry 1 5 50), None, Some (sample_entry 1 5 50), None, Some (sample_entry 3 9 90),
       Some (sample_entry 4 5 52)]"
proof
  show "\<exists>T. avl_run by_address sample_run avl_empty = Inr (T, snd (map_run (offset 0) sample_run Map.empty)) \<and>
      avl_wf (offset 0) (within 0) T \<and> table_map (offset 0) T = fst (map_run (offset 0) sample_run Map.empty)"
    by (rule avl_run_is_map) (simp_all add: sample_run_def sample_entry_def window_def min_size_32 AVL_MAX_HEIGHT_def)
  show "snd (map_run (offset 0) sample_run Map.empty) =
      [None, Some (sample_entry 1 5 50), None, Some (sample_entry 1 5 50), None, Some (sample_entry 3 9 90),
       Some (sample_entry 4 5 52)]"
    by (simp add: sample_run_def sample_entry_def other_than_def Let_def)
qed

text \<open>
  C27: On a well-formed tree \<open>avl_t_first\<close> and then \<open>avl_t_next\<close> visit all entries by ascending address
  and then answer null; \<open>avl_t_last\<close> and \<open>avl_t_prev\<close> visit them in the opposite order;
  \<open>avl_destroy\<close> passes each of them once to its function, in ascending order.
\<close>

theorem avl_traversal:
  assumes "avl_wf (offset base) (within base) T" "avl_count T < min_size AVL_MAX_HEIGHT"
  shows "\<exists>es. ascending (offset base) es \<and> set es = ran (table_map (offset base) T) \<and>
    traverse True by_address T = Inr (map Some es @ [None]) \<and>
    traverse False by_address T = Inr (map Some (rev es) @ [None]) \<and> avl_destroy T = es"
proof (intro exI [of _ "inorder (avl_root T)"] conjI)
  let ?es = "inorder (avl_root T)"
  show asc: "ascending (offset base) ?es" using assms(1) by (simp add: avl_wf_def)
  have "height (avl_root T) \<le> AVL_MAX_HEIGHT" using avl_wf_height [OF assms] by simp
  then show "traverse True by_address T = Inr (map Some ?es @ [None])"
    "traverse False by_address T = Inr (map Some (rev ?es) @ [None])"
    using traverse_inorder [of T _ by_address] assms(1) by (simp_all add: avl_wf_def in_direction_def)
  show "avl_destroy T = ?es" by (simp add: avl_destroy_def destroy_loop_inorder)
  show "set ?es = ran (table_map (offset base) T)" unfolding table_map_def by (rule ran_items_map [OF asc, symmetric])
qed

definition sample_tree :: "nat table" where
  "sample_tree = \<lparr>avl_root = Nd (Nd Tip (sample_entry 1 5 50) 0 Tip) (sample_entry 2 7 70) 0 (Nd Tip (sample_entry 3 9 90) 0 Tip),
     avl_count = 3, avl_generation = 0\<rparr>"

theorem avl_traversal_witness:
  "\<exists>es. ascending (offset 0) es \<and> set es = ran (table_map (offset 0) sample_tree) \<and>
    traverse True by_address sample_tree = Inr (map Some es @ [None]) \<and>
    traverse False by_address sample_tree = Inr (map Some (rev es) @ [None]) \<and> avl_destroy sample_tree = es"
  by (rule avl_traversal)
    (simp_all add: avl_wf_def sample_tree_def sample_entry_def ascending_def window_def min_size_32 AVL_MAX_HEIGHT_def)

section \<open>The index table\<close>

text \<open>
  C28: A table used only with addresses in one window of \<open>2 ^ 31\<close>, where \<open>compareAddress32\<close> is an order,
  answers like a map in which the first data put for an address stays until it is removed (\<open>index_step\<close>),
  whatever the sequence of at most \<open>min_size 32\<close> = 5702886 calls of \<open>table_put\<close>, \<open>table_find\<close> and
  \<open>table_remove\<close>; outside such a window \<open>table_cycle_loses\<close> shows an entry lost. And walking it calls the handler with every
  address of the map and its data, each once.
\<close>

theorem table_run_is_map:
  assumes "\<forall>x\<in>set xs. window base (op_address x)" "length xs \<le> min_size AVL_MAX_HEIGHT"
  shows "\<exists>T ps. table_run xs avl_empty = Inr (T, snd (index_run xs Map.empty)) \<and>
    contents T = fst (index_run xs Map.empty) \<and>
    (\<forall>handler s. table_walk T handler s = fold (\<lambda>(a, d). handler a d) ps s) \<and>
    distinct (map fst ps) \<and> (\<forall>a d. (a, d) \<in> set ps \<longleftrightarrow> fst (index_run xs Map.empty) a = Some d)"
proof -
  obtain T where T: "table_run xs avl_empty = Inr (T, snd (index_run xs Map.empty))" "table_wf base T"
    "contents T = fst (index_run xs Map.empty)"
    using table_run_refines [of base avl_empty xs] assms by (auto simp: table_empty)
  show ?thesis
    using T walk_order_distinct [OF T(2)] walk_order_contents [OF T(2)]
    by (intro exI [of _ T] exI [of _ "walk_order (avl_root T)"]) (simp add: table_walk_fold)
qed

definition sample_table_run :: "nat table_op list" where
  "sample_table_run = [Put 1 True 5 (Some 50), Put 2 True 5 (Some 51), Put 3 True 9 None, Put 4 False 7 (Some 70),
     Lookup 5, Lookup 9, Lookup 7, Remove 5, Lookup 5]"

theorem table_run_is_map_witness:
  "(\<exists>T ps. table_run sample_table_run avl_empty = Inr (T, snd (index_run sample_table_run Map.empty)) \<and>
    contents T = fst (index_run sample_table_run Map.empty) \<and>
    (\<forall>handler (s :: nat list). table_walk T handler s = fold (\<lambda>(a, d). handler a d) ps s) \<and>
    distinct (map fst ps) \<and> (\<forall>a d. (a, d) \<in> set ps \<longleftrightarrow> fst (index_run sample_table_run Map.empty) a = Some d)) \<and>
    snd (index_run sample_table_run Map.empty) =
      [Some 50, Some 51, None, Some 70, Some 50, None, None, Some 50, None]"
proof
  show "\<exists>T ps. table_run sample_table_run avl_empty = Inr (T, snd (index_run sample_table_run Map.empty)) \<and>
    contents T = fst (index_run sample_table_run Map.empty) \<and>
    (\<forall>handler (s :: nat list). table_walk T handler s = fold (\<lambda>(a, d). handler a d) ps s) \<and>
    distinct (map fst ps) \<and> (\<forall>a d. (a, d) \<in> set ps \<longleftrightarrow> fst (index_run sample_table_run Map.empty) a = Some d)"
    by (rule table_run_is_map [of _ 0]) (simp_all add: sample_table_run_def window_def min_size_32 AVL_MAX_HEIGHT_def)
  show "snd (index_run sample_table_run Map.empty) =
      [Some 50, Some 51, None, Some 70, Some 50, None, None, Some 50, None]"
    by (simp add: sample_table_run_def Let_def pointer_or_null_def)
qed

text \<open>
  C32: \<open>compareAddress32\<close> is not an order on all addresses, and tables lose entries by it: when \<open>e\<close>
  compares below \<open>a\<close>, \<open>x\<close> above \<open>a\<close>, and yet \<open>e\<close> above \<open>x\<close>, then after putting \<open>a\<close>, \<open>e\<close> and \<open>x\<close>
  and removing \<open>a\<close> the entry of \<open>e\<close> is still in the tree and \<open>table_find\<close> answers null.
\<close>

theorem table_cycle_loses:
  assumes "sint (e - a) < 0" "0 < sint (x - a)" "0 < sint (e - x :: u32)"
  shows "\<exists>T. table_run [Put p1 True a d1, Put p2 True e d2, Put p3 True x d3, Remove a, Lookup e] avl_empty =
      Inr (T, [d1, d2, d3, d1, None]) \<and> contents T e = Some d2"
proof -
  let ?a = "\<lparr>entry_ptr = p1, address = a, data = d1\<rparr>" and ?e = "\<lparr>entry_ptr = p2, address = e, data = d2\<rparr>"
    and ?x = "\<lparr>entry_ptr = p3, address = x, data = d3\<rparr>"
  have ne: "x \<noteq> e" using assms(3) by auto
  have put: "table_run [Put p1 True a d1, Put p2 True e d2, Put p3 True x d3] avl_empty =
      Inr (\<lparr>avl_root = Nd (Nd Tip ?e 0 Tip) ?a 0 (Nd Tip ?x 0 Tip), avl_count = 3, avl_generation = 0\<rparr>, [d1, d2, d3])"
    using assms(1,2) by (simp add: table_put_def avl_insert_def avl_probe_def avl_empty_def compareAddress32_def
        AVL_MAX_HEIGHT_def Let_def)
  have remove: "table_remove \<lparr>avl_root = Nd (Nd Tip ?e 0 Tip) ?a 0 (Nd Tip ?x 0 Tip), avl_count = 3, avl_generation = 0\<rparr> a =
      Inr (\<lparr>avl_root = Nd (Nd Tip ?e 0 Tip) ?x (-1) Tip, avl_count = 2, avl_generation = 1\<rparr>, d1)"
    by (simp add: table_remove_def avl_delete_def query_def compareAddress32_def AVL_MAX_HEIGHT_def unlink_def
        right_shrunk_def Let_def)
  have find: "table_find \<lparr>avl_root = Nd (Nd Tip ?e 0 Tip) ?x (-1) Tip, avl_count = 2, avl_generation = 1\<rparr> e = None"
    using assms(3) by (simp add: table_find_def avl_find_def query_def compareAddress32_def Let_def)
  have "contents \<lparr>avl_root = Nd (Nd Tip ?e 0 Tip) ?x (-1) Tip, avl_count = 2, avl_generation = 1\<rparr> e = Some d2"
    by (simp add: contents_def items_map_Cons)
  then show ?thesis using put remove find by (simp add: andThen_eq_Inr Let_def split: prod.splits) blast
qed

theorem table_cycle_loses_witness:
  "\<exists>T. table_run [Put 1 True 0 (Some 10), Put 2 True 0x90000000 (Some 20), Put 3 True 0x20000000 (Some (30 :: nat)),
      Remove 0, Lookup 0x90000000] avl_empty = Inr (T, [Some 10, Some 20, Some 30, Some 10, None]) \<and>
    contents T 0x90000000 = Some (Some 20)"
  by (rule table_cycle_loses) simp_all

section \<open>The node table\<close>

text \<open>
  Adding a node context gives the mutex back and makes \<open>node_table_find\<close> answer the context only
  when the address had no entry: an earlier context stays, although the warning that is logged says
  it is overwritten. No other address is touched.
\<close>

theorem node_table_add_keeps_first:
  assumes "node_wf base s" "window base a" "node_count s < min_size AVL_MAX_HEIGHT"
  shows "\<exists>s'. node_table_add (Some p) True s a c = Inr s' \<and> \<not> node_table_mutex s' \<and>
    node_table_find s' a = Inr (pointer_or_null (Some (case node_contents s a of None \<Rightarrow> c | Some c' \<Rightarrow> c'))) \<and>
    (\<forall>b. window base b \<and> b \<noteq> a \<longrightarrow> node_table_find s' b = node_table_find s b) \<and>
    node_log s' = (if node_table_find s a = Inr None then node_log s else log_warn (overwrite_warning a) (node_log s))"
proof -
  obtain s' where s': "node_table_add (Some p) True s a c = Inr s'" "node_wf base s'"
    "node_contents s' = (if node_contents s a = None \<and> True then (node_contents s)(a \<mapsto> c) else node_contents s)"
    "node_log s' = (if pointer_or_null (node_contents s a) \<noteq> None then log_warn (overwrite_warning a) (node_log s)
                   else node_log s)"
    using node_add_contents [OF assms, of p True c] by blast
  have find: "window base b \<Longrightarrow> node_table_find s b = Inr (pointer_or_null (node_contents s b))"
    "window base b \<Longrightarrow> node_table_find s' b = Inr (pointer_or_null (node_contents s' b))" for b
    using node_find_contents assms(1) s'(2) by blast+
  show ?thesis
    using s' find assms(2) by (auto simp: node_wf_def split: option.splits)
qed

definition sample_node :: "nat node_state" where
  "sample_node = \<lparr>node_table = Some \<lparr>avl_root = Nd Tip (sample_entry 1 5 50) 0 Tip, avl_count = 1, avl_generation = 0\<rparr>,
     node_table_mutex = False, node_log = log_init\<rparr>"

lemma sample_node_wf: "node_wf 0 sample_node" "node_count sample_node = 1"
  by (simp_all add: node_wf_def sample_node_def table_wf_def avl_wf_def sample_entry_def ascending_def window_def node_count_def)

theorem node_table_add_keeps_first_witness:
  "\<exists>s'. node_table_add (Some 2) True sample_node 5 (Some 51) = Inr s' \<and> \<not> node_table_mutex s' \<and>
    node_table_find s' 5 = Inr (pointer_or_null (Some (case node_contents sample_node 5 of None \<Rightarrow> Some 51 | Some c' \<Rightarrow> c'))) \<and>
    (\<forall>b. window 0 b \<and> b \<noteq> 5 \<longrightarrow> node_table_find s' b = node_table_find sample_node b) \<and>
    node_log s' = (if node_table_find sample_node 5 = Inr None then node_log sample_node
      else log_warn (overwrite_warning 5) (node_log sample_node))"
  by (rule node_table_add_keeps_first) (simp_all add: sample_node_wf window_def min_size_32 AVL_MAX_HEIGHT_def)

section \<open>The forward table\<close>

text \<open>
  C29: From \<open>forward_table_init\<close>, a run of at most \<open>min_size 32\<close> = 5702886 operations on sources that all
  lie in one window of \<open>2 ^ 31\<close>, where \<open>compareAddress32\<close> is an order, keeps exactly the graph of edges of
  \<open>graph_step\<close>, or ends in exactly its fault. Removing one of several edges of a source keeps the
  mutex of the entry, and the next edge added to that source or taken from it is a deadlock;
  removing a source never returns: it goes through a null entry, or takes its mutex twice.
\<close>

theorem forward_run_is_graph:
  assumes "\<forall>x\<in>set xs. window base (op_source x)" "length xs \<le> min_size AVL_MAX_HEIGHT"
  shows "case graph_run xs Map.empty of
      Inl e \<Rightarrow> forward_run xs (forward_table_init True s) = Inl e
    | Inr g \<Rightarrow> \<exists>s'. forward_run xs (forward_table_init True s) = Inr s' \<and> forward_wf base s' \<and> graph_of s' = g"
  using forward_run_graph [of base "forward_table_init True s" xs] forward_init_wf assms by (simp add: predicts_def)

definition sample_edges :: "graph_op list" where
  "sample_edges = [AddEdge 1 7, AddEdge 1 8, RemoveEdge 1 7, AddEdge 1 9]"

definition sample_forward :: forward_state where
  "sample_forward = \<lparr>forward_table = None, forward_table_lock = False, forwards = Map.empty, next_ptr = 1,
     forward_stdout = [], forward_log = log_init\<rparr>"

theorem forward_run_is_graph_witness:
  "(case graph_run sample_edges Map.empty of
      Inl e \<Rightarrow> forward_run sample_edges (forward_table_init True sample_forward) = Inl e
    | Inr g \<Rightarrow> \<exists>s'. forward_run sample_edges (forward_table_init True sample_forward) = Inr s' \<and>
        forward_wf 0 s' \<and> graph_of s' = g) \<and>
    graph_run sample_edges Map.empty = Inl Deadlock"
proof
  show "case graph_run sample_edges Map.empty of
      Inl e \<Rightarrow> forward_run sample_edges (forward_table_init True sample_forward) = Inl e
    | Inr g \<Rightarrow> \<exists>s'. forward_run sample_edges (forward_table_init True sample_forward) = Inr s' \<and>
        forward_wf 0 s' \<and> graph_of s' = g"
    by (rule forward_run_is_graph) (simp_all add: sample_edges_def window_def min_size_32 AVL_MAX_HEIGHT_def)
  show "graph_run sample_edges Map.empty = Inl Deadlock" by (simp add: sample_edges_def)
qed

section \<open>The linked list\<close>

text \<open>
  C30: Appending and prepending in any order builds the list one expects (\<open>data_step\<close>), but
  \<open>ll_length\<close> counts one element too few, goes through a null pointer on the empty list, and does
  not return when the first element was prepended and none was appended since: that element is its
  own successor.
\<close>

theorem ll_length_outcome:
  "\<exists>l. ll_create True = Inr l \<and> (\<exists>s. ll_run xs (l, h) = Inr s \<and>
    (case fold data_step xs ([], False) of (ds, looped) \<Rightarrow>
       represents s ds looped \<and>
       ll_length s = (if ds = [] then Some (Inl NullDeref) else if looped then None
                      else Some (Inr (of_nat (length ds - 1))))))"
proof -
  let ?l = "\<lparr>list_head = None, list_tail = None\<rparr>"
  have empty: "represents (?l, h) [] False" by (auto simp: represents_def intro!: exI [of _ "[]"])
  obtain ds looped where spec: "fold data_step xs ([], False) = (ds, looped)" by fastforce
  obtain s where s: "ll_run xs (?l, h) = Inr s" "represents s ds looped"
    using ll_run_represents [OF empty, of xs] unfolding spec prod.case by (elim exE conjE)
  show ?thesis
    unfolding spec prod.case
    by (rule exI [of _ ?l], intro conjI exI [of _ s] s ll_length_represents [OF s(2)]) (simp add: ll_create_def)
qed

end
