(* ===== verification/AddressTrie.thy ===== *)
theory AddressTrie
  imports Prelude
begin

text \<open>
  \<open>archive/AddressTrie.h\<close> and \<open>archive/AddressTrie.c\<close>: a trie of 32-bit addresses, one byte per level,
  in which an entry stands at the first level where no other entry shares its bytes. A root is the
  list of its 256 pointers; contexts are never null but in \<open>address_trie_put\<close>'s argument; \<open>malloc\<close>
  is taken to succeed. Below the fourth level the code reads outside \<open>mask_lookup_table\<close>, which is
  \<open>OutOfBounds\<close>. The message of a failed search is not modelled.

  The lemmas: as long as the lowest byte of the addresses is not 0, the trie is a map from addresses
  to contexts that refuses a second entry for an address with an access outside the table.
\<close>

section \<open>Operations\<close>

datatype 'd address_trie =
  Trie (trie_address: u32) (trie_mask: nat) (trie_next: "'d address_trie option list option") (trie_context: "'d option")

type_synonym 'd trie_root = "'d address_trie option list"

definition mask_lookup_table :: "u32 list" where
  "mask_lookup_table = [0xFF000000, 0xFFFF0000, 0xFFFFFF00, 0xFFFFFFFF]"

definition lookupAddress :: "u32 \<Rightarrow> nat \<Rightarrow> u32" where
  "lookupAddress a maskBytes = a AND mask_lookup_table ! maskBytes"

definition localOffset :: "u32 \<Rightarrow> nat \<Rightarrow> nat" where
  "localOffset a maskBytes = unat (drop_bit (8 * (3 - maskBytes)) (lookupAddress a maskBytes) AND 0xFF)"

definition address_trie_init :: "'d trie_root" where
  "address_trie_init = replicate 256 None"

text \<open>The trie, and the way to the entry that is returned.\<close>

function address_trie_put ::
    "'d trie_root \<Rightarrow> 'd option \<Rightarrow> u32 \<Rightarrow> nat \<Rightarrow> ('d trie_root \<times> nat list) result" where
  "address_trie_put root cx a maskBytes =
     (if length mask_lookup_table \<le> maskBytes then Inl OutOfBounds
      else
        (let i = localOffset a maskBytes in
         case (case root ! i of None \<Rightarrow> Trie 0 0 None None | Some n \<Rightarrow> n) of
           Trie addr msk (Some nxt) c \<Rightarrow>
             andThen (address_trie_put nxt cx a (maskBytes + 1)) (\<lambda>(nxt, way).
             Inr (root[i := Some (Trie addr msk (Some nxt) c)], i # way))
         | Trie addr msk None None \<Rightarrow> Inr (root[i := Some (Trie a maskBytes None cx)], [i])
         | Trie addr msk None (Some c) \<Rightarrow>
             andThen (address_trie_put address_trie_init (Some c) addr (maskBytes + 1)) (\<lambda>(nxt, _).
             andThen (address_trie_put nxt cx a (maskBytes + 1)) (\<lambda>(nxt, way).
             Inr (root[i := Some (Trie (lookupAddress a maskBytes) maskBytes (Some nxt) (Some c))], i # way)))))"
  by pat_completeness auto
termination
  by (relation "measure (\<lambda>(_, _, _, maskBytes). 4 - maskBytes)") (auto simp: mask_lookup_table_def)

declare address_trie_put.simps [simp del]

function address_trie_remove :: "'d trie_root \<Rightarrow> u32 \<Rightarrow> nat \<Rightarrow> ('d trie_root \<times> bool) result" where
  "address_trie_remove root a maskBytes =
     (if length mask_lookup_table \<le> maskBytes then Inl OutOfBounds
      else
        (let i = localOffset a maskBytes in
         case root ! i of
           None \<Rightarrow> Inr (root, True)
         | Some (Trie addr msk None c) \<Rightarrow> Inr (root[i := None], True)
         | Some (Trie addr msk (Some nxt) c) \<Rightarrow>
             andThen (address_trie_remove nxt a (maskBytes + 1)) (\<lambda>(nxt, gone).
             if gone then
               Inr (root[i := if \<forall>p\<in>set nxt. p = None then None else Some (Trie addr msk (Some nxt) c)], True)
             else Inr (root[i := Some (Trie addr msk (Some nxt) c)], False))))"
  by pat_completeness auto
termination
  by (relation "measure (\<lambda>(_, _, maskBytes). 4 - maskBytes)") (auto simp: mask_lookup_table_def)

declare address_trie_remove.simps [simp del]

function address_trie_find :: "'d trie_root \<Rightarrow> u32 \<Rightarrow> nat \<Rightarrow> 'd option result" where
  "address_trie_find root a maskBytes =
     (if length mask_lookup_table \<le> maskBytes then Inl OutOfBounds
      else
        (case root ! localOffset a maskBytes of
           None \<Rightarrow> Inr None
         | Some (Trie addr msk nxt c) \<Rightarrow>
             if addr = a then Inr c
             else (case nxt of Some nxt \<Rightarrow> address_trie_find nxt a (maskBytes + 1) | None \<Rightarrow> Inr None)))"
  by pat_completeness auto
termination
  by (relation "measure (\<lambda>(_, _, maskBytes). 4 - maskBytes)") (auto simp: mask_lookup_table_def)

declare address_trie_find.simps [simp del]

text \<open>The contexts passed to the function, in order; a node without a context hides what is below it.\<close>

fun address_trie_walk :: "'d trie_root \<Rightarrow> 'd list" where
  "address_trie_walk [] = []"
| "address_trie_walk (None # ps) = address_trie_walk ps"
| "address_trie_walk (Some (Trie a m nxt None) # ps) = address_trie_walk ps"
| "address_trie_walk (Some (Trie a m (Some nxt) (Some c)) # ps) = address_trie_walk nxt @ address_trie_walk ps"
| "address_trie_walk (Some (Trie a m None (Some c)) # ps) = c # address_trie_walk ps"

section \<open>Bytes of an address\<close>

definition low_byte :: "u32 \<Rightarrow> u32" where "low_byte a = a AND 0xFF"

lemma maskBytes_cases: "(i :: nat) < 4 \<Longrightarrow> i = 0 \<or> i = 1 \<or> i = 2 \<or> i = 3"
  by arith

lemma localOffset_byte: "i < 4 \<Longrightarrow> localOffset a i = unat (take_bit 8 (drop_bit (8 * (3 - i)) a))"
proof -
  assume "i < 4"
  have m: "(0xFF :: u32) = mask 8" "(0xFF000000 :: u32) = push_bit 24 (mask 8)" "(0xFFFF0000 :: u32) = push_bit 16 (mask 16)"
    "(0xFFFFFF00 :: u32) = push_bit 8 (mask 24)" "(0xFFFFFFFF :: u32) = mask 32"
    by (simp_all add: mask_eq_exp_minus_1 push_bit_eq_mult)
  have "drop_bit (8 * (3 - i)) (lookupAddress a i) AND 0xFF = take_bit 8 (drop_bit (8 * (3 - i)) a)"
    unfolding lookupAddress_def m(1)
    using maskBytes_cases [OF \<open>i < 4\<close>]
    by (elim disjE) (auto simp: mask_lookup_table_def m intro!: bit_word_eqI
        simp: bit_simps)
  then show ?thesis by (simp add: localOffset_def)
qed

lemma localOffset_less: "i < 4 \<Longrightarrow> localOffset a i < 256"
proof -
  assume "i < 4"
  have "unat (take_bit 8 (drop_bit (8 * (3 - i)) a)) < 2 ^ 8"
    unfolding unsigned_take_bit_eq by (rule take_bit_nat_less_exp)
  then show ?thesis using \<open>i < 4\<close> by (simp add: localOffset_byte)
qed

definition same_prefix :: "nat \<Rightarrow> u32 \<Rightarrow> u32 \<Rightarrow> bool" where
  "same_prefix i a b \<longleftrightarrow> (\<forall>k<i. localOffset a k = localOffset b k)"

lemma same_prefix_Suc: "same_prefix (Suc i) a b \<longleftrightarrow> same_prefix i a b \<and> localOffset a i = localOffset b i"
  by (auto simp: same_prefix_def less_Suc_eq)

lemma same_prefix_refl [simp]: "same_prefix i a a"
  by (simp add: same_prefix_def)

lemma same_prefix_4: "same_prefix 4 a b \<Longrightarrow> a = b"
proof (rule bit_word_eqI)
  fix k
  assume s: "same_prefix 4 a b" and k: "k < LENGTH(32)"
  let ?i = "3 - k div 8"
  have "localOffset a ?i = localOffset b ?i" using s by (simp add: same_prefix_def)
  then have e: "take_bit 8 (drop_bit (8 * (3 - ?i)) a) = take_bit 8 (drop_bit (8 * (3 - ?i)) b)"
    by (simp add: localOffset_byte word_unat_eq_iff)
  have d: "3 - ?i = k div 8" using k by simp
  have "bit (take_bit 8 (drop_bit (8 * (k div 8)) w)) (k mod 8) = bit w k" for w :: u32
    by (simp add: bit_simps)
  then show "bit a k = bit b k" using e [unfolded d] by metis
qed

lemma lookupAddress_prefix: "k \<le> i \<Longrightarrow> i < 4 \<Longrightarrow> localOffset (lookupAddress a i) k = localOffset a k"
proof -
  assume "k \<le> i" "i < 4"
  have m: "mask_lookup_table ! i = push_bit (8 * (3 - i)) (mask (8 * Suc i))"
    using maskBytes_cases [OF \<open>i < 4\<close>]
    by (elim disjE) (simp_all add: mask_lookup_table_def mask_eq_exp_minus_1 push_bit_eq_mult)
  have "take_bit 8 (drop_bit (8 * (3 - k)) (lookupAddress a i)) = take_bit 8 (drop_bit (8 * (3 - k)) a)"
    unfolding lookupAddress_def m using \<open>k \<le> i\<close> \<open>i < 4\<close> by (intro bit_word_eqI) (auto simp: bit_simps)
  then show ?thesis using \<open>k \<le> i\<close> \<open>i < 4\<close> by (simp add: localOffset_byte)
qed

lemma low_byte_lookupAddress: "i < 3 \<Longrightarrow> low_byte (lookupAddress a i) = 0"
proof -
  assume "i < 3"
  then have "i = 0 \<or> i = 1 \<or> i = 2" by arith
  then show ?thesis
    by (elim disjE) (simp_all add: low_byte_def lookupAddress_def mask_lookup_table_def and.assoc)
qed

lemma mask_first: "(0xFF000000 :: u32) = push_bit 24 (mask 8)"
  by (simp add: mask_eq_exp_minus_1 push_bit_eq_mult)

lemma lookupAddress_first: "lookupAddress a 0 = push_bit 24 (word_of_nat (localOffset a 0))"
proof -
  have "lookupAddress a 0 = push_bit 24 (take_bit 8 (drop_bit 24 a))"
    by (rule bit_word_eqI) (auto simp: lookupAddress_def mask_lookup_table_def bit_simps mask_first)
  then show ?thesis by (simp add: localOffset_byte)
qed

section \<open>The invariant and the map\<close>

text \<open>\<open>n\<close> is the number of levels left, so the level of the code is \<open>4 - n\<close>.\<close>

fun slot_ok :: "(u32 \<Rightarrow> 'd trie_root \<Rightarrow> bool) \<Rightarrow> nat \<Rightarrow> u32 \<Rightarrow> nat \<Rightarrow> 'd address_trie option \<Rightarrow> bool" where
  "slot_ok ok i p j None = True"
| "slot_ok ok i p j (Some (Trie addr m nxt c)) =
     (c \<noteq> None \<and> localOffset addr i = j \<and> same_prefix i addr p \<and>
      (case nxt of None \<Rightarrow> low_byte addr \<noteq> 0 | Some r \<Rightarrow> low_byte addr = 0 \<and> ok addr r))"

fun trie_ok :: "nat \<Rightarrow> u32 \<Rightarrow> 'd trie_root \<Rightarrow> bool" where
  "trie_ok 0 p root = False"
| "trie_ok (Suc n) p root =
     (length root = 256 \<and> (\<forall>j<256. slot_ok (trie_ok n) (3 - n) p j (root ! j)))"

fun trie_lookup :: "nat \<Rightarrow> 'd trie_root \<Rightarrow> u32 \<Rightarrow> 'd option" where
  "trie_lookup 0 root a = None"
| "trie_lookup (Suc n) root a =
     (case root ! localOffset a (3 - n) of
        None \<Rightarrow> None
      | Some (Trie addr m None c) \<Rightarrow> if addr = a then c else None
      | Some (Trie addr m (Some nxt) c) \<Rightarrow> trie_lookup n nxt a)"

lemma init_nth [simp]: "j < 256 \<Longrightarrow> address_trie_init ! j = None"
  by (simp add: address_trie_init_def)

lemma trie_ok_init: "0 < n \<Longrightarrow> trie_ok n p address_trie_init"
  by (cases n) (simp_all add: address_trie_init_def)

lemma trie_lookup_init: "n \<le> 4 \<Longrightarrow> trie_lookup n address_trie_init a = None"
  by (cases n) (simp_all add: localOffset_less)

lemma trie_ok_update:
  assumes "trie_ok (Suc n) p root" "slot_ok (trie_ok n) (3 - n) p j v" "j < 256"
  shows "trie_ok (Suc n) p (root[j := v])"
  using assms by (simp add: nth_list_update)

lemma find_lookup:
  "trie_ok n p root \<Longrightarrow> n \<le> 4 \<Longrightarrow> low_byte a \<noteq> 0 \<Longrightarrow> address_trie_find root a (4 - n) = Inr (trie_lookup n root a)"
proof (induction n arbitrary: p root)
  case (Suc n)
  have lv: "4 - Suc n = 3 - n" "3 - n < 4" "length mask_lookup_table = 4" "Suc (3 - n) = 4 - n"
    using Suc.prems(2) by (simp_all add: mask_lookup_table_def)
  have ok: "slot_ok (trie_ok n) (3 - n) p (localOffset a (3 - n)) (root ! localOffset a (3 - n))"
    using Suc.prems(1) localOffset_less [OF lv(2)] by simp
  show ?case
  proof (cases "root ! localOffset a (3 - n)")
    case None
    then show ?thesis using lv by (simp add: address_trie_find.simps [of root])
  next
    case (Some node)
    obtain addr m nxt c where node: "node = Trie addr m nxt c" by (cases node)
    show ?thesis
    proof (cases nxt)
      case None
      then show ?thesis using Some node lv by (simp add: address_trie_find.simps [of root])
    next
      case (Some r)
      then have "trie_ok n addr r" "addr \<noteq> a" using ok \<open>root ! _ = Some node\<close> node Suc.prems(3) by auto
      then show ?thesis
        using Suc.IH [of addr r] Suc.prems \<open>root ! _ = Some node\<close> node Some lv
        by (simp add: address_trie_find.simps [of root])
    qed
  qed
qed simp

text \<open>The levels of the code at \<open>n\<close> more levels below this one.\<close>

lemma level:
  assumes "Suc n \<le> 4"
  shows "4 - Suc n = 3 - n" "3 - n < 4" "\<not> length mask_lookup_table \<le> 3 - n" "Suc (3 - n) = 4 - n" "localOffset a (3 - n) < 256"
  using assms localOffset_less [of "3 - n" a] by (simp_all add: mask_lookup_table_def)

lemma trie_okD:
  assumes "trie_ok (Suc n) p root" "Suc n \<le> 4"
  shows "length root = 256" "slot_ok (trie_ok n) (3 - n) p (localOffset a (3 - n)) (root ! localOffset a (3 - n))"
  using assms(1) level(5) [OF assms(2)] by simp_all

lemma lookup_update:
  assumes "length root = 256" "Suc n \<le> 4"
  shows "trie_lookup (Suc n) (root[localOffset a (3 - n) := v]) b =
    (if localOffset b (3 - n) = localOffset a (3 - n) then
       (case v of None \<Rightarrow> None | Some (Trie addr m None c) \<Rightarrow> if addr = b then c else None
        | Some (Trie addr m (Some nxt) c) \<Rightarrow> trie_lookup n nxt b)
     else trie_lookup (Suc n) root b)"
  using assms(1) level(5) [OF assms(2), of a] by (simp add: nth_list_update)

text \<open>Storing a new address.\<close>

definition put_result :: "nat \<Rightarrow> u32 \<Rightarrow> 'd trie_root \<Rightarrow> u32 \<Rightarrow> 'd \<Rightarrow> bool" where
  "put_result n p root a c \<longleftrightarrow> (\<exists>root' way. address_trie_put root (Some c) a (4 - n) = Inr (root', way) \<and>
     trie_ok n p root' \<and> (\<forall>b. trie_lookup n root' b = (if b = a then Some c else trie_lookup n root b)))"

lemma put_resultE:
  assumes "put_result n p root a c"
  obtains root' way where "address_trie_put root (Some c) a (4 - n) = Inr (root', way)" "trie_ok n p root'"
    "\<forall>b. trie_lookup n root' b = (if b = a then Some c else trie_lookup n root b)"
  using assms by (auto simp: put_result_def)

lemma put_slot:
  assumes ok: "trie_ok (Suc n) p root" and n: "Suc n \<le> 4"
    and put: "address_trie_put root (Some c) a (3 - n) = Inr (root[localOffset a (3 - n) := v], way)"
    and v: "slot_ok (trie_ok n) (3 - n) p (localOffset a (3 - n)) v"
    and look: "\<And>b. localOffset b (3 - n) = localOffset a (3 - n) \<Longrightarrow>
      (case v of None \<Rightarrow> None | Some (Trie addr m None c) \<Rightarrow> if addr = b then c else None
       | Some (Trie addr m (Some nxt) c) \<Rightarrow> trie_lookup n nxt b) =
      (if b = a then Some c else trie_lookup (Suc n) root b)"
  shows "put_result (Suc n) p root a c"
proof -
  have "trie_ok (Suc n) p (root[localOffset a (3 - n) := v])"
    by (rule trie_ok_update [OF ok v level(5) [OF n]])
  moreover have "trie_lookup (Suc n) (root[localOffset a (3 - n) := v]) b = (if b = a then Some c else trie_lookup (Suc n) root b)" for b
    unfolding lookup_update [OF trie_okD(1) [OF ok n] n] using look [of b] by auto
  ultimately show ?thesis using put level(1) [OF n] by (simp add: put_result_def del: trie_ok.simps trie_lookup.simps)
qed

text \<open>One level, given that the level below stores addresses: an inner node passes the address down, a
  leaf of another address becomes an inner node with both below it.\<close>

definition storable :: "nat \<Rightarrow> u32 \<Rightarrow> 'd trie_root \<Rightarrow> u32 \<Rightarrow> bool" where
  "storable n p root a \<longleftrightarrow> trie_ok n p root \<and> same_prefix (4 - n) a p \<and> low_byte a \<noteq> 0 \<and> trie_lookup n root a = None"

lemma put_below:
  fixes root :: "'d trie_root"
  assumes below: "\<And>p (root :: 'd trie_root) a c. storable n p root a \<Longrightarrow> put_result n p root a c"
    and st: "storable (Suc n) p root a" and n: "Suc n \<le> 4"
    and slot: "root ! localOffset a (3 - n) = Some (Trie addr m (Some r) c')"
  shows "put_result (Suc n) p root a c"
proof -
  note lv = level [OF n]
  let ?i = "3 - n"
  have s: "trie_ok (Suc n) p root" "same_prefix ?i a p" "low_byte a \<noteq> 0" "trie_lookup (Suc n) root a = None"
    using st lv(1) by (simp_all add: storable_def del: trie_ok.simps trie_lookup.simps)
  have r: "trie_ok n addr r" "localOffset addr ?i = localOffset a ?i" "same_prefix ?i addr p" "c' \<noteq> None" "low_byte addr = 0"
    using trie_okD(2) [OF s(1) n, of a] slot by simp_all
  have "same_prefix (4 - n) a addr" using r(2,3) s(2) by (simp add: same_prefix_Suc flip: lv(4)) (simp add: same_prefix_def)
  moreover have "trie_lookup n r a = None" using s(4) slot by simp
  ultimately have "put_result n addr r a c" using below [of addr r a] r(1) s(3) by (simp add: storable_def)
  then obtain r' way where r': "address_trie_put r (Some c) a (4 - n) = Inr (r', way)" "trie_ok n addr r'"
    "\<forall>b. trie_lookup n r' b = (if b = a then Some c else trie_lookup n r b)" by (rule put_resultE)
  show ?thesis
    by (rule put_slot [OF s(1) n, where c = c and v = "Some (Trie addr m (Some r') c')" and way = "localOffset a ?i # way"])
      (use slot lv r r' in \<open>simp_all add: Let_def address_trie_put.simps [of root]\<close>)
qed

lemma put_splits:
  fixes root :: "'d trie_root"
  assumes below: "\<And>p (root :: 'd trie_root) a c. storable n p root a \<Longrightarrow> put_result n p root a c"
    and st: "storable (Suc n) p root a" and n: "Suc n \<le> 4"
    and slot: "root ! localOffset a (3 - n) = Some (Trie addr m None (Some d))"
  shows "put_result (Suc n) p root a c"
proof -
  note lv = level [OF n]
  let ?i = "3 - n" and ?p = "lookupAddress a (3 - n)"
  have s: "trie_ok (Suc n) p root" "same_prefix ?i a p" "low_byte a \<noteq> 0" "trie_lookup (Suc n) root a = None" "n \<le> 4"
    using st lv(1) n by (simp_all add: storable_def del: trie_ok.simps trie_lookup.simps)
  have leaf: "localOffset addr ?i = localOffset a ?i" "same_prefix ?i addr p" "low_byte addr \<noteq> 0"
    using trie_okD(2) [OF s(1) n, of a] slot by simp_all
  have ne: "addr \<noteq> a" using s(4) slot by auto
  have same: "same_prefix (4 - n) addr a"
    using leaf(1,2) s(2) by (simp add: same_prefix_Suc flip: lv(4)) (simp add: same_prefix_def)
  have n0: "0 < n" using same same_prefix_4 ne by (cases n) auto
  have prefix: "same_prefix (4 - n) a ?p" "localOffset ?p ?i = localOffset a ?i" "same_prefix ?i ?p p"
    using lookupAddress_prefix [OF _ lv(2), of _ a] s(2) by (simp_all add: same_prefix_def flip: lv(4))
  have "same_prefix (4 - n) addr ?p" using same prefix(1) by (simp add: same_prefix_def)
  then have "storable n ?p address_trie_init addr"
    using leaf(3) by (simp add: storable_def trie_ok_init [OF n0] trie_lookup_init [OF s(5)])
  then have "put_result n ?p address_trie_init addr d" by (rule below)
  then obtain r1 w1 where r1: "address_trie_put address_trie_init (Some d) addr (4 - n) = Inr (r1, w1)" "trie_ok n ?p r1"
    "\<forall>b. trie_lookup n r1 b = (if b = addr then Some d else trie_lookup n address_trie_init b)" by (rule put_resultE)
  have "storable n ?p r1 a" using r1(2,3) ne prefix(1) s(3) trie_lookup_init [OF s(5)] by (simp add: storable_def)
  then have "put_result n ?p r1 a c" by (rule below)
  then obtain r2 w2 where r2: "address_trie_put r1 (Some c) a (4 - n) = Inr (r2, w2)" "trie_ok n ?p r2"
    "\<forall>b. trie_lookup n r2 b = (if b = a then Some c else trie_lookup n r1 b)" by (rule put_resultE)
  have low: "low_byte ?p = 0" by (rule low_byte_lookupAddress) (use n0 in simp)
  show ?thesis
    by (rule put_slot [OF s(1) n, where c = c and v = "Some (Trie ?p ?i (Some r2) (Some d))" and way = "localOffset a ?i # w2"])
      (use slot lv r1 r2 low prefix trie_lookup_init [OF s(5)] in \<open>auto simp: Let_def address_trie_put.simps [of root]\<close>)
qed

lemma put_new:
  "n \<le> 4 \<Longrightarrow> storable n p root a \<Longrightarrow> put_result n p root a c"
proof (induction n arbitrary: p root a c)
  case (Suc n p root a c)
  note lv = level [OF Suc.prems(1)]
  let ?i = "3 - n"
  have below: "storable n p root a \<Longrightarrow> put_result n p root a c" for p a c and root :: "'a trie_root"
    by (rule Suc.IH) (use Suc.prems(1) in simp_all)
  have ok: "trie_ok (Suc n) p root" "same_prefix ?i a p" "low_byte a \<noteq> 0"
    using Suc.prems(2) lv(1) by (simp_all add: storable_def del: trie_ok.simps)
  show ?case
  proof (cases "root ! localOffset a ?i")
    case None
    show ?thesis
      by (rule put_slot [OF ok(1) Suc.prems(1), where c = c and v = "Some (Trie a ?i None (Some c))" and way = "[localOffset a ?i]"])
        (use None lv ok(2,3) in \<open>simp_all add: Let_def address_trie_put.simps [of root]\<close>)
  next
    case node: (Some node)
    obtain addr m nxt c' where tr: "node = Trie addr m nxt c'" by (cases node)
    then obtain d where d: "c' = Some d" using trie_okD(2) [OF ok(1) Suc.prems(1), of a] node by auto
    show ?thesis
    proof (cases nxt)
      case None
      have slot: "root ! localOffset a (3 - n) = Some (Trie addr m None (Some d))" using node tr d None by simp
      show ?thesis by (rule put_splits [OF below Suc.prems(2,1) slot])
    next
      case (Some r)
      have slot: "root ! localOffset a (3 - n) = Some (Trie addr m (Some r) c')" using node tr Some by simp
      show ?thesis by (rule put_below [OF below Suc.prems(2,1) slot])
    qed
  qed
qed (simp add: storable_def)

text \<open>Storing an address again.\<close>

lemma put_again:
  "trie_ok n p root \<Longrightarrow> n \<le> 4 \<Longrightarrow> trie_lookup n root a = Some d \<Longrightarrow>
   address_trie_put root (Some c) a (4 - n) = Inl OutOfBounds"
proof (induction n arbitrary: p root c d)
  case (Suc n p root c d)
  note lv = level [OF Suc.prems(2)]
  let ?i = "3 - n"
  have ok: "slot_ok (trie_ok n) ?i p (localOffset a ?i) (root ! localOffset a ?i)"
    by (rule trie_okD(2) [OF Suc.prems(1,2)])
  have n: "n \<le> 4" using Suc.prems(2) by simp
  obtain addr m nxt c' where node: "root ! localOffset a ?i = Some (Trie addr m nxt c')"
    using Suc.prems(3) by (auto split: option.splits address_trie.splits)
  show ?case
  proof (cases nxt)
    case (Some r)
    then have "trie_ok n addr r" "trie_lookup n r a = Some d" using ok node Suc.prems(3) by simp_all
    from Suc.IH [OF this(1) n this(2)] show ?thesis
      using node Some lv by (simp add: Let_def address_trie_put.simps [of root])
  next
    case None
    then have leaf: "addr = a" "c' = Some d" "low_byte a \<noteq> 0"
      using ok node Suc.prems(3) by (auto split: if_splits)
    have "address_trie_put address_trie_init (Some d) a (4 - n) = Inl OutOfBounds \<or>
        put_result n (lookupAddress a ?i) address_trie_init a d"
    proof (cases n)
      case 0
      then show ?thesis by (simp add: address_trie_put.simps mask_lookup_table_def)
    next
      case (Suc k)
      have "same_prefix (4 - n) a (lookupAddress a ?i)"
        using lookupAddress_prefix [OF _ lv(2), of _ a] by (simp add: same_prefix_def flip: lv(4))
      then have "put_result n (lookupAddress a ?i) address_trie_init a d"
        by (intro put_new [OF n]) (simp add: storable_def trie_ok_init leaf(3) trie_lookup_init [OF n [unfolded Suc]] Suc
            del: trie_ok.simps trie_lookup.simps)
      then show ?thesis ..
    qed
    then show ?thesis
    proof
      assume "put_result n (lookupAddress a ?i) address_trie_init a d"
      then obtain r1 w1 where r1: "address_trie_put address_trie_init (Some d) a (4 - n) = Inr (r1, w1)"
        "trie_ok n (lookupAddress a ?i) r1" "\<forall>b. trie_lookup n r1 b = (if b = a then Some d else trie_lookup n address_trie_init b)"
        by (rule put_resultE)
      have "address_trie_put r1 (Some c) a (4 - n) = Inl OutOfBounds" by (rule Suc.IH [OF r1(2) n]) (simp add: r1(3))
      then show ?thesis using node None leaf r1(1) lv by (simp add: Let_def address_trie_put.simps [of root])
    qed (use node None leaf lv in \<open>simp add: Let_def address_trie_put.simps [of root]\<close>)
  qed
qed simp

text \<open>Removing an address that is stored.\<close>

lemma lookup_empty:
  assumes "n \<le> 4" "length root = 256" "\<forall>q\<in>set root. q = None"
  shows "trie_lookup n root b = None"
proof (cases n)
  case (Suc k)
  then have "localOffset b (3 - k) < length root" using localOffset_less [of "3 - k" b] assms by simp
  then have "root ! localOffset b (3 - k) = None" using assms(3) nth_mem by blast
  then show ?thesis using Suc by simp
qed simp

lemma remove_present:
  "trie_ok n p root \<Longrightarrow> n \<le> 4 \<Longrightarrow> trie_lookup n root a = Some d \<Longrightarrow>
   \<exists>root'. address_trie_remove root a (4 - n) = Inr (root', True) \<and> trie_ok n p root' \<and>
     (\<forall>b. trie_lookup n root' b = (if b = a then None else trie_lookup n root b))"
proof (induction n arbitrary: p root)
  case (Suc n p root)
  note lv = level [OF Suc.prems(2)]
  let ?i = "3 - n"
  have ok: "slot_ok (trie_ok n) ?i p (localOffset a ?i) (root ! localOffset a ?i)"
    by (rule trie_okD(2) [OF Suc.prems(1,2)])
  have n: "n \<le> 4" using Suc.prems(2) by simp
  obtain addr m nxt c' where node: "root ! localOffset a ?i = Some (Trie addr m nxt c')"
    using Suc.prems(3) by (auto split: option.splits address_trie.splits)
  have update: ?case
    if rem: "address_trie_remove root a ?i = Inr (root[localOffset a ?i := v], True)"
      and v: "slot_ok (trie_ok n) ?i p (localOffset a ?i) v"
      and look: "\<And>b. localOffset b ?i = localOffset a ?i \<Longrightarrow>
        (case v of None \<Rightarrow> None | Some (Trie addr m None c) \<Rightarrow> if addr = b then c else None
         | Some (Trie addr m (Some nxt) c) \<Rightarrow> trie_lookup n nxt b) =
        (if b = a then None else trie_lookup (Suc n) root b)" for v
  proof (intro exI conjI allI)
    show "trie_ok (Suc n) p (root[localOffset a ?i := v])" by (rule trie_ok_update [OF Suc.prems(1) v lv(5)])
    show "trie_lookup (Suc n) (root[localOffset a ?i := v]) b = (if b = a then None else trie_lookup (Suc n) root b)" for b
      unfolding lookup_update [OF trie_okD(1) [OF Suc.prems(1,2)] Suc.prems(2)] using look [of b] by auto
  qed (use rem lv(1) in simp)
  show ?case
  proof (cases nxt)
    case None
    then have "addr = a" using node Suc.prems(3) by (auto split: if_splits)
    then show ?thesis
      by (intro update [of None]) (use node None lv in \<open>auto simp: Let_def address_trie_remove.simps [of root]\<close>)
  next
    case (Some r)
    then have r: "trie_ok n addr r" "trie_lookup n r a = Some d" using ok node Suc.prems(3) by simp_all
    obtain r' where r': "address_trie_remove r a (4 - n) = Inr (r', True)" "trie_ok n addr r'"
      "\<forall>b. trie_lookup n r' b = (if b = a then None else trie_lookup n r b)"
      using Suc.IH [OF r(1) n r(2)] by blast
    have len: "length r' = 256" using r'(2) by (cases n) auto
    show ?thesis
    proof (cases "\<forall>q\<in>set r'. q = None")
      case True
      then have "trie_lookup n r' b = None" for b using lookup_empty [OF n len] by blast
      then have "trie_lookup n r b = None" if "b \<noteq> a" for b using r'(3) that by metis
      then show ?thesis
        by (intro update [of None]) (use node Some lv r' True in \<open>auto simp: Let_def address_trie_remove.simps [of root]\<close>)
    next
      case False
      then show ?thesis
        by (intro update [of "Some (Trie addr m (Some r') c')"])
          (use node Some lv ok r' False in \<open>auto simp: Let_def address_trie_remove.simps [of root]\<close>)
    qed
  qed
qed simp

end
