(* ===== verification/TrieProps.thy ===== *)
theory TrieProps
  imports AddressTrie
begin

text \<open>
  Runs of operations on the address trie of \<open>archive/AddressTrie.c\<close> against a finite map, the order in
  which a walk passes the contexts, and the addresses the trie takes for one another.
\<close>

section \<open>Walks\<close>

text \<open>The addresses of the contexts that \<open>address_trie_walk\<close> passes.\<close>

fun walk_addrs :: "'d trie_root \<Rightarrow> u32 list" where
  "walk_addrs [] = []"
| "walk_addrs (None # ps) = walk_addrs ps"
| "walk_addrs (Some (Trie a m nxt None) # ps) = walk_addrs ps"
| "walk_addrs (Some (Trie a m (Some nxt) (Some c)) # ps) = walk_addrs nxt @ walk_addrs ps"
| "walk_addrs (Some (Trie a m None (Some c)) # ps) = a # walk_addrs ps"

lemma walk_addrs_slots: "walk_addrs root = concat (map (\<lambda>q. walk_addrs [q]) root)"
proof (induction root)
  case (Cons q root)
  have "walk_addrs (q # root) = walk_addrs [q] @ walk_addrs root"
    by (cases "[q]" rule: walk_addrs.cases) simp_all
  then show ?case using Cons.IH by simp
qed simp

lemma walk_slots: "address_trie_walk root = concat (map (\<lambda>q. address_trie_walk [q]) root)"
proof (induction root)
  case (Cons q root)
  have "address_trie_walk (q # root) = address_trie_walk [q] @ address_trie_walk root"
    by (cases "[q]" rule: address_trie_walk.cases) simp_all
  then show ?case using Cons.IH by simp
qed simp

lemma lookup_prefix:
  "trie_ok n p root \<Longrightarrow> n \<le> 4 \<Longrightarrow> trie_lookup n root a = Some d \<Longrightarrow> same_prefix (4 - n) a p"
proof (induction n arbitrary: p root)
  case (Suc n p root)
  note lv = level [OF Suc.prems(2)]
  have ok: "slot_ok (trie_ok n) (3 - n) p (localOffset a (3 - n)) (root ! localOffset a (3 - n))"
    by (rule trie_okD(2) [OF Suc.prems(1,2)])
  obtain addr m nxt c where node: "root ! localOffset a (3 - n) = Some (Trie addr m nxt c)"
    using Suc.prems(3) by (auto split: option.splits address_trie.splits)
  show ?case
  proof (cases nxt)
    case None
    then show ?thesis using ok node Suc.prems(3) lv(1) by (auto split: if_splits)
  next
    case (Some r)
    then have r: "trie_ok n addr r" "trie_lookup n r a = Some d" "same_prefix (3 - n) addr p"
      using ok node Suc.prems(3) by simp_all
    have "same_prefix (4 - n) a addr" using Suc.IH [OF r(1) _ r(2)] Suc.prems(2) by simp
    then show ?thesis using r(3) lv(1,4) by (auto simp: same_prefix_def)
  qed
qed simp

lemma distinct_concat_key:
  "distinct js \<Longrightarrow> (\<And>j. j \<in> set js \<Longrightarrow> distinct (f j)) \<Longrightarrow> (\<And>j x. j \<in> set js \<Longrightarrow> x \<in> set (f j) \<Longrightarrow> key x = j) \<Longrightarrow>
   distinct (concat (map f js))"
  by (induction js) (auto, metis)

definition slot_lookup :: "nat \<Rightarrow> 'd address_trie option \<Rightarrow> u32 \<Rightarrow> 'd option" where
  "slot_lookup n q a = (case q of None \<Rightarrow> None | Some (Trie addr m None c) \<Rightarrow> if addr = a then c else None
     | Some (Trie addr m (Some nxt) c) \<Rightarrow> trie_lookup n nxt a)"

definition walks :: "nat \<Rightarrow> 'd trie_root \<Rightarrow> bool" where
  "walks n root \<longleftrightarrow> distinct (walk_addrs root) \<and> set (walk_addrs root) = dom (trie_lookup n root) \<and>
     address_trie_walk root = map (the \<circ> trie_lookup n root) (walk_addrs root)"

lemma slot_walks:
  fixes q :: "'d address_trie option"
  assumes ok: "slot_ok (trie_ok n) (3 - n) p j q" and n: "Suc n \<le> 4"
    and IH: "\<forall>p (r :: 'd trie_root). trie_ok n p r \<longrightarrow> walks n r"
  shows "distinct (walk_addrs [q]) \<and> set (walk_addrs [q]) = dom (slot_lookup n q) \<and>
    address_trie_walk [q] = map (the \<circ> slot_lookup n q) (walk_addrs [q]) \<and>
    (\<forall>a\<in>set (walk_addrs [q]). localOffset a (3 - n) = j)"
proof (cases q)
  case None
  then show ?thesis by (simp add: slot_lookup_def dom_def)
next
  case (Some node)
  obtain addr m nxt c where q: "q = Some (Trie addr m nxt c)" using Some by (cases node) simp
  then obtain d where d: "c = Some d" using ok by auto
  show ?thesis
  proof (cases nxt)
    case None
    then show ?thesis using ok q d by (auto simp: slot_lookup_def dom_def)
  next
    case (Some r)
    then have r: "trie_ok n addr r" "localOffset addr (3 - n) = j" using ok q by simp_all
    have "slot_lookup n q = trie_lookup n r" using q Some by (simp add: slot_lookup_def fun_eq_iff)
    moreover have "localOffset a (3 - n) = j" if "trie_lookup n r a = Some d" for a d
    proof -
      have "same_prefix (Suc (3 - n)) a addr" using lookup_prefix [OF r(1) _ that] n by (simp only: level(4) [OF n])
      then show ?thesis using r(2) by (simp add: same_prefix_Suc)
    qed
    ultimately show ?thesis using IH r(1) q d Some by (auto simp: walks_def)
  qed
qed

lemma trie_walks:
  fixes root :: "'d trie_root"
  shows "trie_ok n p root \<Longrightarrow> n \<le> 4 \<Longrightarrow> walks n root"
proof (induction n arbitrary: p root)
  case (Suc n p root)
  note lv = level [OF Suc.prems(2)]
  have IH: "\<forall>p (r :: 'd trie_root). trie_ok n p r \<longrightarrow> walks n r" using Suc.IH Suc.prems(2) by simp
  have len: "length root = 256" using Suc.prems(1) by simp
  then have root: "root = map ((!) root) [0..<256]" by (metis map_nth)
  have slot: "slot_ok (trie_ok n) (3 - n) p j (root ! j)" if "j < 256" for j using Suc.prems(1) that by simp
  note sl = slot_walks [OF slot Suc.prems(2) IH]
  note key = sl [THEN conjunct2, THEN conjunct2, THEN conjunct2, rule_format]
  note dom = sl [THEN conjunct2, THEN conjunct1]
  have look: "trie_lookup (Suc n) root a = slot_lookup n (root ! localOffset a (3 - n)) a" for a
    by (simp add: slot_lookup_def)
  have look_j: "slot_lookup n (root ! j) a = trie_lookup (Suc n) root a" if "j < 256" "a \<in> set (walk_addrs [root ! j])" for a j
  proof -
    have "localOffset a (3 - n) = j" by (rule key [OF that])
    then show ?thesis by (simp only: look)
  qed
  have addrs: "walk_addrs root = concat (map (\<lambda>j. walk_addrs [root ! j]) [0..<256])"
    by (subst walk_addrs_slots, subst root) (simp only: map_map comp_def)
  have "distinct (walk_addrs root)"
    unfolding addrs by (rule distinct_concat_key [where key = "\<lambda>a. localOffset a (3 - n)"]) (use sl key in simp_all)
  moreover have "set (walk_addrs root) = dom (trie_lookup (Suc n) root)"
  proof (rule set_eqI)
    fix a
    have "a \<in> set (walk_addrs root) \<longleftrightarrow> (\<exists>j<256. a \<in> set (walk_addrs [root ! j]))" by (auto simp: addrs)
    also have "\<dots> \<longleftrightarrow> a \<in> set (walk_addrs [root ! localOffset a (3 - n)])"
      using key [of _ a] lv(5) [of a] by metis
    also have "\<dots> \<longleftrightarrow> a \<in> dom (trie_lookup (Suc n) root)" 
      unfolding dom [OF lv(5) [of a]] domIff look ..
    finally show "a \<in> set (walk_addrs root) \<longleftrightarrow> a \<in> dom (trie_lookup (Suc n) root)" .
  qed
  moreover have "address_trie_walk root = map (the \<circ> trie_lookup (Suc n) root) (walk_addrs root)"
  proof -
    have "address_trie_walk root = concat (map (\<lambda>j. address_trie_walk [root ! j]) [0..<256])"
      by (subst walk_slots, subst root) (simp only: map_map comp_def)
    also have "\<dots> = concat (map (\<lambda>j. map (the \<circ> trie_lookup (Suc n) root) (walk_addrs [root ! j])) [0..<256])"
    proof (rule arg_cong [where f = concat], rule map_cong [OF refl])
      fix j
      assume "j \<in> set [0..<256]"
      then have j: "j < 256" by simp
      show "address_trie_walk [root ! j] = map (the \<circ> trie_lookup (Suc n) root) (walk_addrs [root ! j])"
        using sl [OF j] look_j [OF j] by (simp cong: map_cong)
    qed
    finally show ?thesis by (simp add: addrs map_concat comp_def)
  qed
  ultimately show ?case by (simp add: walks_def)
qed simp

section \<open>Runs against a finite map\<close>

datatype 'd trie_op = Trie_put u32 'd | Trie_find u32 | Trie_remove u32

fun trie_run :: "'d trie_root \<Rightarrow> 'd trie_op list \<Rightarrow> ('d trie_root \<times> 'd option list) result" where
  "trie_run root [] = Inr (root, [])"
| "trie_run root (Trie_put a d # ops) =
     andThen (address_trie_put root (Some d) a 0) (\<lambda>(root, way). trie_run root ops)"
| "trie_run root (Trie_find a # ops) =
     andThen (address_trie_find root a 0) (\<lambda>x.
     andThen (trie_run root ops) (\<lambda>(root, xs). Inr (root, x # xs)))"
| "trie_run root (Trie_remove a # ops) =
     andThen (address_trie_remove root a 0) (\<lambda>(root, gone). trie_run root ops)"

text \<open>What a map does; an address stored twice ends the run outside the table.\<close>

fun trie_spec :: "(u32 \<rightharpoonup> 'd) \<Rightarrow> 'd trie_op list \<Rightarrow> ((u32 \<rightharpoonup> 'd) \<times> 'd option list) result" where
  "trie_spec m [] = Inr (m, [])"
| "trie_spec m (Trie_put a d # ops) = (if m a \<noteq> None then Inl OutOfBounds else trie_spec (m(a \<mapsto> d)) ops)"
| "trie_spec m (Trie_find a # ops) = andThen (trie_spec m ops) (\<lambda>(m', xs). Inr (m', m a # xs))"
| "trie_spec m (Trie_remove a # ops) = trie_spec (m(a := None)) ops"

text \<open>Addresses with a last byte other than 0, and only stored addresses removed.\<close>

fun trie_legal :: "(u32 \<rightharpoonup> 'd) \<Rightarrow> 'd trie_op list \<Rightarrow> bool" where
  "trie_legal m [] = True"
| "trie_legal m (Trie_put a d # ops) \<longleftrightarrow> low_byte a \<noteq> 0 \<and> trie_legal (m(a \<mapsto> d)) ops"
| "trie_legal m (Trie_find a # ops) \<longleftrightarrow> low_byte a \<noteq> 0 \<and> trie_legal m ops"
| "trie_legal m (Trie_remove a # ops) \<longleftrightarrow> m a \<noteq> None \<and> trie_legal (m(a := None)) ops"

definition trie_is :: "'d trie_root \<Rightarrow> (u32 \<rightharpoonup> 'd) \<Rightarrow> bool" where
  "trie_is root m \<longleftrightarrow> trie_ok 4 0 root \<and> trie_lookup 4 root = m"

lemma same_prefix_0 [simp]: "same_prefix 0 a b"
  by (simp add: same_prefix_def)

lemma trie_is_init: "trie_is address_trie_init Map.empty"
  by (simp add: trie_is_def fun_eq_iff trie_ok_init trie_lookup_init)

lemma trie_is_find: "trie_is root m \<Longrightarrow> low_byte a \<noteq> 0 \<Longrightarrow> address_trie_find root a 0 = Inr (m a)"
  using find_lookup [of 4 0 root a] by (auto simp: trie_is_def)

lemma trie_is_put:
  assumes "trie_is root m" "low_byte a \<noteq> 0" "m a = None"
  shows "\<exists>root' way. address_trie_put root (Some d) a 0 = Inr (root', way) \<and> trie_is root' (m(a \<mapsto> d))"
proof -
  have "put_result 4 0 root a d" by (rule put_new) (use assms in \<open>auto simp: storable_def trie_is_def simp del: trie_ok.simps\<close>)
  then obtain root' way where "address_trie_put root (Some d) a (4 - 4) = Inr (root', way)" "trie_ok 4 0 root'"
    "\<forall>b. trie_lookup 4 root' b = (if b = a then Some d else trie_lookup 4 root b)" by (rule put_resultE)
  then show ?thesis using assms(1) by (auto simp: trie_is_def fun_eq_iff)
qed

lemma trie_is_put_again:
  assumes "trie_is root m" "m a \<noteq> None"
  shows "address_trie_put root (Some d) a 0 = Inl OutOfBounds"
  using put_again [of 4 0 root a _ d] assms by (auto simp: trie_is_def)

lemma trie_is_remove:
  assumes "trie_is root m" "m a \<noteq> None"
  shows "\<exists>root'. address_trie_remove root a 0 = Inr (root', True) \<and> trie_is root' (m(a := None))"
  using remove_present [of 4 0 root a] assms by (fastforce simp: trie_is_def fun_eq_iff)

lemma trie_run_refines:
  "trie_is root m \<Longrightarrow> trie_legal m ops \<Longrightarrow>
   (case trie_spec m ops of Inl e \<Rightarrow> trie_run root ops = Inl e
    | Inr (m', xs) \<Rightarrow> \<exists>root'. trie_run root ops = Inr (root', xs) \<and> trie_is root' m')"
proof (induction ops arbitrary: root m)
  case Nil
  then show ?case by simp
next
  case (Cons op ops)
  show ?case
  proof (cases op)
    case (Trie_put a d)
    show ?thesis
    proof (cases "m a")
      case None
      then obtain root' way where put: "address_trie_put root (Some d) a 0 = Inr (root', way)" "trie_is root' (m(a \<mapsto> d))"
        using trie_is_put [OF Cons.prems(1)] Cons.prems(2) Trie_put by fastforce
      have eqs: "trie_run root (op # ops) = trie_run root' ops" "trie_spec m (op # ops) = trie_spec (m(a \<mapsto> d)) ops"
        using Trie_put None put(1) by simp_all
      have legal: "trie_legal (m(a \<mapsto> d)) ops" using Cons.prems(2) Trie_put by simp
      show ?thesis unfolding eqs by (rule Cons.IH [OF put(2) legal])
    next
      case (Some c)
      then show ?thesis using trie_is_put_again [OF Cons.prems(1)] Trie_put by simp
    qed
  next
    case (Trie_find a)
    then show ?thesis
      using Cons.IH [OF Cons.prems(1)] trie_is_find [OF Cons.prems(1)] Cons.prems(2)
      by (auto split: sum.splits prod.splits)
  next
    case (Trie_remove a)
    then obtain root' where rem: "address_trie_remove root a 0 = Inr (root', True)" "trie_is root' (m(a := None))"
      using trie_is_remove [OF Cons.prems(1)] Cons.prems(2) by fastforce
    have eqs: "trie_run root (op # ops) = trie_run root' ops" "trie_spec m (op # ops) = trie_spec (m(a := None)) ops"
      using Trie_remove rem(1) by simp_all
    have legal: "trie_legal (m(a := None)) ops" using Cons.prems(2) Trie_remove by simp
    show ?thesis unfolding eqs by (rule Cons.IH [OF rem(2) legal])
  qed
qed

text \<open>
  C31: The address trie is a map. A run of puts, searches and removals on an empty trie, for addresses
  whose last byte is not 0 and with only stored addresses removed, answers what a finite map answers and
  leaves a trie that holds the map; the walk passes the context of every stored address exactly once.
  Storing an address that is already there ends the run with an access outside \<open>mask_lookup_table\<close>.
\<close>

theorem trie_run_is_map:
  assumes "trie_legal Map.empty ops"
  shows "case trie_spec Map.empty ops of
      Inl e \<Rightarrow> trie_run address_trie_init ops = Inl e
    | Inr (m, xs) \<Rightarrow> \<exists>root as. trie_run address_trie_init ops = Inr (root, xs) \<and>
        (\<forall>a. low_byte a \<noteq> 0 \<longrightarrow> address_trie_find root a 0 = Inr (m a)) \<and>
        distinct as \<and> set as = dom m \<and> address_trie_walk root = map (the \<circ> m) as"
proof (cases "trie_spec Map.empty ops")
  case (Inl e)
  then show ?thesis using trie_run_refines [OF trie_is_init assms] by simp
next
  case (Inr r)
  obtain m xs where mx: "r = (m, xs)" by (cases r)
  then obtain root where root: "trie_run address_trie_init ops = Inr (root, xs)" "trie_is root m"
    using trie_run_refines [OF trie_is_init assms] Inr by auto
  have "walks 4 root" "trie_lookup 4 root = m" using trie_walks [of 4 0 root] root(2) by (simp_all only: trie_is_def)
  then show ?thesis using Inr mx root(1) trie_is_find [OF root(2)] by (auto simp: walks_def)
qed

definition sample_trie_ops :: "nat trie_op list" where
  "sample_trie_ops = [Trie_put 0x01020304 1, Trie_put 0x01020305 2, Trie_put 0x02000001 3, Trie_find 0x01020305,
     Trie_remove 0x01020304, Trie_find 0x01020304]"

theorem trie_run_is_map_witness:
  "\<exists>root. trie_run address_trie_init sample_trie_ops = Inr (root, [Some 2, None]) \<and>
     address_trie_find root 0x01020305 0 = Inr (Some 2) \<and> set (address_trie_walk root) = {2, 3}"
proof -
  have legal: "trie_legal Map.empty sample_trie_ops" by (simp add: sample_trie_ops_def low_byte_def)
  have runs: "trie_spec Map.empty sample_trie_ops =
      Inr ([0x01020305 \<mapsto> 2, 0x02000001 \<mapsto> 3], [Some 2, None])"
    by (auto simp: sample_trie_ops_def fun_eq_iff)
  let ?m = "[0x01020305 \<mapsto> 2, 0x02000001 \<mapsto> 3] :: u32 \<rightharpoonup> nat"
  obtain root as where r: "trie_run address_trie_init sample_trie_ops = Inr (root, [Some 2, None])"
    "\<forall>a. low_byte a \<noteq> 0 \<longrightarrow> address_trie_find root a 0 = Inr (?m a)" "set as = dom ?m"
    "address_trie_walk root = map (the \<circ> ?m) as"
    using trie_run_is_map [OF legal] unfolding runs by auto
  have "set (address_trie_walk root) = (the \<circ> ?m) ` dom ?m" by (simp only: r(3,4) set_map)
  also have "\<dots> = {2, 3}" by auto
  finally show ?thesis using r(1) r(2) [THEN spec, of "0x01020305"] by (simp add: low_byte_def)
qed

text \<open>
  C32: The trie takes addresses for one another. When two addresses share their first byte, removing the
  second, which was never stored, drops the entry of the first. When they differ in the second byte and
  both are stored, a search for the address of the network they share finds the context of the first.
\<close>

theorem trie_confuses_addresses:
  assumes "localOffset b 0 = localOffset a 0" "localOffset b 1 \<noteq> localOffset a 1"
  shows "\<exists>r1 r1' r2 way way'. address_trie_put address_trie_init (Some c) a 0 = Inr (r1, way) \<and>
    address_trie_remove r1 b 0 = Inr (r1', True) \<and> address_trie_find r1' a 0 = Inr None \<and>
    address_trie_put r1 (Some d) b 0 = Inr (r2, way') \<and>
    address_trie_find r2 (lookupAddress a 0) 0 = Inr (Some c)"
proof -
  let ?i = "localOffset a 0" and ?j = "localOffset a (Suc 0)" and ?k = "localOffset b (Suc 0)"
  let ?init = "address_trie_init :: 'a trie_root" and ?net = "lookupAddress a 0"
  have off: "?i < 256" "?j < 256" "?k < 256" by (simp_all add: localOffset_less)
  have len: "length ?init = 256" "length mask_lookup_table = 4" by (simp_all add: address_trie_init_def mask_lookup_table_def)
  have ne: "?k \<noteq> ?j" using assms(2) by simp
  let ?r1 = "?init[?i := Some (Trie a 0 None (Some c))]"
  let ?n1 = "?init[?j := Some (Trie a (Suc 0) None (Some c))]"
  let ?n2 = "?n1[?k := Some (Trie b (Suc 0) None (Some d))]"
  let ?r2 = "?r1[?i := Some (Trie (lookupAddress b 0) 0 (Some ?n2) (Some c))]"
  have put: "address_trie_put ?init (Some c) a 0 = Inr (?r1, [?i])"
    "address_trie_put ?init (Some c) a (Suc 0) = Inr (?n1, [?j])"
    "address_trie_put ?n1 (Some d) b (Suc 0) = Inr (?n2, [?k])"
    using off len ne by (simp_all add: address_trie_put.simps [of ?init] address_trie_put.simps [of ?n1] Let_def)
  have "?init[?i := None] = ?init" using off by (simp add: list_update_same_conv len)
  then have "address_trie_remove ?r1 b 0 = Inr (?init, True)"
    using off len assms(1) by (simp add: address_trie_remove.simps [of ?r1] Let_def)
  moreover have "address_trie_find ?init a 0 = Inr None"
    using off len by (simp add: address_trie_find.simps [of ?init])
  moreover have "address_trie_put ?r1 (Some d) b 0 = Inr (?r2, ?i # [?k])"
    using off len assms(1) put(2,3) by (simp add: address_trie_put.simps [of ?r1] Let_def)
  moreover have "address_trie_find ?r2 ?net 0 = Inr (Some c)"
  proof -
    have "lookupAddress b 0 = ?net" using assms(1) by (simp add: lookupAddress_first)
    then show ?thesis using off len lookupAddress_prefix [of 0 0 a] by (subst address_trie_find.simps) simp
  qed
  ultimately show ?thesis using put(1) by blast
qed

theorem trie_confuses_addresses_witness:
  "\<exists>r1 r1' r2 way way'. address_trie_put address_trie_init (Some (1 :: nat)) 0x0A010101 0 = Inr (r1, way) \<and>
    address_trie_remove r1 0x0A020202 0 = Inr (r1', True) \<and> address_trie_find r1' 0x0A010101 0 = Inr None \<and>
    address_trie_put r1 (Some 2) 0x0A020202 0 = Inr (r2, way') \<and> address_trie_find r2 0x0A000000 0 = Inr (Some 1)"
proof -
  have net: "lookupAddress 0x0A010101 0 = 0x0A000000" by (simp add: lookupAddress_def mask_lookup_table_def)
  have "localOffset 0x0A020202 0 = localOffset 0x0A010101 0" "localOffset 0x0A020202 1 \<noteq> localOffset 0x0A010101 1"
    by (simp_all add: localOffset_def lookupAddress_def mask_lookup_table_def)
  from trie_confuses_addresses [OF this, of 1 2] show ?thesis unfolding net by blast
qed

end
