(* ===== verification/RouterStatus.thy ===== *)
theory RouterStatus
  imports ForwardSpec Utility RouterLoop
begin

text \<open>
  \<open>GraphRouter.c\<close>: the listening socket and the start of the router, and the older status report
  (\<open>emitStatistics\<close>) over the node table and the forward table, which nothing calls any more.

  What the socket calls answer is an argument. A line of the report is a value, with the texts and
  the scaled sizes the format string gets; the padding of the columns is not modelled.
\<close>

section \<open>The listening socket\<close>

record listen_try =
  lt_socket :: int
  lt_reuse :: bool
  lt_bind :: bool

text \<open>The loop over the addresses of \<open>server_info\<close>; the descriptors closed on the way are the second result.\<close>

fun listen_loop :: "listen_try list \<Rightarrow> int \<Rightarrow> int list \<Rightarrow> int \<times> int list" where
  "listen_loop [] sockfd closed = (sockfd, closed)"
| "listen_loop (p # ps) sockfd closed =
     (if lt_socket p = -1 then listen_loop ps (-1) closed
      else if \<not> lt_reuse p then (-1, closed)
      else if \<not> lt_bind p then listen_loop ps (lt_socket p) (closed @ [lt_socket p])
      else listen_loop ps (lt_socket p) closed)"

definition getListenSocket :: "listen_try list option \<Rightarrow> int \<times> int list" where
  "getListenSocket server_info =
     (case server_info of
        None \<Rightarrow> (-1, [])
      | Some [] \<Rightarrow> (-1, [])
      | Some ps \<Rightarrow> listen_loop ps (-1) [])"

definition router_start ::
    "os \<Rightarrow> nat \<Rightarrow> listen_try list option \<Rightarrow> (int \<Rightarrow> bool) \<Rightarrow> kernel list list \<Rightarrow> (pollfd list \<times> router) result" where
  "router_start env mtu server_info listens rounds =
     (case getListenSocket server_info of (listen_fd, closed) \<Rightarrow>
        if \<not> listens listen_fd then Inl (Exit 1) else router_process env mtu listen_fd rounds)"

lemma listen_loop_last:
  assumes "\<forall>p\<in>set ps. lt_socket p \<noteq> -1 \<longrightarrow> lt_reuse p"
  shows "listen_loop ps sockfd closed =
    (if ps = [] then sockfd else lt_socket (last ps),
     closed @ map lt_socket (filter (\<lambda>p. lt_socket p \<noteq> -1 \<and> \<not> lt_bind p) ps))"
  using assms by (induction ps sockfd closed rule: listen_loop.induct) auto

text \<open>
  C34: The listening socket is the one of the last address. When \<open>SO_REUSEADDR\<close> can be set on every socket,
  \<open>getListenSocket\<close> returns the socket of the last address and closes exactly the sockets that could not be
  bound. So when the last address cannot be bound, it returns a descriptor it has closed, although an
  earlier address was bound; and of several bound sockets all but the last stay open and unused.
\<close>

theorem listen_socket_last:
  assumes "ps \<noteq> []" "\<forall>p\<in>set ps. lt_socket p \<noteq> -1 \<longrightarrow> lt_reuse p"
  shows "getListenSocket (Some ps) =
      (lt_socket (last ps), map lt_socket (filter (\<lambda>p. lt_socket p \<noteq> -1 \<and> \<not> lt_bind p) ps)) \<and>
    (lt_socket (last ps) \<noteq> -1 \<and> \<not> lt_bind (last ps) \<longrightarrow>
      fst (getListenSocket (Some ps)) \<in> set (snd (getListenSocket (Some ps))))"
proof -
  have "getListenSocket (Some ps) = listen_loop ps (-1) []"
    using assms(1) by (cases ps) (simp_all add: getListenSocket_def)
  then show ?thesis using listen_loop_last [OF assms(2), of "-1" "[]"] assms(1) by auto
qed

definition two_addresses :: "listen_try list" where
  "two_addresses = [\<lparr>lt_socket = 3, lt_reuse = True, lt_bind = True\<rparr>, \<lparr>lt_socket = 4, lt_reuse = True, lt_bind = False\<rparr>]"

theorem listen_socket_last_witness:
  "getListenSocket (Some two_addresses) = (4, [4])"
  using listen_socket_last [of two_addresses] by (simp add: two_addresses_def)

section \<open>The status report\<close>

record status_row =
  row_address :: u32
  row_state :: string
  row_in :: "(nat \<times> nat) \<times> string"
  row_out :: "(nat \<times> nat) \<times> string"
  row_policy :: string
  row_links :: "u32 list"

datatype status_line = Heading | Row status_row | DotOpen | DotNode u32 | DotEdge u32 u32 | DotClose | Blank

definition state_str :: "int \<Rightarrow> string" where
  "state_str s =
     (if s = GNW_STATE_OPEN then ''OPEN''
      else if s = GNW_STATE_RUN then ''RUN''
      else if s = GNW_STATE_CLOSE then ''CLOSE''
      else if s = GNW_STATE_ZOMBIE then ''ZOMBIE''
      else ''???'')"

definition policy_str :: "Forward.forward option \<Rightarrow> string" where
  "policy_str f =
     (case f of
        None \<Rightarrow> ''None  ''
      | Some f \<Rightarrow>
          if Forward.forward_policy f = policy_int GNW_POLICY_BROADCAST then ''BROADCAST''
          else if Forward.forward_policy f = policy_int GNW_POLICY_ANYCAST then ''ANYCAST''
          else if Forward.forward_policy f = policy_int GNW_POLICY_ROUNDROBIN then ''ROUNDROBIN''
          else ''???'')"

text \<open>The entry behind the pointer \<open>forward_table_find\<close> returns.\<close>

definition find_forward :: "u32 \<Rightarrow> forward_state \<Rightarrow> Forward.forward option result" where
  "find_forward a s =
     andThen (forward_table_find a s) (\<lambda>p.
     case p of None \<Rightarrow> Inr None | Some p \<Rightarrow> andThen (entry_at p s) (\<lambda>f. Inr (Some f)))"

definition links :: "Forward.forward option \<Rightarrow> u32 list" where
  "links f = (case f of None \<Rightarrow> [] | Some f \<Rightarrow> map target (edgeList f))"

definition printDetails :: "forward_state \<Rightarrow> u32 \<Rightarrow> context_t option \<Rightarrow> status_line list result" where
  "printDetails s a d =
     (case d of
        None \<Rightarrow> Inl NullDeref
      | Some c \<Rightarrow>
          andThen (find_forward a s) (\<lambda>f.
          andThen (fmt_iec_size (bytes_out c)) (\<lambda>out.
          andThen (fmt_iec_size (bytes_in c)) (\<lambda>inn.
          Inr [Row \<lparr>row_address = a, row_state = state_str (ctx_state c), row_in = inn, row_out = out,
                 row_policy = policy_str f, row_links = links f\<rparr>]))))"

definition printAsDOT :: "forward_state \<Rightarrow> u32 \<Rightarrow> context_t option \<Rightarrow> status_line list result" where
  "printAsDOT s a d = andThen (find_forward a s) (\<lambda>f. Inr (DotNode a # map (DotEdge a) (links f)))"

text \<open>A walk whose handler prints.\<close>

definition walk_lines ::
    "context_t node_state \<Rightarrow> (u32 \<Rightarrow> context_t option \<Rightarrow> status_line list result) \<Rightarrow> status_line list result" where
  "walk_lines nodes print =
     andThen (node_table_walk nodes
        (\<lambda>a d acc. andThen acc (\<lambda>ls. andThen (print a d) (\<lambda>new. Inr (ls @ new)))) (Inr [])) (\<lambda>r. r)"

definition emitStatistics :: "bool \<Rightarrow> context_t node_state \<Rightarrow> forward_state \<Rightarrow> status_line list result" where
  "emitStatistics arg_dot nodes s =
     andThen (walk_lines nodes (printDetails s)) (\<lambda>rows.
     andThen (if arg_dot then andThen (walk_lines nodes (printAsDOT s)) (\<lambda>dot. Inr (DotOpen # dot @ [DotClose]))
              else Inr []) (\<lambda>dot.
     Inr (Heading # rows @ dot @ [Blank])))"

section \<open>What the report says\<close>

definition targets :: "forward_state \<Rightarrow> u32 \<Rightarrow> u32 list" where
  "targets s a = (case graph_of s a of None \<Rightarrow> [] | Some (ts, locked) \<Rightarrow> ts)"

lemma find_forward_targets:
  assumes "forward_wf base s" "window base a"
  shows "\<exists>f. find_forward a s = Inr f \<and> links f = targets s a"
  using assms
proof (cases rule: source_entry [OF assms, case_names none entry])
  case (none T)
  then show ?thesis
    by (simp add: find_forward_def forward_table_find_def the_forwards_def links_def targets_def)
next
  case (entry T p f)
  then show ?thesis
    by (simp add: find_forward_def forward_table_find_def the_forwards_def links_def targets_def entry_at_def)
qed

lemma fold_lines:
  assumes "\<forall>(a, d)\<in>set xs. print a d = Inr (out a d)"
  shows "fold (\<lambda>(a, d) acc. andThen acc (\<lambda>ls. andThen (print a d) (\<lambda>new. Inr (ls @ new)))) xs (Inr ls) =
    Inr (ls @ concat (map (\<lambda>(a, d). out a d) xs))"
  using assms by (induction xs arbitrary: ls) auto

lemma walk_lines_eq:
  assumes "node_table nodes = Some T" "\<forall>(a, d)\<in>set (walk_order (avl_root T)). print a d = Inr (out a d)"
  shows "walk_lines nodes print = Inr (concat (map (\<lambda>(a, d). out a d) (walk_order (avl_root T))))"
  using fold_lines [OF assms(2), of "[]"] assms(1)
  by (simp add: walk_lines_def node_table_walk_def table_walk_fold split_def)

text \<open>
  C33: The status report shows the graph. For node and forward tables in order, without null contexts, the
  report ends without a fault; it has one row for every node, with the targets the forward table holds for
  it, and the DOT part has every node once, followed by exactly its edges.
\<close>

theorem status_shows_graph:
  assumes "node_wf base nodes" "forward_wf base s"
    and "\<forall>a d. node_contents nodes a = Some d \<longrightarrow> window base a \<and> d \<noteq> None"
  shows "\<exists>order rows. emitStatistics True nodes s =
      Inr (Heading # map Row rows @ DotOpen # concat (map (\<lambda>a. DotNode a # map (DotEdge a) (targets s a)) order) @ [DotClose, Blank]) \<and>
    distinct order \<and> set order = dom (node_contents nodes) \<and>
    map row_address rows = order \<and> map row_links rows = map (targets s) order"
proof -
  obtain T where T: "node_table nodes = Some T" "table_wf base T" "node_contents nodes = contents T"
    using assms(1) by (auto simp: node_wf_def node_contents_def)
  let ?w = "walk_order (avl_root T)"
  have mem: "window base a \<and> d \<noteq> None" if "(a, d) \<in> set ?w" for a d
    using that assms(3) walk_order_contents [OF T(2)] T(3) by auto
  define row where "row = (\<lambda>a d. case printDetails s a d of Inr [Row r] \<Rightarrow> r)"
  have details: "printDetails s a d = Inr [Row (row a d)] \<and> row_address (row a d) = a \<and> row_links (row a d) = targets s a"
    if "(a, d) \<in> set ?w" for a d
  proof -
    have m: "window base a" "d \<noteq> None" using mem [OF that] by simp_all
    obtain c where c: "d = Some c" using m(2) by auto
    obtain f where f: "find_forward a s = Inr f" "links f = targets s a"
      using find_forward_targets [OF assms(2) m(1)] by blast
    obtain bo where bo: "fmt_iec_size (bytes_out c) = Inr bo" using fmt_iec_size_total by blast
    obtain bi where bi: "fmt_iec_size (bytes_in c) = Inr bi" using fmt_iec_size_total by blast
    show ?thesis using f bo bi by (simp add: printDetails_def c row_def)
  qed
  have dot: "printAsDOT s a d = Inr (DotNode a # map (DotEdge a) (targets s a))" if "(a, d) \<in> set ?w" for a d
    using find_forward_targets [OF assms(2)] mem [OF that] by (fastforce simp: printAsDOT_def)
  have "emitStatistics True nodes s = Inr (Heading # map Row (map (\<lambda>(a, d). row a d) ?w) @
      DotOpen # concat (map (\<lambda>a. DotNode a # map (DotEdge a) (targets s a)) (map fst ?w)) @ [DotClose, Blank])"
    using walk_lines_eq [OF T(1), of "printDetails s" "\<lambda>a d. [Row (row a d)]"]
      walk_lines_eq [OF T(1), of "printAsDOT s" "\<lambda>a d. DotNode a # map (DotEdge a) (targets s a)"] details dot
    by (auto simp: emitStatistics_def comp_def split_def)
  moreover have "distinct (map fst ?w)" by (rule walk_order_distinct [OF T(2)])
  moreover have "set (map fst ?w) = dom (node_contents nodes)"
    using walk_order_contents [OF T(2)] T(3) by force
  moreover have "map row_address (map (\<lambda>(a, d). row a d) ?w) = map fst ?w"
    "map row_links (map (\<lambda>(a, d). row a d) ?w) = map (targets s) (map fst ?w)"
    using details by auto
  ultimately show ?thesis by blast
qed

definition no_nodes :: "context_t node_state" where
  "no_nodes = node_table_init True \<lparr>node_table = None, node_table_mutex = False, node_log = log_init\<rparr>"

definition no_forwards :: forward_state where
  "no_forwards = forward_table_init True \<lparr>forward_table = None, forward_table_lock = False, forwards = Map.empty,
     next_ptr = 1, forward_stdout = [], forward_log = log_init\<rparr>"

theorem status_shows_graph_witness:
  "\<exists>nodes s lines. node_table_add (Some 1) True no_nodes 7 (Some setup_context) = Inr nodes \<and>
     forward_step (AddEdge 7 9) no_forwards = Inr s \<and> emitStatistics True nodes s = Inr lines \<and>
     DotNode 7 \<in> set lines \<and> DotEdge 7 9 \<in> set lines"
proof -
  have win: "window 0 7" by (simp add: window_def)
  have room: "node_count no_nodes < min_size AVL_MAX_HEIGHT" "source_count no_forwards < min_size AVL_MAX_HEIGHT"
    by (simp_all add: no_nodes_def no_forwards_def node_init_wf forward_init_wf min_size_32 AVL_MAX_HEIGHT_def)
  have empty: "node_wf 0 no_nodes" "node_contents no_nodes = Map.empty" "forward_wf 0 no_forwards" "graph_of no_forwards = Map.empty"
    by (simp_all add: no_nodes_def no_forwards_def node_init_wf forward_init_wf)
  obtain nodes where nodes: "node_table_add (Some 1) True no_nodes 7 (Some setup_context) = Inr nodes" "node_wf 0 nodes"
    "node_contents nodes = [7 \<mapsto> Some setup_context]"
    using node_add_contents [OF empty(1) win room(1), of 1 True "Some setup_context"] empty(2) by auto
  have "ForwardSpec.refines 0 no_forwards (graph_step (AddEdge 7 9) (graph_of no_forwards)) (forward_step (AddEdge 7 9) no_forwards)"
    by (rule forward_step_refines [OF empty(3) _ room(2)]) (simp add: win)
  then obtain s where s: "forward_step (AddEdge 7 9) no_forwards = Inr s" "forward_wf 0 s" "graph_of s = [7 \<mapsto> ([9], False)]"
    by (auto simp: predicts_def agrees_def empty(4))
  have tg: "targets s 7 = [9]" by (simp add: targets_def s(3))
  have live: "\<forall>a d. node_contents nodes a = Some d \<longrightarrow> window 0 a \<and> d \<noteq> None"
    using win by (simp add: nodes(3))
  obtain order rows where lines: "emitStatistics True nodes s = Inr (Heading # map Row rows @
      DotOpen # concat (map (\<lambda>a. DotNode a # map (DotEdge a) (targets s a)) order) @ [DotClose, Blank])"
    "set order = dom (node_contents nodes)"
    using status_shows_graph [OF nodes(2) s(2) live] by (elim exE conjE) simp
  have "7 \<in> set order" using lines(2) nodes(3) by simp
  then show ?thesis using nodes(1) s(1) lines(1) tg by (auto intro!: bexI [of _ 7])
qed

end
