(* ===== verification/AvlCopy.thy ===== *)
theory AvlCopy
  imports AvlWalk
begin

text \<open>
  \<open>avl_copy\<close> of \<open>lib/avl.c\<close> with its error recovery. The loop goes down to the left with the nodes it
  has passed on a stack, copies an item, and goes to the right without the stack. What the new tree is
  while the loop runs is a list of frames, innermost first: \<open>Pending\<close> for a node on the stack, of whose
  copy only the left link is written, and \<open>Copied\<close> for a node that is complete but for its right link.

  The lemmas: the copy has the shape and balances of the tree and the copied items; without a
  \<open>destroy\<close> function every failure gives a null pointer; with one, the recovery reads the items of the
  nodes on the stack, which nothing has written.
\<close>

section \<open>The loop\<close>

text \<open>What \<open>avl_data\<close> of a new node holds.\<close>

datatype 'b datum = Garbage | Null | Item 'b

datatype ('a, 'b) copy_frame = Pending 'a int "'a avl" | Copied "'b avl" 'b int

datatype ('a, 'b) position = Down "'a avl" | At "'b avl" 'a int "'a avl" | Up "'b avl"

text \<open>The new tree as \<open>copy_error_recovery\<close> leaves it: the right links of the nodes on the stack are null.\<close>

fun partial_copy :: "'b datum avl \<Rightarrow> ('a, 'b) copy_frame list \<Rightarrow> 'b datum avl" where
  "partial_copy t [] = t"
| "partial_copy t (Pending d b r # fs) = partial_copy (Nd t Garbage 0 Tip) fs"
| "partial_copy t (Copied l d b # fs) = partial_copy (Nd (map_avl Item l) (Item d) b t) fs"

text \<open>\<open>avl_destroy\<close> of it: the items \<open>destroy\<close> gets.\<close>

fun destroyed :: "'b datum list \<Rightarrow> 'b list result" where
  "destroyed [] = Inr []"
| "destroyed (Garbage # ds) = Inl Uninitialised"
| "destroyed (Null # ds) = destroyed ds"
| "destroyed (Item d # ds) = andThen (destroyed ds) (\<lambda>xs. Inr (d # xs))"

definition copy_error_recovery ::
    "bool \<Rightarrow> 'b datum avl \<Rightarrow> ('a, 'b) copy_frame list \<Rightarrow> ('c option \<times> 'b list) result" where
  "copy_error_recovery destroy t fs =
     (if destroy then andThen (destroyed (destroy_loop (partial_copy t fs))) (\<lambda>xs. Inr (None, xs))
      else Inr (None, []))"

fun on_stack :: "('a, 'b) copy_frame list \<Rightarrow> nat" where
  "on_stack [] = 0"
| "on_stack (Pending d b r # fs) = Suc (on_stack fs)"
| "on_stack (Copied l d b # fs) = on_stack fs"

fun to_copy :: "('a, 'b) copy_frame list \<Rightarrow> nat" where
  "to_copy [] = 0"
| "to_copy (Pending d b r # fs) = Suc (size r + to_copy fs)"
| "to_copy (Copied l d b # fs) = to_copy fs"

fun left_to_copy :: "('a, 'b) position \<Rightarrow> nat" where
  "left_to_copy (Down x) = size x"
| "left_to_copy (At l d b r) = Suc (size r)"
| "left_to_copy (Up t) = 0"

fun going_down :: "('a, 'b) position \<Rightarrow> nat" where
  "going_down (Down x) = Suc (size x)"
| "going_down (At l d b r) = 0"
| "going_down (Up t) = 0"

text \<open>
  \<open>ok k\<close> says whether the \<open>k\<close>-th call of the allocator succeeds. At \<open>Down x\<close> the copy of \<open>x\<close> has
  just been allocated; at \<open>At\<close> its left link is set; \<open>Up\<close> takes the next node from the stack.
\<close>

function copy_loop ::
    "(nat \<Rightarrow> bool) \<Rightarrow> ('a \<Rightarrow> 'b option) \<Rightarrow> bool \<Rightarrow> ('a, 'b) position \<Rightarrow> ('a, 'b) copy_frame list \<Rightarrow> nat \<Rightarrow>
     ('b avl option \<times> 'b list) result" where
  "copy_loop ok copy destroy (Down Tip) fs k = Inl NullDeref"
| "copy_loop ok copy destroy (Down (Nd l d b r)) fs k =
     (if l \<noteq> Tip then
        if \<not> 2 * Suc (on_stack fs) < 2 * (AVL_MAX_HEIGHT + 1) then abort
        else if \<not> ok k then copy_error_recovery destroy (Nd Tip Null 0 Tip) fs
        else copy_loop ok copy destroy (Down l) (Pending d b r # fs) (k + 1)
      else copy_loop ok copy destroy (At Tip d b r) fs k)"
| "copy_loop ok copy destroy (At l d b r) fs k =
     (case copy d of
        None \<Rightarrow> copy_error_recovery destroy (Nd (map_avl Item l) Null b Tip) fs
      | Some e \<Rightarrow>
          if r \<noteq> Tip then
            if \<not> ok k then copy_error_recovery destroy (Nd (map_avl Item l) (Item e) b Tip) fs
            else copy_loop ok copy destroy (Down r) (Copied l e b # fs) (k + 1)
          else copy_loop ok copy destroy (Up (Nd l e b Tip)) fs k)"
| "copy_loop ok copy destroy (Up t) [] k = Inr (Some t, [])"
| "copy_loop ok copy destroy (Up t) (Copied l e b # fs) k = copy_loop ok copy destroy (Up (Nd l e b t)) fs k"
| "copy_loop ok copy destroy (Up t) (Pending d b r # fs) k = copy_loop ok copy destroy (At t d b r) fs k"
  by pat_completeness auto
termination
  by (relation "measures [\<lambda>(_, _, _, p, fs, _). left_to_copy p + to_copy fs, \<lambda>(_, _, _, p, fs, _). going_down p,
      \<lambda>(_, _, _, p, fs, _). length fs]") auto

text \<open>
  \<open>copy\<close> is \<open>Some\<close> for a null function pointer. The first allocation is the table, the second the root.
  A table with a count but without a root would make the loop read the table as a node.
\<close>

definition avl_copy ::
    "(nat \<Rightarrow> bool) \<Rightarrow> ('a \<Rightarrow> 'b option) \<Rightarrow> bool \<Rightarrow> 'a avl_table \<Rightarrow> ('b avl_table option \<times> 'b list) result" where
  "avl_copy ok copy destroy org =
     (case avl_create (ok 0) of
        None \<Rightarrow> Inr (None, [])
      | Some new \<Rightarrow>
          let new = new\<lparr>avl_count := avl_count org\<rparr> in
          if avl_count new = 0 then Inr (Some new, [])
          else if avl_root org = Tip then Inl OutOfBounds
          else if \<not> ok 1 then Inr (None, [])
          else
            andThen (copy_loop ok copy destroy (Down (avl_root org)) [] 2) (\<lambda>(t, xs).
            Inr (map_option (\<lambda>t. new\<lparr>avl_root := t\<rparr>) t, xs)))"

section \<open>What is copied\<close>

fun copies :: "(nat \<Rightarrow> bool) \<Rightarrow> ('a \<Rightarrow> 'b option) \<Rightarrow> 'a avl \<Rightarrow> nat \<Rightarrow> bool" where
  "copies ok copy Tip k = True"
| "copies ok copy (Nd l d b r) k \<longleftrightarrow>
     (l \<noteq> Tip \<longrightarrow> ok k \<and> copies ok copy l (k + 1)) \<and> copy d \<noteq> None \<and>
     (r \<noteq> Tip \<longrightarrow> ok (k + size l) \<and> copies ok copy r (k + size l + 1))"

lemma all_from_split:
  fixes P :: "nat \<Rightarrow> bool"
  shows "(\<forall>j < m + n. P (k + j)) \<longleftrightarrow> (\<forall>j < m. P (k + j)) \<and> (\<forall>j < n. P (k + m + j))"
proof -
  have "P (k + j)" if "\<forall>j < m. P (k + j)" "\<forall>j < n. P (k + m + j)" "j < m + n" for j
  proof (cases "j < m")
    case False
    have "j - m < n" using that(3) False by simp
    with that(2) have "P (k + m + (j - m))" by blast
    then show ?thesis using False by simp
  qed (use that in simp)
  then show ?thesis by (auto simp: add.assoc)
qed

lemma all_from_Suc:
  fixes P :: "nat \<Rightarrow> bool"
  shows "0 < n \<Longrightarrow> (\<forall>j < n. P (k + j)) \<longleftrightarrow> P k \<and> (\<forall>j < n - 1. P (k + 1 + j))"
  using all_from_split [of 1 "n - 1" P k] by simp

lemma size_pos: "x \<noteq> Tip \<Longrightarrow> 0 < size (x :: 'a avl)"
  by (cases x) simp_all

text \<open>All items can be copied and all allocations but that of the root succeed.\<close>

lemma copies_iff:
  "copies ok copy x k \<longleftrightarrow> (\<forall>d\<in>set (inorder x). copy d \<noteq> None) \<and> (\<forall>j < size x - 1. ok (k + j))"
proof (induction x arbitrary: k)
  case (Nd l d b r)
  have l: "(l \<noteq> Tip \<longrightarrow> ok k \<and> (\<forall>j < size l - 1. ok (k + 1 + j))) \<longleftrightarrow> (\<forall>j < size l. ok (k + j))"
    using all_from_Suc [of "size l" ok k] size_pos [of l] by (cases "l = Tip") auto
  have r: "(r \<noteq> Tip \<longrightarrow> ok (k + size l) \<and> (\<forall>j < size r - 1. ok (k + size l + 1 + j))) \<longleftrightarrow> (\<forall>j < size r. ok (k + size l + j))"
    using all_from_Suc [of "size r" ok "k + size l"] size_pos [of r] by (cases "r = Tip") auto
  have "(\<forall>j < size (Nd l d b r) - 1. ok (k + j)) \<longleftrightarrow> (\<forall>j < size l. ok (k + j)) \<and> (\<forall>j < size r. ok (k + size l + j))"
    using all_from_split [of "size l" "size r" ok k] by simp
  then show ?case unfolding l [symmetric] r [symmetric] copies.simps Nd.IH by auto
qed simp

lemma stack_fits: "on_stack fs + height (Nd l d b r) \<le> AVL_MAX_HEIGHT \<Longrightarrow> l \<noteq> Tip \<Longrightarrow>
    2 * Suc (on_stack fs) < 2 * (AVL_MAX_HEIGHT + 1)"
  by (cases l) (auto simp: AVL_MAX_HEIGHT_def)

lemma copy_loop_copies:
  "x \<noteq> Tip \<Longrightarrow> on_stack fs + height x \<le> AVL_MAX_HEIGHT \<Longrightarrow> copies ok copy x k \<Longrightarrow>
   copy_loop ok copy destroy (Down x) fs k =
     copy_loop ok copy destroy (Up (map_avl (\<lambda>d. the (copy d)) x)) fs (k + size x - 1)"
proof (induction x arbitrary: fs k)
  case (Nd l d b r)
  let ?f = "map_avl (\<lambda>d. the (copy d))"
  obtain e where e: "copy d = Some e" using Nd.prems(3) by auto
  have left: "copy_loop ok copy destroy (Down (Nd l d b r)) fs k = copy_loop ok copy destroy (At (?f l) d b r) fs (k + size l)"
  proof (cases "l = Tip")
    case False
    then have "copy_loop ok copy destroy (Down l) (Pending d b r # fs) (k + 1) =
        copy_loop ok copy destroy (Up (?f l)) (Pending d b r # fs) (k + 1 + size l - 1)"
      using Nd.prems by (intro Nd.IH(1)) auto
    then show ?thesis using False Nd.prems(3) stack_fits [OF Nd.prems(2) False] by simp
  qed simp
  show ?case
  proof (cases "r = Tip")
    case True
    then show ?thesis using left e by simp
  next
    case False
    then have "copy_loop ok copy destroy (Down r) (Copied (?f l) e b # fs) (k + size l + 1) =
        copy_loop ok copy destroy (Up (?f r)) (Copied (?f l) e b # fs) (k + size l + 1 + size r - 1)"
      using Nd.prems by (intro Nd.IH(2)) auto
    then show ?thesis using left False Nd.prems(3) e by (simp add: ac_simps)
  qed
qed simp

text \<open>A failure anywhere, when the recovery gives the same for every stack at least as high.\<close>

lemma copy_loop_fails:
  fixes x :: "'a avl" and copy :: "'a \<Rightarrow> 'b option"
  shows "x \<noteq> Tip \<Longrightarrow> on_stack fs + height x \<le> AVL_MAX_HEIGHT \<Longrightarrow> \<not> copies ok copy x k \<Longrightarrow>
   \<forall>t (fs' :: ('a, 'b) copy_frame list). on_stack fs \<le> on_stack fs' \<longrightarrow> copy_error_recovery destroy t fs' = R \<Longrightarrow>
   copy_loop ok copy destroy (Down x) fs k = R"
proof (induction x arbitrary: fs k)
  case (Nd l d b r)
  let ?f = "map_avl (\<lambda>d. the (copy d))"
  show ?case
  proof (cases "l \<noteq> Tip \<and> \<not> (ok k \<and> copies ok copy l (k + 1))")
    case True
    show ?thesis
    proof (cases "ok k")
      case False
      have "copy_error_recovery destroy (Nd Tip Null 0 Tip) fs = R" using Nd.prems(4) by blast
      then show ?thesis using True False stack_fits [OF Nd.prems(2)] by simp
    next
      case ok: True
      then have "copy_loop ok copy destroy (Down l) (Pending d b r # fs) (k + 1) = R"
        using True Nd.prems(2,4) by (intro Nd.IH(1)) auto
      then show ?thesis using True ok stack_fits [OF Nd.prems(2)] by simp
    qed
  next
    case l: False
    have left: "copy_loop ok copy destroy (Down (Nd l d b r)) fs k = copy_loop ok copy destroy (At (?f l) d b r) fs (k + size l)"
    proof (cases "l = Tip")
      case False
      then have "copy_loop ok copy destroy (Down l) (Pending d b r # fs) (k + 1) =
          copy_loop ok copy destroy (Up (?f l)) (Pending d b r # fs) (k + 1 + size l - 1)"
        using Nd.prems(2) l by (intro copy_loop_copies) auto
      then show ?thesis using False l stack_fits [OF Nd.prems(2) False] by simp
    qed simp
    show ?thesis
    proof (cases "copy d")
      case None
      have "copy_error_recovery destroy (Nd (map_avl Item (?f l)) Null b Tip) fs = R" using Nd.prems(4) by blast
      then show ?thesis using left None by simp
    next
      case (Some e)
      then have r: "r \<noteq> Tip" "\<not> (ok (k + size l) \<and> copies ok copy r (k + size l + 1))" using Nd.prems(3) l by auto
      show ?thesis
      proof (cases "ok (k + size l)")
        case True
        then have "copy_loop ok copy destroy (Down r) (Copied (?f l) e b # fs) (k + size l + 1) = R"
          using r Nd.prems(2,4) by (intro Nd.IH(2)) auto
        then show ?thesis using left Some r(1) True by simp
      next
        case False
        have "copy_error_recovery destroy (Nd (map_avl Item (?f l)) (Item e) b Tip) fs = R" using Nd.prems(4) by blast
        then show ?thesis using left Some r(1) False by simp
      qed
    qed
  qed
qed simp

section \<open>The recovery\<close>

lemma destroyed_garbage: "Garbage \<in> set ds \<Longrightarrow> destroyed ds = Inl Uninitialised"
  by (induction ds rule: destroyed.induct) auto

lemma destroyed_items: "destroyed (map Item xs @ ds) = andThen (destroyed ds) (\<lambda>ys. Inr (xs @ ys))"
  by (induction xs) (auto simp: andThen_assoc, (cases "destroyed ds"; simp)+)

lemma partial_copy_keeps: "set (inorder t) \<subseteq> set (inorder (partial_copy t fs))"
  by (induction t fs rule: partial_copy.induct) auto

lemma partial_copy_garbage: "0 < on_stack fs \<Longrightarrow> Garbage \<in> set (inorder (partial_copy t fs))"
proof (induction t fs rule: partial_copy.induct)
  case (2 t d b r fs)
  then show ?case using partial_copy_keeps [of "Nd t Garbage 0 Tip" fs] by auto
qed auto

lemma recovery_garbage: "0 < on_stack fs \<Longrightarrow> copy_error_recovery True t fs = Inl Uninitialised"
  using partial_copy_garbage [of fs t]
  by (simp add: copy_error_recovery_def destroy_loop_inorder destroyed_garbage)

lemma recovery_quiet: "copy_error_recovery False t fs = Inr (None, [])"
  by (simp add: copy_error_recovery_def)

lemma recovery_items:
  "copy_error_recovery True (Nd (map_avl Item l) Null b Tip) [] = Inr (None, inorder l)"
proof -
  have "inorder (map_avl Item l) = map Item (inorder l)" by (induction l) simp_all
  then show ?thesis
    using destroyed_items [of "inorder l" "[Null]"] by (simp add: copy_error_recovery_def destroy_loop_inorder)
qed

section \<open>The outcome of a copy\<close>

text \<open>
  C35: Copying an AVL tree of at most 32 levels. When every allocation and every item's copy succeeds the
  result, with or without a \<open>destroy\<close> function, is a table of the same count whose tree has the same shape
  and balances and the copied items, and nothing is destroyed. Otherwise, without a \<open>destroy\<close> function, the
  result is the null pointer and there is no fault.
\<close>

theorem avl_copy_outcome:
  assumes "avl_count T = size (avl_root T)" "height (avl_root T) \<le> AVL_MAX_HEIGHT"
  shows "if (\<forall>k\<le>avl_count T. ok k) \<and> (\<forall>d\<in>set (inorder (avl_root T)). copy d \<noteq> None)
    then avl_copy ok copy destroy T =
      Inr (Some \<lparr>avl_root = map_avl (\<lambda>d. the (copy d)) (avl_root T), avl_count = avl_count T, avl_generation = 0\<rparr>, [])
    else avl_copy ok copy False T = Inr (None, [])"
proof (cases "avl_root T = Tip")
  case True
  then show ?thesis using assms(1) by (simp add: avl_copy_def avl_create_def avl_empty_def)
next
  case False
  let ?t = "avl_root T"
  have all: "(\<forall>k\<le>avl_count T. ok k) \<longleftrightarrow> ok 0 \<and> ok 1 \<and> (\<forall>j < size ?t - 1. ok (2 + j))"
  proof -
    have "(\<forall>k\<le>avl_count T. ok k) \<longleftrightarrow> (\<forall>j < 2 + (size ?t - 1). ok (0 + j))"
      using size_pos [OF False] assms(1) by (simp add: less_Suc_eq_le)
    also have "\<dots> \<longleftrightarrow> (\<forall>j < 2. ok (0 + j)) \<and> (\<forall>j < size ?t - 1. ok (0 + 2 + j))" by (rule all_from_split)
    also have "(\<forall>j < 2. ok (0 + j)) \<longleftrightarrow> ok 0 \<and> ok 1" by (auto simp: less_2_cases_iff)
    finally show ?thesis by simp
  qed
  have fit: "on_stack [] + height ?t \<le> AVL_MAX_HEIGHT" using assms(2) by simp
  note good = copy_loop_copies [OF False fit, of ok copy 2 destroy]
  note bad = copy_loop_fails [OF False fit, of ok copy 2 False "Inr (None, [])"]
  show ?thesis
    using good bad size_pos [OF False] assms(1) False unfolding all copies_iff
    by (auto simp: avl_copy_def avl_create_def avl_empty_def recovery_quiet)
qed

definition two_nodes :: "nat avl_table" where
  "two_nodes = \<lparr>avl_root = Nd (Nd Tip 1 0 Tip) 2 (-1) Tip, avl_count = 2, avl_generation = 5\<rparr>"

theorem avl_copy_outcome_witness:
  "avl_copy (\<lambda>_. True) (\<lambda>x. Some (10 * x)) True two_nodes =
     Inr (Some \<lparr>avl_root = Nd (Nd Tip 10 0 Tip) 20 (-1) Tip, avl_count = 2, avl_generation = 0\<rparr>, []) \<and>
   avl_copy (\<lambda>k. k < 2) Some False two_nodes = Inr (None, [])"
proof -
  have ok: "avl_count two_nodes = size (avl_root two_nodes)" "height (avl_root two_nodes) \<le> AVL_MAX_HEIGHT"
    by (simp_all add: two_nodes_def AVL_MAX_HEIGHT_def)
  have "\<not> (\<forall>k\<le>avl_count two_nodes. k < 2)" by (auto simp: two_nodes_def intro!: exI [of _ 2])
  then have "avl_copy (\<lambda>k. k < 2) Some False two_nodes = Inr (None, [])"
    using avl_copy_outcome [OF ok, of "\<lambda>k. k < 2" Some False] by simp
  then show ?thesis
    using avl_copy_outcome [OF ok, of "\<lambda>_. True" "\<lambda>x. Some (10 * x)" True] by (simp add: two_nodes_def)
qed

text \<open>
  C36: The recovery of a failed copy. With a \<open>destroy\<close> function, a copy whose allocations succeed and that
  fails at the root's item passes exactly the copies of the left subtree to \<open>destroy\<close>, in order; but when
  it fails inside the left subtree, the recovery reads the item of the root's copy, which nothing has
  written.
\<close>

theorem avl_copy_recovery:
  assumes "avl_root T = Nd l d b r" "avl_count T \<noteq> 0" "height (avl_root T) \<le> AVL_MAX_HEIGHT" "\<forall>k. ok k"
    and "copy d = None \<or> (\<exists>x\<in>set (inorder l). copy x = None)"
  shows "avl_copy ok copy True T =
    (if \<exists>x\<in>set (inorder l). copy x = None then Inl Uninitialised
     else Inr (None, map (\<lambda>x. the (copy x)) (inorder l)))"
proof -
  let ?f = "map_avl (\<lambda>d. the (copy d))" and ?fs = "[Pending d b r]"
  have ok: "copies ok copy l 3 \<longleftrightarrow> (\<forall>x\<in>set (inorder l). copy x \<noteq> None)" using assms(4) by (simp add: copies_iff)
  have fit: "on_stack ?fs + height l \<le> AVL_MAX_HEIGHT" using assms(1,3) by simp
  have start: "copy_loop ok copy True (Down (Nd l d b r)) [] 2 = copy_loop ok copy True (Down l) ?fs 3" if "l \<noteq> Tip"
    using that assms(4) by (simp add: AVL_MAX_HEIGHT_def)
  have loop: "copy_loop ok copy True (Down (Nd l d b r)) [] 2 =
    (if \<exists>x\<in>set (inorder l). copy x = None then Inl Uninitialised else Inr (None, map (\<lambda>x. the (copy x)) (inorder l)))"
  proof (cases "\<exists>x\<in>set (inorder l). copy x = None")
    case True
    then have l: "l \<noteq> Tip" "\<not> copies ok copy l 3" using ok by auto
    have "copy_loop ok copy True (Down l) ?fs 3 = Inl Uninitialised"
      by (rule copy_loop_fails [OF l(1) fit l(2)]) (simp add: recovery_garbage Suc_le_eq)
    then show ?thesis using start [OF l(1)] True by simp
  next
    case False
    then have d: "copy d = None" "copies ok copy l 3" using ok assms(5) by auto
    have "inorder (?f l) = map (\<lambda>x. the (copy x)) (inorder l)" by (induction l) simp_all
    moreover have "copy_loop ok copy True (Down (Nd l d b r)) [] 2 =
        copy_error_recovery True (Nd (map_avl Item (?f l)) Null b Tip) ([] :: ('a, 'b) copy_frame list)"
    proof (cases "l = Tip")
      case l: False
      show ?thesis using start [OF l] copy_loop_copies [OF l fit d(2), of True] d(1) by simp
    qed (use d(1) in simp)
    ultimately show ?thesis unfolding if_not_P [OF False] by (simp only: recovery_items)
  qed
  then show ?thesis using assms(1,2,4) by (simp add: avl_copy_def avl_create_def avl_empty_def)
qed

theorem avl_copy_recovery_witness:
  "avl_copy (\<lambda>_. True) (\<lambda>x. if x = 1 then None else Some x) True two_nodes = Inl Uninitialised \<and>
   avl_copy (\<lambda>_. True) (\<lambda>x. if x = 2 then None else Some x) True two_nodes = Inr (None, [1])"
proof -
  have two: "avl_root two_nodes = Nd (Nd Tip 1 0 Tip) 2 (-1) Tip" "avl_count two_nodes \<noteq> 0"
    "height (avl_root two_nodes) \<le> AVL_MAX_HEIGHT"
    by (simp_all add: two_nodes_def AVL_MAX_HEIGHT_def)
  show ?thesis
    using avl_copy_recovery [OF two, of "\<lambda>_. True" "\<lambda>x. if x = 1 then None else Some x"]
      avl_copy_recovery [OF two, of "\<lambda>_. True" "\<lambda>x. if x = 2 then None else Some x"] by simp
qed

end
