(* ===== verification/WrapStatus.thy ===== *)
theory WrapStatus
  imports WrapMain RouterEvents
begin

text \<open>
  The dump of the sinks that the main loop of \<open>GraphWrap.c\<close> prints before every thousand rounds. It
  changes nothing; the lemmas show that it ends and has one line for every sink.
\<close>

record sink_line =
  line_bucket :: nat
  line_address :: u32
  line_bytes_in :: u64
  line_bytes_out :: u64
  line_packets_in :: u64
  line_packets_out :: u64

definition sink_line :: "nat \<Rightarrow> u32 \<Rightarrow> sink_context \<Rightarrow> sink_line" where
  "sink_line iter key tmp =
     \<lparr>line_bucket = iter, line_address = key, line_bytes_in = sc_bytes_in tmp, line_bytes_out = sc_bytes_out tmp,
      line_packets_in = sc_packets_in tmp, line_packets_out = sc_packets_out tmp\<rparr>"

text \<open>\<open>left\<close> counts the buckets that are still to come.\<close>

fun dump_loop :: "sink_context khash \<Rightarrow> nat \<Rightarrow> nat \<Rightarrow> sink_line list result" where
  "dump_loop h iter 0 = Inr []"
| "dump_loop h iter (Suc left) =
     andThen (kh_exist h iter) (\<lambda>exists.
     andThen (if exists then andThen (kh_value h iter) (\<lambda>tmp. Inr [sink_line iter (kh_keys h ! iter) tmp]) else Inr [])
       (\<lambda>line.
     andThen (dump_loop h (iter + 1) left) (\<lambda>lines. Inr (line @ lines))))"

definition sink_dump :: "wrap \<Rightarrow> sink_line list result" where
  "sink_dump w = dump_loop (sinkTable w) 0 (kh_end (sinkTable w))"

lemma live_value:
  assumes "kh_full h" "i \<in> live (kh_flags h) (kh_n_buckets h)"
  obtains v where "kh_value h i = Inr v" "kh_abs h (kh_keys h ! i) = Some v"
proof -
  have ok: "kh_ok h" using assms(1) by (simp add: kh_full_def)
  have holds: "kh_holds h i (kh_keys h ! i)" using assms(2) by (simp add: kh_holds_def)
  have map: "kh_map h (kh_keys h ! i) = Some (kh_vals h ! i)" by (rule kh_holdsD(5) [OF ok holds])
  then obtain v where v: "kh_vals h ! i = Some v"
    using assms(1) by (cases "kh_vals h ! i") (auto simp: kh_full_def ran_def)
  have "kh_abs h (kh_keys h ! i) = Some v" using kh_abs_some [OF assms(1)] map v by simp
  then show thesis using that kh_value_holds [OF ok holds v] by blast
qed

lemma dump_loop_lines:
  assumes "kh_full h"
  shows "iter + left = kh_n_buckets h \<Longrightarrow>
    dump_loop h iter left = Inr (map (\<lambda>i. sink_line i (kh_keys h ! i) (the (kh_abs h (kh_keys h ! i))))
      (filter (\<lambda>i. i \<in> live (kh_flags h) (kh_n_buckets h)) [iter..<kh_n_buckets h]))"
proof (induction left arbitrary: iter)
  case (Suc left)
  have ok: "kh_ok h" using assms by (simp add: kh_full_def)
  have iter: "iter < kh_n_buckets h" using Suc.prems by simp
  have split: "[iter..<kh_n_buckets h] = iter # [Suc iter..<kh_n_buckets h]" by (rule upt_conv_Cons [OF iter])
  have rest: "dump_loop h (Suc iter) left = Inr (map (\<lambda>i. sink_line i (kh_keys h ! i) (the (kh_abs h (kh_keys h ! i))))
      (filter (\<lambda>i. i \<in> live (kh_flags h) (kh_n_buckets h)) [Suc iter..<kh_n_buckets h]))"
    using Suc.IH [of "Suc iter"] Suc.prems by simp
  show ?case
  proof (cases "iter \<in> live (kh_flags h) (kh_n_buckets h)")
    case True
    then obtain v where "kh_value h iter = Inr v" "kh_abs h (kh_keys h ! iter) = Some v"
      using live_value [OF assms] by blast
    then show ?thesis using True by (simp add: kh_exist_in [OF ok iter] rest split)
  next
    case False
    then show ?thesis by (simp add: kh_exist_in [OF ok iter] rest split)
  qed
qed simp

text \<open>The dump ends and has exactly one line for every sink, with the sink's own counters.\<close>

lemma sink_dump_lines:
  assumes "kh_full (sinkTable w)"
  shows "\<exists>lines. sink_dump w = Inr lines \<and> distinct (map line_bucket lines) \<and>
    line_address ` set lines = dom (kh_abs (sinkTable w)) \<and>
    (\<forall>l\<in>set lines. \<exists>c. kh_abs (sinkTable w) (line_address l) = Some c \<and> l = sink_line (line_bucket l) (line_address l) c)"
proof -
  let ?h = "sinkTable w"
  let ?L = "live (kh_flags ?h) (kh_n_buckets ?h)"
  define lines where "lines = map (\<lambda>i. sink_line i (kh_keys ?h ! i) (the (kh_abs ?h (kh_keys ?h ! i))))
    (filter (\<lambda>i. i \<in> ?L) [0..<kh_n_buckets ?h])"
  have "sink_dump w = Inr lines"
    unfolding sink_dump_def lines_def by (rule dump_loop_lines [OF assms]) simp
  moreover have "map line_bucket lines = filter (\<lambda>i. i \<in> ?L) [0..<kh_n_buckets ?h]"
    by (simp add: lines_def sink_line_def comp_def)
  moreover have "line_address ` set lines = (!) (kh_keys ?h) ` ?L"
    by (auto simp: lines_def sink_line_def live_def image_image)
  moreover have "dom (kh_abs ?h) = (!) (kh_keys ?h) ` ?L"
    using kh_map_dom [of ?h] dom_kh_abs [OF assms] assms by (simp add: kh_full_def)
  moreover have "\<exists>c. kh_abs ?h (line_address l) = Some c \<and> l = sink_line (line_bucket l) (line_address l) c"
    if "l \<in> set lines" for l
  proof -
    obtain i where i: "i \<in> ?L" "l = sink_line i (kh_keys ?h ! i) (the (kh_abs ?h (kh_keys ?h ! i)))"
      using \<open>l \<in> set lines\<close> by (auto simp: lines_def)
    obtain v where "kh_abs ?h (kh_keys ?h ! i) = Some v" using live_value [OF assms i(1)] by blast
    then show ?thesis using i(2) by (simp add: sink_line_def)
  qed
  ultimately show ?thesis by (metis distinct_filter distinct_upt)
qed

end
