(* ===== verification/UnitTests.thy ===== *)
theory UnitTests
  imports RingBuffer KhashMap Kvec Utility Log
begin

text \<open>
  \<open>UnitTests.c\<close>, the program's own tests, as a program over the other theories: every test calls the
  modelled operations and checks their results with the assertions of \<open>lib/Assert.c\<close>. \<open>malloc\<close> succeeds
  and what it leaves in a block is an argument, as is \<open>rand\<close>; the messages of the assertions and the
  debug output are not modelled. That the run ends with success is a property of the model, and at the
  same time the evidence that the model does what the authors of the code expect of it.
\<close>

section \<open>Assertions and loops\<close>

definition check :: "assert_config \<Rightarrow> bool \<Rightarrow> unit result" where
  "check cfg b = andThen (snd (assert_full cfg b [])) (\<lambda>_. Inr ())"

definition check_equal :: "assert_config \<Rightarrow> u64 \<Rightarrow> u64 \<Rightarrow> unit result" where
  "check_equal cfg a b = andThen (snd (assertEqual cfg a b)) (\<lambda>_. Inr ())"

text \<open>With this congruence a long sequence is simplified from its first step on.\<close>

lemma andThen_first: "m = m' \<Longrightarrow> andThen m f = andThen m' f"
  by simp

text \<open>A counting loop, with the values of its counter.\<close>

fun for_each :: "'i list \<Rightarrow> ('i \<Rightarrow> 's \<Rightarrow> 's result) \<Rightarrow> 's \<Rightarrow> 's result" where
  "for_each [] body s = Inr s"
| "for_each (i # is) body s = andThen (body i s) (for_each is body)"

lemma check_simps [simp]: "check cfg True = Inr ()" "check_equal cfg a a = Inr ()"
  by (simp_all add: check_def check_equal_def assert_full_def assertEqual_def Let_def)

lemma for_each_invariant:
  assumes "P 0 s" "\<And>i s. i < n \<Longrightarrow> P i s \<Longrightarrow> \<exists>s'. body (f i) s = Inr s' \<and> P (Suc i) s'"
  shows "\<exists>s'. for_each (map f [0..<n]) body s = Inr s' \<and> P n s'"
proof -
  have "\<exists>s'. for_each (map f [k..<n]) body s = Inr s' \<and> P n s'" if "k \<le> n" "P k s" for k s
    using that
  proof (induction "n - k" arbitrary: k s)
    case (Suc m)
    then have "k < n" by simp
    moreover obtain s' where "body (f k) s = Inr s'" "P (Suc k) s'" using assms(2) [OF \<open>k < n\<close> Suc.prems(2)] by blast
    moreover have "\<exists>t. for_each (map f [Suc k..<n]) body s' = Inr t \<and> P n t"
      using Suc.hyps(2) \<open>k < n\<close> \<open>P (Suc k) s'\<close> by (intro Suc.hyps(1)) auto
    ultimately show ?case by (simp add: upt_conv_Cons)
  qed simp
  from this [of 0 s] assms(1) show ?thesis by simp
qed

lemmas for_upto = for_each_invariant [where f = "\<lambda>i. i", unfolded list.map_ident]

section \<open>The linear buffer\<close>

definition write_u8s :: "u8 list \<Rightarrow> u8 list result" where
  "write_u8s buffer =
     andThen (for_each [0..<32] (\<lambda>i (buffer, ptr). packet_write_u8 buffer ptr (of_nat (i mod 25))) (buffer, 0))
       (\<lambda>(buffer, ptr). Inr buffer)"

definition test_linear_buffer :: "assert_config \<Rightarrow> unit result" where
  "test_linear_buffer cfg =
     andThen (write_u8s (replicate 64 0)) (\<lambda>buffer.
     andThen (for_each [0..<32] (\<lambda>i ptr.
        andThen (packet_read_u8 buffer ptr) (\<lambda>(out, ptr).
        andThen (check_equal cfg (ucast out) (of_nat (i mod 25))) (\<lambda>_. Inr ptr))) 0) (\<lambda>_.
     andThen (write_u8s buffer) (\<lambda>buffer.
     andThen (for_each [0..<32] (\<lambda>i buffer.
        andThen (packet_shift buffer 0 64 (Some [0]) 1) (\<lambda>(buffer, out, _).
        andThen (check_equal cfg (ucast (hd (the out))) (of_nat (i mod 25))) (\<lambda>_. Inr buffer))) buffer) (\<lambda>_.
     Inr ()))))"

definition counted :: "nat \<Rightarrow> u8 list" where
  "counted n = map (\<lambda>i. of_nat (i mod 25)) [0..<n]"

lemma counted_simps [simp]: "length (counted n) = n" "i < n \<Longrightarrow> counted n ! i = of_nat (i mod 25)"
  by (simp_all add: counted_def)

lemma ucast_count: "ucast (of_nat (i mod 25) :: u8) = (of_nat (i mod 25) :: u64)"
proof -
  have "i mod 25 < 256" by (simp add: less_trans [OF mod_less_divisor])
  then show ?thesis by (simp add: word_eq_iff_unsigned unsigned_ucast_eq unsigned_of_nat take_bit_nat_eq_self)
qed

lemma write_u8s_eq:
  assumes "length buffer = 64"
  shows "write_u8s buffer = Inr (counted 32 @ drop 32 buffer)"
proof -
  have "\<exists>s. for_each [0..<32] (\<lambda>i (buffer, ptr). packet_write_u8 buffer ptr (of_nat (i mod 25))) (buffer, 0) = Inr s \<and>
      s = (counted 32 @ drop 32 buffer, 32)"
  proof (rule for_upto [where P = "\<lambda>i s. s = (counted i @ drop i buffer, i)"])
    fix i and s :: "u8 list \<times> nat"
    assume i: "i < 32" "s = (counted i @ drop i buffer, i)"
    then have "drop i buffer = buffer ! i # drop (Suc i) buffer" using assms by (simp add: Cons_nth_drop_Suc)
    then show "\<exists>s'. (case s of (buffer, ptr) \<Rightarrow> packet_write_u8 buffer ptr (of_nat (i mod 25))) = Inr s' \<and>
        s' = (counted (Suc i) @ drop (Suc i) buffer, Suc i)"
      using i(2) packet_write_u8_middle [of i "counted i"] by (simp add: counted_def)
  qed (simp add: counted_def)
  then show ?thesis by (simp add: write_u8s_def)
qed

lemma test_linear_buffer_passes: "test_linear_buffer cfg = Inr ()"
proof -
  let ?b = "counted 32 @ replicate 32 (0 :: u8)"
  have w: "write_u8s (replicate 64 0) = Inr ?b" "write_u8s ?b = Inr ?b"
    using write_u8s_eq [of "replicate 64 0"] write_u8s_eq [of ?b] by simp_all
  have r: "\<exists>s. for_each [0..<32] (\<lambda>i ptr.
      andThen (packet_read_u8 ?b ptr) (\<lambda>(out, ptr).
      andThen (check_equal cfg (ucast out) (of_nat (i mod 25))) (\<lambda>_. Inr ptr))) 0 = Inr s \<and> s = 32"
    by (rule for_upto [where P = "\<lambda>i s. s = i"]) (simp_all add: packet_read_u8_in nth_append ucast_count)
  have s: "\<exists>s. for_each [0..<32] (\<lambda>i buffer.
      andThen (packet_shift buffer 0 64 (Some [0]) 1) (\<lambda>(buffer, out, _).
      andThen (check_equal cfg (ucast (hd (the out))) (of_nat (i mod 25))) (\<lambda>_. Inr buffer))) ?b = Inr s \<and>
      length s = 64 \<and> take (64 - 32) s = drop 32 ?b"
  proof (rule for_upto [where P = "\<lambda>i s. length s = 64 \<and> take (64 - i) s = drop i ?b"])
    fix i and s :: "u8 list"
    assume i: "i < 32" "length s = 64 \<and> take (64 - i) s = drop i ?b"
    then have "take 1 (take (64 - i) s) = [counted 32 ! i]"
      by (simp add: Cons_nth_drop_Suc [symmetric])
    moreover have "min 1 (64 - i) = 1" using i(1) by simp
    ultimately have hd: "take 1 s = [of_nat (i mod 25)]" using i(1) by (simp only: take_take counted_simps(2))
    have "drop 1 (take (64 - i) s) = drop (Suc i) ?b" using i by simp
    then have tl: "take (63 - i) (drop 1 s) = drop (Suc i) ?b" by (simp add: drop_take)
    show "\<exists>s'. andThen (packet_shift s 0 64 (Some [0]) 1) (\<lambda>(buffer, out, _).
        andThen (check_equal cfg (ucast (hd (the out))) (of_nat (i mod 25))) (\<lambda>_. Inr buffer)) = Inr s' \<and>
      length s' = 64 \<and> take (64 - Suc i) s' = drop (Suc i) ?b"
      using i hd tl packet_shift_copy_eq [of 1 64 s "[0]"] by (simp add: ucast_count)
  qed simp_all
  show ?thesis using w r s by (auto simp: test_linear_buffer_def)
qed

section \<open>The ring buffer\<close>

definition bytes_of :: "string \<Rightarrow> u8 list" where
  "bytes_of s = map (\<lambda>c. of_nat (of_char c)) s"

definition testString :: "u8 list" where "testString = bytes_of ''Test string.''"

definition longInputTestString :: "u8 list" where
  "longInputTestString =
     bytes_of ''This booklet has been produced for students at the University of New South Wales''"

definition test_ring_buffer :: "assert_config \<Rightarrow> (nat \<Rightarrow> u8 list) \<Rightarrow> unit result" where
  "test_ring_buffer cfg malloc =
     (let buffer = ringbuffer_init (malloc 128) in
      andThen (check cfg (ringbuffer_capacity buffer = 127)) (\<lambda>_.
      andThen (check cfg (ringbuffer_length buffer = 0)) (\<lambda>_.
      andThen (for_each [0..<10] (\<lambda>i buffer.
         andThen (ringbuffer_write buffer testString 12) (\<lambda>(buffer, written).
         andThen (check cfg (written = 12)) (\<lambda>_.
         andThen (check_equal cfg (of_nat (ringbuffer_length buffer)) (of_nat ((i + 1) * 12))) (\<lambda>_.
         Inr buffer)))) buffer) (\<lambda>buffer.
      andThen (ringbuffer_write buffer testString 12) (\<lambda>(buffer, written).
      andThen (check cfg (written = 0)) (\<lambda>_.
      andThen (check cfg (ringbuffer_length buffer = 120)) (\<lambda>_.
      andThen (for_each [0..<20] (\<lambda>i buffer.
         andThen (ringbuffer_read (bailOnAssertFail cfg) buffer (Some (of_char (CHR ''-'') # replicate 6 0)) 6)
           (\<lambda>(buffer, out, read).
         andThen (check cfg (read = 6)) (\<lambda>_. Inr buffer))) buffer) (\<lambda>buffer.
      andThen (check cfg (ringbuffer_length buffer = 0)) (\<lambda>_.
      andThen (ringbuffer_write buffer longInputTestString (length longInputTestString)) (\<lambda>(buffer, written).
      andThen (check cfg (written = length longInputTestString)) (\<lambda>_.
      andThen (for_each [0..<length longInputTestString] (\<lambda>i buffer.
         andThen (ringbuffer_peek buffer 0) (\<lambda>(buffer, peeked).
         andThen (check_equal cfg (ucast peeked) (ucast (longInputTestString ! i))) (\<lambda>_.
         andThen (ringbuffer_read (bailOnAssertFail cfg) buffer (Some [0]) 1) (\<lambda>(buffer, tmp, read).
         andThen (check cfg (read = 1)) (\<lambda>_.
         andThen (check_equal cfg (ucast (hd (the tmp))) (ucast (longInputTestString ! i))) (\<lambda>_.
         Inr buffer)))))) buffer) (\<lambda>buffer.
      andThen (ringbuffer_read (bailOnAssertFail cfg) buffer (Some (replicate 16 0)) 16) (\<lambda>(buffer, out, read).
      andThen (check cfg (read = 0)) (\<lambda>_.
      andThen (ringbuffer_destroy buffer) (\<lambda>(_, destroyed).
      check cfg destroyed)))))))))))))))"

text \<open>A test keeps a live buffer of 128 bytes with known contents.\<close>

definition holds :: "u8 list \<Rightarrow> ring_buffer \<Rightarrow> bool" where
  "holds bs r \<longleftrightarrow> rb_inv r \<and> rb_end r = 128 \<and> rb_contents r = bs"

lemma holds_length: "holds bs r \<Longrightarrow> ringbuffer_length r = length bs"
  using length_rb_contents by (auto simp: holds_def)

lemma holds_write:
  assumes "holds bs r" "length bs + length w < 127"
  shows "\<exists>r'. ringbuffer_write r w (length w) = Inr (r', length w) \<and> holds (bs @ w) r'"
  using write_accepted [of r "length w" w] assms by (auto simp: holds_def)

lemma holds_read:
  assumes "holds bs r" "length b = n"
  shows "\<exists>r' out. ringbuffer_read bail r (Some b) n = Inr (r', Some out, min n (length bs)) \<and>
    take (min n (length bs)) out = take n bs \<and> holds (drop n bs) r'"
proof -
  have m: "minValue (length (rb_contents r)) n = min n (length bs)"
    using assms(1) by (simp add: minValue_def holds_def)
  have "minValue (length (rb_contents r)) n \<le> length b" using assms(2) m by simp
  with assms(1) obtain r' where r': "ringbuffer_read bail r (Some b) n =
      Inr (r', Some (take n bs @ drop (min n (length bs)) b), min n (length bs))"
    "rb_inv r'" "rb_contents r' = drop n bs" "rb_end r' = rb_end r"
    using ringbuffer_read_eq [of r n b bail] by (auto simp: holds_def m)
  have "take (min n (length bs)) bs = take n bs" by (simp add: min_def)
  then show ?thesis
    by (intro exI [of _ r'] exI [of _ "take n bs @ drop (min n (length bs)) b"])
      (use r' assms(1) in \<open>simp add: holds_def min.commute\<close>)
qed

text \<open>The three loops of the test: fill with copies of the string, drain by sixes, read byte by byte.\<close>

abbreviation fill_body ::
    "assert_config \<Rightarrow> nat \<Rightarrow> ring_buffer \<Rightarrow> ring_buffer result" where
  "fill_body cfg \<equiv> \<lambda>i buffer. andThen (ringbuffer_write buffer testString 12) (\<lambda>(buffer, written).
      andThen (check cfg (written = 12)) (\<lambda>_.
      andThen (check_equal cfg (of_nat (ringbuffer_length buffer)) (of_nat ((i + 1) * 12))) (\<lambda>_. Inr buffer)))"

abbreviation drain_body ::
    "assert_config \<Rightarrow> nat \<Rightarrow> ring_buffer \<Rightarrow> ring_buffer result" where
  "drain_body cfg \<equiv> \<lambda>i buffer. andThen (ringbuffer_read (bailOnAssertFail cfg) buffer (Some (of_char (CHR ''-'') # replicate 6 0)) 6)
      (\<lambda>(buffer, out, read). andThen (check cfg (read = 6)) (\<lambda>_. Inr buffer))"

abbreviation bytes_body ::
    "assert_config \<Rightarrow> nat \<Rightarrow> ring_buffer \<Rightarrow> ring_buffer result" where
  "bytes_body cfg \<equiv> \<lambda>i buffer. andThen (ringbuffer_peek buffer 0) (\<lambda>(buffer, peeked).
      andThen (check_equal cfg (ucast peeked) (ucast (longInputTestString ! i))) (\<lambda>_.
      andThen (ringbuffer_read (bailOnAssertFail cfg) buffer (Some [0]) 1) (\<lambda>(buffer, tmp, read).
      andThen (check cfg (read = 1)) (\<lambda>_.
      andThen (check_equal cfg (ucast (hd (the tmp))) (ucast (longInputTestString ! i))) (\<lambda>_. Inr buffer)))))"

lemma test_lengths: "length testString = 12" "length longInputTestString = 80"
  by (simp_all add: testString_def longInputTestString_def bytes_of_def)

lemma fill_loop:
  assumes start: "holds [] r0"
  shows "\<exists>r. for_each [0..<10] (fill_body cfg) r0 = Inr r \<and> holds (concat (replicate 10 testString)) r"
proof (rule for_upto [where P = "\<lambda>i. holds (concat (replicate i testString))"])
  fix i r
  assume i: "i < (10 :: nat)" and r: "holds (concat (replicate i testString)) r"
  have l: "length (concat (replicate k testString)) = 12 * k" for k by (induction k) (simp_all add: test_lengths)
  obtain r' where r': "ringbuffer_write r testString 12 = Inr (r', 12)"
    "holds (concat (replicate i testString) @ testString) r'"
    using holds_write [OF r, of testString] i by (auto simp: l test_lengths)
  have "concat (replicate k testString) @ testString = concat (replicate (Suc k) testString)" for k
    by (induction k) simp_all
  then have h: "holds (concat (replicate (Suc i) testString)) r'" using r'(2) by metis
  have "ringbuffer_length r' = (i + 1) * 12" using holds_length [OF h] l [of "Suc i"] by simp
  then show "\<exists>s'. fill_body cfg i r = Inr s' \<and> holds (concat (replicate (Suc i) testString)) s'"
    using r'(1) h by simp
qed (use start in simp)

lemma drain_loop:
  assumes "holds bs r1" "length bs = 120"
  shows "\<exists>r. for_each [0..<20] (drain_body cfg) r1 = Inr r \<and> holds (drop (6 * 20) bs) r"
proof (rule for_upto [where P = "\<lambda>i. holds (drop (6 * i) bs)"])
  fix i r
  assume i: "i < (20 :: nat)" and r: "holds (drop (6 * i) bs) r"
  obtain r' out where "ringbuffer_read (bailOnAssertFail cfg) r (Some (of_char (CHR ''-'') # replicate 6 0)) 6 =
      Inr (r', Some out, 6)" "holds (drop (6 * Suc i) bs) r'"
  proof -
    have "minValue (length (rb_contents r)) 6 \<le> length (of_char (CHR ''-'') # replicate 6 (0 :: u8))"
      by (simp add: minValue_def)
    then show thesis
      using that ringbuffer_read_eq [of r 6 "of_char (CHR ''-'') # replicate 6 0" "bailOnAssertFail cfg"] r i assms(2)
      by (auto simp: holds_def minValue_def)
  qed
  then show "\<exists>s'. drain_body cfg i r = Inr s' \<and> holds (drop (6 * Suc i) bs) s'" by simp
qed (use assms in simp)

lemma bytes_loop:
  assumes r3: "holds longInputTestString r3"
  shows "\<exists>r. for_each [0..<length longInputTestString] (bytes_body cfg) r3 = Inr r \<and>
    holds (drop (length longInputTestString) longInputTestString) r"
proof (rule for_upto [where P = "\<lambda>i. holds (drop i longInputTestString)"])
  fix i r
  assume i: "i < length longInputTestString" and r: "holds (drop i longInputTestString) r"
  then have d: "drop i longInputTestString = longInputTestString ! i # drop (Suc i) longInputTestString" by (simp add: Cons_nth_drop_Suc)
  have peek: "ringbuffer_peek r 0 = Inr (r, longInputTestString ! i)"
    using ringbuffer_peek_eq [of r 0] r d by (auto simp: holds_def rb_inv_def)
  obtain r' out where r': "ringbuffer_read (bailOnAssertFail cfg) r (Some [0]) 1 = Inr (r', Some out, 1)" "take 1 out = [longInputTestString ! i]"
    "holds (drop (Suc i) longInputTestString) r'"
    using holds_read [OF r, of "[0]" 1 "bailOnAssertFail cfg"] d by auto
  then have "hd out = longInputTestString ! i" by (cases out) auto
  then show "\<exists>s'. bytes_body cfg i r = Inr s' \<and> holds (drop (Suc i) longInputTestString) s'" using peek r'(1,3) by simp
qed (use r3 in simp)

lemma test_ring_buffer_passes:
  assumes "length (malloc 128) = 128"
  shows "test_ring_buffer cfg malloc = Inr ()"
proof -
  let ?bail = "bailOnAssertFail cfg" and ?long = longInputTestString and ?r0 = "ringbuffer_init (malloc 128)"
  have start: "holds [] ?r0" using assms rb_init_inv [of "malloc 128"] by (simp add: holds_def)
  have cap: "ringbuffer_capacity ?r0 = 127" "ringbuffer_length ?r0 = 0"
    using start rb_capacity_eq [of ?r0] holds_length [OF start] by (simp_all add: holds_def)
  obtain r1 where r1: "for_each [0..<10] (fill_body cfg) ?r0 = Inr r1" "holds (concat (replicate 10 testString)) r1"
    using fill_loop [OF start] by blast
  have full: "length (concat (replicate 10 testString)) = 120" by (simp add: numeral_eq_Suc test_lengths(1))
  have l1: "ringbuffer_length r1 = 120" using holds_length [OF r1(2)] full by simp
  have refused: "ringbuffer_write r1 testString 12 = Inr (r1, 0)"
    using write_refused [of r1 12 testString] r1(2) full by (simp add: holds_def)
  obtain r2 where r2: "for_each [0..<20] (drain_body cfg) r1 = Inr r2" "holds [] r2"
    using drain_loop [OF r1(2) full, of cfg] full by auto
  have l2: "ringbuffer_length r2 = 0" using holds_length [OF r2(2)] by simp
  obtain r3 where r3: "ringbuffer_write r2 ?long (length ?long) = Inr (r3, length ?long)" "holds ?long r3"
    using holds_write [OF r2(2), of ?long] test_lengths(2) by auto
  obtain r4 where r4: "for_each [0..<length ?long] (bytes_body cfg) r3 = Inr r4" "holds [] r4"
    using bytes_loop [OF r3(2)] by auto
  obtain r5 out where r5: "ringbuffer_read ?bail r4 (Some (replicate 16 0)) 16 = Inr (r5, Some out, 0)" "holds [] r5"
    using holds_read [OF r4(2), of "replicate 16 0" 16 ?bail] by auto
  have "ringbuffer_destroy r5 = Inr (None, True)"
    using r5(2) by (simp add: ringbuffer_destroy_def sem_wait_eq holds_def)
  then show ?thesis
    unfolding test_ring_buffer_def Let_def cap l1 l2
    by (simp only: check_simps simp_thms andThen.simps r1(1) refused l1 r2(1) l2 r3(1) r4(1) r5(1) prod.case)
qed

section \<open>Framing\<close>

record sync_state =
  rx_buffer :: "u8 list"
  rx_buffer_tail :: nat
  next_source :: u32
  expect :: u32

definition append_packet :: "sync_state \<Rightarrow> sync_state result" where
  "append_packet s =
     andThen (packet_write_u8 (rx_buffer s) (rx_buffer_tail s) GNW_MAGIC) (\<lambda>(b, tail).
     andThen (packet_write_u8 b tail GNW_VERSION) (\<lambda>(b, tail).
     andThen (packet_write_u8 b tail 0xBB) (\<lambda>(b, tail).
     andThen (packet_write_u32 b tail (next_source s)) (\<lambda>(b, tail).
     andThen (packet_write_u32 b tail 0) (\<lambda>(b, tail).
     Inr (s\<lparr>rx_buffer := b, rx_buffer_tail := tail, next_source := next_source s + 1\<rparr>))))))"

definition receive_packet :: "assert_config \<Rightarrow> nat \<Rightarrow> sync_state \<Rightarrow> sync_state result" where
  "receive_packet cfg readyBytes s =
     andThen (packet_read_u8 (rx_buffer s) 0) (\<lambda>(magic, ptr).
     andThen (packet_read_u8 (rx_buffer s) ptr) (\<lambda>(version, ptr).
     andThen (packet_read_u8 (rx_buffer s) ptr) (\<lambda>(type, ptr).
     andThen (packet_read_u32 (rx_buffer s) ptr) (\<lambda>(source, ptr).
     andThen (packet_read_u32 (rx_buffer s) ptr) (\<lambda>(len, ptr).
     andThen (check_equal cfg (ucast magic) (ucast GNW_MAGIC)) (\<lambda>_.
     andThen (check_equal cfg (ucast version) (ucast GNW_VERSION)) (\<lambda>_.
     andThen (check_equal cfg (ucast type) 0xBB) (\<lambda>_.
     andThen (check_equal cfg (ucast len) 0) (\<lambda>_.
     andThen (check_equal cfg (ucast (expect s)) (ucast source)) (\<lambda>_.
     andThen (packet_shift (rx_buffer s) 0 512 None readyBytes) (\<lambda>(b, _, _).
     Inr (s\<lparr>rx_buffer := b, rx_buffer_tail := rx_buffer_tail s - readyBytes, expect := expect s + 1\<rparr>))))))))))))"

text \<open>Every round takes bytes off the buffer, so one more round than there are bytes is enough.\<close>

fun sync_loop :: "nat \<Rightarrow> assert_config \<Rightarrow> sync_state \<Rightarrow> sync_state result" where
  "sync_loop 0 cfg s = Inl Diverges"
| "sync_loop (Suc fuel) cfg s =
     andThen (gnw_nextPacket (rx_buffer s) (rx_buffer_tail s)) (\<lambda>readyBytes.
     if readyBytes = 0 then Inr s
     else if readyBytes < 0 then
       andThen (packet_shift (rx_buffer s) 0 512 None 1) (\<lambda>(b, _, _).
       sync_loop fuel cfg (s\<lparr>rx_buffer := b, rx_buffer_tail := rx_buffer_tail s - 1\<rparr>))
     else andThen (receive_packet cfg (nat readyBytes) s) (sync_loop fuel cfg))"

definition test_network_sync :: "assert_config \<Rightarrow> unit result" where
  "test_network_sync cfg =
     andThen (for_each [0..<10] (\<lambda>i s.
        andThen (for_each [0..<3] (\<lambda>b. append_packet) s) (\<lambda>s.
        sync_loop (Suc (rx_buffer_tail s)) cfg s))
        \<lparr>rx_buffer = replicate 512 0, rx_buffer_tail = 0, next_source = 0, expect = 0\<rparr>) (\<lambda>_. Inr ())"

definition test_packet :: "u32 \<Rightarrow> u8 list" where
  "test_packet source = frame_bytes 0xBB source []"

definition received :: "u32 list \<Rightarrow> sync_state \<Rightarrow> bool" where
  "received sources s \<longleftrightarrow> length (rx_buffer s) = 512 \<and> rx_buffer_tail s = 11 * length sources \<and>
     take (rx_buffer_tail s) (rx_buffer s) = concat (map test_packet sources)"

lemma length_test_packets: "length (test_packet x) = 11" "length (concat (map test_packet xs)) = 11 * length xs"
  by (induction xs) (simp_all add: test_packet_def)

lemma append_packet_received:
  assumes "received sources s" "length sources < 46"
  shows "\<exists>s'. append_packet s = Inr s' \<and> received (sources @ [next_source s]) s' \<and>
    next_source s' = next_source s + 1 \<and> expect s' = expect s"
proof -
  have room: "rx_buffer_tail s + 11 \<le> length (rx_buffer s)" using assms by (simp add: received_def)
  obtain xs ys zs where b: "rx_buffer s = xs @ ys @ zs" "length xs = rx_buffer_tail s" "length ys = 11"
    using split_block [OF room] by blast
  obtain y0 y1 y2 ws where ys: "ys = y0 # y1 # y2 # ws" "length ws = 4 + 4"
    using b(3) by (auto simp: numeral_eq_Suc length_Suc_conv)
  obtain us vs where ws: "ws = us @ vs" "length us = 4" "length vs = 4"
    using ys(2) by (metis append_take_drop_id length_append length_take length_drop diff_add_inverse min.absorb2 le_add1)
  let ?t = "rx_buffer_tail s" and ?h = "[GNW_MAGIC, GNW_VERSION, 0xBB]"
  have w1: "packet_write_u32 ((xs @ ?h) @ us @ (vs @ zs)) (?t + 3) (next_source s) =
      Inr ((xs @ ?h) @ bytes32 (next_source s) @ (vs @ zs), ?t + 3 + 4)"
    by (rule packet_write_u32_on_middle) (simp_all add: b(2) ws)
  have w2: "packet_write_u32 ((xs @ ?h @ bytes32 (next_source s)) @ vs @ zs) (7 + ?t) 0 =
      Inr ((xs @ ?h @ bytes32 (next_source s)) @ bytes32 0 @ zs, 7 + ?t + 4)"
    by (rule packet_write_u32_on_middle) (simp_all add: b(2) ws)
  have w0: "packet_write_u8 (xs @ y0 # y1 # y2 # us @ vs @ zs) ?t GNW_MAGIC =
      Inr (xs @ GNW_MAGIC # y1 # y2 # us @ vs @ zs, ?t + 1)"
    "packet_write_u8 (xs @ GNW_MAGIC # y1 # y2 # us @ vs @ zs) (?t + 1) GNW_VERSION =
      Inr (xs @ GNW_MAGIC # GNW_VERSION # y2 # us @ vs @ zs, ?t + 2)"
    "packet_write_u8 (xs @ GNW_MAGIC # GNW_VERSION # y2 # us @ vs @ zs) (?t + 2) 0xBB =
      Inr (xs @ GNW_MAGIC # GNW_VERSION # 0xBB # us @ vs @ zs, ?t + 3)"
    using packet_write_u8_middle [of ?t xs y0] packet_write_u8_middle [of "?t + 1" "xs @ [GNW_MAGIC]" y1]
      packet_write_u8_middle [of "?t + 2" "xs @ [GNW_MAGIC, GNW_VERSION]" y2] b(2) by simp_all
  have "append_packet s = Inr (s\<lparr>rx_buffer := xs @ test_packet (next_source s) @ zs, rx_buffer_tail := ?t + 11,
      next_source := next_source s + 1\<rparr>)"
    using w0 w1 w2 by (simp add: append_packet_def b(1) ys ws test_packet_def frame_bytes_def)
  moreover have "length (xs @ test_packet (next_source s) @ zs) = 512"
    using assms(1) b by (auto simp: received_def length_test_packets)
  moreover have "xs = concat (map test_packet sources)" using assms(1) b by (auto simp: received_def)
  ultimately show ?thesis
    using assms(1) b(2) by (simp add: received_def length_test_packets)
qed

lemma receive_packet_received:
  assumes "received (source # sources) s" "expect s = source"
  shows "gnw_nextPacket (rx_buffer s) (rx_buffer_tail s) = Inr 11 \<and>
    (\<exists>s'. receive_packet cfg 11 s = Inr s' \<and> received sources s' \<and> expect s' = source + 1 \<and>
      next_source s' = next_source s)"
proof -
  let ?b = "rx_buffer s" and ?t = "rx_buffer_tail s"
  have b: "length ?b = 512" "?t = 11 + 11 * length sources"
    "take ?t ?b = test_packet source @ concat (map test_packet sources)"
    using assms(1) by (auto simp: received_def)
  have "length (take ?t ?b) = ?t" by (simp only: b(3)) (simp add: b(2) length_test_packets)
  then have fits: "?t \<le> 512" using b(1) by simp
  define rest where "rest = drop 11 ?b"
  have "take 11 ?b = take 11 (take ?t ?b)" using b(2) by simp
  then have "take 11 ?b = test_packet source" by (simp add: b(3) test_packet_def)
  then have split: "?b = frame_bytes 0xBB source [] @ rest"
    by (metis append_take_drop_id rest_def test_packet_def)
  have rest: "take (?t - 11) rest = concat (map test_packet sources)"
  proof -
    have "take (?t - 11) rest = drop 11 (take ?t ?b)" by (simp add: drop_take rest_def)
    then show ?thesis by (simp add: b(3) length_test_packets)
  qed
  have next_packet: "gnw_nextPacket ?b ?t = Inr 11"
    using gnw_nextPacket_frame [of "[]" ?t rest "0xBB" source] b(1,2) fits by (simp add: split)
  have reads: "packet_read_u8 ?b 0 = Inr (GNW_MAGIC, 1)" "packet_read_u8 ?b 1 = Inr (GNW_VERSION, 2)"
    "packet_read_u8 ?b 2 = Inr (0xBB, 3)" "packet_read_u32 ?b 3 = Inr (source, 7)"
    "packet_read_u32 ?b 7 = Inr (0, 11)"
    using header_reads [of ?b] frame_bytes_nth [of "0xBB" source "[]" rest] frame_bytes_source [of "0xBB" source "[]" rest]
      wire_length_frame [of "0xBB" source "[]" rest] b(1) by (simp_all add: split)
  show ?thesis
    using next_packet reads rest assms(2) b fits packet_shift_eq [of 11 512 ?b]
    by (simp add: receive_packet_def received_def rest_def)
qed

lemma sync_loop_received:
  "received (map (\<lambda>i. expect s + of_nat i) [0..<n]) s \<Longrightarrow> n < fuel \<Longrightarrow>
     \<exists>s'. sync_loop fuel cfg s = Inr s' \<and> received [] s' \<and> expect s' = expect s + of_nat n \<and> next_source s' = next_source s"
proof (induction n arbitrary: fuel s)
  case 0
  then show ?case by (cases fuel) (auto simp: received_def gnw_nextPacket_def)
next
  case (Suc n)
  obtain f where f: "fuel = Suc f" "n < f" using Suc.prems(2) by (cases fuel) auto
  have "received (expect s # map (\<lambda>i. expect s + 1 + of_nat i) [0..<n]) s"
    using Suc.prems(1) by (simp add: upt_conv_Cons map_Suc_upt [symmetric] comp_def ac_simps del: upt_Suc)
  from receive_packet_received [OF this refl, of cfg] obtain s1 where
    s1: "gnw_nextPacket (rx_buffer s) (rx_buffer_tail s) = Inr 11" "receive_packet cfg 11 s = Inr s1"
    "received (map (\<lambda>i. expect s1 + of_nat i) [0..<n]) s1" "expect s1 = expect s + 1" "next_source s1 = next_source s"
    by auto
  show ?case using Suc.IH [OF s1(3) f(2)] s1 f(1) by (auto simp: ac_simps)
qed

lemma test_network_sync_passes: "test_network_sync cfg = Inr ()"
proof -
  have append: "\<exists>s'. for_each [0..<3] (\<lambda>b. append_packet) s = Inr s' \<and>
      received (map (\<lambda>i. expect s' + of_nat i) [0..<3]) s' \<and> next_source s' = expect s' + 3"
    if "received [] s" "next_source s = expect s" for s
  proof -
    have "\<exists>s'. for_each [0..<3] (\<lambda>b. append_packet) s = Inr s' \<and>
        (received (map (\<lambda>i. expect s + of_nat i) [0..<3]) s' \<and> next_source s' = expect s + of_nat 3 \<and> expect s' = expect s)"
    proof (rule for_upto [where P = "\<lambda>k s'. received (map (\<lambda>i. expect s + of_nat i) [0..<k]) s' \<and>
        next_source s' = expect s + of_nat k \<and> expect s' = expect s"])
      fix i s'
      assume i: "i < (3 :: nat)" and s': "received (map (\<lambda>i. expect s + of_nat i) [0..<i]) s' \<and>
        next_source s' = expect s + of_nat i \<and> expect s' = expect s"
      from append_packet_received [of _ s'] i s'
      show "\<exists>t. append_packet s' = Inr t \<and> received (map (\<lambda>i. expect s + of_nat i) [0..<Suc i]) t \<and>
          next_source t = expect s + of_nat (Suc i) \<and> expect t = expect s"
        by (fastforce simp: ac_simps)
    qed (use that in simp)
    then show ?thesis by auto
  qed
  let ?s = "\<lparr>rx_buffer = replicate 512 0, rx_buffer_tail = 0, next_source = 0, expect = 0\<rparr> :: sync_state"
  have "\<exists>s'. for_each [0..<10] (\<lambda>i s. andThen (for_each [0..<3] (\<lambda>b. append_packet) s) (\<lambda>s.
      sync_loop (Suc (rx_buffer_tail s)) cfg s)) ?s = Inr s' \<and> received [] s' \<and> next_source s' = expect s'"
  proof (rule for_upto [where P = "\<lambda>i s. received [] s \<and> next_source s = expect s"])
    fix i :: nat and s
    assume "received [] s \<and> next_source s = expect s"
    then obtain s1 where s1: "for_each [0..<3] (\<lambda>b. append_packet) s = Inr s1"
      "received (map (\<lambda>i. expect s1 + of_nat i) [0..<3]) s1" "next_source s1 = expect s1 + 3"
      using append by blast
    have fuel: "3 < Suc (rx_buffer_tail s1)" using s1(2) by (simp add: received_def)
    show "\<exists>s'. andThen (for_each [0..<3] (\<lambda>b. append_packet) s) (\<lambda>s. sync_loop (Suc (rx_buffer_tail s)) cfg s) = Inr s' \<and>
        received [] s' \<and> next_source s' = expect s'"
      using sync_loop_received [OF s1(2) fuel, of cfg] s1 by auto
  qed (simp add: received_def)
  then show ?thesis by (auto simp: test_network_sync_def)
qed

section \<open>Scaled sizes\<close>

text \<open>The tenth product wraps around \<open>2 ^ 64\<close>; the test only runs the functions.\<close>

definition test_utility_functions :: "unit result" where
  "test_utility_functions =
     andThen (for_each [0..<10] (\<lambda>i test_size.
        let test_size = test_size * 100 in
        andThen (fmt_iec_size test_size) (\<lambda>_.
        andThen (fmt_si_size test_size) (\<lambda>_. Inr test_size))) (1 :: u64)) (\<lambda>_. Inr ())"

lemma test_utility_functions_passes: "test_utility_functions = Inr ()"
proof -
  have total: "\<exists>b. fmt_iec_size sz = Inr b" "\<exists>b. fmt_si_size sz = Inr b" for sz
    using fmt_iec_size_total fmt_si_size_in_range by blast+
  have "\<exists>s. for_each [0..<10] (\<lambda>i test_size. let test_size = test_size * 100 in
      andThen (fmt_iec_size test_size) (\<lambda>_. andThen (fmt_si_size test_size) (\<lambda>_. Inr test_size))) (1 :: u64) = Inr s \<and> True"
    by (rule for_upto [where P = "\<lambda>_ _. True"]) (use total in \<open>auto simp: Let_def\<close>, metis andThen.simps(2))
  then show ?thesis by (auto simp: test_utility_functions_def)
qed

section \<open>Hash table and vector\<close>

definition test_hash_table :: "assert_config \<Rightarrow> (nat \<Rightarrow> u32) \<Rightarrow> unit result" where
  "test_hash_table cfg rand =
     andThen (for_each [0..<1000] (\<lambda>i table.
        andThen (kh_put table (of_nat i)) (\<lambda>(table, k, state).
        kh_set_value table k (of_nat i * 2))) (kh_init :: u32 khash)) (\<lambda>table.
     andThen (for_each [0..<1000] (\<lambda>i _.
        andThen (kh_get table (of_nat i)) (\<lambda>k.
        andThen (check cfg (k \<noteq> kh_end table)) (\<lambda>_.
        andThen (kh_value table k) (\<lambda>v.
        check cfg (v = of_nat i * 2))))) ()) (\<lambda>_.
     andThen (kh_get table 30) (\<lambda>hint.
     andThen (kh_value table hint) (\<lambda>v.
     andThen (check cfg (v = 60)) (\<lambda>_.
     andThen (check cfg (kh_size (kh_init :: u32 khash) = 0)) (\<lambda>_.
     andThen (for_each [0..<1000] (\<lambda>i table.
        andThen (kh_put table (of_nat i)) (\<lambda>(table, k, state).
        andThen (check cfg (kh_size table = 1)) (\<lambda>_.
        andThen (kh_set_value table k (rand i)) (\<lambda>table.
        let table = kh_del table k in
        andThen (check cfg (kh_size table = 0)) (\<lambda>_. Inr table))))) (kh_init :: u32 khash)) (\<lambda>_.
     Inr ())))))))"

definition test_vector :: "assert_config \<Rightarrow> unit result" where
  "test_vector cfg =
     andThen (for_each [0..<1000] (\<lambda>i vector.
        andThen (kv_push vector ((of_nat i * 3) XOR 0xE5E5 :: u32)) (\<lambda>vector.
        andThen (kv_A vector i) (\<lambda>v.
        andThen (check cfg (v = (of_nat i * 3) XOR 0xE5E5)) (\<lambda>_. Inr vector)))) kv_init) (\<lambda>vector.
     andThen (check cfg (kv_size vector = 1000)) (\<lambda>_.
     andThen (for_each [0..<1000] (\<lambda>i vector.
        andThen (kv_pop vector) (\<lambda>(vector, _). Inr vector)) vector) (\<lambda>vector.
     check cfg (kv_size vector = 0))))"

text \<open>The loops of the test: a thousand insertions, and a thousand insertions each followed by a deletion.\<close>

abbreviation put_body :: "nat \<Rightarrow> u32 khash \<Rightarrow> u32 khash result" where
  "put_body \<equiv> \<lambda>i table. andThen (kh_put table (of_nat i)) (\<lambda>(table, k, state).
      kh_set_value table k (of_nat i * 2 :: u32))"

abbreviation cycle_body :: "assert_config \<Rightarrow> (nat \<Rightarrow> u32) \<Rightarrow> nat \<Rightarrow> u32 khash \<Rightarrow> u32 khash result" where
  "cycle_body cfg rand \<equiv> \<lambda>i table. andThen (kh_put table (of_nat i)) (\<lambda>(table, k, state).
      andThen (check cfg (kh_size table = 1)) (\<lambda>_.
      andThen (kh_set_value table k (rand i)) (\<lambda>table. let table = kh_del table k in
      andThen (check cfg (kh_size table = 0)) (\<lambda>_. Inr table))))"

definition doubled :: "nat \<Rightarrow> u32 khash \<Rightarrow> bool" where
  "doubled n h \<longleftrightarrow> kh_full h \<and> kh_n_buckets h \<le> 4096 \<and> finite (dom (kh_abs h)) \<and> card (dom (kh_abs h)) \<le> n \<and>
     (\<forall>i<n. kh_abs h (of_nat i) = Some (of_nat i * 2))"

lemma put_loop: "\<exists>h. for_each [0..<1000] put_body kh_init = Inr h \<and> doubled 1000 h"
proof (rule for_upto [where P = doubled])
  fix n and h :: "u32 khash"
  assume n: "n < 1000" and d: "doubled n h"
  note h = d [unfolded doubled_def]
  have inj: "of_nat i = (of_nat j :: u32) \<longleftrightarrow> i = j" if "i < 1000" "j < 1000" for i j
    using that by (simp add: word_of_nat_eq_iff take_bit_nat_eq_self)
  have small: "kh_n_buckets h \<le> 2 ^ 30" using h by simp
  obtain h1 x r h' where put: "kh_put h (of_nat n) = Inr (h1, x, r)" "kh_set_value h1 x (of_nat n * 2) = Inr h'"
    "kh_full h'" "kh_abs h' = (kh_abs h)(of_nat n \<mapsto> of_nat n * 2)"
    "kh_n_buckets h' \<le> max (kh_n_buckets h) (max 4 (4 * card (dom (kh_abs h))))"
    using kh_put_set [OF _ small, of "of_nat n" "of_nat n * 2"] h by blast
  have "max (kh_n_buckets h) (max 4 (4 * card (dom (kh_abs h)))) \<le> 4096"
    using h n by (intro max.boundedI) (simp, simp, linarith)
  then have "kh_n_buckets h' \<le> 4096" using put(5) by (rule order_trans [rotated])
  moreover have "card (dom (kh_abs h')) \<le> Suc n" using h by (simp add: put(4) card_insert_if)
  moreover have "\<forall>i<Suc n. kh_abs h' (of_nat i) = Some (of_nat i * 2)"
    using h n inj by (auto simp: put(4) less_Suc_eq)
  moreover have "finite (dom (kh_abs h'))" using h by (simp add: put(4))
  ultimately show "\<exists>s'. put_body n h = Inr s' \<and> doubled (Suc n) s'" using put(1-3) by (simp add: doubled_def)
qed (simp add: doubled_def kh_full_init)

definition emptied :: "u32 khash \<Rightarrow> bool" where
  "emptied h \<longleftrightarrow> kh_full h \<and> kh_n_buckets h \<le> 4 \<and> kh_abs h = Map.empty"

lemma cycle_loop: "\<exists>h. for_each [0..<1000] (cycle_body cfg rand) kh_init = Inr h \<and> emptied h"
proof (rule for_upto [where P = "\<lambda>_. emptied"])
  fix i and h :: "u32 khash"
  assume e: "emptied h"
  note h = e [unfolded emptied_def]
  have small: "kh_n_buckets h \<le> 2 ^ 30" using h by simp
  obtain h1 x r h' where put: "kh_put h (of_nat i) = Inr (h1, x, r)" "kh_set_value h1 x (rand i) = Inr h'"
    "kh_full h'" "kh_abs h' = [of_nat i \<mapsto> rand i]" "kh_holds h' x (of_nat i)" "kh_n_buckets h' \<le> 4"
    using kh_put_set [OF _ small, of "of_nat i" "rand i"] h by fastforce
  have "kh_size h1 = kh_size h'" using put(2) by (auto simp: kh_set_value_def split: if_splits)
  then have one: "kh_size h1 = 1" using kh_size_abs [OF put(3)] put(4) by simp
  have del: "kh_get h' (of_nat i) = Inr x" by (rule kh_get_holds [OF put(3,5)])
  obtain h'' where h'': "kh_remove h' (of_nat i) = Inr h''" "kh_full h''" "kh_abs h'' = Map.empty"
    "kh_n_buckets h'' = kh_n_buckets h'"
    using kh_remove_full [OF put(3), of "of_nat i"] put(4) by auto
  have "h'' = kh_del h' x" using h''(1) del by (simp add: kh_remove_def split: if_splits)
  moreover have "kh_size h'' = 0" using kh_size_abs [OF h''(2)] h''(3) by simp
  ultimately show "\<exists>s'. cycle_body cfg rand i h = Inr s' \<and> emptied s'" using put(1,2,6) one h''(2-4) by (simp add: Let_def emptied_def)
qed (simp add: emptied_def kh_full_init)

lemma test_hash_table_passes: "test_hash_table cfg rand = Inr ()"
proof -
  obtain h where h: "for_each [0..<1000] put_body kh_init = Inr h" "kh_full h"
    "\<forall>i<1000. kh_abs h (of_nat i) = Some (of_nat i * 2)" using put_loop by (auto simp: doubled_def)
  have get: "\<exists>k. kh_get h (of_nat i) = Inr k \<and> k \<noteq> kh_end h \<and> kh_value h k = Inr (of_nat i * 2)" if "i < 1000" for i
    using kh_bucket [OF h(2)] h(3) that by blast
  have gets: "\<exists>s. for_each [0..<1000] (\<lambda>i _. andThen (kh_get h (of_nat i)) (\<lambda>k.
      andThen (check cfg (k \<noteq> kh_end h)) (\<lambda>_. andThen (kh_value h k) (\<lambda>v. check cfg (v = of_nat i * 2))))) () = Inr s \<and> True"
    by (rule for_upto [where P = "\<lambda>_ _. True"]) (use get in fastforce)+
  obtain k where k: "kh_get h 30 = Inr k" "kh_value h k = Inr 60" using get [of 30] by auto
  have zero: "kh_size (kh_init :: u32 khash) = 0" by (simp add: kh_init_def)
  show ?thesis using h(1) gets k cycle_loop [of cfg rand] zero by (auto simp: test_hash_table_def)
qed

lemma kv_pop_list:
  assumes "kv_ok v" "0 < kv_n v" "kv_n v < 2 ^ 64"
  shows "\<exists>v' x. kv_pop v = Inr (v', x) \<and> kv_ok v' \<and> kv_n v' = kv_n v - 1"
proof -
  have s: "size_sub (kv_n v) 1 = kv_n v - 1" by (rule size_sub_eq) (use assms in simp_all)
  let ?v = "v\<lparr>kv_n := kv_n v - 1\<rparr>"
  have "take (kv_n v - 1) (kv_arr v) = take (kv_n v - 1) (take (kv_n v) (kv_arr v))" by simp
  then have ok: "kv_ok ?v" using assms(1) set_take_subset [of "kv_n v - 1" "take (kv_n v) (kv_arr v)"]
    by (auto simp: kv_ok_def)
  have "kv_A ?v (kv_n v - 1) = kv_A v (kv_n v - 1)" by (simp add: kv_A_def)
  also have "\<dots> = Inr (kv_list v ! (kv_n v - 1))" by (rule kv_A_list [OF assms(1)]) (use assms(2) in simp)
  finally show ?thesis using ok by (simp add: kv_pop_def s Let_def del: One_nat_def)
qed

lemma test_vector_passes: "test_vector cfg = Inr ()"
proof -
  let ?push = "\<lambda>i vector. andThen (kv_push vector ((of_nat i * 3) XOR 0xE5E5 :: u32)) (\<lambda>vector.
      andThen (kv_A vector i) (\<lambda>v. andThen (check cfg (v = (of_nat i * 3) XOR 0xE5E5)) (\<lambda>_. Inr vector)))"
  have "\<exists>v. for_each [0..<1000] ?push kv_init = Inr v \<and> (kv_ok v \<and> kv_n v = 1000)"
  proof (rule for_upto [where P = "\<lambda>i v. kv_ok v \<and> kv_n v = i"])
    fix i and v :: "u32 kvec"
    assume i: "i < 1000" and v: "kv_ok v \<and> kv_n v = i"
    let ?x = "(of_nat i * 3) XOR 0xE5E5 :: u32"
    obtain v' where v': "kv_push v ?x = Inr v'" "kv_ok v'" "kv_list v' = kv_list v @ [?x]"
      using kv_push_list [of v ?x] i v by auto
    have n: "kv_n v' = Suc i" "length (kv_list v) = i"
      using length_kv_list [OF v'(2)] length_kv_list [of v] v v'(3) by simp_all
    then have "kv_A v' i = Inr ?x" using kv_A_list [OF v'(2), of i] v'(3) by (simp add: nth_append)
    then show "\<exists>s'. ?push i v = Inr s' \<and> kv_ok s' \<and> kv_n s' = Suc i" using v' n by simp
  qed (simp add: kv_init_def [THEN arg_cong, of kv_n, simplified])
  then obtain v where v: "for_each [0..<1000] ?push kv_init = Inr v" "kv_ok v" "kv_n v = 1000" by blast
  have "\<exists>w. for_each [0..<1000] (\<lambda>i vector. andThen (kv_pop vector) (\<lambda>(vector, _). Inr vector)) v = Inr w \<and>
      (kv_ok w \<and> kv_n w = 1000 - 1000)"
  proof (rule for_upto [where P = "\<lambda>i w. kv_ok w \<and> kv_n w = 1000 - i"])
    fix i and w :: "u32 kvec"
    assume i: "i < 1000" and w: "kv_ok w \<and> kv_n w = 1000 - i"
    then have "kv_n w < 2 ^ 64" by simp
    then obtain w' x where "kv_pop w = Inr (w', x)" "kv_ok w'" "kv_n w' = kv_n w - 1"
      using kv_pop_list [of w] i w by auto
    then show "\<exists>s'. andThen (kv_pop w) (\<lambda>(vector, _). Inr vector) = Inr s' \<and> kv_ok s' \<and> kv_n s' = 1000 - Suc i"
      using w by simp
  qed (use v in simp)
  then show ?thesis using v by (auto simp: test_vector_def)
qed

section \<open>Structures in a table\<close>

record test_t =
  temp :: u32
  test_ptr :: "nat option"

text \<open>A block behind a pointer of a structure.\<close>

definition deref :: "(nat \<rightharpoonup> u8 list) \<Rightarrow> nat option \<Rightarrow> u8 list result" where
  "deref heap p =
     (case p of
        None \<Rightarrow> Inl NullDeref
      | Some a \<Rightarrow> (case heap a of None \<Rightarrow> Inl UseAfterFree | Some b \<Rightarrow> Inr b))"

text \<open>
  \<open>garbage\<close> is what the structure of a new bucket holds; \<open>block\<close> is the address \<open>malloc( 10 )\<close> returns.
  A pointer to the value of a bucket is the bucket; it is not null as the array of values is not.
\<close>

definition test_complex_structures ::
    "assert_config \<Rightarrow> (nat \<Rightarrow> u8 list) \<Rightarrow> test_t \<Rightarrow> nat \<Rightarrow> unit result" where
  "test_complex_structures cfg malloc garbage block =
     andThen (kh_put (kh_init :: test_t khash) 4) (\<lambda>(table, hint, status).
     andThen (check cfg (kh_vals table \<noteq> [])) (\<lambda>_.
     andThen (kh_set_value table hint (garbage\<lparr>temp := 10\<rparr>)) (\<lambda>table.
     andThen (kh_value table hint) (\<lambda>value.
     andThen (check cfg (temp value = 10)) (\<lambda>_.
     andThen (kh_set_value table hint (value\<lparr>test_ptr := Some block\<rparr>)) (\<lambda>table.
     andThen (kh_value table hint) (\<lambda>value.
     andThen (check cfg (test_ptr value \<noteq> None)) (\<lambda>_.
     andThen (store_block (malloc 10) 0 (replicate 10 5)) (\<lambda>bytes.
     let heap = [block \<mapsto> bytes] in
     andThen (deref heap (test_ptr value)) (\<lambda>b.
     andThen (load b 2) (\<lambda>x.
     andThen (check cfg (x = 5)) (\<lambda>_.
     andThen (check cfg (kh_size table = 1)) (\<lambda>_.
     andThen (kh_get table 4) (\<lambda>tmp.
     andThen (kh_value table tmp) (\<lambda>farRef.
     andThen (check cfg (kh_vals table \<noteq> [])) (\<lambda>_.
     andThen (check cfg (tmp = hint)) (\<lambda>_.
     andThen (check cfg (temp farRef = temp value)) (\<lambda>_.
     andThen (check cfg (test_ptr farRef = test_ptr value)) (\<lambda>_.
     andThen (deref heap (test_ptr farRef)) (\<lambda>b.
     andThen (load b 2) (\<lambda>x.
     andThen (check cfg (x = 5)) (\<lambda>_.
     andThen (kh_set_value table tmp (farRef\<lparr>test_ptr := None\<rparr>)) (\<lambda>table.
     andThen (kh_get table 4) (\<lambda>delhint.
     let table = kh_del table delhint in
     andThen (kh_exist table 4) (\<lambda>exists.
     andThen (check cfg (\<not> exists)) (\<lambda>_.
     andThen (check cfg (kh_size table = 0)) (\<lambda>_.
     andThen (for_each [0..<kh_end table] (\<lambda>k _.
        andThen (kh_exist table k) (\<lambda>exists.
        if exists then andThen (kh_value table k) (\<lambda>_. Inr ()) else Inr ())) ()) (\<lambda>_.
     andThen (kh_get table 4) (\<lambda>test.
     Inr ())))))))))))))))))))))))))))))"

lemma put_first:
  "kh_put (kh_init :: 'v khash) 4 = Inr (\<lparr>kh_n_buckets = 4, kh_size = 1, kh_n_occupied = 1, kh_upper_bound = 3,
     kh_flags = [0xAAAAAAA8], kh_keys = [4, 0, 0, 0], kh_vals = [None, None, None, None]\<rparr>, 0, 1)"
proof -
  have four: "replicate 4 x = [x, x, x, x]" for x :: 'z by (simp add: numeral_eq_Suc)
  have "kh_upper 4 = 3" "kroundup32 1 = 1" by (simp_all add: kh_upper_def kroundup32_def)
  then have grown: "kh_grow (kh_init :: 'v khash) = Inr \<lparr>kh_n_buckets = 4, kh_size = 0, kh_n_occupied = 0,
     kh_upper_bound = 3, kh_flags = [0xAAAAAAAA], kh_keys = [0, 0, 0, 0], kh_vals = [None, None, None, None]\<rparr>"
    by (simp add: kh_grow_def kh_init_def kh_resize_def fresh_flags_def ac_fsize_def fuelled_def four Let_def)
  have flag: "ac_isempty [0xAAAAAAAA] 0" "ac_set_isboth_false [0xAAAAAAAA] 0 = [0xAAAAAAA8]"
    by (simp_all add: ac_isempty_def ac_set_isboth_false_def)
  have mask: "(4 :: nat) AND 3 = 0" by simp
  show ?thesis by (simp add: kh_put_def grown kh_put_bucket_def flag mask Let_def)
qed

text \<open>The table with its one bucket in use, and after the deletion.\<close>

definition one_bucket :: "'v \<Rightarrow> 'v khash" where
  "one_bucket v = \<lparr>kh_n_buckets = 4, kh_size = 1, kh_n_occupied = 1, kh_upper_bound = 3,
     kh_flags = [0xAAAAAAA8], kh_keys = [4, 0, 0, 0], kh_vals = [Some v, None, None, None]\<rparr>"

lemma one_bucket_flags:
  "\<not> ac_isempty [0xAAAAAAA8] 0" "\<not> ac_isdel [0xAAAAAAA8] 0" "\<not> ac_iseither [0xAAAAAAA8] 0"
  "ac_set_isdel_true [0xAAAAAAA8] 0 = [0xAAAAAAA9]" "\<not> ac_isempty [0xAAAAAAA9] 0" "ac_isdel [0xAAAAAAA9] 0"
  "ac_isempty [0xAAAAAAA9] (Suc 0)" "x < 5 \<Longrightarrow> ac_iseither [0xAAAAAAA9] x"
proof -
  show "ac_iseither [0xAAAAAAA9] x" if "x < 5"
  proof -
    have "x = 0 \<or> x = 1 \<or> x = 2 \<or> x = 3 \<or> x = 4" using that by linarith
    then show ?thesis by (elim disjE) (simp_all add: ac_iseither_def)
  qed
qed (simp_all add: ac_isempty_def ac_isdel_def ac_iseither_def ac_set_isdel_true_def)

lemma one_bucket_ops:
  "kh_value (one_bucket v) 0 = Inr v" "kh_set_value (one_bucket v) 0 w = Inr (one_bucket w)"
  "kh_size (one_bucket v) = 1" "kh_vals (one_bucket v) \<noteq> []" "kh_get (one_bucket v) 4 = Inr 0"
proof -
  have mask: "(4 :: nat) AND 3 = 0" by simp
  have "kh_get_loop 8 h 4 3 0 0 0 = Some 0" if "h = one_bucket v" for h :: "'a khash"
    using kh_get_loop.simps(2) [of 7 h 4 3 0 0 0] that by (simp add: one_bucket_def one_bucket_flags)
  then show "kh_get (one_bucket v) 4 = Inr 0"
    by (simp add: kh_get_def one_bucket_def mask fuelled_def Let_def)
qed (simp_all add: one_bucket_def kh_value_def kh_set_value_def)

lemma one_bucket_deleted:
  "kh_size (kh_del (one_bucket v) 0) = 0" "kh_n_buckets (kh_del (one_bucket v) 0) = 4"
  "x < 5 \<Longrightarrow> kh_exist (kh_del (one_bucket v) 0) x = Inr False" "\<exists>k. kh_get (kh_del (one_bucket v) 0) 4 = Inr k"
proof -
  have mask: "(4 :: nat) AND 3 = 0" "(1 :: nat) AND 3 = 1" by simp_all
  have "kh_get_loop 8 h 4 3 0 0 0 = Some 4" if "kh_flags h = [0xAAAAAAA9]" "kh_n_buckets h = 4" for h :: "'a khash"
    using kh_get_loop.simps(2) [of 7 h 4 3 0 0 0] kh_get_loop.simps(2) [of 6 h 4 3 0 1 1] that
    by (simp add: one_bucket_flags mask Let_def)
  then show "\<exists>k. kh_get (kh_del (one_bucket v) 0) 4 = Inr k"
    by (simp add: kh_get_def kh_del_def one_bucket_def mask one_bucket_flags fuelled_def Let_def)
qed (simp_all add: one_bucket_def kh_del_def kh_exist_def one_bucket_flags)

lemma test_complex_structures_passes:
  assumes "length (malloc 10) = 10"
  shows "test_complex_structures cfg malloc garbage block = Inr ()"
proof -
  have set: "kh_set_value \<lparr>kh_n_buckets = 4, kh_size = 1, kh_n_occupied = 1, kh_upper_bound = 3,
     kh_flags = [0xAAAAAAA8], kh_keys = [4, 0, 0, 0], kh_vals = [None, None, None, None]\<rparr> 0 v = Inr (one_bucket v)"
    for v :: test_t
    by (simp add: kh_set_value_def one_bucket_def)
  have memset: "store_block (malloc 10) 0 (replicate 10 5) = Inr (replicate 10 5)" "load (replicate 10 5) 2 = Inr (5 :: u8)"
    using assms by (simp_all add: store_block_def load_def)
  have walk: "for_each [0..<4] (\<lambda>k _. andThen (kh_exist (kh_del (one_bucket v) 0) k) (\<lambda>exists.
      if exists then andThen (kh_value (kh_del (one_bucket v) 0) k) (\<lambda>_. Inr ()) else Inr ())) () = Inr ()"
    for v :: test_t
    by (simp add: upt_conv_Cons one_bucket_deleted(3))
  have kh_gone: "kh_exist (kh_del (one_bucket v) 0) 4 = Inr False" for v :: test_t
    by (simp add: one_bucket_deleted(3))
  obtain t p where garbage: "garbage = \<lparr>temp = t, test_ptr = p\<rparr>" by (cases garbage)
  obtain k where k: "kh_get (kh_del (one_bucket \<lparr>temp = 10, test_ptr = None\<rparr>) 0) 4 = Inr k"
    using one_bucket_deleted(4) [of "\<lparr>temp = 10, test_ptr = None\<rparr>"] ..
  note run = andThen.simps prod.case check_simps simp_thms
  show ?thesis
    unfolding garbage test_complex_structures_def put_first
    apply (simp only: run set one_bucket_ops memset deref_def khash.select_convs list.distinct Let_def test_t.simps
        option.case fun_upd_same option.distinct cong: andThen_first)
    apply (simp only: run kh_gone one_bucket_deleted(1,2) cong: andThen_first)
    apply (simp only: run walk k cong: andThen_first)
    done
qed

section \<open>The run of all tests\<close>

definition EXIT_SUCCESS :: nat where "EXIT_SUCCESS = 0"

definition log_tests :: "log_state \<Rightarrow> log_state" where
  "log_tests =
     log_write 4 ''Log level 4'' o log_write 3 ''Log level 3'' o log_write 2 ''Log level 2''
     o log_error ''Just testing the log output - ERROR''
     o log_warn ''Just testing the log output - WARNING''
     o log_info ''Just testing the log output - INFO''
     o log_setLevel INFO"

definition unit_tests ::
    "(nat \<Rightarrow> u8 list) \<Rightarrow> (nat \<Rightarrow> u32) \<Rightarrow> test_t \<Rightarrow> nat \<Rightarrow> log_state \<Rightarrow> (log_state \<times> nat) result" where
  "unit_tests malloc rand garbage block s =
     (let cfg = setExitOnAssert True (setReportAssert False assert_config_init);
          s = log_info ''Running buffer tests...'' (log_tests s);
          s = log_info ''  Linear Buffer...'' s in
      andThen (test_linear_buffer cfg) (\<lambda>_.
      let s = log_info ''  Ring Buffer...'' s in
      andThen (test_ring_buffer cfg malloc) (\<lambda>_.
      let s = log_info ''Testing Network Functions...'' s in
      andThen (test_network_sync cfg) (\<lambda>_.
      let s = log_info ''Testing Utility Functions...'' s in
      andThen test_utility_functions (\<lambda>_.
      let s = log_info ''  Hash Table...'' (log_info ''Running klib tests...'' s) in
      andThen (test_hash_table cfg rand) (\<lambda>_.
      let s = log_info ''  Vector...'' s in
      andThen (test_vector cfg) (\<lambda>_.
      let s = log_info ''  Table with Complex Structures...'' s in
      andThen (test_complex_structures cfg malloc garbage block) (\<lambda>_.
      let s = log_info ([CHR 0x0A] @ ''All tests complete successfully.'' @ [CHR 0x0A]) s in
      Inr (s, EXIT_SUCCESS)))))))))"

lemma logged:
  "log_stream (log_vwrite level msg s) = log_stream s @ (if minLogLevel s \<le> level then log_line level msg else [])"
  by (auto simp: log_vwrite_def dest: leD)

text \<open>
  C37: The program's own tests pass on the model. Whatever \<open>malloc\<close> leaves in its blocks, whatever \<open>rand\<close>
  returns and whatever a new bucket holds, no test faults and no assertion fails, so the run ends with
  \<open>EXIT_SUCCESS\<close>; the messages of level \<open>INFO\<close> and above are in the log, the three lower ones are not.
\<close>

theorem unit_tests_succeed:
  assumes "\<forall>n. length (malloc n) = n"
  shows "\<exists>s'. unit_tests malloc rand garbage block s = Inr (s', EXIT_SUCCESS) \<and>
    log_stream s' = log_stream s @ concat (map (\<lambda>(level, msg). log_line level msg)
      [(INFO, ''Just testing the log output - INFO''), (WARNING, ''Just testing the log output - WARNING''),
       (ERROR, ''Just testing the log output - ERROR''), (INFO, ''Running buffer tests...''),
       (INFO, ''  Linear Buffer...''), (INFO, ''  Ring Buffer...''), (INFO, ''Testing Network Functions...''),
       (INFO, ''Testing Utility Functions...''), (INFO, ''Running klib tests...''), (INFO, ''  Hash Table...''),
       (INFO, ''  Vector...''), (INFO, ''  Table with Complex Structures...''),
       (INFO, [CHR 0x0A] @ ''All tests complete successfully.'' @ [CHR 0x0A])])"
proof -
  let ?info = "log_vwrite INFO" and ?done = "[CHR 0x0A] @ ''All tests complete successfully.'' @ [CHR 0x0A]"
  have ring: "test_ring_buffer cfg malloc = Inr ()" for cfg using assms by (intro test_ring_buffer_passes) simp
  have complex: "test_complex_structures cfg malloc garbage block = Inr ()" for cfg
    using assms by (intro test_complex_structures_passes) simp
  have levels: "INFO \<le> INFO" "INFO \<le> WARNING" "INFO \<le> ERROR" "\<not> INFO \<le> 2" "\<not> INFO \<le> 3" "\<not> INFO \<le> 4"
    by (simp_all add: log_levels)
  have min: "minLogLevel (log_tests s) = INFO" by (simp add: log_tests_def log_defs log_setLevel_def)
  have stream: "log_stream (log_tests s) = log_stream s @ log_line INFO ''Just testing the log output - INFO'' @
      log_line WARNING ''Just testing the log output - WARNING'' @ log_line ERROR ''Just testing the log output - ERROR''"
    by (simp add: log_tests_def log_defs logged log_setLevel_def levels)
  have run: "unit_tests malloc rand garbage block s = Inr (?info ?done (?info ''  Table with Complex Structures...''
      (?info ''  Vector...'' (?info ''  Hash Table...'' (?info ''Running klib tests...'' (?info ''Testing Utility Functions...''
      (?info ''Testing Network Functions...'' (?info ''  Ring Buffer...'' (?info ''  Linear Buffer...''
      (?info ''Running buffer tests...'' (log_tests s)))))))))), EXIT_SUCCESS)"
    by (simp only: unit_tests_def Let_def log_info_def test_linear_buffer_passes ring test_network_sync_passes
        test_utility_functions_passes test_hash_table_passes test_vector_passes complex andThen.simps)
  show ?thesis unfolding run by (intro exI conjI, rule refl) (simp only: logged log_vwrite_level min stream levels
      if_True append_assoc list.map concat.simps prod.case append_Nil2)
qed

theorem unit_tests_succeed_witness:
  "\<exists>s. unit_tests (\<lambda>n. replicate n 7) (\<lambda>i. of_nat (i * i)) \<lparr>temp = 3, test_ptr = None\<rparr> 64 log_init = Inr (s, EXIT_SUCCESS)"
  using unit_tests_succeed [of "\<lambda>n. replicate n 7" "\<lambda>i. of_nat (i * i)" "\<lparr>temp = 3, test_ptr = None\<rparr>" 64 log_init]
  by auto

end
