(* ===== verification/RouterRun.thy ===== *)
theory RouterRun
  imports EndToEnd
begin

text \<open>
  The whole process of the router: connections come and go, the poll loop reads the ready ones, the
  table is printed before every four thousand rounds. The abstract machine \<open>net_round\<close> keeps the list of
  the poll entries and a \<open>wire_state\<close>; the kernel decides which descriptors are ready, what \<open>accept\<close> and
  \<open>read\<close> return. \<open>router_process\<close> is shown to do what the machine does.
\<close>

section \<open>The abstract machine\<close>

datatype net_event = Received "u8 list" | Gone

text \<open>What the kernel's answers mean for a connection.\<close>

definition slot_event :: "kernel \<Rightarrow> int \<Rightarrow> net_event option" where
  "slot_event k fd =
     (if fd < 0 \<or> k_ready k fd = 0 then None
      else if k_ready k fd AND POLLHUP = POLLHUP then Some Gone
      else (case k_read k fd of (bs, len) \<Rightarrow>
        if k_ready k fd AND POLLIN \<noteq> POLLIN \<or> len < 1 then Some Gone else Some (Received (take (nat len) bs))))"

definition honest_read :: "nat \<Rightarrow> kernel \<Rightarrow> bool" where
  "honest_read mtu k \<longleftrightarrow> (\<forall>fd. snd (k_read k fd) \<le> int (length (fst (k_read k fd))) \<and> snd (k_read k fd) \<le> int mtu)"

text \<open>The bytes of a connection that is gone are forgotten; addresses bound to its descriptor are not.\<close>

definition forget :: "int \<Rightarrow> wire_state \<Rightarrow> wire_state" where
  "forget fd w = (case w of (pend, k, s) \<Rightarrow> (pend(fd_key fd := []), k, s))"

inductive scan :: "os \<Rightarrow> nat \<Rightarrow> kernel \<Rightarrow> int list \<Rightarrow> wire_state \<Rightarrow> int list \<Rightarrow> wire_state \<Rightarrow> bool" for env mtu k where
  scanned: "scan env mtu k [] w [] w"
| idle: "slot_event k fd = None \<Longrightarrow> scan env mtu k ss w ss' w' \<Longrightarrow> scan env mtu k (fd # ss) w (fd # ss') w'"
| gone: "slot_event k fd = Some Gone \<Longrightarrow> scan env mtu k ss (forget fd w) ss' w' \<Longrightarrow>
     scan env mtu k (fd # ss) w (-1 # ss') w'"
| received: "slot_event k fd = Some (Received c) \<Longrightarrow> wire_step env mtu w (fd, c) w1 \<Longrightarrow> scan env mtu k ss w1 ss' w' \<Longrightarrow>
     scan env mtu k (fd # ss) w (fd # ss') w'"

fun accept_slot :: "int \<Rightarrow> int list \<Rightarrow> int list option" where
  "accept_slot fd [] = None"
| "accept_slot fd (s # ss) = (if s = -1 then Some (fd # ss) else map_option ((#) s) (accept_slot fd ss))"

definition listen_ready :: "kernel \<Rightarrow> int \<Rightarrow> bool" where
  "listen_ready k lfd \<longleftrightarrow> 0 \<le> lfd \<and> k_ready k lfd \<noteq> 0"

inductive net_round :: "os \<Rightarrow> nat \<Rightarrow> int \<Rightarrow> int list \<times> wire_state \<Rightarrow> kernel \<Rightarrow> int list \<times> wire_state \<Rightarrow> bool" for env mtu lfd where
  arrival: "listen_ready k lfd \<Longrightarrow> k_accept k \<noteq> -1 \<Longrightarrow> accept_slot (k_accept k) ss = Some ss' \<Longrightarrow>
     net_round env mtu lfd (ss, w) k (ss', w)"
| refused: "listen_ready k lfd \<Longrightarrow> k_accept k = -1 \<Longrightarrow> net_round env mtu lfd (ss, w) k (ss, w)"
| traffic: "\<not> listen_ready k lfd \<Longrightarrow> honest_read mtu k \<Longrightarrow> scan env mtu k ss w ss' w' \<Longrightarrow>
     net_round env mtu lfd (ss, w) k (ss', w')"

abbreviation net_rounds :: "os \<Rightarrow> nat \<Rightarrow> int \<Rightarrow> int list \<times> wire_state \<Rightarrow> kernel list \<Rightarrow> int list \<times> wire_state \<Rightarrow> bool" where
  "net_rounds env mtu lfd \<equiv> steps (net_round env mtu lfd)"

lemmas net_more = steps.more [where step = "net_round env mtu lfd" for env mtu lfd]

definition net_start :: "int list \<times> wire_state" where
  "net_start = (replicate (MAX_MONITOR_FDS - 1) (-1), wire_init)"

section \<open>Closing a connection\<close>

lemma kill_buffer_spec:
  assumes h: "buffers_ok mtu (local_buffers r)"
  shows "\<exists>h'. kill_buffer r fd = Inr (r\<lparr>local_buffers := h'\<rparr>) \<and> buffers_ok mtu h' \<and>
    kh_abs h' = (kh_abs (local_buffers r))(fd_key fd := None) \<and> kh_n_buckets h' = kh_n_buckets (local_buffers r)"
proof (cases "kh_abs (local_buffers r) (fd_key fd)")
  case None
  have "kh_full (local_buffers r)" using h by (simp add: buffers_ok_def)
  then have "kill_buffer r fd = Inr r" using kh_no_bucket [of "local_buffers r"] None by (simp add: kill_buffer_def)
  then show ?thesis using h None by (intro exI [of _ "local_buffers r"]) (simp add: fun_upd_idem)
next
  case (Some b)
  have full: "kh_full (local_buffers r)" using h by (simp add: buffers_ok_def)
  obtain x where x: "kh_get (local_buffers r) (fd_key fd) = Inr x" "kh_holds (local_buffers r) x (fd_key fd)"
    "kh_value (local_buffers r) x = Inr b" "x \<noteq> kh_end (local_buffers r)"
    using kh_bucket [OF full Some] by blast
  let ?null = "\<lparr>lb_buffer = None, lb_tail = None\<rparr> :: local_buffer"
  obtain h1 where h1: "kh_set_value (local_buffers r) x ?null = Inr h1" "kh_full h1"
    "kh_abs h1 = (kh_abs (local_buffers r))(fd_key fd \<mapsto> ?null)" "kh_n_buckets h1 = kh_n_buckets (local_buffers r)"
    "kh_holds h1 x (fd_key fd)"
    using kh_set_full [OF full x(2), of ?null] by blast
  obtain h2 where h2: "kh_remove h1 (fd_key fd) = Inr h2" "kh_full h2" "kh_abs h2 = (kh_abs h1)(fd_key fd := None)"
    "kh_n_buckets h2 = kh_n_buckets h1"
    using kh_remove_full [OF h1(2)] by blast
  have "h2 = kh_del h1 x" using h2(1) kh_get_holds [OF h1(2,5)] by (simp add: kh_remove_def)
  then have "kill_buffer r fd = Inr (r\<lparr>local_buffers := h2\<rparr>)"
    using x h1(1) kh_get_holds [OF h1(2,5)] by (simp add: kill_buffer_def upd_buffer_def)
  moreover have "buffers_ok mtu h2" using h h2(2,3) h1(3) by (auto simp: buffers_ok_def ran_def split: if_splits)
  ultimately show ?thesis using h2(3,4) h1(3,4) by (intro exI [of _ h2]) simp
qed

lemma drop_client_forgets:
  assumes "stands_for mtu r w" "roomy j r"
  shows "\<exists>r'. drop_client r p = Inr (r', \<lparr>poll_fd = -1, poll_events = 0, poll_revents = 0\<rparr>) \<and>
    stands_for mtu r' (forget (poll_fd p) w) \<and> roomy j r'"
proof -
  obtain pend k s where w: "w = (pend, k, s)" by (cases w)
  have ok: "buffers_ok mtu (local_buffers r)" "\<forall>fd. pending (local_buffers r) fd = pend (fd_key fd)"
    using assms(1) w by (simp_all add: stands_for_def)
  obtain h' where h': "kill_buffer r (poll_fd p) = Inr (r\<lparr>local_buffers := h'\<rparr>)" "buffers_ok mtu h'"
    "kh_abs h' = (kh_abs (local_buffers r))(fd_key (poll_fd p) := None)" "kh_n_buckets h' = kh_n_buckets (local_buffers r)"
    using kill_buffer_spec [OF ok(1)] by blast
  let ?r = "r\<lparr>local_buffers := h', rt_closed := rt_closed r @ [poll_fd p]\<rparr>"
  have other: "\<forall>a. a \<noteq> fd_key (poll_fd p) \<longrightarrow> kh_abs h' a = kh_abs (local_buffers r) a"
    and none: "pending h' (poll_fd p) = []"
    using h'(3) by (simp_all add: pending_def)
  have "stands_for mtu ?r (forget (poll_fd p) w)"
    using assms(1) h'(2) pending_other [OF other none ok(2)] unfolding w stands_for_def forget_def prod.case by simp
  moreover have "roomy j ?r"
  proof -
    have "dom (kh_abs h') \<subseteq> dom (kh_abs (local_buffers r))" using h'(3) by auto
    then have "finite (dom (kh_abs h'))" "card (dom (kh_abs h')) \<le> card (dom (kh_abs (local_buffers r)))"
      using assms(2) by (simp_all add: roomy_def finite_subset card_mono)
    then show ?thesis using assms(2) h'(4) by (simp add: roomy_def)
  qed
  ultimately show ?thesis using h'(1) by (intro exI [of _ ?r]) (simp add: drop_client_def)
qed

section \<open>Events of the poll loop\<close>

text \<open>Only the bytes \<open>read\<close> counted matter, and of the poll entry its descriptor and \<open>POLLIN\<close>.\<close>

lemma handle_event_readable:
  assumes ready: "poll_revents p AND POLLIN = POLLIN" and c: "c \<noteq> []"
  shows "handle_event env mtu r p (c @ rest) (int (length c)) =
    andThen (handle_event env mtu r (readable (poll_fd p)) c (int (length c))) (\<lambda>(r, _). Inr (r, p))"
proof -
  have pos: "\<not> int (length c) < 1" using c by (cases c) simp_all
  have front: "load_block (c @ rest) 0 (length c) = Inr c" "load_block c 0 (length c) = Inr c"
    by (simp_all add: load_block_def)
  show ?thesis
    unfolding handle_event_def
    by (simp add: ready c pos front andThen_assoc Let_def split_def if_distrib [of "\<lambda>m. andThen m _"] cong: if_cong)
qed

lemma scan_length: "scan env mtu k ss w ss' w' \<Longrightarrow> length ss' = length ss"
  by (induction rule: scan.induct) simp_all

lemma roomy_less: "roomy j r \<Longrightarrow> i \<le> j \<Longrightarrow> roomy i r"
  by (simp add: roomy_def table_room_def)

text \<open>One entry of the poll list.\<close>

definition polled :: "kernel \<Rightarrow> pollfd \<Rightarrow> bool" where
  "polled k p \<longleftrightarrow> poll_revents p = (if poll_fd p < 0 then 0 else k_ready k (poll_fd p))"

lemma slot_idle:
  assumes "slot_event k (poll_fd p) = None" "polled k p"
  shows "poll_fd p = -1 \<or> poll_revents p = 0"
  using assms by (auto simp: slot_event_def polled_def Let_def split: if_splits prod.splits)

definition scan_entry :: "os \<Rightarrow> nat \<Rightarrow> kernel \<Rightarrow> router \<Rightarrow> pollfd \<Rightarrow> (router \<times> pollfd) result" where
  "scan_entry env mtu k r p =
     (if poll_fd p = -1 \<or> poll_revents p = 0 then Inr (r, p)
      else if poll_revents p AND POLLHUP = POLLHUP then drop_client r p
      else (let (bs, len) = k_read k (poll_fd p) in
        andThen (handle_event env mtu r p (take mtu bs @ replicate (mtu - length bs) 0) len)
          (\<lambda>(r, p). Inr (r, p\<lparr>poll_revents := 0\<rparr>))))"

lemma poll_scan_Suc:
  "poll_scan env mtu (k_read k) i (Suc left) polls r =
    andThen (scan_entry env mtu k r (polls ! i)) (\<lambda>(r, p). poll_scan env mtu (k_read k) (i + 1) left (polls[i := p]) r)"
  by (simp add: scan_entry_def Let_def andThen_assoc split_def)

lemma entry_gone:
  assumes ev: "slot_event k (poll_fd p) = Some Gone" and p: "polled k p"
    and r: "stands_for mtu r w" "roomy j r"
  shows "\<exists>r' p'. scan_entry env mtu k r p = Inr (r', p') \<and> poll_fd p' = -1 \<and>
    stands_for mtu r' (forget (poll_fd p) w) \<and> roomy j r'"
proof -
  obtain r' where r': "drop_client r p = Inr (r', \<lparr>poll_fd = -1, poll_events = 0, poll_revents = 0\<rparr>)"
    "stands_for mtu r' (forget (poll_fd p) w)" "roomy j r'"
    using drop_client_forgets [OF r] by blast
  have live: "0 \<le> poll_fd p" "poll_revents p = k_ready k (poll_fd p)" "poll_revents p \<noteq> 0"
    using ev p by (auto simp: slot_event_def polled_def split: if_splits)
  show ?thesis
  proof (cases "poll_revents p AND POLLHUP = POLLHUP")
    case True
    then show ?thesis using live r' by (simp add: scan_entry_def)
  next
    case False
    then have "handle_event env mtu r p buffer (snd (k_read k (poll_fd p))) = drop_client r p" for buffer
      using ev live by (auto simp: slot_event_def handle_event_def split: if_splits prod.splits)
    then show ?thesis using False live r' by (simp add: scan_entry_def split_def)
  qed
qed

lemma entry_received:
  assumes ev: "slot_event k (poll_fd p) = Some (Received c)" and p: "polled k p" and k: "honest_read mtu k"
    and env: "good_malloc env" "mtu * 20 < 2 ^ 32" and step: "wire_step env mtu w (poll_fd p, c) w'"
    and r: "stands_for mtu r w" "roomy (Suc j) r"
  shows "\<exists>r'. scan_entry env mtu k r p = Inr (r', p\<lparr>poll_revents := 0\<rparr>) \<and> stands_for mtu r' w' \<and> roomy j r'"
proof -
  obtain bs len where read: "k_read k (poll_fd p) = (bs, len)" by fastforce
  have live: "0 \<le> poll_fd p" "poll_revents p \<noteq> 0" "\<not> poll_revents p AND POLLHUP = POLLHUP"
    "poll_revents p AND POLLIN = POLLIN" "1 \<le> len" "c = take (nat len) bs"
    using ev p read by (auto simp: slot_event_def polled_def split: if_splits)
  have len: "len \<le> int (length bs)" "len \<le> int mtu" using k read unfolding honest_read_def by (metis fst_conv snd_conv)+
  have lc: "length c = nat len" using live(6) len(1) by simp
  then have c: "c \<noteq> []" "int (length c) = len" using live(5) by auto
  have "take mtu bs = c @ drop (nat len) (take mtu bs)"
    using append_take_drop_id [of "nat len" "take mtu bs"] len(2) live(6) by (simp add: min_absorb1 nat_le_iff)
  then obtain rest where buffer: "take mtu bs @ replicate (mtu - length bs) 0 = c @ rest" by (metis append.assoc)
  obtain r' where r': "handle_event env mtu r (readable (poll_fd p)) c (int (length c)) = Inr (r', readable (poll_fd p))"
    "stands_for mtu r' w'" "roomy j r'"
    using wire_step_simulates [OF env step r] by auto
  have "handle_event env mtu r p (c @ rest) len = Inr (r', p)"
    using handle_event_readable [OF live(4) c(1), of env mtu r rest] r'(1) c(2) by simp
  then show ?thesis using live read buffer r'(2,3) by (auto simp: scan_entry_def)
qed

text \<open>The scan of the poll list from an entry on.\<close>

lemma scan_simulates:
  assumes env: "good_malloc env" "mtu * 20 < 2 ^ 32" and k: "honest_read mtu k"
  shows "scan env mtu k ss w ss' w' \<Longrightarrow> stands_for mtu r w \<Longrightarrow> roomy (length ss + j) r \<Longrightarrow>
    polls = ps @ qs \<Longrightarrow> map poll_fd qs = ss \<Longrightarrow> \<forall>p\<in>set qs. polled k p \<Longrightarrow>
    \<exists>qs' r'. poll_scan env mtu (k_read k) (length ps) (length ss) polls r = Inr (ps @ qs', r') \<and>
      map poll_fd qs' = ss' \<and> stands_for mtu r' w' \<and> roomy j r'"
proof (induction arbitrary: r polls ps qs rule: scan.induct)
  case (scanned w)
  then show ?case by simp
next
  case (idle fd ss w ss' w')
  obtain p qs1 where qs: "qs = p # qs1" "poll_fd p = fd" "map poll_fd qs1 = ss" using idle.prems(4) by auto
  have p: "polled k p" "polls ! length ps = p" "polls[length ps := p] = polls"
    using idle.prems(3,5) qs(1) by (simp_all add: list_update_append)
  have "scan_entry env mtu k r p = Inr (r, p)"
    using slot_idle [of k p] idle.hyps(1) p(1) qs(2) by (simp add: scan_entry_def)
  moreover have "\<exists>qs' r'. poll_scan env mtu (k_read k) (length (ps @ [p])) (length ss) polls r = Inr ((ps @ [p]) @ qs', r') \<and>
      map poll_fd qs' = ss' \<and> stands_for mtu r' w' \<and> roomy j r'"
    by (rule idle.IH [OF idle.prems(1) _ _ qs(3)])
      (use idle.prems(2,3,5) qs(1) roomy_less [OF idle.prems(2)] in simp_all)
  ultimately show ?case using p qs by (auto simp: poll_scan_Suc simp del: poll_scan.simps)
next
  case (gone fd ss w ss' w')
  obtain p qs1 where qs: "qs = p # qs1" "poll_fd p = fd" "map poll_fd qs1 = ss" using gone.prems(4) by auto
  have p: "polled k p" "polls ! length ps = p" using gone.prems(3,5) qs(1) by simp_all
  have ev: "slot_event k (poll_fd p) = Some Gone" using gone.hyps(1) qs(2) by simp
  have room: "roomy (length ss + j) r" by (rule roomy_less [OF gone.prems(2)]) simp
  obtain r1 p1 where e: "scan_entry env mtu k r p = Inr (r1, p1)" "poll_fd p1 = -1"
    "stands_for mtu r1 (forget fd w)" "roomy (length ss + j) r1"
    using entry_gone [where env = env, OF ev p(1) gone.prems(1) room] unfolding qs(2) by blast
  have "\<exists>qs' r'. poll_scan env mtu (k_read k) (length (ps @ [p1])) (length ss) (polls[length ps := p1]) r1 =
      Inr ((ps @ [p1]) @ qs', r') \<and> map poll_fd qs' = ss' \<and> stands_for mtu r' w' \<and> roomy j r'"
    by (rule gone.IH [OF e(3,4) _ qs(3)]) (use gone.prems(3,5) qs(1) in \<open>simp_all add: list_update_append\<close>)
  then show ?case using p e qs by (auto simp: poll_scan_Suc simp del: poll_scan.simps)
next
  case (received fd c w w1 ss ss' w')
  obtain p qs1 where qs: "qs = p # qs1" "poll_fd p = fd" "map poll_fd qs1 = ss" using received.prems(4) by auto
  have p: "polled k p" "polls ! length ps = p" using received.prems(3,5) qs(1) by simp_all
  let ?p1 = "p\<lparr>poll_revents := 0\<rparr>"
  have ev: "slot_event k (poll_fd p) = Some (Received c)" "wire_step env mtu w (poll_fd p, c) w1"
    using received.hyps(1,2) qs(2) by simp_all
  have room: "roomy (Suc (length ss + j)) r" using received.prems(2) by simp
  obtain r1 where e: "scan_entry env mtu k r p = Inr (r1, ?p1)" "stands_for mtu r1 w1" "roomy (length ss + j) r1"
    using entry_received [OF ev(1) p(1) k env ev(2) received.prems(1) room] by blast
  have "\<exists>qs' r'. poll_scan env mtu (k_read k) (length (ps @ [?p1])) (length ss) (polls[length ps := ?p1]) r1 =
      Inr ((ps @ [?p1]) @ qs', r') \<and> map poll_fd qs' = ss' \<and> stands_for mtu r' w' \<and> roomy j r'"
    by (rule received.IH [OF e(2,3) _ qs(3)]) (use received.prems(3,5) qs(1) in \<open>simp_all add: list_update_append\<close>)
  then show ?case using p e qs by (auto simp: poll_scan_Suc simp del: poll_scan.simps)
qed

section \<open>Rounds\<close>

definition polls_of :: "int \<Rightarrow> int list \<Rightarrow> pollfd list \<Rightarrow> bool" where
  "polls_of lfd ss polls \<longleftrightarrow> map poll_fd polls = lfd # ss \<and> length ss = MAX_MONITOR_FDS - 1"

lemma poll_fill_simps [simp]: "map poll_fd (poll_fill ready polls) = map poll_fd polls"
  "length (poll_fill ready polls) = length polls"
  by (simp_all add: poll_fill_def)

lemma poll_fill_polled: "p \<in> set (poll_fill (k_ready k) polls) \<Longrightarrow> polled k p"
  by (auto simp: poll_fill_def polled_def)

lemma revents_fds: "map poll_fd (ps[i := (ps ! i)\<lparr>poll_revents := v\<rparr>]) = map poll_fd ps"
  by (cases "i < length ps") (auto intro!: nth_equalityI simp: nth_list_update)

lemma accept_slot_free:
  "accept_slot fd ss = Some ss' \<Longrightarrow> length pre = i \<Longrightarrow> map poll_fd polls = pre @ ss \<Longrightarrow>
   \<exists>e. free_entry polls i (length ss) = e \<and> e < length polls \<and> i \<le> e \<and> map poll_fd (polls[e := (polls ! e)\<lparr>poll_fd := fd, poll_events := POLLIN\<rparr>]) = pre @ ss'"
proof (induction ss arbitrary: ss' pre i)
  case (Cons s ss)
  have len: "length polls = length pre + Suc (length ss)" using Cons.prems(3) by (metis length_Cons length_append length_map)
  then have i: "i < length polls" using Cons.prems(2) by simp
  have s: "poll_fd (polls ! i) = s"
    using Cons.prems(2,3) nth_map [OF i, of poll_fd] by (simp add: nth_append)
  show ?case
  proof (cases "s = -1")
    case True
    have "map poll_fd (polls[i := (polls ! i)\<lparr>poll_fd := fd, poll_events := POLLIN\<rparr>]) = (map poll_fd polls)[i := fd]"
      by (simp add: map_update)
    then show ?thesis using True s i Cons.prems by (simp add: list_update_append)
  next
    case False
    then obtain ss1 where ss1: "accept_slot fd ss = Some ss1" "ss' = s # ss1" using Cons.prems(1) by auto
    have "map poll_fd polls = (pre @ [s]) @ ss" "length (pre @ [s]) = i + 1" using Cons.prems(2,3) by simp_all
    from Cons.IH [OF ss1(1) this(2,1)] show ?thesis using False s ss1(2) by auto
  qed
qed simp

lemma accept_slot_length: "accept_slot fd ss = Some ss' \<Longrightarrow> length ss' = length ss"
  by (induction fd ss arbitrary: ss' rule: accept_slot.induct) (auto split: if_splits)

lemma poll_accept_slot:
  assumes "accept_slot fd ss = Some ss'" "fd \<noteq> -1" "polls_of lfd ss polls"
  shows "\<exists>polls'. poll_accept fd polls r = Inr (polls', r) \<and> polls_of lfd ss' polls'"
proof -
  have polls: "map poll_fd polls = [lfd] @ ss" "length ss = MAX_MONITOR_FDS - 1" using assms(3) by (simp_all add: polls_of_def)
  then have len: "length polls = MAX_MONITOR_FDS" by (metis MAX_MONITOR_FDS_def length_Cons append_Cons append_Nil length_map Suc_diff_1 zero_less_numeral)
  obtain e where e: "free_entry polls 1 (length ss) = e" "e < length polls" "1 \<le> e"
    "map poll_fd (polls[e := (polls ! e)\<lparr>poll_fd := fd, poll_events := POLLIN\<rparr>]) = [lfd] @ ss'"
    using accept_slot_free [OF assms(1) _ polls(1), of 1] by auto
  let ?polls = "polls[e := (polls ! e)\<lparr>poll_fd := fd, poll_events := POLLIN\<rparr>]"
  let ?final = "?polls[0 := (?polls ! 0)\<lparr>poll_revents := 0\<rparr>]"
  have "poll_accept fd polls r = Inr (?final, r)"
    using e(1-3) assms(2) polls(2) len by (simp add: poll_accept_def Let_def load_def)
  moreover have "map poll_fd ?final = map poll_fd ?polls"
    by (rule revents_fds)
  ultimately show ?thesis using e(4) polls(2) accept_slot_length [OF assms(1)] by (auto simp: polls_of_def)
qed

lemma poll_step_simulates:
  assumes env: "good_malloc env" "mtu * 20 < 2 ^ 32"
    and step: "net_round env mtu lfd (ss, w) k (ss', w')"
    and r: "polls_of lfd ss polls" "stands_for mtu r w" "roomy (127 + j) r"
  shows "\<exists>polls' r'. poll_step env mtu k polls r = Inr (polls', r') \<and> polls_of lfd ss' polls' \<and>
    stands_for mtu r' w' \<and> roomy j r'"
proof -
  let ?polls = "poll_fill (k_ready k) polls"
  have fds: "map poll_fd ?polls = lfd # ss" and len: "length ss = 127"
    using r(1) by (simp_all add: polls_of_def MAX_MONITOR_FDS_def)
  obtain p0 qs where polls: "?polls = p0 # qs" "poll_fd p0 = lfd" "map poll_fd qs = ss"
    using fds by (cases ?polls) (simp_all del: poll_fill_simps)
  have of: "polls_of lfd ss ?polls" using r(1) by (simp add: polls_of_def)
  have polled: "\<forall>p\<in>set (p0 # qs). polled k p" using poll_fill_polled [of _ k polls] polls(1) by simp
  then have listen: "poll_revents (?polls ! 0) \<noteq> 0 \<longleftrightarrow> listen_ready k lfd"
    using polls by (auto simp: polled_def listen_ready_def)
  have room: "roomy j r" by (rule roomy_less [OF r(3)]) simp
  show ?thesis
    using step
  proof (cases rule: net_round.cases)
    case arrival
    obtain polls' where "poll_accept (k_accept k) ?polls r = Inr (polls', r)" "polls_of lfd ss' polls'"
      using poll_accept_slot [OF arrival(4,3) of] by blast
    then show ?thesis using arrival listen r(2) room by (simp add: poll_step_def)
  next
    case refused
    then show ?thesis using listen r(2) room of by (simp add: poll_step_def poll_accept_def)
  next
    case traffic
    obtain qs' r' where s: "poll_scan env mtu (k_read k) (length [p0]) (length ss) ?polls r = Inr ([p0] @ qs', r')"
      "map poll_fd qs' = ss'" "stands_for mtu r' w'" "roomy j r'"
      using scan_simulates [OF env traffic(2,3) r(2), of j ?polls "[p0]" qs] r(3) polls polled len by auto
    moreover have "length qs = 127" using len polls(3) by auto
    moreover have "length qs' = 127"
      using len s(2) traffic(3) scan_length by fastforce
    ultimately show ?thesis using traffic(1) listen polls
      by (auto simp: poll_step_def polls_of_def MAX_MONITOR_FDS_def simp del: poll_scan.simps)
  qed
qed

section \<open>No context is ever closed\<close>

definition all_open :: "atable \<Rightarrow> bool" where
  "all_open tab \<longleftrightarrow> (\<forall>a c. tab a = Some c \<longrightarrow> a_state c = GNW_STATE_OPEN)"

lemma all_open_upd: "all_open tab \<Longrightarrow> a_state c = GNW_STATE_OPEN \<Longrightarrow> all_open (tab(a \<mapsto> c))"
  by (simp add: all_open_def)

lemma all_openD: "all_open tab \<Longrightarrow> tab a = Some c \<Longrightarrow> a_state c = GNW_STATE_OPEN"
  by (simp add: all_open_def)

lemma ctx_at_open: "all_open tab \<Longrightarrow> a_state (ctx_at tab a) = GNW_STATE_OPEN"
  by (auto simp: ctx_at_def fresh_ctx_def abs_ctx_def setup_context_def dest: all_openD split: option.splits)

lemma forward_spec_open: "all_open (fst s) \<Longrightarrow> all_open (fst (forward_spec wr packet t s))"
  by (auto simp: forward_spec_def intro!: all_open_upd dest: all_openD split: option.splits)

lemma forward_fold_open: "all_open (fst s) \<Longrightarrow> all_open (fst (fold (forward_spec wr packet) ts s))"
  by (induction ts arbitrary: s) (simp_all add: forward_spec_open)

lemma message_spec_open: "all_open (fst s) \<Longrightarrow> all_open (fst (message_spec env k fd msg s))"
proof (cases msg)
  case (Data a pl)
  assume open_s: "all_open (fst s)"
  show ?thesis
  proof (cases "fst s a")
    case None
    then show ?thesis using Data open_s by (simp add: data_spec_def)
  next
    case (Some c)
    have "all_open ((fst s)(a \<mapsto> count_in n c))" for n
      using all_open_upd [OF open_s] all_openD [OF open_s Some] by (simp add: count_in_def)
    then show ?thesis using Data Some by (simp add: data_spec_def Let_def forward_fold_open)
  qed
qed (auto intro!: all_open_upd simp: ctx_at_open dest: all_openD split: option.splits)

definition opened :: "int list \<times> wire_state \<Rightarrow> bool" where
  "opened x \<longleftrightarrow> all_open (fst (snd (snd (snd x))))"

lemma scan_open: "scan env mtu k ss w ss' w' \<Longrightarrow> opened (xs, w) \<Longrightarrow> opened (ys, w')"
  by (induction arbitrary: xs ys rule: scan.induct)
    (auto simp: opened_def forget_def message_spec_open elim!: wire_step.cases split: prod.splits)

lemma net_round_open: "net_round env mtu lfd x k y \<Longrightarrow> opened x \<Longrightarrow> opened y"
  by (erule net_round.cases) (auto simp: opened_def dest: scan_open [unfolded opened_def])

interpretation addresses_open: invariant "net_round env mtu lfd" opened for env mtu lfd
  by unfold_locales (rule net_round_open)

lemma table_prints:
  assumes "stands_for mtu r w" "opened (ss, w)"
  shows "\<exists>rows. print_table (kh_n_buckets (address_table r) + 1) (address_table r) 0 = Inr rows"
proof -
  obtain pend k s where w: "w = (pend, k, s)" by (cases w)
  have ok: "table_ok (address_table r)" "all_open (table_abs (address_table r))"
    using assms w by (simp_all add: stands_for_def opened_def)
  have "ctx_state c \<noteq> GNW_STATE_CLOSE" if "kh_abs (address_table r) a = Some c" for a c
  proof -
    have "table_abs (address_table r) a = Some (abs_ctx c)" using that by (simp add: table_abs_def)
    then have "a_state (abs_ctx c) = GNW_STATE_OPEN" by (rule all_openD [OF ok(2)])
    then show ?thesis by (simp add: abs_ctx_def gnw_constants)
  qed
  then show ?thesis
    using print_table_from [OF ok(1), of 0 "kh_n_buckets (address_table r) + 1"] by auto
qed

section \<open>The main loop\<close>

definition loop_state :: "os \<Rightarrow> nat \<Rightarrow> int \<Rightarrow> nat \<Rightarrow> pollfd list \<times> router \<Rightarrow> int list \<times> wire_state \<Rightarrow> bool" where
  "loop_state env mtu lfd j c x \<longleftrightarrow> good_malloc env \<and> mtu * 20 < 2 ^ 32 \<and> polls_of lfd (fst x) (fst c) \<and>
     stands_for mtu (snd c) (snd x) \<and> roomy j (snd c)"

text \<open>One round of the inner loop, which the loop counter lets happen four thousand times.\<close>

fun poll_act :: "os \<Rightarrow> nat \<Rightarrow> kernel \<Rightarrow> pollfd list \<times> router \<Rightarrow> (pollfd list \<times> router) result" where
  "poll_act env mtu k (polls, r) = poll_step env mtu k polls r"

lemma poll_loop_exec:
  "jumpout + length ks \<le> 4000 \<Longrightarrow> poll_loop env mtu ks jumpout polls r = exec (poll_act env mtu) ks (polls, r)"
proof (induction ks arbitrary: jumpout polls r)
  case (Cons k ks)
  then show ?case by (cases "poll_step env mtu k polls r") auto
qed simp

interpretation polling: simulation "net_round env mtu lfd" "poll_act env mtu" "loop_state env mtu lfd" "\<lambda>_. 127" for env mtu lfd
proof
  fix x k y j c
  assume step: "net_round env mtu lfd x k y" and "loop_state env mtu lfd (127 + j) c x"
  then have c: "good_malloc env" "mtu * 20 < 2 ^ 32" "polls_of lfd (fst x) (fst c)" "stands_for mtu (snd c) (snd x)"
    "roomy (127 + j) (snd c)" by (simp_all add: loop_state_def)
  have "net_round env mtu lfd (fst x, snd x) k (fst y, snd y)" using step by simp
  from poll_step_simulates [OF c(1,2) this c(3-5)] show "\<exists>c1. poll_act env mtu k c = Inr c1 \<and> loop_state env mtu lfd j c1 y"
    using c(1,2) by (cases c) (auto simp: loop_state_def)
qed

text \<open>One round of the outer loop: the table is printed, then the inner loop runs.\<close>

fun outer_act :: "os \<Rightarrow> nat \<Rightarrow> kernel list \<Rightarrow> pollfd list \<times> router \<Rightarrow> (pollfd list \<times> router) result" where
  "outer_act env mtu ks (polls, r) =
     andThen (print_table (kh_n_buckets (address_table r) + 1) (address_table r) 0) (\<lambda>_. poll_loop env mtu ks 0 polls r)"

lemma router_loop_exec: "router_loop env mtu rounds polls r = exec (outer_act env mtu) rounds (polls, r)"
proof (induction rounds arbitrary: polls r)
  case (Cons ks rounds)
  then show ?case by (simp add: andThen_assoc case_prod_unfold)
qed simp

definition outer_round :: "os \<Rightarrow> nat \<Rightarrow> int \<Rightarrow> int list \<times> wire_state \<Rightarrow> kernel list \<Rightarrow> int list \<times> wire_state \<Rightarrow> bool" where
  "outer_round env mtu lfd x ks y \<longleftrightarrow> net_rounds env mtu lfd x ks y \<and> length ks \<le> 4000"

interpretation main_loop: guarded_simulation "outer_round env mtu lfd" opened "outer_act env mtu" "loop_state env mtu lfd"
  "\<lambda>ks. 127 * length ks" for env mtu lfd
proof
  fix x ks y
  assume "opened x" "outer_round env mtu lfd x ks y"
  then show "opened y" using addresses_open.run_preserves [of env mtu lfd x ks y] by (simp add: outer_round_def)
next
  fix x ks y j c
  assume x: "opened x" "outer_round env mtu lfd x ks y" "loop_state env mtu lfd (127 * length ks + j) c x"
  obtain polls r where c: "c = (polls, r)" by (cases c)
  obtain rows where rows: "print_table (kh_n_buckets (address_table r) + 1) (address_table r) 0 = Inr rows"
    using table_prints [of mtu r "snd x" "fst x"] x(1,3) c by (auto simp: loop_state_def)
  have few: "0 + length ks \<le> 4000" using x(2) by (simp add: outer_round_def)
  have "loop_state env mtu lfd (sum_list (map (\<lambda>_. 127) ks) + j) c x" using x(3) by (simp add: sum_list_triv ac_simps)
  then obtain c1 where "exec (poll_act env mtu) ks c = Inr c1" "loop_state env mtu lfd j c1 y"
    using polling.run_simulates [of env mtu lfd x ks y j c] x(2) by (auto simp: outer_round_def)
  then show "\<exists>c1. outer_act env mtu ks c = Inr c1 \<and> loop_state env mtu lfd j c1 y"
    using rows c poll_loop_exec [OF few, of env mtu polls r] by simp
qed

lemma outer_rounds:
  assumes "net_rounds env mtu lfd x (concat rounds) y" "\<forall>ks\<in>set rounds. length ks \<le> 4000"
  shows "steps (outer_round env mtu lfd) x rounds y"
  using steps_groups [OF assms(1)] assms(2)
proof (induction rule: steps.induct)
  case (more x ks y rounds z)
  have "outer_round env mtu lfd x ks y" using more.hyps(1) more.prems by (simp add: outer_round_def)
  then show ?case by (rule steps.more) (rule more.IH, use more.prems in simp)
qed (rule steps.stop)

lemma router_loop_simulates:
  assumes "good_malloc env" "mtu * 20 < 2 ^ 32"
    and "net_rounds env mtu lfd x (concat rounds) y" "\<forall>ks\<in>set rounds. length ks \<le> 4000" "opened x"
    and "polls_of lfd (fst x) polls" "stands_for mtu r (snd x)" "roomy (127 * length (concat rounds)) r"
  shows "\<exists>polls' r'. router_loop env mtu rounds polls r = Inr (polls', r') \<and> polls_of lfd (fst y) polls' \<and>
      stands_for mtu r' (snd y)"
proof -
  have "sum_list (map (\<lambda>ks. 127 * length ks) rounds) = 127 * length (concat rounds)"
    by (simp add: length_concat sum_list_const_mult)
  then have "loop_state env mtu lfd (sum_list (map (\<lambda>ks. 127 * length ks) rounds) + 0) (polls, r) x"
    using assms by (simp add: loop_state_def)
  with main_loop.run_simulates [OF outer_rounds [OF assms(3,4)]] assms(5) show ?thesis
    unfolding router_loop_exec by (fastforce simp: loop_state_def)
qed

lemma net_start_ready:
  "opened net_start" "polls_of lfd (fst net_start) (poll_list_init lfd)" "stands_for mtu router_init (snd net_start)"
  by (simp_all add: net_start_def opened_def wire_init_def all_open_def polls_of_def poll_list_init_def
      no_poll_def MAX_MONITOR_FDS_def wire_init_start(1) [unfolded wire_init_def])

lemma router_runs:
  assumes "net_rounds env mtu lfd net_start (concat rounds) (ss, pend, k, tab, n)"
    and "\<forall>ks\<in>set rounds. length ks \<le> 4000" "127 * length (concat rounds) \<le> 2 ^ 28"
    and "good_malloc env" "mtu * 20 < 2 ^ 32"
  shows "\<exists>polls r. router_process env mtu lfd rounds = Inr (polls, r) \<and> map poll_fd polls = lfd # ss \<and>
    table_ok (address_table r) \<and> table_abs (address_table r) = tab \<and> rt_net r = n \<and>
    (\<forall>fd. pending (local_buffers r) fd = pend (fd_key fd))"
  using router_loop_simulates [OF assms(4,5,1,2) net_start_ready(1,2,3) wire_init_start(2) [OF assms(3)]]
  by (auto simp: router_process_def stands_for_def polls_of_def)

section \<open>Rounds with one event\<close>

definition arrival_of :: "int \<Rightarrow> int \<Rightarrow> kernel" where
  "arrival_of lfd fd = \<lparr>k_ready = (\<lambda>f. if f = lfd then POLLIN else 0), k_accept = fd, k_read = (\<lambda>_. ([], 0))\<rparr>"

definition hangup_of :: "int \<Rightarrow> kernel" where
  "hangup_of fd = \<lparr>k_ready = (\<lambda>f. if f = fd then POLLHUP else 0), k_accept = -1, k_read = (\<lambda>_. ([], 0))\<rparr>"

definition bytes_of :: "int \<Rightarrow> u8 list \<Rightarrow> kernel" where
  "bytes_of fd c = \<lparr>k_ready = (\<lambda>f. if f = fd then POLLIN else 0), k_accept = -1, k_read = (\<lambda>_. (c, int (length c)))\<rparr>"

lemma poll_flags: "POLLIN \<noteq> 0" "POLLHUP \<noteq> 0" "POLLIN AND POLLHUP \<noteq> POLLHUP" "POLLIN AND POLLIN = POLLIN"
    "POLLHUP AND POLLHUP = POLLHUP"
  by (simp_all add: POLLIN_def POLLHUP_def)

lemma slot_events:
  "slot_event (hangup_of fd) f = (if f = fd \<and> 0 \<le> fd then Some Gone else None)"
  "c \<noteq> [] \<Longrightarrow> slot_event (bytes_of fd c) f = (if f = fd \<and> 0 \<le> fd then Some (Received c) else None)"
  using poll_flags by (auto simp: slot_event_def hangup_of_def bytes_of_def Suc_le_eq)

lemma scan_idle: "\<forall>f\<in>set ss. slot_event k f = None \<Longrightarrow> scan env mtu k ss w ss w"
  by (induction ss) (auto intro: scan.intros)

lemma scan_one:
  assumes "\<forall>f\<in>set as. slot_event k f = None" "scan env mtu k ss w ss' w'"
  shows "scan env mtu k (as @ ss) w (as @ ss') w'"
  using assms(1) by (induction as) (auto intro: assms(2) scan.intros)

lemma hangup_round:
  assumes "0 \<le> fd" "fd \<notin> set as" "fd \<notin> set bs" "lfd \<noteq> fd"
  shows "net_round env mtu lfd (as @ fd # bs, w) (hangup_of fd) (as @ -1 # bs, forget fd w)"
proof (rule net_round.traffic)
  show "\<not> listen_ready (hangup_of fd) lfd" "honest_read mtu (hangup_of fd)"
    using assms(4) by (simp_all add: listen_ready_def hangup_of_def honest_read_def)
  have "scan env mtu (hangup_of fd) (fd # bs) w (-1 # bs) (forget fd w)"
    by (rule scan.gone) (use assms in \<open>auto simp: slot_events intro!: scan_idle\<close>)
  then show "scan env mtu (hangup_of fd) (as @ fd # bs) w (as @ -1 # bs) (forget fd w)"
    by (rule scan_one [rotated]) (use assms in \<open>auto simp: slot_events\<close>)
qed

lemma bytes_round:
  assumes "0 \<le> fd" "fd \<notin> set as" "fd \<notin> set bs" "lfd \<noteq> fd" "wire_step env mtu w (fd, c) w'" "length c \<le> mtu" "c \<noteq> []"
  shows "net_round env mtu lfd (as @ fd # bs, w) (bytes_of fd c) (as @ fd # bs, w')"
proof (rule net_round.traffic)
  show "\<not> listen_ready (bytes_of fd c) lfd" "honest_read mtu (bytes_of fd c)"
    using assms(4,6) by (simp_all add: listen_ready_def bytes_of_def honest_read_def)
  have "scan env mtu (bytes_of fd c) (fd # bs) w (fd # bs) w'"
    by (rule scan.received [OF _ assms(5)]) (use assms in \<open>auto simp: slot_events intro!: scan_idle\<close>)
  then show "scan env mtu (bytes_of fd c) (as @ fd # bs) w (as @ fd # bs) w'"
    by (rule scan_one [rotated]) (use assms in \<open>auto simp: slot_events\<close>)
qed

lemma accept_first:
  "-1 \<notin> set as \<Longrightarrow> accept_slot fd (as @ -1 # bs) = Some (as @ fd # bs)"
  by (induction as) auto

lemma arrival_round:
  assumes "0 \<le> lfd" "fd \<noteq> -1" "-1 \<notin> set as"
  shows "net_round env mtu lfd (as @ -1 # bs, w) (arrival_of lfd fd) (as @ fd # bs, w)"
  by (rule net_round.arrival) (use assms poll_flags accept_first in \<open>simp_all add: listen_ready_def arrival_of_def\<close>)

text \<open>
  C2: The router process. Whatever the kernel answers - which descriptors are ready, what \<open>accept\<close> and
  \<open>read\<close> return, when connections hang up - as long as the bytes are well-formed messages cut anywhere and
  there is room in the poll list, the process runs through all its rounds without a fault, prints its table
  before every batch, and its poll list, tables, counters, pending bytes and the bytes it sent are those of
  the abstract machine.
\<close>

theorem router_process_refines:
  assumes "net_rounds env mtu lfd net_start (concat rounds) (ss, pend, k, tab, n)"
    and "\<forall>ks\<in>set rounds. length ks \<le> 4000" "127 * length (concat rounds) \<le> 2 ^ 28"
    and "good_malloc env" "mtu * 20 < 2 ^ 32"
  shows "\<exists>polls r. router_process env mtu lfd rounds = Inr (polls, r) \<and> map poll_fd polls = lfd # ss \<and>
    table_ok (address_table r) \<and> table_abs (address_table r) = tab \<and> rt_net r = n \<and>
    (\<forall>fd. pending (local_buffers r) fd = pend (fd_key fd))"
  by (rule router_runs [OF assms])

section \<open>A full poll list\<close>

lemma arrival_accepts:
  assumes "0 \<le> lfd" "polls_of lfd ss polls"
  obtains polls' where "poll_step env mtu (arrival_of lfd fd) polls r = poll_accept fd polls' r" "polls_of lfd ss polls'"
proof
  let ?k = "arrival_of lfd fd"
  let ?polls = "poll_fill (k_ready ?k) polls"
  show of: "polls_of lfd ss ?polls" using assms(2) by (simp add: polls_of_def)
  then obtain p ps where p: "?polls = p # ps" "poll_fd p = lfd" by (cases ?polls) (auto simp: polls_of_def)
  have "polled ?k p" using poll_fill_polled [of p ?k polls] p(1) by simp
  then have "poll_revents p \<noteq> 0" using assms(1) p(2) poll_flags(1) by (simp add: polled_def arrival_of_def)
  then show "poll_step env mtu ?k polls r = poll_accept fd ?polls r"
    using p(1) by (simp add: poll_step_def arrival_of_def)
qed

lemma arrival_step:
  assumes "0 \<le> lfd" "polls_of lfd ss polls" "accept_slot fd ss = Some ss'" "fd \<noteq> -1"
  shows "\<exists>polls'. poll_step env mtu (arrival_of lfd fd) polls r = Inr (polls', r) \<and> polls_of lfd ss' polls'"
proof -
  obtain polls1 where "poll_step env mtu (arrival_of lfd fd) polls r = poll_accept fd polls1 r" "polls_of lfd ss polls1"
    by (rule arrival_accepts [OF assms(1,2)])
  then show ?thesis using poll_accept_slot [OF assms(3,4)] by simp
qed

lemma arrivals_loop:
  assumes "0 \<le> lfd"
  shows "-1 \<notin> set (as @ fds) \<Longrightarrow> polls_of lfd (as @ replicate (length fds) (-1)) polls \<Longrightarrow> j + length fds \<le> 4000 \<Longrightarrow>
    \<exists>polls'. poll_loop env mtu (map (arrival_of lfd) fds @ ks) j polls r =
      poll_loop env mtu ks (j + length fds) polls' r \<and> polls_of lfd (as @ fds) polls'"
proof (induction fds arbitrary: as polls j)
  case (Cons fd fds)
  have slot: "accept_slot fd (as @ -1 # replicate (length fds) (-1)) = Some (as @ fd # replicate (length fds) (-1))"
    by (rule accept_first) (use Cons.prems(1) in simp)
  obtain polls1 where one: "poll_step env mtu (arrival_of lfd fd) polls r = Inr (polls1, r)"
    "polls_of lfd (as @ fd # replicate (length fds) (-1)) polls1"
    using arrival_step [OF assms _ slot, of polls env mtu r] Cons.prems(1,2) by auto
  then show ?case using Cons.IH [of "as @ [fd]" polls1 "j + 1"] Cons.prems(1,3) by auto
qed auto

lemma free_entry_none:
  "\<forall>j. i \<le> j \<and> j < i + n \<longrightarrow> poll_fd (polls ! j) \<noteq> -1 \<Longrightarrow> free_entry polls i n = i + n"
  by (induction n arbitrary: i) simp_all

lemma full_poll_list:
  assumes "0 \<le> lfd" "polls_of lfd ss polls" "-1 \<notin> set ss" "fd \<noteq> -1"
  shows "poll_step env mtu (arrival_of lfd fd) polls r = Inl OutOfBounds"
proof -
  obtain polls1 where one: "poll_step env mtu (arrival_of lfd fd) polls r = poll_accept fd polls1 r" "polls_of lfd ss polls1"
    by (rule arrival_accepts [OF assms(1,2)])
  obtain p ps where p: "polls1 = p # ps" "map poll_fd ps = ss" "length ps = 127"
    using one(2) by (cases polls1) (auto simp: polls_of_def MAX_MONITOR_FDS_def)
  have "poll_fd (polls1 ! j) \<noteq> -1" if "1 \<le> j \<and> j < 1 + 127" for j
  proof -
    have "ss ! (j - 1) = poll_fd (polls1 ! j)" using that p by (auto simp: nth_Cons split: nat.splits)
    moreover have "ss ! (j - 1) \<in> set ss" using that p by (intro nth_mem) auto
    ultimately show ?thesis using assms(3) by metis
  qed
  then have "free_entry polls1 1 127 = 1 + 127" by (intro free_entry_none) blast
  then show ?thesis
    using one(1) assms(4) p(1,3) by (simp add: poll_accept_def MAX_MONITOR_FDS_def load_def)
qed

text \<open>
  C39: One connection too many ends the router. Once 127 clients are connected, the search for a free
  entry ends at entry 128, and the test meant to turn the new client away reads that entry, behind the
  end of the poll list.
\<close>

theorem full_poll_list_faults:
  assumes "0 \<le> lfd" "length fds = 127" "-1 \<notin> set fds" "fd \<noteq> -1"
  shows "router_process env mtu lfd [map (arrival_of lfd) (fds @ [fd])] = Inl OutOfBounds"
proof -
  have start: "polls_of lfd ([] @ replicate (length fds) (-1)) (poll_list_init lfd)"
    using net_start_ready(2) [of lfd] assms(2) by (simp add: net_start_def MAX_MONITOR_FDS_def)
  obtain polls where polls: "poll_loop env mtu (map (arrival_of lfd) fds @ [arrival_of lfd fd]) 0 (poll_list_init lfd) router_init =
      poll_loop env mtu [arrival_of lfd fd] 127 polls router_init" "polls_of lfd fds polls"
    using arrivals_loop [OF assms(1) _ start, of 0 env mtu "[arrival_of lfd fd]" router_init] assms(2,3) by auto
  obtain rows where "print_table (kh_n_buckets (address_table router_init) + 1) (address_table router_init) 0 = Inr rows"
    using table_prints [OF net_start_ready(3), of "fst net_start"] net_start_ready(1) by auto
  then show ?thesis using polls full_poll_list [OF assms(1) polls(2) assms(3,4)] by (simp add: router_process_def)
qed

theorem full_poll_list_faults_witness:
  "router_process plain_os 1500 3 [map (arrival_of 3) (map int [4..<131] @ [131])] = Inl OutOfBounds"
  by (rule full_poll_list_faults) simp_all

section \<open>Descriptors that come back\<close>

text \<open>
  C40: An address outlives its connection. When the client bound to an address hangs up, only its pending
  bytes are forgotten; a new client that is given the same descriptor receives the packets sent to that
  address, without having claimed it.
\<close>

theorem stale_address_receives:
  assumes "net_rounds env mtu lfd net_start (concat rounds) (as @ fd # bs, pend, k, tab, n)"
    and "\<forall>ks\<in>set rounds. length ks \<le> 4000" "127 * (length (concat rounds) + 3) \<le> 2 ^ 28"
    and "good_malloc env" "mtu * 20 < 2 ^ 32" "\<forall>fd bs. os_write env fd bs = int (length bs)"
    and "pipe_route tab a t fd" "pend (fd_key fdA) = []" "length (message_bytes (Data a p)) \<le> mtu"
    and "distinct (lfd # as @ [fd])" "set bs \<inter> set (as @ [fd]) = {}" "fdA \<in> set as" "\<forall>f\<in>set (lfd # as @ [fd]). 0 \<le> f"
  shows "\<exists>polls r. router_process env mtu lfd (rounds @
      [[hangup_of fd, arrival_of lfd fd, bytes_of fdA (message_bytes (Data a p))]]) = Inr (polls, r) \<and>
    sent (rt_net r) = sent n @ [(fd, message_bytes (Data a p))]"
proof -
  let ?m = "message_bytes (Data a p)" and ?pend = "pend(fd_key fd := [])"
  let ?s = "message_spec env k fdA (Data a p) (tab, n)"
  have m: "?m \<noteq> []" by (simp add: frame_bytes_def)
  obtain as1 as2 where split: "as = as1 @ fdA # as2" using assms(12) by (auto simp: in_set_conv_decomp)
  have "net_round env mtu lfd (as @ fd # bs, pend, k, tab, n) (hangup_of fd) (as @ -1 # bs, ?pend, k, tab, n)"
    using hangup_round [of fd as bs lfd env mtu "(pend, k, tab, n)"] assms(10,11,13) by (simp add: forget_def)
  moreover have "net_round env mtu lfd (as @ -1 # bs, ?pend, k, tab, n) (arrival_of lfd fd) (as @ fd # bs, ?pend, k, tab, n)"
    by (rule arrival_round) (use assms(13) in auto)
  moreover have "wire_step env mtu (?pend, k, tab, n) (fdA, ?m) (?pend(fd_key fdA := []), k + rands_of tab (Data a p), ?s)"
    using wire_step.complete [of ?m "Data a p" "[]" ?pend fdA "(tab, n)" mtu env k] m assms(8,9) pipe_routable [OF assms(7)]
    by simp
  then have "net_round env mtu lfd (as1 @ fdA # (as2 @ fd # bs), ?pend, k, tab, n) (bytes_of fdA ?m)
      (as1 @ fdA # (as2 @ fd # bs), ?pend(fd_key fdA := []), k + rands_of tab (Data a p), ?s)"
    by (intro bytes_round) (use assms(9-13) m split in auto)
  ultimately have "net_rounds env mtu lfd (as @ fd # bs, pend, k, tab, n)
      [hangup_of fd, arrival_of lfd fd, bytes_of fdA ?m]
      (as @ fd # bs, ?pend(fd_key fdA := []), k + rands_of tab (Data a p), ?s)"
    unfolding split by (auto intro!: steps.intros)
  then have run: "net_rounds env mtu lfd net_start (concat (rounds @ [[hangup_of fd, arrival_of lfd fd, bytes_of fdA ?m]]))
      (as @ fd # bs, ?pend(fd_key fdA := []), k + rands_of tab (Data a p), fst ?s, snd ?s)"
    using steps_append [OF assms(1)] by simp
  have small: "\<forall>ks\<in>set (rounds @ [[hangup_of fd, arrival_of lfd fd, bytes_of fdA ?m]]). length ks \<le> 4000"
    "127 * length (concat (rounds @ [[hangup_of fd, arrival_of lfd fd, bytes_of fdA ?m]])) \<le> 2 ^ 28"
    using assms(2,3) by simp_all
  have "sent (snd ?s) = sent n @ [(fd, ?m)]"
    using data_spec_pipe [OF assms(7,6) m, of k n] by simp
  then show ?thesis
    using router_runs [OF run small assms(4,5)] by (elim exE conjE) (intro exI conjI, assumption, simp only:)
qed

lemma reads_rounds:
  "wire_steps env mtu w es w' \<Longrightarrow> distinct (filter ((\<le>) 0) ss) \<Longrightarrow> lfd \<notin> set ss \<Longrightarrow>
   \<forall>(fd, c)\<in>set es. fd \<in> set ss \<and> 0 \<le> fd \<and> length c \<le> mtu \<Longrightarrow>
   net_rounds env mtu lfd (ss, w) (map (\<lambda>(fd, c). bytes_of fd c) es) (ss, w')"
proof (induction rule: steps.induct)
  case (more w e w1 es w2)
  obtain fd c where e: "e = (fd, c)" by (cases e)
  have fd: "fd \<in> set ss" "0 \<le> fd" "length c \<le> mtu" using more.prems(3) e by auto
  then obtain as bs where split: "ss = as @ fd # bs" by (auto simp: in_set_conv_decomp)
  have "c \<noteq> []" using more.hyps(1) e by (auto elim: wire_step.cases)
  then have "net_round env mtu lfd (ss, w) (bytes_of fd c) (ss, w1)"
    unfolding split by (intro bytes_round) (use more.hyps(1) more.prems(1,2) fd e split in auto)
  then show ?case using more.IH more.prems e by (auto intro: net_more)
qed (auto intro: steps.stop)

definition two_clients :: "kernel list" where
  "two_clients = [arrival_of 3 5, arrival_of 3 6] @ map (\<lambda>(fd, c). bytes_of fd c) pipe_setup"

lemma two_arrivals:
  "net_rounds plain_os 1500 3 net_start [arrival_of 3 5, arrival_of 3 6] ([5] @ 6 # replicate 125 (-1), wire_init)"
proof -
  have start: "net_start = ([] @ -1 # (-1 # replicate 125 (-1)), wire_init)"
    by (simp add: net_start_def MAX_MONITOR_FDS_def flip: replicate_Suc)
  show ?thesis
    unfolding start
    by (rule net_more [OF arrival_round], simp_all)
       (rule net_more [OF arrival_round [of 3 6 "[5]", simplified]], simp_all)
qed

lemma two_clients_rounds:
  assumes "wire_steps plain_os 1500 wire_init pipe_setup w"
  shows "net_rounds plain_os 1500 3 net_start two_clients (5 # 6 # replicate 125 (-1), w)"
proof -
  have "net_rounds plain_os 1500 3 ([5] @ 6 # replicate 125 (-1), wire_init)
      (map (\<lambda>(fd, c). bytes_of fd c) pipe_setup) ([5] @ 6 # replicate 125 (-1), w)"
    by (rule reads_rounds [OF assms]) (simp_all add: pipe_setup_def)
  then show ?thesis using steps_append [OF two_arrivals] by (simp add: two_clients_def)
qed

theorem router_process_refines_witness:
  "\<exists>polls r. router_process plain_os 1500 3 [two_clients] = Inr (polls, r) \<and>
     map poll_fd polls = 3 # 5 # 6 # replicate 125 (-1) \<and> pipe_route (table_abs (address_table r)) 0 7 6"
proof -
  obtain pend k tab n where s: "wire_steps plain_os 1500 wire_init pipe_setup (pend, k, tab, n)" "pipe_route tab 0 7 6"
    using pipe_setup_steps by auto
  have "net_rounds plain_os 1500 3 net_start (concat [two_clients]) (5 # 6 # replicate 125 (-1), pend, k, tab, n)"
    using two_clients_rounds [OF s(1)] by simp
  from router_process_refines [OF this _ _ plain_os_malloc] s(2) show ?thesis
    by (auto simp: two_clients_def pipe_setup_def simp del: message_bytes.simps)
qed

theorem stale_address_receives_witness:
  "\<exists>polls r. router_process plain_os 1500 3 ([two_clients] @
      [[hangup_of 6, arrival_of 3 6, bytes_of 5 (message_bytes (Data 0 [65]))]]) = Inr (polls, r) \<and>
    last (sent (rt_net r)) = (6, message_bytes (Data 0 [65]))"
proof -
  obtain pend k tab n where s: "wire_steps plain_os 1500 wire_init pipe_setup (pend, k, tab, n)" "pend (fd_key 5) = []"
    "pipe_route tab 0 7 6"
    using pipe_setup_steps by auto
  have run: "net_rounds plain_os 1500 3 net_start (concat [two_clients]) ([5] @ 6 # replicate 125 (-1), pend, k, tab, n)"
    using two_clients_rounds [OF s(1)] by simp
  have wr: "\<forall>fd bs. os_write plain_os fd bs = int (length bs)" by (simp add: plain_os_def)
  have "\<exists>polls r. router_process plain_os 1500 3 ([two_clients] @
      [[hangup_of 6, arrival_of 3 6, bytes_of 5 (message_bytes (Data 0 [65]))]]) = Inr (polls, r) \<and>
    sent (rt_net r) = sent n @ [(6, message_bytes (Data 0 [65]))]"
    by (rule stale_address_receives [OF run _ _ plain_os_malloc _ wr s(3,2)])
      (simp_all add: two_clients_def pipe_setup_def)
  then show ?thesis by (elim exE conjE) (intro exI conjI, assumption, simp)
qed

end
