(* ===== verification/NodeRun.thy ===== *)
theory NodeRun
  imports RouterRun
begin

text \<open>
  The whole process of a node started with \<open>--address\<close>, \<open>--input\<close> and \<open>--output\<close>: standard input and the
  connection to the router become ready in any order, the node cuts what it reads from the one into
  packets for the router and prints what arrives from the other. The abstract machine \<open>node_round\<close> keeps
  the bytes pending on both sides, what was sent and what was printed. \<open>graph_main\<close> is shown to do what
  the machine does, and what becomes of the pending piece when standard input ends.
\<close>

section \<open>The abstract machine\<close>

type_synonym poll_answer = "(int \<Rightarrow> u16) \<times> (int \<Rightarrow> u8 list option)"

text \<open>Pending bytes of standard input and of the router, the network, standard output.\<close>

type_synonym node_state = "u8 list \<times> u8 list \<times> net \<times> u8 list"

text \<open>What a node with an address prints of a frame: the payload of data, nothing of a command.\<close>

definition shown :: "frame \<Rightarrow> u8 list" where
  "shown f = (case f of (t, s, pl) \<Rightarrow> if t = GNW_DATA then pl else [])"

record node =
  nd_mtu :: nat
  nd_delim :: u8
  nd_address :: gnw_address
  nd_router :: int

inductive node_round :: "wrap_os \<Rightarrow> node \<Rightarrow> node_state \<Rightarrow> poll_answer \<Rightarrow> node_state \<Rightarrow> bool" for env nd where
  idle: "evs 0 = 0 \<Longrightarrow> evs (nd_router nd) = 0 \<Longrightarrow> node_round env nd (p, q, n, out) (evs, avail) (p, q, n, out)"
| input: "evs 0 \<noteq> 0 \<Longrightarrow> avail 0 = Some c \<Longrightarrow> c \<noteq> [] \<Longrightarrow> length p + length c \<le> 19 * nd_mtu nd \<Longrightarrow>
     cuts (is_delim (nd_delim nd)) [] (p @ c) = (ps, r) \<Longrightarrow>
     node_round env nd (p, q, n, out) (evs, avail)
       (r, q, fold (emit_data (wo_write env) (nd_router nd) (nd_address nd)) ps n, out)"
| packets: "evs 0 = 0 \<Longrightarrow> evs (nd_router nd) \<noteq> 0 \<Longrightarrow> avail (nd_router nd) = Some c \<Longrightarrow> c \<noteq> [] \<Longrightarrow>
     length (q @ c) \<le> nd_mtu nd * 20 \<Longrightarrow> q @ c = wire fs @ part \<Longrightarrow> incomplete part \<Longrightarrow>
     node_round env nd (p, q, n, out) (evs, avail) (p, part, n, out @ concat (map shown fs))"

abbreviation node_rounds :: "wrap_os \<Rightarrow> node \<Rightarrow> node_state \<Rightarrow> poll_answer list \<Rightarrow> node_state \<Rightarrow> bool" where
  "node_rounds env nd \<equiv> steps (node_round env nd)"

lemmas node_more = steps.more [where step = "node_round env nd" for env nd]

section \<open>What the globals of the node stand for\<close>

definition buffers_of :: "local_buffer khash \<Rightarrow> node \<Rightarrow> bool" where
  "buffers_of h nd \<longleftrightarrow> input_ok h (nd_mtu nd) 0 \<and> input_ok h (nd_mtu nd) (nd_router nd) \<and>
     dom (kh_abs h) \<subseteq> {fd_key 0, fd_key (nd_router nd)} \<and> kh_n_buckets h \<le> 8"

definition settled :: "wrap_os \<Rightarrow> node \<Rightarrow> wrap \<Rightarrow> bool" where
  "settled env nd w \<longleftrightarrow> wrap_sizes env w (nd_mtu nd) \<and> arg_delimiter (w_config w) = nd_delim nd \<and>
     arg_address (w_config w) = nd_address nd \<and> nd_address nd \<noteq> 0 \<and> arg_echo (w_config w) \<and>
     router_fd w = nd_router nd \<and> 0 < nd_router nd \<and> nd_router nd < 2 ^ 31 \<and> sinkTable w = kh_init \<and>
     map poll_fd (stream_fd w) = 0 # nd_router nd # replicate 254 (-1)"

definition node_is :: "wrap_os \<Rightarrow> node \<Rightarrow> wrap \<Rightarrow> node_state \<Rightarrow> bool" where
  "node_is env nd w x \<longleftrightarrow> (case x of (p, q, n, out) \<Rightarrow>
     settled env nd w \<and> buffers_of (input_buffer w) nd \<and> pending (input_buffer w) 0 = p \<and>
     pending (input_buffer w) (nd_router nd) = q \<and> w_net w = n \<and> w_stdout w = out)"

lemma two_keys:
  assumes "0 < fd" "fd < 2 ^ 31"
  shows "fd_key fd \<noteq> fd_key 0"
proof
  assume "fd_key fd = fd_key 0"
  then have "uint (word_of_int fd :: u32) = uint (0 :: u32)" by (simp add: fd_key_def)
  then show False using assms by (simp add: uint_word_of_int)
qed

text \<open>A step that changes the buffer of one descriptor only.\<close>

lemma buffers_step:
  assumes h: "buffers_of h nd" and fd: "fd = 0 \<or> fd = nd_router nd"
    and h1: "input_ok h1 (nd_mtu nd) fd" "\<forall>k. k \<noteq> fd_key fd \<longrightarrow> kh_abs h1 k = kh_abs h k"
      "kh_n_buckets h1 \<le> max (kh_n_buckets h) (max 4 (4 * card (dom (kh_abs h))))"
  shows "buffers_of h1 nd" and "fd_key fd' \<noteq> fd_key fd \<Longrightarrow> pending h1 fd' = pending h fd'"
proof -
  let ?K = "{fd_key 0, fd_key (nd_router nd)}"
  have "dom (kh_abs h1) \<subseteq> Set.insert (fd_key fd) (dom (kh_abs h))" using h1(2) by auto
  then have dom: "dom (kh_abs h1) \<subseteq> ?K" using h fd by (auto simp: buffers_of_def)
  have "card (dom (kh_abs h)) \<le> card ?K" by (rule card_mono) (use h in \<open>auto simp: buffers_of_def\<close>)
  then have "card (dom (kh_abs h)) \<le> 2" by (rule order_trans) (simp add: card_insert_if)
  then have "max (kh_n_buckets h) (max 4 (4 * card (dom (kh_abs h)))) \<le> 8" using h by (simp add: buffers_of_def)
  then have "kh_n_buckets h1 \<le> 8" using h1(3) by (rule order_trans [rotated])
  moreover have "input_ok h1 (nd_mtu nd) fd'" if "fd' = 0 \<or> fd' = nd_router nd" for fd'
  proof (cases "fd_key fd' = fd_key fd")
    case True
    then show ?thesis using h1(1) by (simp add: input_ok_def)
  next
    case False
    then show ?thesis using h h1(1,2) that by (auto simp: input_ok_def buffers_of_def)
  qed
  ultimately show "buffers_of h1 nd" using dom by (simp add: buffers_of_def)
  show "pending h1 fd' = pending h fd'" if "fd_key fd' \<noteq> fd_key fd" using h1(2) that by (simp add: pending_def)
qed

section \<open>One round\<close>

lemma command_ignored:
  assumes "5 \<le> length b" "arg_address (w_config w) \<noteq> 0"
  shows "handleCommandPacket w hdr b = Inr w"
proof -
  have "packet_read_u8 b 0 = Inr (b ! 0, 1)" "\<exists>a. packet_read_u32 b 1 = Inr (a, 5)" "load b 0 = Inr (b ! 0)"
    using assms(1) packet_read_u8_in [of 0 b] packet_read_u32_on_in [of 1 b] load_in [of 0 b] by force+
  then show ?thesis using assms(2) by (auto simp: handleCommandPacket_def)
qed

lemma handle_frames_shown:
  assumes "\<forall>n. length (wo_malloc env n) = n"
  shows "arg_echo (w_config w) \<Longrightarrow> arg_address (w_config w) \<noteq> 0 \<Longrightarrow> \<forall>f\<in>set fs. length (wire1 f) < 2 ^ 32 \<Longrightarrow>
    handle_frames env w fs = Inr (w\<lparr>w_stdout := w_stdout w @ concat (map shown fs)\<rparr>)"
proof (induction fs arbitrary: w)
  case (Cons f fs)
  obtain t s pl where f: "f = (t, s, pl)" "length pl < 2 ^ 32"
    using Cons.prems(3) by (cases f) (auto simp: wire1_def)
  have un: "unat (of_nat (length pl) :: u32) = length pl" using f(2) by (simp add: unat_of_nat)
  let ?b = "pl @ drop (length pl) (wo_malloc env (11 + length pl))"
  have len: "length ?b = 11 + length pl" using assms by simp
  have "handle_frame env w f = Inr (w\<lparr>w_stdout := w_stdout w @ shown f\<rparr>)"
  proof (cases "t = GNW_DATA")
    case True
    then show ?thesis using Cons.prems(1) un
      by (simp add: handle_frame_def f(1) handlePacket_def handleDataPacket_def Let_def load_block_def assms shown_def)
  next
    case False
    have "handleCommandPacket w hdr ?b = Inr w" for hdr
      by (rule command_ignored) (use Cons.prems(2) len in simp_all)
    then show ?thesis using False by (simp add: handle_frame_def f(1) handlePacket_def shown_def)
  qed
  then show ?case using Cons.IH [of "w\<lparr>w_stdout := w_stdout w @ shown f\<rparr>"] Cons.prems by simp
qed simp

text \<open>The round of the poll loop that a kernel's answer leads to.\<close>

lemma polls_cases:
  assumes "map poll_fd ps = 0 # rfd # replicate 254 (-1)" "0 < rfd"
  shows "evs 0 \<noteq> 0 \<Longrightarrow> first_ready (poll_results evs ps) 0 = Some 0"
    and "evs 0 = 0 \<Longrightarrow> evs rfd \<noteq> 0 \<Longrightarrow> first_ready (poll_results evs ps) 0 = Some 1"
    and "evs 0 = 0 \<Longrightarrow> evs rfd = 0 \<Longrightarrow> first_ready (poll_results evs ps) 0 = None"
    and "map poll_fd (poll_results evs ps) = 0 # rfd # replicate 254 (-1)"
    and "poll_revents (poll_results evs ps ! 0) = evs 0" "poll_revents (poll_results evs ps ! 1) = evs rfd"
proof -
  obtain p0 p1 qs where ps: "ps = p0 # p1 # qs" "poll_fd p0 = 0" "poll_fd p1 = rfd" "map poll_fd qs = replicate 254 (-1)"
    using assms(1) by (cases ps; cases "tl ps") auto
  have rest: "\<forall>p\<in>set qs. poll_fd p = -1" using arg_cong [OF ps(4), of set] by auto
  have none: "first_ready (poll_results evs qs) i = None" for i
    using rest by (induction qs arbitrary: i) (simp_all add: poll_results_def)
  show "evs 0 \<noteq> 0 \<Longrightarrow> first_ready (poll_results evs ps) 0 = Some 0"
    "evs 0 = 0 \<Longrightarrow> evs rfd \<noteq> 0 \<Longrightarrow> first_ready (poll_results evs ps) 0 = Some 1"
    "evs 0 = 0 \<Longrightarrow> evs rfd = 0 \<Longrightarrow> first_ready (poll_results evs ps) 0 = None"
    using none [of 2] ps(1-3) assms(2) by (simp_all add: poll_results_def numeral_2_eq_2)
  show "map poll_fd (poll_results evs ps) = 0 # rfd # replicate 254 (-1)"
    using assms(1) by (simp add: poll_results_def comp_def)
  show "poll_revents (poll_results evs ps ! 0) = evs 0" "poll_revents (poll_results evs ps ! 1) = evs rfd"
    using ps(1-3) assms(2) by (simp_all add: poll_results_def)
qed

lemma first_two: "map poll_fd ps = a # b # xs \<Longrightarrow> poll_fd (ps ! 0) = a \<and> poll_fd (ps ! 1) = b"
  by (cases ps; cases "tl ps") auto

lemma node_is_polls:
  "map poll_fd ps = map poll_fd (stream_fd w) \<Longrightarrow> node_is env nd (w\<lparr>stream_fd := ps\<rparr>) x = node_is env nd w x"
  by (simp add: node_is_def settled_def wrap_sizes_def split: prod.split)

lemma settle_is:
  assumes "node_is env nd w x" "i = 0 \<and> fd = 0 \<or> i = 1 \<and> fd = nd_router nd"
  shows "node_is env nd (settle w i fd) x"
proof -
  have fds: "map poll_fd (stream_fd w) = 0 # nd_router nd # replicate 254 (-1)"
    using assms(1) by (simp add: node_is_def settled_def split: prod.splits)
  have "map poll_fd ((stream_fd w)[i := (stream_fd w ! i)\<lparr>poll_fd := fd, poll_revents := 0\<rparr>]) = map poll_fd (stream_fd w)"
    using assms(2) fds by (auto simp: map_update)
  then show ?thesis using node_is_polls assms(1) by (simp add: settle_def)
qed

lemma input_simulates:
  assumes w: "node_is env nd w (p, q, n, out)" and c: "c \<noteq> []" "length p + length c \<le> 19 * nd_mtu nd"
    and cut: "cuts (is_delim (nd_delim nd)) [] (p @ c) = (ps, r)"
  shows "\<exists>w'. handleLocalData env w 0 ev (Some c) = Inr (w', 0, False) \<and>
    node_is env nd w' (r, q, fold (emit_data (wo_write env) (nd_router nd) (nd_address nd)) ps n, out)"
proof -
  have s: "settled env nd w" "buffers_of (input_buffer w) nd" "pending (input_buffer w) 0 = p"
    "pending (input_buffer w) (nd_router nd) = q" "w_net w = n" "w_stdout w = out"
    using w by (simp_all add: node_is_def)
  have pre: "wrap_sizes env w (nd_mtu nd)" "input_ok (input_buffer w) (nd_mtu nd) 0" "kh_n_buckets (input_buffer w) \<le> 2 ^ 30"
    using s(1,2) by (simp_all add: settled_def buffers_of_def)
  have key: "fd_key (nd_router nd) \<noteq> fd_key 0" using s(1) by (intro two_keys) (simp_all add: settled_def)
  let ?n = "fold (emit_data (wo_write env) (router_fd w) (arg_address (w_config w))) ps (w_net w)"
  obtain h where h: "handleLocalData env w 0 ev (Some c) = Inr (w\<lparr>input_buffer := h, w_net := ?n\<rparr>, 0, False)"
    "input_ok h (nd_mtu nd) 0" "pending h 0 = r" "\<forall>k. k \<noteq> fd_key 0 \<longrightarrow> kh_abs h k = kh_abs (input_buffer w) k"
    "kh_n_buckets h \<le> max (kh_n_buckets (input_buffer w)) (max 4 (4 * card (dom (kh_abs (input_buffer w)))))"
    using handleLocalData_spec [OF pre c(1), of ps r ev] c(2) cut s(1,3) by (auto simp: settled_def)
  have "buffers_of h nd" "pending h (nd_router nd) = q"
    using buffers_step [OF s(2) _ h(2,4,5)] key s(4) by simp_all
  then show ?thesis using h(1,3) s by (simp add: node_is_def settled_def wrap_sizes_def)
qed

text \<open>Frames that fit in the buffer.\<close>

definition short_frames :: "node \<Rightarrow> frame list \<Rightarrow> bool" where
  "short_frames nd fs \<longleftrightarrow> (\<forall>f\<in>set fs. length (wire1 f) \<le> nd_mtu nd * 20)"

lemma short_framesI: "length (wire fs @ part) \<le> nd_mtu nd * 20 \<Longrightarrow> short_frames nd fs"
  unfolding short_frames_def
proof
  fix f assume len: "length (wire fs @ part) \<le> nd_mtu nd * 20" and "f \<in> set fs"
  then obtain xs ys where "fs = xs @ f # ys" by (auto simp: in_set_conv_decomp)
  then show "length (wire1 f) \<le> nd_mtu nd * 20" using len by simp
qed

lemma packets_simulates:
  assumes w: "node_is env nd w (p, q, n, out)" and c: "c \<noteq> []" "length (q @ c) \<le> nd_mtu nd * 20"
    and fs: "q @ c = wire fs @ part" "incomplete part"
  shows "\<exists>w'. handleRemoteData env w (nd_router nd) ev (Some c) = Inr (w', nd_router nd, False) \<and>
    node_is env nd w' (p, part, n, out @ concat (map shown fs))"
proof -
  let ?fd = "nd_router nd"
  have s: "settled env nd w" "buffers_of (input_buffer w) nd" "pending (input_buffer w) 0 = p"
    "pending (input_buffer w) ?fd = q" "w_net w = n" "w_stdout w = out"
    using w by (simp_all add: node_is_def)
  have pre: "wrap_sizes env w (nd_mtu nd)" "input_ok (input_buffer w) (nd_mtu nd) ?fd" "kh_n_buckets (input_buffer w) \<le> 2 ^ 30"
    using s(1,2) by (simp_all add: settled_def buffers_of_def)
  have key: "fd_key 0 \<noteq> fd_key ?fd" using two_keys [of ?fd] s(1) by (simp add: settled_def)
  have m: "nd_mtu nd * 20 < 2 ^ 31" "\<forall>n. length (wo_malloc env n) = n" using pre(1) by (simp_all add: wrap_sizes_def)
  have "short_frames nd fs" by (rule short_framesI [of _ part]) (use c(2) fs(1) in simp)
  then have "\<forall>f\<in>set fs. length (wire1 f) < 2 ^ 32" using m(1) by (fastforce simp: short_frames_def)
  then have printed: "handle_frames env w fs = Inr (w\<lparr>w_stdout := out @ concat (map shown fs)\<rparr>)"
    using handle_frames_shown [OF m(2)] s(1,6) by (simp add: settled_def)
  have v: "length (pending (input_buffer w) ?fd @ c) \<le> nd_mtu nd * 20" "pending (input_buffer w) ?fd @ c = wire fs @ part"
    using c(2) fs(1) s(4) by simp_all
  obtain h where h: "\<forall>v. input_buffer v = input_buffer w \<and> wrap_sizes env v (nd_mtu nd) \<longrightarrow>
      handleRemoteData env v ?fd ev (Some c) = andThen (handle_frames env v fs) (\<lambda>w. Inr (with_input h w, ?fd, False))"
    "input_ok h (nd_mtu nd) ?fd" "pending h ?fd = part" "\<forall>k. k \<noteq> fd_key ?fd \<longrightarrow> kh_abs h k = kh_abs (input_buffer w) k"
    "kh_n_buckets h \<le> max (kh_n_buckets (input_buffer w)) (max 4 (4 * card (dom (kh_abs (input_buffer w)))))"
    using handleRemoteData_spec [OF pre c(1) v fs(2), of ev] by blast
  have "handleRemoteData env w ?fd ev (Some c) = Inr (with_input h (w\<lparr>w_stdout := out @ concat (map shown fs)\<rparr>), ?fd, False)"
    using h(1) pre(1) printed by simp
  moreover have "buffers_of h nd" "pending h 0 = p"
    using buffers_step [OF s(2) _ h(2,4,5)] key s(3) by simp_all
  ultimately show ?thesis using h(3) s by (simp add: node_is_def settled_def wrap_sizes_def)
qed

lemma round_simulates:
  assumes "node_round env nd x (evs, avail) y" "node_is env nd w x"
  shows "\<exists>w'. wrap_round env evs avail (w, False) = Inr (w', False) \<and> node_is env nd w' y"
proof -
  let ?w = "w\<lparr>stream_fd := poll_results evs (stream_fd w)\<rparr>"
  have s: "map poll_fd (stream_fd w) = 0 # nd_router nd # replicate 254 (-1)" "0 < nd_router nd" "router_fd w = nd_router nd"
    "arg_address (w_config w) \<noteq> 0"
    using assms(2) by (simp_all add: node_is_def settled_def split: prod.splits)
  note ps = polls_cases [OF s(1,2), of evs]
  have now: "node_is env nd ?w x" using node_is_polls assms(2) s(1) ps(4) by simp
  have rfd: "getRouterFD env ?w = (?w, nd_router nd)" using s(2,3) by (simp add: getRouterFD_def)
  have fds: "poll_fd (poll_results evs (stream_fd w) ! 0) = 0" "poll_fd (poll_results evs (stream_fd w) ! 1) = nd_router nd"
    using first_two [OF ps(4)] by simp_all
  show ?thesis
    using assms(1)
  proof (cases rule: node_round.cases)
    case idle
    then show ?thesis using ps(3) now by (simp add: wrap_round_def Let_def)
  next
    case (input c p ps' r q n out)
    then obtain w' where w': "handleLocalData env ?w 0 (evs 0) (Some c) = Inr (w', 0, False)" "node_is env nd w' y"
      using input_simulates [of env nd ?w p q n out c ps' r "evs 0"] now by auto
    then have "wrap_round env evs avail (w, False) = Inr (settle w' 0 0, False)"
      using input ps(1,5) fds(1) rfd s(2,4) by (simp add: wrap_round_def Let_def)
    then show ?thesis using settle_is [OF w'(2), of 0 0] by simp
  next
    case (packets c q fs part p n out)
    then obtain w' where w': "handleRemoteData env ?w (nd_router nd) (evs (nd_router nd)) (Some c) = Inr (w', nd_router nd, False)"
      "node_is env nd w' y"
      using packets_simulates [of env nd ?w p q n out c fs part "evs (nd_router nd)"] now by auto
    then have "wrap_round env evs avail (w, False) = Inr (settle w' 1 (nd_router nd), False)"
      using packets ps(2,6) fds(2) rfd by (simp add: wrap_round_def Let_def)
    then show ?thesis using settle_is [OF w'(2), of 1 "nd_router nd"] by simp
  qed
qed

section \<open>Runs and their end\<close>

text \<open>A round of the main loop, which its status ends.\<close>

fun wrap_act :: "wrap_os \<Rightarrow> poll_answer \<Rightarrow> wrap \<times> bool \<Rightarrow> (wrap \<times> bool) result" where
  "wrap_act env (evs, avail) s = (if snd s then Inr s else wrap_round env evs avail s)"

lemma exec_ended: "snd s \<Longrightarrow> exec (wrap_act env) rounds s = Inr s"
  by (induction rounds) auto

lemma wrap_run_exec: "wrap_run env rounds s = exec (wrap_act env) rounds s"
proof (induction rounds arbitrary: s)
  case (Cons a as)
  then show ?case by (cases a; cases "wrap_round env (fst a) (snd a) s") (auto simp: exec_ended)
qed simp

definition running :: "wrap_os \<Rightarrow> node \<Rightarrow> nat \<Rightarrow> wrap \<times> bool \<Rightarrow> node_state \<Rightarrow> bool" where
  "running env nd j s x \<longleftrightarrow> \<not> snd s \<and> node_is env nd (fst s) x"

interpretation nodes: simulation "node_round env nd" "wrap_act env" "running env nd" "\<lambda>_. 0" for env nd
proof
  fix x a y j s
  assume step: "node_round env nd x a y" and "running env nd (0 + j) s x"
  then obtain w where s: "s = (w, False)" "node_is env nd w x" by (cases s) (auto simp: running_def)
  obtain evs avail where a: "a = (evs, avail)" by (cases a)
  show "\<exists>s1. wrap_act env a s = Inr s1 \<and> running env nd j s1 y"
    using round_simulates [of env nd x evs avail y w] step s a by (auto simp: running_def)
qed

lemma rounds_simulates:
  assumes "node_rounds env nd x as y" "node_is env nd w x"
  shows "\<exists>w'. node_is env nd w' y \<and> (\<forall>more. wrap_run env (as @ more) (w, False) = wrap_run env more (w', False))"
  using nodes.run_simulates [OF assms(1), of 0 "(w, False)"] assms(2)
  by (auto simp: running_def wrap_run_exec exec_append)

text \<open>
  Standard input at its end: \<open>poll\<close> reports it and \<open>read\<close> finds nothing. The node takes it for closed when
  \<open>poll\<close> says so, as it does of a pipe whose other side has hung up, or when the descriptor is not valid;
  at the end of a redirected file neither is the case.
\<close>

definition exhausted :: "poll_answer \<Rightarrow> bool" where
  "exhausted a \<longleftrightarrow> fst a 0 \<noteq> 0 \<and> (snd a 0 = None \<or> snd a 0 = Some [])"

definition hung_up :: "wrap_os \<Rightarrow> poll_answer \<Rightarrow> bool" where
  "hung_up env a \<longleftrightarrow> fst a 0 AND POLLNVAL = POLLNVAL \<or> fst a 0 AND POLLHUP = POLLHUP \<or> \<not> wo_valid env 0"

lemma input_exhausted:
  assumes w: "node_is env nd w (p, q, n, out)" and none: "avail = None \<or> avail = Some []"
    and up: "up \<longleftrightarrow> ev AND POLLNVAL = POLLNVAL \<or> ev AND POLLHUP = POLLHUP \<or> \<not> wo_valid env 0"
  shows "\<exists>h. handleLocalData env w 0 ev avail = Inr (w\<lparr>input_buffer := h\<rparr>, if up then -1 else 0, up) \<and>
    (\<not> up \<longrightarrow> node_is env nd (w\<lparr>input_buffer := h\<rparr>) (p, q, n, out))"
proof -
  have s: "settled env nd w" "buffers_of (input_buffer w) nd" "pending (input_buffer w) 0 = p"
    "pending (input_buffer w) (nd_router nd) = q" "w_net w = n" "w_stdout w = out"
    using w by (simp_all add: node_is_def)
  have pre: "wrap_sizes env w (nd_mtu nd)" "input_ok (input_buffer w) (nd_mtu nd) 0" "kh_n_buckets (input_buffer w) \<le> 2 ^ 30"
    using s(1,2) by (simp_all add: settled_def buffers_of_def)
  have key: "fd_key (nd_router nd) \<noteq> fd_key 0" using s(1) by (intro two_keys) (simp_all add: settled_def)
  obtain h x block t where g: "getLocalBuffer env w 0 = Inr (w\<lparr>input_buffer := h\<rparr>, x)" "kh_full h" "kh_holds h x (fd_key 0)"
    "kh_value h x = Inr \<lparr>lb_buffer = Some block, lb_tail = Some t\<rparr>"
    "kh_abs h = (kh_abs (input_buffer w))(fd_key 0 \<mapsto> \<lparr>lb_buffer = Some block, lb_tail = Some t\<rparr>)"
    "length block = nd_mtu nd * 20" "t \<le> nd_mtu nd * 20" "take t block = pending (input_buffer w) 0"
    "kh_n_buckets h \<le> max (kh_n_buckets (input_buffer w)) (max 4 (4 * card (dom (kh_abs (input_buffer w)))))"
    using getLocalBuffer_spec [OF pre] by blast
  obtain v where rd: "read_into avail (Some block) t (free_bytes (w\<lparr>input_buffer := h\<rparr>) t) = Inr (Some block, v)" "v < 1"
    using none by (auto simp: read_into_def)
  show ?thesis
  proof (cases up)
    case True
    obtain h' where h': "kh_set_value h x \<lparr>lb_buffer = None, lb_tail = None\<rparr> = Inr h'" using kh_set_full [OF g(2,3)] by blast
    have "kh_ok h" using g(2) by (simp add: kh_full_def)
    then have x: "kh_get h (fd_key 0) = Inr x" "x \<noteq> kh_end h" using kh_get_holds [OF g(2,3)] kh_holdsD(9) [OF _ g(3)] by auto
    have d: "destroyLocalBuffer (w\<lparr>input_buffer := h\<rparr>) 0 = Inr (w\<lparr>input_buffer := h'\<rparr>)"
      using x h' g(4) by (simp add: destroyLocalBuffer_def)
    have sink: "sink_scan (kh_end (sinkTable w)) (sinkTable w) 0 0 = Inr (sinkTable w)"
      using s(1) by (simp add: settled_def kh_full_init)
    have "w\<lparr>input_buffer := h, sinkTable := sinkTable w\<rparr> = w\<lparr>input_buffer := h\<rparr>" by simp
    then show ?thesis using True g(1,4) d sink up rd
      by (auto simp: handleLocalData_def used_bytes_def Let_def)
  next
    case False
    have h: "input_ok h (nd_mtu nd) 0" "pending h 0 = p" "\<forall>k. k \<noteq> fd_key 0 \<longrightarrow> kh_abs h k = kh_abs (input_buffer w) k"
      using g(2,5-8) s(3) by (simp_all add: input_ok_def pending_def buffer_ok_def buffer_bytes_def)
    have "buffers_of h nd" by (rule buffers_step(1) [OF s(2) _ h(1,3) g(9)]) simp
    moreover have "pending h (nd_router nd) = q"
      unfolding s(4) [symmetric] by (rule buffers_step(2) [OF s(2) _ h(1,3) g(9) key]) simp
    ultimately have "node_is env nd (w\<lparr>input_buffer := h\<rparr>) (p, q, n, out)"
      using s h(2) by (simp add: node_is_def settled_def wrap_sizes_def)
    then show ?thesis using False g(1,4) up rd by (auto simp: handleLocalData_def used_bytes_def Let_def)
  qed
qed

lemma end_round:
  assumes "node_is env nd w (p, q, n, out)" "exhausted a"
  shows "\<exists>w'. wrap_act env a (w, False) = Inr (w', hung_up env a) \<and> w_net w' = n \<and> w_stdout w' = out \<and>
    (\<not> hung_up env a \<longrightarrow> node_is env nd w' (p, q, n, out))"
proof -
  obtain evs avail where a: "a = (evs, avail)" by (cases a)
  let ?w = "w\<lparr>stream_fd := poll_results evs (stream_fd w)\<rparr>" and ?up = "hung_up env a"
  have s: "map poll_fd (stream_fd w) = 0 # nd_router nd # replicate 254 (-1)" "0 < nd_router nd" "router_fd w = nd_router nd"
    "arg_address (w_config w) \<noteq> 0" "w_net w = n" "w_stdout w = out"
    using assms(1) by (simp_all add: node_is_def settled_def)
  note ps = polls_cases [OF s(1,2), of evs]
  have now: "node_is env nd ?w (p, q, n, out)" using node_is_polls assms(1) s(1) ps(4) by simp
  have ready: "evs 0 \<noteq> 0" and none: "avail 0 = None \<or> avail 0 = Some []" using assms(2) a by (auto simp: exhausted_def)
  have up: "?up \<longleftrightarrow> evs 0 AND POLLNVAL = POLLNVAL \<or> evs 0 AND POLLHUP = POLLHUP \<or> \<not> wo_valid env 0"
    by (simp add: hung_up_def a)
  obtain h where h: "handleLocalData env ?w 0 (evs 0) (avail 0) = Inr (?w\<lparr>input_buffer := h\<rparr>, if ?up then -1 else 0, ?up)"
    "\<not> ?up \<longrightarrow> node_is env nd (?w\<lparr>input_buffer := h\<rparr>) (p, q, n, out)"
    using input_exhausted [OF now none up] by (elim exE conjE) (rule that)
  have "getRouterFD env ?w = (?w, nd_router nd)" using s(2,3) by (simp add: getRouterFD_def)
  then have "wrap_act env a (w, False) = Inr (settle (?w\<lparr>input_buffer := h\<rparr>) 0 (if ?up then -1 else 0), ?up)"
    using ps(1,5) ready first_two [OF ps(4)] s(2,4) h(1) unfolding a by (simp add: wrap_round_def Let_def)
  moreover have "\<not> ?up \<longrightarrow> node_is env nd (settle (?w\<lparr>input_buffer := h\<rparr>) 0 0) (p, q, n, out)"
    using h(2) settle_is by blast
  ultimately show ?thesis using s(5,6) by (simp add: settle_def)
qed

lemma exhausted_rounds:
  "\<forall>a\<in>set overs. exhausted a \<Longrightarrow> node_is env nd w (p, q, n, out) \<Longrightarrow>
   \<exists>w'. exec (wrap_act env) overs (w, False) = Inr (w', \<exists>a\<in>set overs. hung_up env a) \<and> w_net w' = n \<and> w_stdout w' = out \<and>
     ((\<forall>a\<in>set overs. \<not> hung_up env a) \<longrightarrow> pending (input_buffer w') 0 = p)"
proof (induction overs arbitrary: w)
  case Nil
  then show ?case by (simp add: node_is_def)
next
  case (Cons a overs)
  obtain w1 where w1: "wrap_act env a (w, False) = Inr (w1, hung_up env a)" "w_net w1 = n" "w_stdout w1 = out"
    "\<not> hung_up env a \<longrightarrow> node_is env nd w1 (p, q, n, out)"
    using end_round [OF Cons.prems(2)] Cons.prems(1) by (metis list.set_intros(1))
  show ?case
  proof (cases "hung_up env a")
    case True
    then show ?thesis using w1 exec_ended [of "(w1, True)" env overs] by (simp del: wrap_act.simps)
  next
    case False
    then show ?thesis using w1 Cons.IH [of w1] Cons.prems(1) by (simp del: wrap_act.simps)
  qed
qed

section \<open>Starting the node\<close>

definition node_options :: "string \<Rightarrow> string \<Rightarrow> (wrap_opt \<times> string) list" where
  "node_options a d = [(ARG_ADDRESS, a), (ARG_DELIMITER, d), (ARG_INPUT, []), (ARG_OUTPUT, [])]"

definition node_of :: "wrap_os \<Rightarrow> nat \<Rightarrow> string \<Rightarrow> string \<Rightarrow> node" where
  "node_of env m a d = \<lparr>nd_mtu = m, nd_delim = delimiter_option d, nd_address = ucast (strtoul a 16),
     nd_router = wo_connect env 0\<rparr>"

definition node_start :: "wrap_os \<Rightarrow> node \<Rightarrow> node_state" where
  "node_start env nd = ([], [], net_command (wo_write env) (w_net (wrap_init (int (nd_mtu nd)))) (nd_router nd) GNW_COMMAND
     (GNW_CMD_NEW_ADDRESS # bytes32 (nd_address nd)), [])"

definition node_usable :: "wrap_os \<Rightarrow> node \<Rightarrow> bool" where
  "node_usable env nd \<longleftrightarrow> nd_address nd \<noteq> 0 \<and> 0 < nd_router nd \<and> nd_router nd < 2 ^ 31 \<and> 0 < nd_mtu nd \<and>
     nd_mtu nd * 20 < 2 ^ 31 \<and> (\<forall>n. length (wo_malloc env n) = n)"

lemma node_starts:
  assumes nd: "nd = node_of env m a d" and ok: "node_usable env nd"
  shows "\<exists>w. node_is env nd w (node_start env nd) \<and>
    (\<forall>access env_path rounds. graph_main env access env_path (int m) (node_options a d) [] rounds =
      andThen (wrap_run env rounds (w, False)) (\<lambda>(w, status). Inr (wrap_close env (nd_router nd) w, status)))"
proof -
  let ?i = "wrap_init (int m)" and ?p = "\<lparr>poll_fd = IGNORE_FD, poll_events = 0, poll_revents = 0\<rparr>"
  let ?rfd = "wo_connect env 0"
  have fds: "stream_fd ?i = ?p # ?p # replicate 254 ?p"
    by (simp add: wrap_init_def MAX_INPUT_STREAMS_def eval_nat_numeral)
  define c where "c = (w_config ?i)\<lparr>arg_address := ucast (strtoul a 16), arg_delimiter := delimiter_option d, arg_echo := True\<rparr>"
  define w1 where "w1 = ?i\<lparr>w_config := c, demux_mode := DEMUX_MERGE,
    stream_fd := ?p\<lparr>poll_fd := 0, poll_events := POLLIN\<rparr> # ?p # replicate 254 ?p\<rparr>"
  have opt: "wrap_options ?i (node_options a d) = Inr w1"
    by (simp add: node_options_def addNewWatch_def fds w1_def IGNORE_FD_def c_def)
  define w2 where "w2 = w1\<lparr>router_fd := ?rfd, w_connects := 1,
    stream_fd := ?p\<lparr>poll_fd := 0, poll_events := POLLIN\<rparr> # ?p\<lparr>poll_fd := ?rfd, poll_events := POLLIN\<rparr> # replicate 254 ?p,
    w_net := net_command (wo_write env) (w_net ?i) ?rfd GNW_COMMAND (GNW_CMD_NEW_ADDRESS # bytes32 (nd_address nd))\<rparr>"
  have i: "router_fd ?i = -1" "w_connects ?i = 0" "arg_immediate (w_config ?i) = False" "w_stdout ?i = []"
    "network_mtu (w_config ?i) = int m"
    by (simp_all add: wrap_init_def default_config_def)
  have nds: "nd_address nd = ucast (strtoul a 16)" "nd_router nd = ?rfd" "nd_mtu nd = m" "nd_delim nd = delimiter_option d"
    using nd by (simp_all add: node_of_def)
  have live: "go_live env w1 = Inr (w2, ?rfd)"
    using ok nds
    by (simp add: go_live_def getRouterFD_def Let_def w1_def w2_def i addNewWatch_def IGNORE_FD_def c_def node_usable_def
        request_address_eq)
  have "node_is env nd w2 (node_start env nd)"
    using ok nds
    by (simp add: node_is_def settled_def buffers_of_def node_start_def w2_def w1_def c_def i wrap_init_input input_ok_init
        kh_full_init wrap_sizes_def node_usable_def IGNORE_FD_def)
  then show ?thesis using opt live nds(2)
    by (intro exI [of _ w2]) (simp add: graph_main_def inner_binary_def)
qed

section \<open>What a run sends and prints\<close>

text \<open>All that was read from standard input, and all that came from the router.\<close>

fun inputs :: "poll_answer list \<Rightarrow> u8 list" where
  "inputs [] = []"
| "inputs ((evs, avail) # as) = (if evs 0 \<noteq> 0 then the (avail 0) else []) @ inputs as"

fun arrivals :: "int \<Rightarrow> poll_answer list \<Rightarrow> u8 list" where
  "arrivals rfd [] = []"
| "arrivals rfd ((evs, avail) # as) = (if evs 0 = 0 \<and> evs rfd \<noteq> 0 then the (avail rfd) else []) @ arrivals rfd as"

lemma node_rounds_trace:
  assumes "\<forall>fd bs. wo_write env fd bs = int (length bs)"
  shows "node_rounds env nd x as y \<Longrightarrow> piece (is_delim (nd_delim nd)) (fst x) \<Longrightarrow>
    \<exists>ps fs. cuts (is_delim (nd_delim nd)) (fst x) (inputs as) = (ps, fst y) \<and>
      sent (fst (snd (snd y))) = sent (fst (snd (snd x))) @
        map (\<lambda>p. (nd_router nd, frame_bytes GNW_DATA (nd_address nd) p)) ps \<and>
      fst (snd x) @ arrivals (nd_router nd) as = wire fs @ fst (snd y) \<and>
      snd (snd (snd y)) = snd (snd (snd x)) @ concat (map shown fs) \<and> short_frames nd fs \<and>
      (incomplete (fst (snd x)) \<longrightarrow> incomplete (fst (snd y)))"
proof (induction rule: steps.induct)
  case (stop x)
  then show ?case by (intro exI [of _ "[]"]) (simp add: short_frames_def)
next
  case (more x a y as z)
  let ?P = "is_delim (nd_delim nd)" and ?fr = "\<lambda>p. (nd_router nd, frame_bytes GNW_DATA (nd_address nd) p)"
  have one: "\<exists>ps fs. cuts ?P (fst x) (inputs [a]) = (ps, fst y) \<and> piece ?P (fst y) \<and>
      sent (fst (snd (snd y))) = sent (fst (snd (snd x))) @ map ?fr ps \<and>
      fst (snd x) @ arrivals (nd_router nd) [a] = wire fs @ fst (snd y) \<and>
      snd (snd (snd y)) = snd (snd (snd x)) @ concat (map shown fs) \<and> short_frames nd fs \<and>
      (incomplete (fst (snd x)) \<longrightarrow> incomplete (fst (snd y)))"
    using more.hyps(1)
  proof (cases rule: node_round.cases)
    case (idle evs p q n out avail)
    then show ?thesis using more.prems by (intro exI [of _ "[]"]) (simp add: short_frames_def)
  next
    case (input evs avail c p ps r q n out)
    have piece: "piece ?P p" using more.prems input(1) by simp
    then have c: "cuts ?P p c = (ps, r)" using cuts_restart [OF piece, of c] input(8) by simp
    then have "piece ?P r" using cuts_rest_piece [OF piece, of c] by simp
    then show ?thesis using input c sent_fold_emit [OF assms]
      by (intro exI [of _ ps] exI [of _ "[]"]) (simp add: short_frames_def)
  next
    case (packets evs avail c q fs part p n out)
    have "short_frames nd fs" by (rule short_framesI [of _ part]) (use packets in simp)
    then show ?thesis using packets more.prems by (intro exI [of _ "[]"] exI [of _ fs]) simp
  qed
  then obtain ps fs where o: "cuts ?P (fst x) (inputs [a]) = (ps, fst y)" "piece ?P (fst y)"
    "sent (fst (snd (snd y))) = sent (fst (snd (snd x))) @ map ?fr ps"
    "fst (snd x) @ arrivals (nd_router nd) [a] = wire fs @ fst (snd y)"
    "snd (snd (snd y)) = snd (snd (snd x)) @ concat (map shown fs)" "short_frames nd fs"
    "incomplete (fst (snd x)) \<longrightarrow> incomplete (fst (snd y))"
    by (elim exE conjE) (rule that)
  obtain ps' fs' where r: "cuts ?P (fst y) (inputs as) = (ps', fst z)"
    "sent (fst (snd (snd z))) = sent (fst (snd (snd y))) @ map ?fr ps'"
    "fst (snd y) @ arrivals (nd_router nd) as = wire fs' @ fst (snd z)"
    "snd (snd (snd z)) = snd (snd (snd y)) @ concat (map shown fs')" "short_frames nd fs'"
    "incomplete (fst (snd y)) \<longrightarrow> incomplete (fst (snd z))"
    using more.IH [OF o(2)] by (elim exE conjE) (rule that)
  have split: "inputs (a # as) = inputs [a] @ inputs as" "arrivals (nd_router nd) (a # as) = arrivals (nd_router nd) [a] @ arrivals (nd_router nd) as"
    by (cases a; simp)+
  have "cuts ?P (fst x) (inputs (a # as)) = (ps @ ps', fst z)" unfolding split cuts_append o(1) using r(1) by simp
  moreover have "fst (snd x) @ arrivals (nd_router nd) (a # as) = wire (fs @ fs') @ fst (snd z)"
    unfolding split using o(4) r(3) by (metis append.assoc concat_append map_append)
  moreover have "short_frames nd (fs @ fs')" using o(6) r(5) by (auto simp: short_frames_def)
  ultimately show ?case using o(3,5,7) r(2,4,6) by (intro exI [of _ "ps @ ps'"] exI [of _ "fs @ fs'"]) simp
qed

lemma claim_sent:
  assumes "\<forall>fd bs. wo_write env fd bs = int (length bs)"
  shows "sent (fst (snd (snd (node_start env nd)))) =
    [(nd_router nd, message_bytes (Claim (nd_address nd)))]"
  using assms by (simp add: node_start_def net_command_def net_emit_def wrap_init_def frame_bytes_def)

lemma node_trace:
  assumes "node_rounds env nd (node_start env nd) rounds (p, q, n, out)" "\<forall>fd bs. wo_write env fd bs = int (length bs)"
  shows "\<exists>ps fs. cut_at (is_delim (nd_delim nd)) (inputs rounds) ps p \<and>
    sent n = (nd_router nd, message_bytes (Claim (nd_address nd))) #
      map (\<lambda>p. (nd_router nd, frame_bytes GNW_DATA (nd_address nd) p)) ps \<and>
    arrivals (nd_router nd) rounds = wire fs @ q \<and> out = concat (map shown fs) \<and> short_frames nd fs \<and> incomplete q"
proof -
  have start: "fst (node_start env nd) = []" "fst (snd (node_start env nd)) = []" "snd (snd (snd (node_start env nd))) = []"
    by (simp_all add: node_start_def)
  have piece: "piece (is_delim (nd_delim nd)) []" by (simp add: piece_def)
  obtain ps fs where t: "cuts (is_delim (nd_delim nd)) [] (inputs rounds) = (ps, p)"
    "sent n = sent (fst (snd (snd (node_start env nd)))) @ map (\<lambda>p. (nd_router nd, frame_bytes GNW_DATA (nd_address nd) p)) ps"
    "arrivals (nd_router nd) rounds = wire fs @ q" "out = concat (map shown fs)" "short_frames nd fs"
    "incomplete [] \<longrightarrow> incomplete q"
    using node_rounds_trace [OF assms(2,1)] piece unfolding start by auto
  have "cut_at (is_delim (nd_delim nd)) (inputs rounds) ps p" using cuts_cut_at [OF piece, of "inputs rounds"] t(1) by simp
  then show ?thesis using t(2-6) claim_sent [OF assms(2), of nd]
    by (intro exI [of _ ps] exI [of _ fs]) (simp add: incomplete_def)
qed

lemma node_run:
  assumes "nd = node_of env m a d" "node_usable env nd" "\<forall>fd bs. wo_write env fd bs = int (length bs)"
    and "node_rounds env nd (node_start env nd) rounds (p, q, n, out)"
  shows "\<exists>w ps fs. graph_main env access env_path (int m) (node_options a d) [] rounds = Inr (w, False) \<and>
    w_net w = n \<and> short_frames nd fs \<and> incomplete q \<and>
    sent (w_net w) = (nd_router nd, message_bytes (Claim (nd_address nd))) #
      map (\<lambda>p. (nd_router nd, frame_bytes GNW_DATA (nd_address nd) p)) ps \<and>
    cut_at (is_delim (nd_delim nd)) (inputs rounds) ps p \<and>
    w_stdout w = concat (map shown fs) \<and> arrivals (nd_router nd) rounds = wire fs @ q \<and>
    pending (input_buffer w) 0 = p \<and> pending (input_buffer w) (nd_router nd) = q"
proof -
  obtain ps fs where t: "cut_at (is_delim (nd_delim nd)) (inputs rounds) ps p" "sent n =
      (nd_router nd, message_bytes (Claim (nd_address nd))) # map (\<lambda>p. (nd_router nd, frame_bytes GNW_DATA (nd_address nd) p)) ps"
    "arrivals (nd_router nd) rounds = wire fs @ q" "out = concat (map shown fs)"
    "short_frames nd fs" "incomplete q"
    using node_trace [OF assms(4,3)] by blast
  obtain w0 where w0: "node_is env nd w0 (node_start env nd)"
    "graph_main env access env_path (int m) (node_options a d) [] rounds =
      andThen (wrap_run env rounds (w0, False)) (\<lambda>(w, status). Inr (wrap_close env (nd_router nd) w, status))"
    using node_starts [OF assms(1,2)] by blast
  obtain w1 where w1: "node_is env nd w1 (p, q, n, out)" "wrap_run env (rounds @ []) (w0, False) = wrap_run env [] (w1, False)"
    using rounds_simulates [OF assms(4) w0(1)] by blast
  have "graph_main env access env_path (int m) (node_options a d) [] rounds = Inr (wrap_close env (nd_router nd) w1, False)"
    using w0(2) w1(2) by simp
  then show ?thesis using w1(1) t
    by (intro exI [of _ "wrap_close env (nd_router nd) w1"] exI [of _ ps] exI [of _ fs]) (simp add: node_is_def wrap_close_def)
qed

text \<open>
  C17: The whole process of a node. Started with \<open>--address\<close>, \<open>--input\<close> and \<open>--output\<close>, and whatever becomes
  ready in whatever order, the node claims its address, sends the pieces of all it has read but the one
  still pending, each as one data packet, and prints the payloads of the data packets in all that came from
  the router but for the incomplete rest: the two directions do not disturb each other.
\<close>

theorem node_process:
  assumes "nd = node_of env m a d" "node_usable env nd" "\<forall>fd bs. wo_write env fd bs = int (length bs)"
    and "node_rounds env nd (node_start env nd) rounds (p, q, n, out)"
  shows "\<exists>w ps fs. graph_main env access env_path (int m) (node_options a d) [] rounds = Inr (w, False) \<and>
    sent (w_net w) = (nd_router nd, message_bytes (Claim (nd_address nd))) #
      map (\<lambda>p. (nd_router nd, frame_bytes GNW_DATA (nd_address nd) p)) ps \<and>
    cut_at (is_delim (nd_delim nd)) (inputs rounds) ps p \<and>
    w_stdout w = concat (map shown fs) \<and> arrivals (nd_router nd) rounds = wire fs @ q \<and>
    pending (input_buffer w) 0 = p \<and> pending (input_buffer w) (nd_router nd) = q"
  using node_run [OF assms] by blast

text \<open>
  C18: The end of the input loses its last piece. Once standard input has ended - \<open>poll\<close> reports it and
  \<open>read\<close> finds nothing - the node never sends what was pending: everything behind the last delimiter, the
  whole stream when it has none. When \<open>poll\<close> reports a hang-up, as for a pipe, or the descriptor is not valid, the
  node stops. Otherwise, as at the end of a redirected file, the node neither stops nor sends the
  piece, and as standard input is ready before the router in every round, it prints nothing more of what
  the router sends, whatever there is to read.
\<close>

theorem input_end_loses_piece:
  assumes "nd = node_of env m a d" "node_usable env nd" "\<forall>fd bs. wo_write env fd bs = int (length bs)"
    and "node_rounds env nd (node_start env nd) rounds (p, q, n, out)"
    and "\<forall>a\<in>set overs. exhausted a" "later = [] \<or> (\<exists>a\<in>set overs. hung_up env a)"
  shows "\<exists>w ps. graph_main env access env_path (int m) (node_options a d) [] (rounds @ overs @ later) =
      Inr (w, \<exists>a\<in>set overs. hung_up env a) \<and>
    sent (w_net w) = (nd_router nd, message_bytes (Claim (nd_address nd))) #
      map (\<lambda>p. (nd_router nd, frame_bytes GNW_DATA (nd_address nd) p)) ps \<and>
    cut_at (is_delim (nd_delim nd)) (inputs rounds) ps p \<and> w_stdout w = out \<and>
    ((\<forall>a\<in>set overs. \<not> hung_up env a) \<longrightarrow> pending (input_buffer w) 0 = p)"
proof -
  let ?up = "\<exists>a\<in>set overs. hung_up env a"
  obtain ps where t: "cut_at (is_delim (nd_delim nd)) (inputs rounds) ps p" "sent n =
      (nd_router nd, message_bytes (Claim (nd_address nd))) # map (\<lambda>p. (nd_router nd, frame_bytes GNW_DATA (nd_address nd) p)) ps"
    using node_trace [OF assms(4,3)] by blast
  obtain w0 where w0: "node_is env nd w0 (node_start env nd)"
    "graph_main env access env_path (int m) (node_options a d) [] (rounds @ overs @ later) =
      andThen (wrap_run env (rounds @ overs @ later) (w0, False)) (\<lambda>(w, status). Inr (wrap_close env (nd_router nd) w, status))"
    using node_starts [OF assms(1,2)] by blast
  obtain w1 where w1: "node_is env nd w1 (p, q, n, out)"
    "wrap_run env (rounds @ overs @ later) (w0, False) = wrap_run env (overs @ later) (w1, False)"
    using rounds_simulates [OF assms(4) w0(1)] by blast
  obtain w2 where w2: "exec (wrap_act env) overs (w1, False) = Inr (w2, ?up)" "w_net w2 = n" "w_stdout w2 = out"
    "(\<forall>a\<in>set overs. \<not> hung_up env a) \<longrightarrow> pending (input_buffer w2) 0 = p"
    using exhausted_rounds [OF assms(5) w1(1)] by (elim exE conjE) (rule that)
  have "exec (wrap_act env) later (w2, ?up) = Inr (w2, ?up)"
    using assms(6) by (rule disjE) (simp, rule exec_ended, simp)
  then have "wrap_run env (overs @ later) (w1, False) = Inr (w2, ?up)"
    by (simp only: wrap_run_exec exec_append w2(1) andThen.simps)
  then have "graph_main env access env_path (int m) (node_options a d) [] (rounds @ overs @ later) =
      Inr (wrap_close env (nd_router nd) w2, ?up)"
    using w0(2) w1(2) by simp
  then show ?thesis using w2(2-4) t by (intro exI [of _ "wrap_close env (nd_router nd) w2"] exI [of _ ps]) (simp add: wrap_close_def)
qed

section \<open>A node at work\<close>

definition sample_node :: node where
  "sample_node = node_of plain_wrap_os 1500 ''a'' [CHR 0x0A]"

definition sample_rounds :: "poll_answer list" where
  "sample_rounds = [((\<lambda>fd. if fd = 0 then POLLIN else 0), (\<lambda>fd. Some [65, 10, 66])),
     ((\<lambda>fd. if fd = 3 then POLLIN else 0), (\<lambda>fd. Some (frame_bytes GNW_DATA 7 [70])))]"

lemma sample_node_usable: "node_usable plain_wrap_os sample_node" "nd_router sample_node = 3" "nd_mtu sample_node = 1500"
  "is_delim (nd_delim sample_node) b \<longleftrightarrow> b = 10"
proof -
  have "sint (10 :: u8) = uint (10 :: u8)" by simp
  then show "is_delim (nd_delim sample_node) b \<longleftrightarrow> b = 10"
    by (simp add: is_delim_def sample_node_def node_of_def delimiter_option_def char_at_def byte_of_def word_uint_eq_iff)
qed (simp_all add: node_usable_def sample_node_def node_of_def plain_wrap_os_def strtoul_def digit_value_def ULONG_MAX_def Let_def)

lemma sample_rounds_run:
  "\<exists>n. node_rounds plain_wrap_os sample_node (node_start plain_wrap_os sample_node) sample_rounds ([10, 66], [], n, [70])"
proof -
  define n0 where "n0 = fst (snd (snd (node_start plain_wrap_os sample_node)))"
  let ?n1 = "fold (emit_data (wo_write plain_wrap_os) 3 (nd_address sample_node)) [[65]] n0"
  have start: "node_start plain_wrap_os sample_node = ([], [], n0, [])" by (simp add: n0_def node_start_def)
  have cut: "cuts (is_delim (nd_delim sample_node)) [] ([] @ [65, 10, 66]) = ([[65]], [10, 66])"
    by (simp add: sample_node_usable(4))
  have one: "node_round plain_wrap_os sample_node ([], [], n0, []) (sample_rounds ! 0) ([10, 66], [], ?n1, [])"
    using node_round.input [OF _ _ _ _ cut, of "\<lambda>fd. if fd = 0 then POLLIN else 0" "\<lambda>fd. Some [65, 10, 66]" plain_wrap_os "[]" n0 "[]"]
    by (simp add: sample_rounds_def sample_node_usable poll_flags)
  have two: "node_round plain_wrap_os sample_node ([10, 66], [], ?n1, []) (sample_rounds ! 1) ([10, 66], [], ?n1, [70])"
    using node_round.packets [of "\<lambda>fd. if fd = 3 then POLLIN else 0" sample_node "\<lambda>fd. Some (frame_bytes GNW_DATA 7 [70])"
        "frame_bytes GNW_DATA 7 [70]" "[]" "[(GNW_DATA, 7, [70])]" "[]" plain_wrap_os "[10, 66]" ?n1 "[]"]
    by (simp add: sample_rounds_def sample_node_usable poll_flags wire1_def incomplete_def shown_def frame_bytes_def)
  have "sample_rounds = [sample_rounds ! 0, sample_rounds ! 1]" by (simp add: sample_rounds_def)
  then have "node_rounds plain_wrap_os sample_node ([], [], n0, []) sample_rounds ([10, 66], [], ?n1, [70])"
    using node_more [OF one node_more [OF two steps.stop]] by (simp only:)
  then show ?thesis unfolding start by (rule exI)
qed

theorem node_process_witness:
  "\<exists>w ps fs. graph_main plain_wrap_os (\<lambda>p. True) None 1500 (node_options ''a'' [CHR 0x0A]) [] sample_rounds = Inr (w, False) \<and>
     cut_at (is_delim (nd_delim sample_node)) [65, 10, 66] ps [10, 66] \<and> pending (input_buffer w) 0 = [10, 66] \<and>
     frame_bytes GNW_DATA 7 [70] = wire fs \<and> w_stdout w = concat (map shown fs)"
proof -
  obtain n where r: "node_rounds plain_wrap_os sample_node (node_start plain_wrap_os sample_node) sample_rounds ([10, 66], [], n, [70])"
    using sample_rounds_run by blast
  have wr: "\<forall>fd bs. wo_write plain_wrap_os fd bs = int (length bs)" by (simp add: plain_wrap_os_def)
  have stream: "inputs sample_rounds = [65, 10, 66]" "arrivals 3 sample_rounds = frame_bytes GNW_DATA 7 [70]"
    by (simp_all add: sample_rounds_def poll_flags)
  show ?thesis
    using node_process [OF sample_node_def sample_node_usable(1) wr r, of "\<lambda>p. True" None]
    unfolding sample_node_usable(2) stream append_Nil2 of_nat_numeral by (elim exE conjE) (intro exI conjI)
qed

theorem input_end_loses_piece_witness:
  "(\<exists>w. graph_main plain_wrap_os (\<lambda>p. True) None 1500 (node_options ''a'' [CHR 0x0A]) []
       (sample_rounds @ [((\<lambda>fd. POLLHUP), (\<lambda>fd. None))] @ sample_rounds) = Inr (w, True) \<and>
     concat (map (drop 11 \<circ> snd) (tl (sent (w_net w)))) @ [10, 66] = [65, 10, 66]) \<and>
   (\<exists>w. graph_main plain_wrap_os (\<lambda>p. True) None 1500 (node_options ''a'' [CHR 0x0A]) []
       (sample_rounds @ replicate 5 ((\<lambda>fd. POLLIN), (\<lambda>fd. if fd = 3 then Some (frame_bytes GNW_DATA 7 [71]) else Some []))) = Inr (w, False) \<and>
     concat (map (drop 11 \<circ> snd) (tl (sent (w_net w)))) @ pending (input_buffer w) 0 = [65, 10, 66] \<and> w_stdout w = [70])"
proof -
  obtain n where r: "node_rounds plain_wrap_os sample_node (node_start plain_wrap_os sample_node) sample_rounds ([10, 66], [], n, [70])"
    using sample_rounds_run by blast
  have wr: "\<forall>fd bs. wo_write plain_wrap_os fd bs = int (length bs)" by (simp add: plain_wrap_os_def)
  have stream: "inputs sample_rounds = [65, 10, 66]" by (simp add: sample_rounds_def poll_flags)
  let ?gone = "((\<lambda>fd. POLLHUP), (\<lambda>fd. None)) :: poll_answer"
  let ?file = "((\<lambda>fd. POLLIN), (\<lambda>fd. if fd = 3 then Some (frame_bytes GNW_DATA 7 [71]) else Some [])) :: poll_answer"
  have gone: "\<forall>a\<in>set [?gone]. exhausted a" "sample_rounds = [] \<or> (\<exists>a\<in>set [?gone]. hung_up plain_wrap_os a)"
    "(\<exists>a\<in>set [?gone]. hung_up plain_wrap_os a) = True"
    by (simp_all add: exhausted_def hung_up_def poll_flags)
  have at_end: "\<forall>a\<in>set (replicate 5 ?file). exhausted a" "(\<exists>a\<in>set (replicate 5 ?file). hung_up plain_wrap_os a) = False"
    "\<forall>a\<in>set (replicate 5 ?file). \<not> hung_up plain_wrap_os a"
    by (simp_all add: exhausted_def hung_up_def POLLIN_def POLLHUP_def POLLNVAL_def plain_wrap_os_def)
  have payload: "drop 11 (frame_bytes t s pl) = pl" for t s pl by (simp add: frame_bytes_def)
  show ?thesis
  proof
    show "\<exists>w. graph_main plain_wrap_os (\<lambda>p. True) None 1500 (node_options ''a'' [CHR 0x0A]) []
       (sample_rounds @ [?gone] @ sample_rounds) = Inr (w, True) \<and>
     concat (map (drop 11 \<circ> snd) (tl (sent (w_net w)))) @ [10, 66] = [65, 10, 66]"
      using input_end_loses_piece [OF sample_node_def sample_node_usable(1) wr r gone(1,2), of "\<lambda>p. True" None]
      unfolding stream cut_at_def gone(3) by (auto simp: comp_def payload)
    show "\<exists>w. graph_main plain_wrap_os (\<lambda>p. True) None 1500 (node_options ''a'' [CHR 0x0A]) []
       (sample_rounds @ replicate 5 ?file) = Inr (w, False) \<and>
     concat (map (drop 11 \<circ> snd) (tl (sent (w_net w)))) @ pending (input_buffer w) 0 = [65, 10, 66] \<and> w_stdout w = [70]"
      using input_end_loses_piece [OF sample_node_def sample_node_usable(1) wr r at_end(1) disjI1 [OF refl], of "\<lambda>p. True" None] at_end(3)
      unfolding stream cut_at_def at_end(2) by (auto simp: comp_def payload)
  qed
qed

end
