(* ===== verification/Processes.thy ===== *)
theory Processes
  imports NodeRun
begin

text \<open>
  Three processes: a node that reads a stream, the router, and a node that prints what arrives. Each is
  run from its start by its own loop; the bytes one writes are the bytes the next one reads.
\<close>

section \<open>A stream of frames has one parse\<close>




section \<open>The router between two nodes\<close>












section \<open>Three processes at work\<close>














end
