(* ===== verification/ArgTest.thy ===== *)
theory ArgTest
  imports Common GraphNetwork
begin

text \<open>
  \<open>ArgTest.c\<close>, the small program the demonstrations wrap: it prints a number of messages, each a block of
  question marks or the time, and with \<open>-w\<close> waits for a line of input before each. An option arrives as
  its letter with its argument, as \<open>getopt\<close> decodes it. Standard input is the list of its characters, what
  \<open>asctime\<close> gives and whether \<open>malloc\<close> succeeds are arguments; the delays are left out.
\<close>

section \<open>The options\<close>

text \<open>\<open>preBuffer\<close> is the block with its zero; \<open>None\<close> as long as there is no \<open>-s\<close>.\<close>

record argtest =
  waitFor :: bool
  dataLength :: u64
  interval :: u64
  messages :: u64
  pauseForSec :: u64
  delimiter :: string
  preBuffer :: "string option"

definition argtest_default :: argtest where
  "argtest_default = \<lparr>waitFor = False, dataLength = 0, interval = 1000000, messages = 10, pauseForSec = 0,
     delimiter = [CHR 0x0A], preBuffer = None\<rparr>"

datatype argtest_opt = OptPause | OptSize | OptDelim | OptInterval | OptCount | OptWait | OptOther

text \<open>
  \<open>-s\<close>: \<open>malloc( n + 1 )\<close>, all of it set to zero and the first \<open>n\<close> bytes to question marks. The sum
  wraps for the largest \<open>n\<close>.
\<close>

definition fill_buffer :: "(nat \<Rightarrow> bool) \<Rightarrow> u64 \<Rightarrow> string result" where
  "fill_buffer malloc n =
     (if \<not> malloc (unat (n + 1)) then Inl NullDeref
      else store_block (replicate (unat (n + 1)) (CHR 0x00)) 0 (replicate (unat n) (CHR ''?'')))"

fun argtest_option :: "(nat \<Rightarrow> bool) \<Rightarrow> argtest \<Rightarrow> argtest_opt \<times> string \<Rightarrow> argtest result" where
  "argtest_option malloc c (OptPause, optarg) = Inr (c\<lparr>pauseForSec := strtoul optarg 10\<rparr>)"
| "argtest_option malloc c (OptSize, optarg) =
     (let n = strtoul optarg 10 in
      andThen (fill_buffer malloc n) (\<lambda>b. Inr (c\<lparr>dataLength := n, preBuffer := Some b\<rparr>)))"
| "argtest_option malloc c (OptDelim, optarg) = Inr (c\<lparr>delimiter := optarg\<rparr>)"
| "argtest_option malloc c (OptInterval, optarg) = Inr (c\<lparr>interval := strtoul optarg 10\<rparr>)"
| "argtest_option malloc c (OptCount, optarg) = Inr (c\<lparr>messages := strtoul optarg 10\<rparr>)"
| "argtest_option malloc c (OptWait, optarg) = Inr (c\<lparr>waitFor := True\<rparr>)"
| "argtest_option malloc c (OptOther, optarg) = Inl (Exit 1)"

fun argtest_options :: "(nat \<Rightarrow> bool) \<Rightarrow> argtest \<Rightarrow> (argtest_opt \<times> string) list \<Rightarrow> argtest result" where
  "argtest_options malloc c [] = Inr c"
| "argtest_options malloc c (opt # opts) = andThen (argtest_option malloc c opt) (\<lambda>c. argtest_options malloc c opts)"

section \<open>The messages\<close>

text \<open>\<open>fgets( input, n, stdin )\<close>: up to and with the first newline, at most \<open>n - 1\<close> characters.\<close>

definition fgets :: "nat \<Rightarrow> string \<Rightarrow> string \<times> string" where
  "fgets n s = (let k = min (n - 1) (length (takeWhile (\<lambda>c. c \<noteq> CHR 0x0A) s) + 1) in (take k s, drop k s))"

text \<open>
  The string in the zeroed \<open>input\<close> after \<open>fgets\<close> and \<open>input[strlen(input)-1] = 0\<close>. An empty string, at the
  end of standard input or before a zero byte, has no last character: the index wraps to the largest one.
\<close>

definition read_input :: "string \<Rightarrow> (string \<times> string) result" where
  "read_input stdin =
     (let (line, stdin) = fgets 4096 stdin; input = c_string line in
      if input = [] then Inl OutOfBounds else Inr (butlast input, stdin))"

text \<open>What is printed in round \<open>cycles\<close>; the 25th character of the time is overwritten by a zero.\<close>

definition message_text :: "argtest \<Rightarrow> (nat \<Rightarrow> string) \<Rightarrow> nat \<Rightarrow> string \<Rightarrow> string" where
  "message_text c asctime cycles input =
     (if 0 < dataLength c then c_string (the (preBuffer c)) @ delimiter c
      else
        (let timeString = take 24 (asctime cycles) in
         if input = [] then decimal_nat cycles @ [CHR 0x09] @ timeString @ delimiter c
         else decimal_nat cycles @ [CHR 0x09] @ timeString @ [CHR 0x09] @ input @ delimiter c))"

lemma count_up:
  fixes c m :: "'a :: len word"
  assumes "c < m"
  shows "unat (c + 1) = Suc (unat c)"
proof -
  have "unat c < unat m" using assms by (simp add: word_less_nat_alt)
  moreover have "unat m < 2 ^ LENGTH('a)" by simp
  ultimately have "Suc (unat c) < 2 ^ LENGTH('a)" by linarith
  then show ?thesis by (simp add: unat_word_ariths)
qed

function argtest_loop :: "argtest \<Rightarrow> (nat \<Rightarrow> string) \<Rightarrow> u64 \<Rightarrow> string \<Rightarrow> string \<Rightarrow> string result" where
  "argtest_loop c asctime cycles stdin out =
     (if cycles < messages c then
        andThen (if waitFor c then read_input stdin else Inr ([], stdin)) (\<lambda>(input, stdin).
        argtest_loop c asctime (cycles + 1) stdin (out @ message_text c asctime (unat (cycles + 1)) input))
      else Inr out)"
  by pat_completeness auto
termination
  by (relation "measure (\<lambda>(c, _, cycles, _, _). unat (messages c) - unat cycles)")
    (auto simp: count_up word_less_nat_alt)

declare argtest_loop.simps [simp del]

definition argtest_main ::
    "(nat \<Rightarrow> bool) \<Rightarrow> (nat \<Rightarrow> string) \<Rightarrow> (argtest_opt \<times> string) list \<Rightarrow> string \<Rightarrow> string result" where
  "argtest_main malloc asctime opts stdin =
     andThen (argtest_options malloc argtest_default opts) (\<lambda>c. argtest_loop c asctime 0 stdin [])"

section \<open>What is printed\<close>

definition as_line :: "string \<Rightarrow> string" where "as_line l = l @ [CHR 0x0A]"

definition plain_line :: "string \<Rightarrow> bool" where
  "plain_line l \<longleftrightarrow> CHR 0x0A \<notin> set l \<and> CHR 0x00 \<notin> set l \<and> length l < 4095"

lemma read_input_line:
  assumes "plain_line l"
  shows "read_input (as_line l @ rest) = Inr (l, rest)"
proof -
  have "takeWhile (\<lambda>c. c \<noteq> CHR 0x0A) (as_line l @ rest) = l"
    unfolding as_line_def append.assoc by (subst takeWhile_append2) (use assms in \<open>auto simp: plain_line_def\<close>)
  moreover have "c_string (as_line l) = as_line l"
    using assms by (auto simp: c_string_def as_line_def plain_line_def takeWhile_eq_all_conv)
  ultimately show ?thesis
    using assms by (simp add: read_input_def fgets_def Let_def plain_line_def) (simp add: as_line_def)
qed

lemma read_input_end: "read_input [] = Inl OutOfBounds"
  by (simp add: read_input_def fgets_def c_string_def)

text \<open>The messages from round \<open>k + 1\<close> on, one for each line.\<close>

definition texts :: "argtest \<Rightarrow> (nat \<Rightarrow> string) \<Rightarrow> nat \<Rightarrow> string list \<Rightarrow> string" where
  "texts c asctime k ls = concat (map (\<lambda>(i, l). message_text c asctime (Suc i) l) (enumerate k ls))"

lemma texts_simps [simp]: "texts c asctime k [] = []"
  "texts c asctime k (l # ls) = message_text c asctime (Suc k) l @ texts c asctime (Suc k) ls"
  by (simp_all add: texts_def)

lemma loop_waits:
  "waitFor c \<Longrightarrow> \<forall>l\<in>set ls. plain_line l \<Longrightarrow> cycles \<le> messages c \<Longrightarrow>
   argtest_loop c asctime cycles (concat (map as_line ls)) out =
     (if unat (messages c) \<le> unat cycles + length ls
      then Inr (out @ texts c asctime (unat cycles) (take (unat (messages c) - unat cycles) ls))
      else Inl OutOfBounds)"
proof (induction ls arbitrary: cycles out)
  case Nil
  then show ?case
    by (subst argtest_loop.simps) (auto simp: read_input_end word_less_nat_alt word_le_nat_alt)
next
  case (Cons l ls)
  show ?case
  proof (cases "cycles < messages c")
    case False
    then have "unat (messages c) = unat cycles" using Cons.prems(3) by (simp add: word_less_nat_alt word_le_nat_alt)
    then show ?thesis using False by (subst argtest_loop.simps) simp
  next
    case True
    have u: "unat (cycles + 1) = Suc (unat cycles)" by (rule count_up [OF True])
    have le: "cycles + 1 \<le> messages c" using True u by (simp add: word_less_nat_alt word_le_nat_alt)
    have "read_input (concat (map as_line (l # ls))) = Inr (l, concat (map as_line ls))"
      using read_input_line [of l "concat (map as_line ls)"] Cons.prems(2) by simp
    then have step: "argtest_loop c asctime cycles (concat (map as_line (l # ls))) out =
        argtest_loop c asctime (cycles + 1) (concat (map as_line ls)) (out @ message_text c asctime (Suc (unat cycles)) l)"
      using True Cons.prems(1) u by (subst argtest_loop.simps) simp
    obtain d where d: "unat (messages c) = Suc (unat cycles + d)"
      using True by (metis add_Suc_right less_iff_Suc_add word_less_nat_alt)
    show ?thesis
      using Cons.IH [OF Cons.prems(1) _ le] Cons.prems(2) unfolding step u d by simp
  qed
qed

lemma loop_prints:
  "\<not> waitFor c \<Longrightarrow> cycles \<le> messages c \<Longrightarrow>
   argtest_loop c asctime cycles stdin out =
     Inr (out @ texts c asctime (unat cycles) (replicate (unat (messages c) - unat cycles) []))"
proof (induction "unat (messages c) - unat cycles" arbitrary: cycles out)
  case 0
  then show ?case by (subst argtest_loop.simps) (simp add: word_less_nat_alt word_le_nat_alt)
next
  case (Suc d)
  then have lt: "cycles < messages c" by (simp add: word_less_nat_alt)
  have u: "unat (cycles + 1) = Suc (unat cycles)" by (rule count_up [OF lt])
  have le: "cycles + 1 \<le> messages c" using lt u by (simp add: word_less_nat_alt word_le_nat_alt)
  have d: "d = unat (messages c) - unat (cycles + 1)" using Suc.hyps(2) u by simp
  have "argtest_loop c asctime cycles stdin out =
      argtest_loop c asctime (cycles + 1) stdin (out @ message_text c asctime (Suc (unat cycles)) [])"
    using lt Suc.prems(1) u by (subst argtest_loop.simps) simp
  also have "\<dots> = Inr (out @ message_text c asctime (Suc (unat cycles)) [] @ texts c asctime (Suc (unat cycles)) (replicate d []))"
    using Suc.hyps(1) [OF d Suc.prems(1) le] d u by simp
  finally show ?case using Suc.hyps(2) [symmetric] by simp
qed

lemma no_wait:
  assumes "argtest_options malloc argtest_default opts = Inr c" "\<not> waitFor c"
  shows "argtest_main malloc asctime opts stdin = Inr (texts c asctime 0 (replicate (unat (messages c)) []))"
  using assms loop_prints [of c 0 asctime stdin "[]"] by (simp add: argtest_main_def)

text \<open>
  C38: With \<open>-w\<close> the test program answers every line with one message, and as many lines as there are messages
  have to come: when standard input ends before that, the program does not stop but overwrites the
  byte in front of its input buffer.
\<close>

theorem argtest_wait_outcome:
  assumes "argtest_options malloc argtest_default opts = Inr c" "waitFor c" "\<forall>l\<in>set ls. plain_line l"
  shows "argtest_main malloc asctime opts (concat (map as_line ls)) =
    (if unat (messages c) \<le> length ls then Inr (texts c asctime 0 (take (unat (messages c)) ls)) else Inl OutOfBounds)"
  using loop_waits [OF assms(2,3), of 0 asctime "[]"] assms(1) by (simp add: argtest_main_def)

theorem argtest_wait_outcome_witness:
  "argtest_main (\<lambda>n. True) (\<lambda>i. ''now'') [(OptWait, []), (OptCount, ''2''), (OptDelim, '';'')] (concat (map as_line [''a'', ''b''])) =
     Inr (''1'' @ [CHR 0x09] @ ''now'' @ [CHR 0x09] @ ''a;2'' @ [CHR 0x09] @ ''now'' @ [CHR 0x09] @ ''b;'') \<and>
   argtest_main (\<lambda>n. True) (\<lambda>i. ''now'') [(OptWait, []), (OptCount, ''2''), (OptDelim, '';'')] (concat (map as_line [''a''])) =
     Inl OutOfBounds"
proof -
  let ?opts = "[(OptWait, []), (OptCount, ''2''), (OptDelim, '';'')]"
  let ?c = "argtest_default\<lparr>waitFor := True, messages := 2, delimiter := '';''\<rparr>"
  have two: "strtoul ''2'' 10 = 2" by (simp add: strtoul_def digit_value_def ULONG_MAX_def Let_def)
  have c: "argtest_options (\<lambda>n. True) argtest_default ?opts = Inr ?c" by (simp add: two)
  have d: "decimal_nat (Suc 0) = ''1''" "decimal_nat (Suc (Suc 0)) = ''2''"
    by (simp_all add: decimal_nat.simps hex_digit_def)
  have "argtest_main (\<lambda>n. True) (\<lambda>i. ''now'') ?opts (concat (map as_line ls)) =
      (if 2 \<le> length ls then Inr (texts ?c (\<lambda>i. ''now'') 0 (take 2 ls)) else Inl OutOfBounds)"
    if "\<forall>l\<in>set ls. plain_line l" for ls
    using argtest_wait_outcome [OF c _ that, of "\<lambda>i. ''now''"] by simp
  from this [of "[''a'', ''b'']"] this [of "[''a'']"] show ?thesis
    by (simp add: plain_line_def message_text_def argtest_default_def d)
qed

end
