(* ===== verification/OldWrap.thy ===== *)
theory OldWrap
  imports WrapMain
begin

text \<open>
  The parts of \<open>GraphWrap_old.c\<close> that stand on their own: shutting down, becoming a daemon, the search of a
  program along \<open>PATH\<close>, starting it, the options and the loop of the input mode. The program is not built any
  more: its other loops call a \<open>gnw_nextPacket\<close> that no longer exists. What \<open>fork\<close>, \<open>setsid\<close>, \<open>poll\<close> and \<open>read\<close>
  answer are arguments, and so is the three-argument \<open>gnw_emitDataPacket\<close> of that time. A function that ends
  the program leaves the state it ends in, with the calls made so far.
\<close>

section \<open>State\<close>

record old_config =
  o_mtu :: int
  o_port :: u16
  o_timeout :: u32
  o_daemonize :: bool
  o_address :: gnw_address
  o_upstream :: gnw_address
  o_downstream :: gnw_address
  o_input :: bool
  o_output :: bool

datatype old_call = Kill int nat | Sleep nat | WaitPid int | IgnoreSignal nat | Umask nat | Close int

record old =
  o_config :: old_config
  childPID :: int
  o_calls :: "old_call list"
  o_net :: net

datatype old_stop = Fault fault | Exited nat old

type_synonym 'a old_result = "old_stop + 'a"

definition SIGHUP :: nat where "SIGHUP = 1"
definition SIGKILL :: nat where "SIGKILL = 9"
definition SIGCHLD :: nat where "SIGCHLD = 17"

section \<open>Shutting down\<close>

definition external_shutdown :: "old \<Rightarrow> old" where
  "external_shutdown w =
     (if childPID w \<noteq> -1 then
        w\<lparr>o_calls := o_calls w @ [Kill (childPID w) SIGKILL, Sleep 1, WaitPid (childPID w)], childPID := -1\<rparr>
      else w)"

definition sigint_handler :: "old \<Rightarrow> 'a old_result" where
  "sigint_handler w = Inl (Exited 0 (external_shutdown w))"

definition fail :: "old \<Rightarrow> 'a old_result" where
  "fail w = Inl (Exited 1 (external_shutdown w))"

section \<open>Becoming a daemon\<close>

text \<open>
  \<open>forks\<close> are the answers of the two \<open>fork\<close> calls, \<open>open_max\<close> that of \<open>sysconf( _SC_OPEN_MAX )\<close>. Closing
  goes down from there to descriptor 0.
\<close>

fun close_down :: "nat \<Rightarrow> old_call list" where
  "close_down 0 = [Close 0]"
| "close_down (Suc fd) = Close (int (Suc fd)) # close_down fd"

definition daemonize :: "int \<times> int \<Rightarrow> int \<Rightarrow> int \<Rightarrow> old \<Rightarrow> old old_result" where
  "daemonize forks setsid open_max w =
     (if fst forks < 0 then Inl (Exited 1 w)
      else if 0 < fst forks then Inl (Exited 0 w)
      else if setsid < 0 then Inl (Exited 1 w)
      else
        (let w = w\<lparr>o_calls := o_calls w @ [IgnoreSignal SIGCHLD, IgnoreSignal SIGHUP]\<rparr> in
         if snd forks < 0 then Inl (Exited 1 w)
         else if 0 < snd forks then Inl (Exited 0 w)
         else Inr (w\<lparr>o_calls := o_calls w @ [Umask 0] @ (if open_max < 0 then [] else close_down (nat open_max))\<rparr>)))"

section \<open>The search of a program\<close>

text \<open>
  The copy of \<open>PATH\<close> has room for a final zero but none is written: \<open>junk\<close> is what \<open>malloc\<close> left there.
  \<open>strtok\<close> skips colons, so empty directories are left out, and stops at the first zero; when \<open>junk\<close> is not
  one it reads on behind the block as soon as it comes to the end of the value.
\<close>

function old_path_loop :: "(string \<Rightarrow> bool) \<Rightarrow> string \<Rightarrow> char \<Rightarrow> string \<Rightarrow> string option result" where
  "old_path_loop access binary junk s =
     (let s = dropWhile (\<lambda>c. c = CHR '':'') s;
          parent = takeWhile (\<lambda>c. c \<noteq> CHR '':'') s; rest = dropWhile (\<lambda>c. c \<noteq> CHR '':'') s;
          pathBuffer = parent @ ''/'' @ binary
      in if rest = [] \<and> junk \<noteq> CHR 0x00 then Inl OutOfBounds
         else if s = [] then Inr None
         else if 2048 \<le> length pathBuffer then Inl OutOfBounds
         else if access pathBuffer then Inr (Some pathBuffer)
         else old_path_loop access binary junk (tl rest))"
  by pat_completeness auto
termination
proof (relation "measure (\<lambda>(_, _, _, s). length s)", goal_cases)
  case (2 access binary junk s s' parent rest pathBuffer)
  have "length rest \<le> length s'" "length s' \<le> length s" using 2(1,3) by (simp_all add: length_dropWhile_le)
  moreover have "length rest < length s' \<or> rest \<noteq> []" using 2(3,6) by (cases s') (auto simp: less_Suc_eq_le length_dropWhile_le)
  ultimately show ?case using 2(6) by (cases rest) auto
qed simp

declare old_path_loop.simps [simp del]

definition old_findRealPath ::
    "(string \<Rightarrow> bool) \<Rightarrow> string option \<Rightarrow> char \<Rightarrow> string \<Rightarrow> string \<Rightarrow> string result" where
  "old_findRealPath access env_path junk target binary =
     (case env_path of None \<Rightarrow> Inl NullDeref
      | Some path \<Rightarrow>
          andThen (old_path_loop access binary junk path) (\<lambda>found.
          case found of
            Some p \<Rightarrow> store_block target 0 (p @ [CHR 0x00])
          | None \<Rightarrow> store_block target 0 (binary @ [CHR 0x00])))"

section \<open>Starting the program\<close>

text \<open>The calls of the child; it only comes back, with -1, when \<open>execve\<close> failed.\<close>

definition old_processRunner :: "int \<Rightarrow> int \<Rightarrow> string \<Rightarrow> string list \<Rightarrow> syscall list \<times> int" where
  "old_processRunner stdin_fd stdout_fd cmd argv =
     ([Dup2 stdin_fd 0, Dup2 stdout_fd 1, Execve cmd argv], -1)"

text \<open>\<open>newArgs\<close> has as many places as there are arguments; the final null pointer has none.\<close>

definition new_args :: "string list \<Rightarrow> string option list result" where
  "new_args argv = store (map Some argv) (length argv) None"

section \<open>The options\<close>

datatype old_opt = OptUp | OptDown | OptPort | OptTimeout | OptDaemon | OptInput | OptOutput | OptUnknown | OptElse

text \<open>An unknown option is printed as the string at the address \<open>optopt\<close>.\<close>

fun old_option :: "old \<Rightarrow> old_opt \<times> string \<Rightarrow> old old_result" where
  "old_option w (OptUp, optarg) = Inr (w\<lparr>o_config := (o_config w)\<lparr>o_upstream := ucast (strtoul optarg 16)\<rparr>\<rparr>)"
| "old_option w (OptDown, optarg) = Inr (w\<lparr>o_config := (o_config w)\<lparr>o_downstream := ucast (strtoul optarg 16)\<rparr>\<rparr>)"
| "old_option w (OptPort, optarg) = Inr (w\<lparr>o_config := (o_config w)\<lparr>o_port := ucast (strtoul optarg 10)\<rparr>\<rparr>)"
| "old_option w (OptTimeout, optarg) = Inr (w\<lparr>o_config := (o_config w)\<lparr>o_timeout := ucast (strtoul optarg 10)\<rparr>\<rparr>)"
| "old_option w (OptDaemon, optarg) = Inr (w\<lparr>o_config := (o_config w)\<lparr>o_daemonize := True\<rparr>\<rparr>)"
| "old_option w (OptInput, optarg) =
     (if o_output (o_config w) then fail w else Inr (w\<lparr>o_config := (o_config w)\<lparr>o_input := True\<rparr>\<rparr>))"
| "old_option w (OptOutput, optarg) =
     (if o_input (o_config w) then fail w else Inr (w\<lparr>o_config := (o_config w)\<lparr>o_output := True\<rparr>\<rparr>))"
| "old_option w (OptUnknown, optarg) = Inl (Fault OutOfBounds)"
| "old_option w (OptElse, optarg) = Inr w"

fun old_options :: "old \<Rightarrow> (old_opt \<times> string) list \<Rightarrow> old old_result" where
  "old_options w [] = Inr w"
| "old_options w (opt # opts) = andThen (old_option w opt) (\<lambda>w. old_options w opts)"

text \<open>The defaults, and the MTU of \<open>lo\<close>, which is set to 1024 when it is above 4096.\<close>

definition old_default :: old_config where
  "old_default = \<lparr>o_mtu = 1500, o_port = 19000, o_timeout = 5, o_daemonize = False,
     o_address = 0, o_upstream = 0, o_downstream = 0, o_input = False, o_output = False\<rparr>"

definition old_mtu :: "int \<Rightarrow> old_config \<Rightarrow> old_config" where
  "old_mtu lo c = c\<lparr>o_mtu := (if lo > 4096 then 1024 else lo)\<rparr>"

definition old_start :: "int \<Rightarrow> net \<Rightarrow> old" where
  "old_start lo n = \<lparr>o_config = old_mtu lo old_default, childPID = -1, o_calls = [], o_net = n\<rparr>"

section \<open>The input mode\<close>

text \<open>
  An answer of \<open>poll\<close> is its value and what \<open>read\<close> finds (\<open>None\<close> for an error). The buffer is cleared before
  each read, and the length is passed on as it is, -1 included.
\<close>

fun input_mode ::
    "(net \<Rightarrow> int \<Rightarrow> u8 list \<Rightarrow> int \<Rightarrow> net) \<Rightarrow> int \<Rightarrow> (int \<times> u8 list option) list \<Rightarrow> old \<Rightarrow> old" where
  "input_mode emit data_fd [] w = w"
| "input_mode emit data_fd ((rv, avail) # polls) w =
     (if rv = -1 then w
      else if rv > 0 then
        (let got = (case avail of None \<Rightarrow> [] | Some bs \<Rightarrow> take (nat (o_mtu (o_config w))) bs);
             buffer = got @ replicate (nat (o_mtu (o_config w)) - length got) 0;
             readBytes = (case avail of None \<Rightarrow> -1 | Some bs \<Rightarrow> int (length got))
         in if readBytes = 0 then w
            else input_mode emit data_fd polls (w\<lparr>o_net := emit (o_net w) data_fd buffer readBytes\<rparr>))
      else input_mode emit data_fd polls w)"

text \<open>The end of the input mode: the connection is closed and the program ends.\<close>

definition input_main ::
    "(net \<Rightarrow> int \<Rightarrow> u8 list \<Rightarrow> int \<Rightarrow> net) \<Rightarrow> int \<Rightarrow> (int \<times> u8 list option) list \<Rightarrow> old \<Rightarrow> 'a old_result" where
  "input_main emit data_fd polls w =
     (let w = input_mode emit data_fd polls w in
      Inl (Exited 0 (external_shutdown (w\<lparr>o_calls := o_calls w @ [Close data_fd]\<rparr>))))"

section \<open>What these parts do\<close>

text \<open>The daemon has closed every descriptor, the connection to the router with them, before it goes on to use it.\<close>

lemma close_down_all: "0 \<le> fd \<Longrightarrow> fd \<le> int n \<Longrightarrow> Close fd \<in> set (close_down n)"
proof (induction n)
  case (Suc n)
  then show ?case by (cases "fd = int (Suc n)") auto
qed simp

theorem daemon_closes_router:
  assumes "daemonize forks setsid open_max w = Inr w'" "0 \<le> data_fd" "data_fd \<le> open_max"
  shows "\<exists>calls. o_calls w' = o_calls w @ calls \<and> Close data_fd \<in> set calls"
  using assms close_down_all [of data_fd "nat open_max"]
  by (auto simp: daemonize_def Let_def split: if_splits)

theorem daemon_closes_router_witness:
  "\<exists>w. daemonize (0, 0) 1 1023 (old_start 1500 n) = Inr w \<and> Close 3 \<in> set (o_calls w)"
proof -
  obtain w where w: "daemonize (0, 0) 1 1023 (old_start 1500 n) = Inr w" by (simp add: daemonize_def)
  then show ?thesis using daemon_closes_router [OF w, of 3] by auto
qed

text \<open>The program found: the first candidate along the non-empty directories, or the name as it was given.\<close>

definition candidates :: "string \<Rightarrow> string \<Rightarrow> string list" where
  "candidates binary path = map (\<lambda>d. d @ ''/'' @ binary) (filter (\<lambda>d. d \<noteq> []) (path_dirs path))"

lemma candidates_colon: "candidates binary (CHR '':'' # s) = candidates binary s"
  by (simp add: candidates_def)

lemma candidates_skip: "candidates binary (dropWhile (\<lambda>c. c = CHR '':'') s) = candidates binary s"
  by (induction s) (simp_all add: candidates_colon)

lemma candidates_step:
  assumes "s \<noteq> []" "hd s \<noteq> CHR '':''"
  shows "candidates binary s = (takeWhile (\<lambda>c. c \<noteq> CHR '':'') s @ ''/'' @ binary) #
    candidates binary (tl (dropWhile (\<lambda>c. c \<noteq> CHR '':'') s))"
proof -
  define dir where "dir = takeWhile (\<lambda>c. c \<noteq> CHR '':'') s"
  define rest where "rest = dropWhile (\<lambda>c. c \<noteq> CHR '':'') s"
  have "path_dirs s = dir # (case rest of [] \<Rightarrow> [] | _ # s' \<Rightarrow> path_dirs s')"
    unfolding dir_def rest_def by (rule path_dirs_unfold)
  moreover have "dir \<noteq> []" unfolding dir_def using assms by (cases s) auto
  ultimately show ?thesis
    unfolding dir_def [symmetric] rest_def [symmetric] by (cases rest) (simp_all add: candidates_def)
qed

lemma old_path_loop_eq:
  "\<forall>p\<in>set (candidates binary s). length p < 2048 \<Longrightarrow>
   old_path_loop access binary (CHR 0x00) s = Inr (List.find access (candidates binary s))"
proof (induction "length s" arbitrary: s rule: less_induct)
  case less
  let ?s = "dropWhile (\<lambda>c. c = CHR '':'') s"
  show ?case
  proof (cases "?s = []")
    case True
    have "candidates binary s = candidates binary []" using candidates_skip [of binary s] unfolding True by (rule sym)
    then show ?thesis using True by (subst old_path_loop.simps) (simp add: Let_def candidates_def)
  next
    case False
    let ?p = "takeWhile (\<lambda>c. c \<noteq> CHR '':'') ?s @ ''/'' @ binary" and ?rest = "tl (dropWhile (\<lambda>c. c \<noteq> CHR '':'') ?s)"
    have hd: "hd ?s \<noteq> CHR '':''" using False by (rule hd_dropWhile)
    have cand: "candidates binary s = ?p # candidates binary ?rest"
      using candidates_step [OF False hd, of binary] candidates_skip [of binary s] by simp
    have "length ?rest < length s"
    proof -
      have "length ?rest \<le> length (dropWhile (\<lambda>c. c \<noteq> CHR '':'') ?s)" by simp
      also have "\<dots> < length ?s" using False hd by (cases ?s) (auto simp: less_Suc_eq_le length_dropWhile_le)
      also have "\<dots> \<le> length s" by (rule length_dropWhile_le)
      finally show ?thesis .
    qed
    then have IH: "old_path_loop access binary (CHR 0x00) ?rest = Inr (List.find access (candidates binary ?rest))"
      by (rule less.hyps) (use less.prems cand in simp)
    have "length ?p < 2048" using less.prems cand by simp
    then show ?thesis using False IH cand by (subst old_path_loop.simps) (auto simp add: Let_def)
  qed
qed

theorem old_findRealPath_first:
  assumes "\<forall>p\<in>set (candidates binary path). length p < 2048 \<and> length p < length target" "length binary < length target"
    and "CHR 0x00 \<notin> set path" "CHR 0x00 \<notin> set binary"
  shows "\<exists>target'. old_findRealPath access (Some path) (CHR 0x00) target binary = Inr target' \<and>
    c_string target' = (case List.find access (candidates binary path) of None \<Rightarrow> binary | Some p \<Rightarrow> p)"
proof -
  have run: "old_path_loop access binary (CHR 0x00) path = Inr (List.find access (candidates binary path))"
    by (rule old_path_loop_eq) (use assms(1) in blast)
  have stored: "\<exists>t'. store_block target 0 (p @ [CHR 0x00]) = Inr t' \<and> c_string t' = p"
    if "length p < length target" "CHR 0x00 \<notin> set p" for p
  proof -
    have "store_block target 0 (p @ [CHR 0x00]) = Inr (p @ CHR 0x00 # drop (Suc (length p)) target)"
      using that(1) by (simp add: store_block_def)
    moreover have "c_string (p @ CHR 0x00 # ys) = p" for ys
      unfolding c_string_def by (subst takeWhile_append2) (use that(2) in auto)
    ultimately show ?thesis by blast
  qed
  show ?thesis
  proof (cases "List.find access (candidates binary path)")
    case None
    then show ?thesis using run stored [OF assms(2,4)] by (simp add: old_findRealPath_def)
  next
    case (Some p)
    then have p: "p \<in> set (candidates binary path)" by (auto simp: find_Some_iff)
    then obtain d where "p = d @ ''/'' @ binary" "d \<in> set (path_dirs path)" by (auto simp: candidates_def)
    then have "CHR 0x00 \<notin> set p" using path_dirs_chars [of d path] assms(3,4) by auto
    then show ?thesis using run Some stored [of p] p assms(1) by (simp add: old_findRealPath_def)
  qed
qed

theorem old_findRealPath_first_witness:
  "\<exists>target'. old_findRealPath (\<lambda>p. p = ''b/x'') (Some ''a::b'') (CHR 0x00) (replicate 8 (CHR 0x00)) ''x'' = Inr target' \<and>
     c_string target' = ''b/x''"
  using old_findRealPath_first [of "''x''" "''a::b''" "replicate 8 (CHR 0x00)" "\<lambda>p. p = ''b/x''"]
  by (simp add: candidates_def)

text \<open>The array of the arguments of the program is one place too short, whatever they are.\<close>

lemma new_args_fault: "new_args argv = Inl OutOfBounds"
  by (simp add: new_args_def store_def)

end
