(* ===== verification/Spec2Isabelle.thy ===== *)
theory Spec2Isabelle
  imports RingBuffer Utility RouterEvents Asserts EndToEnd TableProps TrieProps RouterStatus AvlCopy WrapStatus UnitTests Processes ArgTest OldWrap
begin

text \<open>
  GraphIPC connects processes on one host by a graph of packet streams. A router
  (\<open>GraphRouter.c\<close>) accepts connections, gives out 32-bit addresses, keeps for every address a list
  of the addresses its packets go to, and sends each data packet on by the policy of its source.
  The program \<open>Graph\<close> (\<open>GraphWrap.c\<close>) wraps a process: it cuts its standard input, or the output of
  the process, into packets and hands the packets of the router to the process or prints them. Both
  speak the protocol of \<open>lib/GraphNetwork.c\<close>, which writes its fields with \<open>lib/packet.c\<close>, and both
  keep their tables in the hash map of \<open>lib/klib/khash.h\<close>. The older tables (\<open>IndexTable.c\<close>,
  \<open>NodeTable.c\<close>, \<open>ForwardTable.c\<close>) are kept in the AVL tree of \<open>lib/avl.c\<close>.

  How the code is modelled. A C function is a HOL function of its arguments and of the state it
  reads and writes; its result is \<open>fault + 'a\<close> (theory \<open>Prelude\<close>), where a fault is an access
  outside a block, through a null or freed pointer, a division by zero, a deadlock, or the end of
  the process with its status. A struct is a record, an enum or union a datatype, a machine integer a
  word of its width, a block of memory a list with checked accesses and a pointer into it an
  offset. What the kernel and the C library answer (\<open>read\<close>, \<open>write\<close>, \<open>malloc\<close>, \<open>fork\<close>, \<open>rand\<close>,
  \<open>getaddrinfo\<close>) is an argument; the bytes written are part of the state (\<open>sent\<close>). Loops that end
  are recursive functions with their measure; a loop that may not end carries fuel or is a
  \<open>partial_function\<close>, and the theorems then say when it ends.

  The theories, from the bottom up:

  \<^item> \<open>Prelude\<close>: faults, sequencing (\<open>andThen\<close>), blocks of memory, unsigned sizes.
  \<^item> \<open>Machine\<close>: runs of step relations and of functions that may fail, and the locales \<open>simulation\<close>,
    \<open>invariant\<close>, \<open>guarded_simulation\<close> and \<open>implementation\<close> that carry a relation from one step to a whole
    run. They are interpreted for the router's messages, reads, poll loop and main loop, for the main
    loop of a node, for the forward table and for the linked list.
  \<^item> \<open>Packet\<close> (\<open>lib/packet.c\<close>): fields written and read in either byte order. Round trips
    (\<open>packet_u32_roundtrip\<close>, \<open>packet_u16_buffer_roundtrip\<close>), and the host dependence of the format.
  \<^item> \<open>Asserts\<close> (\<open>lib/Assert.c\<close>) and \<open>Utility\<close> (\<open>lib/utility.c\<close>): assertions with their two
    switches, padding, and byte counts with binary units, whose unit table is never left.
  \<^item> \<open>GraphNetwork\<close> (\<open>lib/GraphNetwork.c\<close>): header, emitters and the framing parser
    \<open>gnw_nextPacket\<close>: it waits for the last byte of a packet for every cut of the stream, stays
    inside the buffer, and wraps for lengths near \<open>2 ^ 32\<close>.
  \<^item> \<open>RingBuffer\<close> (\<open>lib/RingBuffer.c\<close>): the buffer is a queue across the wrap; the outcome of writes
    and peeks, with the peeks that read outside the block.
  \<^item> \<open>Khash\<close>, \<open>KhashMap\<close> (\<open>lib/klib/khash.h\<close>, integer keys) and \<open>Kvec\<close> (\<open>lib/klib/kvec.h\<close>): open
    addressing with triangular probing and the rehash in place. \<open>KhashMap\<close> holds the invariant
    \<open>kh_ok\<close> and the refinement to a finite map; the walks carry fuel of twice the number of buckets,
    and as the buckets are a power of 2 and never all used, every walk stops before that. \<open>SpareFlag\<close>: the
    flag behind the last bucket is never written, which \<open>kh_exist\<close> of \<open>kh_end\<close> looks at.
  \<^item> \<open>Router\<close>, \<open>RouterLoop\<close> (\<open>GraphRouter.c\<close>): contexts, commands, data packets, receive
    buffers, the poll loop, the printed table and the client commands. \<open>RouterSpec\<close> states what the
    router promises on a map of contexts (\<open>message_spec\<close>) and proves that packets and runs of
    packets refine it; \<open>RouterEvents\<close> is about the bytes of a connection: frames cut into any
    reads are put together again, and what happens when they cannot be.
  \<^item> \<open>RouterStatus\<close> (\<open>GraphRouter.c\<close>): the listening socket, and the status report over the node and
    forward tables with its DOT output.
  \<^item> \<open>Common\<close> (\<open>common.c\<close>): connecting, the MTU of an interface, the search along \<open>PATH\<close>.
  \<^item> \<open>Wrap\<close>, \<open>WrapMain\<close> (\<open>GraphWrap.c\<close>): buffers, the bridge in both directions, processes and
    their pipes, local addresses, the command line and the poll loop. \<open>WrapSpec\<close> specifies the
    cuts of a stream, \<open>WrapBridge\<close> lifts single reads to streams, \<open>WrapProps\<close> has the properties.
  \<^item> \<open>WrapStatus\<close> (\<open>GraphWrap.c\<close>): the dump of the sinks, one line for each.
  \<^item> \<open>Wire\<close>: all connections of the router at once, as a state machine \<open>wire_step\<close> on the bytes received,
    and the simulation of its steps by \<open>handle_event\<close>; a read handles at most one message and leaves
    the rest pending. \<open>RouterRun\<close>: the whole process of the router, connections that come and go
    included, refines the machine \<open>net_round\<close>; what it does with one connection too many and with a
    descriptor that comes back. \<open>EndToEnd\<close>: from the input of one node through the router to the
    output of another, by their handlers. \<open>NodeRun\<close>: the whole process of a node with \<open>--address\<close>,
    \<open>--input\<close> and \<open>--output\<close> refines the machine \<open>node_round\<close>, and what it loses at the end of its
    input. \<open>Processes\<close>: two such nodes and the router, each from its start by its own loop; \<open>relay\<close> says
    which packets still wait in the router when its reads bring several at once.
  \<^item> \<open>Avl\<close> (\<open>lib/avl.c\<close>): search, insertion, deletion, traversers and destruction, the stacks of 32
    entries with their bounds. \<open>AvlTree\<close>: balance, items in order, and the size of a tree of a given
    height: 32 levels hold more than five million items. \<open>AvlMap\<close>: the locale \<open>comparator\<close> of
    comparison functions that agree with an order of keys, and in it the refinement to finite maps.
    \<open>AvlWalk\<close>: traversals in both directions, also after the tree has changed. \<open>AvlCopy\<close>:
    copying a tree with its error recovery.
  \<^item> \<open>Tables\<close> (\<open>IndexTable.c\<close>): interprets \<open>comparator\<close> for the addresses of a window of \<open>2 ^ 31\<close>, on
    which \<open>compareAddress32\<close> is an order. \<open>Log\<close> (\<open>Log.c\<close>), \<open>NodeTable\<close> (\<open>NodeTable.c\<close>) and \<open>Forward\<close>
    (\<open>ForwardTable.c\<close>): the node contexts and the edges behind their mutexes. \<open>ForwardSpec\<close>: the
    graph of edges as a specification, deadlocks included, and its refinement.
  \<^item> \<open>LinkedList\<close> (\<open>lib/LinkedList.c\<close>): elements in a heap, lists of data, the length that may not be
    computed. \<open>TableProps\<close>: the properties of the last five groups.
  \<^item> \<open>AddressTrie\<close> (\<open>archive/AddressTrie.c\<close>): the trie of addresses by their bytes, its invariant and
    what each operation does to the map it holds. \<open>TrieProps\<close>: runs, walks, and the addresses it confuses.
  \<^item> \<open>UnitTests\<close> (\<open>UnitTests.c\<close>): the program's own tests over all of the above, and that they pass.
  \<^item> \<open>ArgTest\<close> (\<open>ArgTest.c\<close>): the test program the demonstrations wrap. \<open>OldWrap\<close>
    (\<open>GraphWrap_old.c\<close>): the parts of the earlier wrapper that stand on their own.

  Bounds. The router and hash map theorems are for tables of up to \<open>2 ^ 28\<close> entries or operations
  (sizes up to \<open>2 ^ 31\<close> buckets, where \<open>kroundup32\<close> does not wrap); the tree theorems for fewer
  than \<open>min_size 32\<close> = 5702886 entries, where no path is longer than the stacks of the code.

  Not modelled: the decoding of \<open>argv\<close> by \<open>getopt_long\<close> and the usage texts; in \<open>GraphWrap.c\<close> the
  functions nothing calls (terminal modes; \<open>fd_is_valid\<close> is the answer \<open>wo_valid\<close>); the hash tables of other key types and the
  parts of klib GraphIPC does not call; the loops of \<open>GraphWrap_old.c\<close> that parse packets: the program is not built, and they call a form of
  \<open>gnw_nextPacket\<close> that no longer exists; \<open>temp.c\<close>, a draft that is commented out but for its frame.
  The tables are used by one thread; two threads that interleave are not modelled.
\<close>

end
